(* ===== verification/Base.thy ===== *)
theory Base
  imports Main "HOL-Library.Word"
begin

text \<open>
  What the components share: the machine types of the target (LP64, little endian: the iOS
  devices the Pods are built for), byte sequences, the flat memory that C structures live in,
  and the generic lemmas on words, lists and little-endian byte strings that carry the
  component proofs.
\<close>

unbundle bit_operations_syntax

section \<open>Machine types\<close>

type_synonym u8 = "8 word"
type_synonym u16 = "16 word"
type_synonym u32 = "32 word"
type_synonym u64 = "64 word"

text \<open>Bytes are what streams carry; an address is a 64-bit word.\<close>

type_synonym bytes = "u8 list"
type_synonym addr = u64

named_theorems le_simps \<open>little-endian byte strings\<close>
named_theorems mem_simps \<open>reading and writing the flat memory\<close>

section \<open>Words\<close>

lemma unat_u8_lt: "unat (b :: u8) < 256"
  using unsigned_less [of b, where 'a = nat] by simp

lemma unat_u32_lt: "unat (b :: u32) < 4294967296"
  using unsigned_less [of b, where 'a = nat] by simp

lemma unat_ucast_u32_u64: "unat (ucast (n :: u32) :: u64) = unat n"
  using unat_u32_lt [of n] by (simp add: unsigned_ucast_eq take_bit_nat_eq_self)

lemma unat_u64_lt: "unat (b :: u64) < 18446744073709551616"
  using unsigned_less [of b, where 'a = nat] by simp

lemma unat_word_of_nat_u64 [simp]:
  "n < 18446744073709551616 \<Longrightarrow> unat (word_of_nat n :: u64) = n"
  by (simp add: unat_of_nat take_bit_eq_mod)

lemma unat_word_of_nat_u32 [simp]:
  "n < 4294967296 \<Longrightarrow> unat (word_of_nat n :: u32) = n"
  by (simp add: unat_of_nat take_bit_eq_mod)

lemma word_of_nat_if_unat: "unat (w :: 'a::len word) = n \<Longrightarrow> w = word_of_nat n"
  by auto

lemma unat_plus_no_overflow_u64:
  "unat (a :: u64) + unat b < 18446744073709551616 \<Longrightarrow> unat (a + b) = unat a + unat b"
  by (simp add: unat_word_ariths)

text \<open>C's test for an overflowing unsigned addition: the sum is smaller than a summand.\<close>

lemma add_wraps_iff_u64:
  "(a + b < (a :: u64)) \<longleftrightarrow> 18446744073709551616 \<le> unat a + unat b"
proof -
  have a: "unat a < 18446744073709551616" and b: "unat b < 18446744073709551616"
    by (rule unat_u64_lt)+
  show ?thesis
  proof (cases "unat a + unat b < 18446744073709551616")
    case True
    then show ?thesis by (simp add: word_less_nat_alt unat_word_ariths)
  next
    case False
    with a b have "(unat a + unat b) mod 18446744073709551616
        = unat a + unat b - 18446744073709551616"
      by (simp add: mod_if)
    with False a b show ?thesis by (simp add: word_less_nat_alt unat_word_ariths)
  qed
qed

lemma drop_bit_less_self_u64:
  "(v :: u64) \<noteq> 0 \<Longrightarrow> unat (drop_bit 7 v) < unat v"
proof -
  assume "v \<noteq> 0"
  then have "0 < unat v" by (simp add: unat_gt_0)
  then show ?thesis by (simp add: drop_bit_eq_div unat_div)
qed

lemma take_bit_self_if_unat_less: "unat (w :: 'a::len word) < 2 ^ k \<Longrightarrow> take_bit k w = w"
  by (simp add: word_unat_eq_iff unsigned_take_bit_eq take_bit_nat_eq_self)

lemma not_bit_above: "unat (w :: 'a::len word) < 2 ^ k \<Longrightarrow> k \<le> n \<Longrightarrow> \<not> bit w n"
  by (metis bit_take_bit_iff not_less take_bit_self_if_unat_less)

lemma unat_less_if_bits:
  assumes "\<And>n. k \<le> n \<Longrightarrow> \<not> bit (w :: 'a::len word) n"
  shows "unat w < 2 ^ k"
proof -
  have "take_bit k w = w"
  proof (rule bit_word_eqI)
    fix n
    show "bit (take_bit k w) n = bit w n"
      using assms [of n] by (cases "k \<le> n") (auto simp: bit_take_bit_iff)
  qed
  then have "unat w = take_bit k (unat w)" by (metis unsigned_take_bit_eq)
  then show ?thesis by (metis take_bit_nat_less_exp)
qed

section \<open>Lists\<close>

text \<open>Overwriting a run of a list in place, as a byte loop over an array does.\<close>

definition list_blit :: "'a list \<Rightarrow> nat \<Rightarrow> 'a list \<Rightarrow> 'a list" where
  "list_blit xs p ys = take p xs @ ys @ drop (p + length ys) xs"

lemma length_list_blit:
  "p + length ys \<le> length xs \<Longrightarrow> length (list_blit xs p ys) = length xs"
  by (simp add: list_blit_def)

lemma take_list_blit:
  "p \<le> length xs \<Longrightarrow> take (p + length ys) (list_blit xs p ys) = take p xs @ ys"
  by (simp add: list_blit_def)

lemma drop_list_blit:
  "p \<le> length xs \<Longrightarrow> drop (p + length ys) (list_blit xs p ys) = drop (p + length ys) xs"
  by (simp add: list_blit_def)

lemma list_blit_Nil [simp]: "list_blit xs p [] = xs"
  by (simp add: list_blit_def)

text \<open>Reading past the end of a list gives the default, and never an unspecified value.\<close>

definition nth_or :: "'a \<Rightarrow> 'a list \<Rightarrow> nat \<Rightarrow> 'a" where
  "nth_or d xs i = (if i < length xs then xs ! i else d)"

definition read_at :: "bytes \<Rightarrow> nat \<Rightarrow> nat \<Rightarrow> bytes" where
  "read_at xs p n = map (\<lambda>i. nth_or 0 xs (p + i)) [0..<n]"

lemma length_read_at [simp]: "length (read_at xs p n) = n"
  by (simp add: read_at_def)

lemma read_at_in_bounds:
  "p + n \<le> length xs \<Longrightarrow> read_at xs p n = take n (drop p xs)"
  by (rule nth_equalityI) (auto simp: read_at_def nth_or_def)

lemma read_at_0 [simp]: "read_at xs p 0 = []"
  by (simp add: read_at_def)

lemma read_at_append:
  "length pre = p \<Longrightarrow> length mid = n \<Longrightarrow> read_at (pre @ mid @ post) p n = mid"
  by (simp add: read_at_in_bounds)

section \<open>Little-endian byte strings\<close>

fun le_bytes :: "nat \<Rightarrow> 'a::len word \<Rightarrow> bytes" where
  "le_bytes 0 w = []"
| "le_bytes (Suc n) w = ucast w # le_bytes n (drop_bit 8 w)"

fun le_word :: "bytes \<Rightarrow> 'a::len word" where
  "le_word [] = 0"
| "le_word (b # bs) = ucast b OR push_bit 8 (le_word bs)"

lemma length_le_bytes [simp]: "length (le_bytes n w) = n"
  by (induction n arbitrary: w) simp_all

lemma bit_ucast_u8:
  "bit (ucast b :: 'a::len word) n \<longleftrightarrow> n < LENGTH('a) \<and> bit (b :: u8) n"
  by (auto simp: bit_simps)

lemma bit_le_word_le_bytes:
  "bit (le_word (le_bytes n w) :: 'a::len word) k \<longleftrightarrow> k < 8 * n \<and> bit (w :: 'a word) k"
proof (induction n arbitrary: w k)
  case 0
  then show ?case by simp
next
  case (Suc n)
  show ?case
  proof (cases "k < 8")
    case True
    then show ?thesis by (auto simp: bit_simps Suc.IH intro: bit_imp_le_length)
  next
    case False
    then show ?thesis
      by (auto simp: bit_simps Suc.IH dest: bit_imp_le_length)
  qed
qed

lemma le_word_le_bytes [le_simps]:
  "LENGTH('a) \<le> 8 * n \<Longrightarrow> le_word (le_bytes n w) = (w :: 'a::len word)"
  by (rule bit_word_eqI) (simp add: bit_le_word_le_bytes)

lemma le_bytes_le_word [le_simps]:
  "8 * length bs \<le> LENGTH('a) \<Longrightarrow> le_bytes (length bs) (le_word bs :: 'a::len word) = bs"
proof (induction bs)
  case Nil
  then show ?case by simp
next
  case (Cons b bs)
  let ?w = "le_word bs :: 'a word"
  have h: "ucast (ucast b OR push_bit 8 ?w) = b"
  proof (rule bit_word_eqI)
    fix n
    assume "n < LENGTH(8)"
    then show "bit (ucast (ucast b OR push_bit 8 ?w) :: u8) n = bit b n"
      using Cons.prems by (auto simp: bit_simps)
  qed
  have hi: "\<not> bit ?w k" if "8 * length bs \<le> k" for k
  proof
    assume "bit ?w k"
    then have "bit (le_word (le_bytes (length bs) ?w) :: 'a word) k"
      using Cons by simp
    with that show False by (simp add: bit_le_word_le_bytes)
  qed
  have t: "drop_bit 8 (ucast b OR push_bit 8 ?w) = ?w"
  proof (rule bit_word_eqI)
    fix n
    assume "n < LENGTH('a)"
    then show "bit (drop_bit 8 (ucast b OR push_bit 8 ?w)) n = bit ?w n"
      using Cons.prems hi [of n]
      by (auto simp: bit_simps dest: bit_imp_le_length)
  qed
  show ?case using Cons h t by simp
qed

section \<open>Flat memory\<close>

text \<open>
  Memory is a total function from addresses to bytes; address arithmetic wraps at 64 bits.
  A write of a run of bytes is one update; \<open>unat (x - a)\<close> is the offset of \<open>x\<close> from the
  start of the run.
\<close>

type_synonym mem = "addr \<Rightarrow> u8"

definition mem_read :: "mem \<Rightarrow> addr \<Rightarrow> nat \<Rightarrow> bytes" where
  "mem_read m a n = map (\<lambda>i. m (a + word_of_nat i)) [0..<n]"

definition mem_write :: "mem \<Rightarrow> addr \<Rightarrow> bytes \<Rightarrow> mem" where
  "mem_write m a bs x = (if uint (x - a) < int (length bs) then bs ! unat (x - a) else m x)"

lemma mem_write_at:
  "mem_write m a bs x = (if unat (x - a) < length bs then bs ! unat (x - a) else m x)"
  using nat_less_iff [of "uint (x - a)" "length bs"] by (simp add: mem_write_def)

lemma length_mem_read [simp]: "length (mem_read m a n) = n"
  by (simp add: mem_read_def)

lemma mem_read_write_same [mem_simps]:
  "length bs \<le> 18446744073709551616 \<Longrightarrow> mem_read (mem_write m a bs) a (length bs) = bs"
  by (rule nth_equalityI) (simp_all add: mem_read_def mem_write_at)

definition disjoint_ranges :: "addr \<Rightarrow> nat \<Rightarrow> addr \<Rightarrow> nat \<Rightarrow> bool" where
  "disjoint_ranges a n b k \<longleftrightarrow> (\<forall>i < n. k \<le> unat (a + word_of_nat i - b))"

lemma mem_read_write_disjoint [mem_simps]:
  "disjoint_ranges a n b (length bs) \<Longrightarrow> mem_read (mem_write m b bs) a n = mem_read m a n"
  by (auto simp: mem_read_def mem_write_at disjoint_ranges_def)

definition rd8 :: "mem \<Rightarrow> addr \<Rightarrow> u8" where "rd8 m a = m a"
definition rd16 :: "mem \<Rightarrow> addr \<Rightarrow> u16" where "rd16 m a = le_word (mem_read m a 2)"
definition rd32 :: "mem \<Rightarrow> addr \<Rightarrow> u32" where "rd32 m a = le_word (mem_read m a 4)"
definition rd64 :: "mem \<Rightarrow> addr \<Rightarrow> u64" where "rd64 m a = le_word (mem_read m a 8)"

definition wr8 :: "mem \<Rightarrow> addr \<Rightarrow> u8 \<Rightarrow> mem" where "wr8 m a v = mem_write m a [v]"
definition wr16 :: "mem \<Rightarrow> addr \<Rightarrow> u16 \<Rightarrow> mem" where "wr16 m a v = mem_write m a (le_bytes 2 v)"
definition wr32 :: "mem \<Rightarrow> addr \<Rightarrow> u32 \<Rightarrow> mem" where "wr32 m a v = mem_write m a (le_bytes 4 v)"
definition wr64 :: "mem \<Rightarrow> addr \<Rightarrow> u64 \<Rightarrow> mem" where "wr64 m a v = mem_write m a (le_bytes 8 v)"

lemma mem_read_write_le [mem_simps]:
  "n \<le> 18446744073709551616 \<Longrightarrow> mem_read (mem_write m a (le_bytes n w)) a n = le_bytes n w"
  using mem_read_write_same [of "le_bytes n w" m a] by simp

lemma rd8_wr8 [mem_simps]: "rd8 (wr8 m a v) a = v"
  by (simp add: rd8_def wr8_def mem_write_at)

lemma rd16_wr16 [mem_simps]: "rd16 (wr16 m a v) a = v"
  by (simp add: rd16_def wr16_def mem_simps le_simps)

lemma rd32_wr32 [mem_simps]: "rd32 (wr32 m a v) a = v"
  by (simp add: rd32_def wr32_def mem_simps le_simps)

lemma rd64_wr64 [mem_simps]: "rd64 (wr64 m a v) a = v"
  by (simp add: rd64_def wr64_def mem_simps le_simps)

end
