(* ===== verification/Pb_Stream.thy ===== *)
theory Pb_Stream
  imports Base
begin

text \<open>
  The byte streams of nanopb (Pods/nanopb/pb_encode.h, pb_decode.h, and the stream sections of
  pb_encode.c and pb_decode.c). A stream is a record with the fields of the C struct. The C
  pair of a callback pointer and its \<open>void *state\<close> is, for output, a function on a state of
  any type \<open>'s\<close>, and for input a value of \<open>pb_isource\<close>: the code compares the input callback
  with \<open>buf_read\<close>, so that case is a constructor.

  A memory buffer is the list of its bytes with the position the state pointer has reached. A
  write past the end would make the list longer and a read past the end would move the position
  past the length: the safety lemmas show that neither happens.
\<close>

section \<open>Output streams\<close>

type_synonym 's pb_ocallback = "'s \<Rightarrow> bytes \<Rightarrow> u64 \<Rightarrow> bool \<times> 's"

record 's pb_ostream =
  ocallback :: "'s pb_ocallback option"
  ostate :: 's
  max_size :: u64
  bytes_written :: u64
  oerrmsg :: "string option"

text \<open>\<open>PB_SET_ERROR\<close> keeps the first message.\<close>

definition oerr :: "'s pb_ostream \<Rightarrow> string \<Rightarrow> bool \<times> 's pb_ostream" where
  "oerr st msg =
     (False, st\<lparr>oerrmsg := (case oerrmsg st of None \<Rightarrow> Some msg | Some m \<Rightarrow> Some m)\<rparr>)"

type_synonym obuf = "bytes \<times> nat"

fun buf_write :: "obuf pb_ocallback" where
  "buf_write (mem, pos) buf count =
     (True, (list_blit mem pos (read_at buf 0 (unat count)), pos + unat count))"

definition pb_ostream_from_buffer :: "bytes \<Rightarrow> u64 \<Rightarrow> obuf pb_ostream" where
  "pb_ostream_from_buffer buf bufsize =
     \<lparr>ocallback = Some buf_write, ostate = (buf, 0), max_size = bufsize, bytes_written = 0,
      oerrmsg = None\<rparr>"

text \<open>
  A sizing stream has a null callback; its (null) state is never used, and stands here for the
  state value it is given.
\<close>

definition PB_OSTREAM_SIZING :: "'s \<Rightarrow> 's pb_ostream" where
  "PB_OSTREAM_SIZING s =
     \<lparr>ocallback = None, ostate = s, max_size = 0, bytes_written = 0, oerrmsg = None\<rparr>"

definition pb_write :: "'s pb_ostream \<Rightarrow> bytes \<Rightarrow> u64 \<Rightarrow> bool \<times> 's pb_ostream" where
  "pb_write st buf count =
     (case ocallback st of
        Some cb \<Rightarrow>
          if 0 < count then
            if bytes_written st + count < bytes_written st
               \<or> max_size st < bytes_written st + count
            then oerr st ''stream full''
            else
              (case cb (ostate st) buf count of
                 (ok, s') \<Rightarrow>
                   if \<not> ok then oerr (st\<lparr>ostate := s'\<rparr>) ''io error''
                   else (True, st\<lparr>ostate := s', bytes_written := bytes_written st + count\<rparr>))
          else (True, st\<lparr>bytes_written := bytes_written st + count\<rparr>)
      | None \<Rightarrow> (True, st\<lparr>bytes_written := bytes_written st + count\<rparr>))"

text \<open>\<open>if (!f(stream)) return false; g(stream)\<close>, the way the encoders call one another.\<close>

definition oseq ::
  "bool \<times> 's pb_ostream \<Rightarrow> ('s pb_ostream \<Rightarrow> bool \<times> 's pb_ostream) \<Rightarrow> bool \<times> 's pb_ostream" where
  "oseq r k = (case r of (ok, st) \<Rightarrow> if ok then k st else (False, st))"

lemma oseq_True [simp]: "oseq (True, st) k = k st"
  by (simp add: oseq_def)

lemma oseq_False [simp]: "oseq (False, st) k = (False, st)"
  by (simp add: oseq_def)

lemma oseq_success: "oseq r k = (True, st) \<longleftrightarrow> (\<exists>st1. r = (True, st1) \<and> k st1 = (True, st))"
  by (cases r) (auto simp: oseq_def)

lemma oseq_assoc: "oseq (oseq r f) g = oseq r (\<lambda>st. oseq (f st) g)"
  by (cases r) (auto simp: oseq_def split: prod.splits)

section \<open>Input streams\<close>

text \<open>
  A user callback is given its state, the bytes left and the count it must deliver. It
  delivers (\<open>RdOk\<close>), fails (\<open>RdFail\<close>), or fails and marks the end of the stream by clearing
  \<open>bytes_left\<close> (\<open>RdEof\<close>); the bytes are what it has put into the destination.
\<close>

datatype 's rd_result = RdOk bytes 's | RdFail bytes 's | RdEof bytes 's

datatype 's pb_isource =
    BufRead bytes nat
  | UserRead "'s \<Rightarrow> u64 \<Rightarrow> u64 \<Rightarrow> 's rd_result" 's

record 's pb_istream =
  isource :: "'s pb_isource"
  bytes_left :: u64
  ierrmsg :: "string option"

definition ierr :: "'s pb_istream \<Rightarrow> string \<Rightarrow> 's pb_istream" where
  "ierr st msg = st\<lparr>ierrmsg := (case ierrmsg st of None \<Rightarrow> Some msg | Some m \<Rightarrow> Some m)\<rparr>"

definition pb_istream_from_buffer :: "bytes \<Rightarrow> u64 \<Rightarrow> 's pb_istream" where
  "pb_istream_from_buffer buf bufsize =
     \<lparr>isource = BufRead buf 0, bytes_left = bufsize, ierrmsg = None\<rparr>"

fun is_buf_read :: "'s pb_isource \<Rightarrow> bool" where
  "is_buf_read (BufRead _ _) = True"
| "is_buf_read (UserRead _ _) = False"

text \<open>The callback: \<open>buf_read\<close> copies \<open>count\<close> bytes and advances, and never fails.\<close>

fun buf_read :: "bytes \<Rightarrow> nat \<Rightarrow> u64 \<Rightarrow> bytes \<times> 's pb_isource" where
  "buf_read buf pos count = (read_at buf pos (unat count), BufRead buf (pos + unat count))"

definition call_read :: "'s pb_istream \<Rightarrow> u64 \<Rightarrow> bool \<times> bytes \<times> 's pb_istream" where
  "call_read st count =
     (case isource st of
        BufRead buf pos \<Rightarrow>
          (case buf_read buf pos count of (bs, src) \<Rightarrow> (True, bs, st\<lparr>isource := src\<rparr>))
      | UserRead f s \<Rightarrow>
          (case f s (bytes_left st) count of
             RdOk bs s' \<Rightarrow> (True, read_at bs 0 (unat count), st\<lparr>isource := UserRead f s'\<rparr>)
           | RdFail bs s' \<Rightarrow> (False, bs, st\<lparr>isource := UserRead f s'\<rparr>)
           | RdEof bs s' \<Rightarrow> (False, bs, st\<lparr>isource := UserRead f s', bytes_left := 0\<rparr>)))"

text \<open>
  \<open>pb_read\<close> from its second half on: with a destination, or from a memory buffer. The bytes
  returned are those the destination receives, also when the read fails.
\<close>

definition pb_read_direct :: "'s pb_istream \<Rightarrow> u64 \<Rightarrow> bool \<times> bytes \<times> 's pb_istream" where
  "pb_read_direct st count =
     (if bytes_left st < count then (False, [], ierr st ''end-of-stream'')
      else
        (case call_read st count of
           (ok, bs, st') \<Rightarrow>
             if \<not> ok then (False, bs, ierr st' ''io error'')
             else (True, bs, st'\<lparr>bytes_left := bytes_left st' - count\<rparr>)))"

text \<open>A null destination on a stream with a user callback: skip in steps of 16 bytes.\<close>

function pb_read_skip :: "'s pb_istream \<Rightarrow> u64 \<Rightarrow> bool \<times> bytes \<times> 's pb_istream" where
  "pb_read_skip st count =
     (if 16 < count then
        (case pb_read_direct st 16 of
           (ok, bs, st') \<Rightarrow> if \<not> ok then (False, [], st') else pb_read_skip st' (count - 16))
      else (case pb_read_direct st count of (ok, bs, st') \<Rightarrow> (ok, [], st')))"
  by pat_completeness auto
termination
proof (relation "measure (\<lambda>(st, count). unat count)", goal_cases)
  case 1
  show ?case by simp
next
  case (2 st count)
  then have "16 < unat count" by (simp add: word_less_nat_alt)
  then have "unat (count - 16) < unat count"
    by (simp add: unat_sub word_le_nat_alt)
  then show ?case by simp
qed

declare pb_read_skip.simps [simp del]

text \<open>\<open>pb_read\<close>: \<open>nonnull\<close> says whether the destination pointer is not NULL.\<close>

definition pb_read :: "'s pb_istream \<Rightarrow> bool \<Rightarrow> u64 \<Rightarrow> bool \<times> bytes \<times> 's pb_istream" where
  "pb_read st nonnull count =
     (if count = 0 then (True, [], st)
      else if \<not> nonnull \<and> \<not> is_buf_read (isource st) then pb_read_skip st count
      else pb_read_direct st count)"

definition pb_readbyte :: "'s pb_istream \<Rightarrow> u8 option \<times> 's pb_istream" where
  "pb_readbyte st =
     (if bytes_left st = 0 then (None, ierr st ''end-of-stream'')
      else
        (case call_read st 1 of
           (ok, bs, st') \<Rightarrow>
             if \<not> ok then (None, ierr st' ''io error'')
             else (Some (nth_or 0 bs 0), st'\<lparr>bytes_left := bytes_left st' - 1\<rparr>)))"

end
