(* ===== verification/Pb_Common.thy ===== *)
theory Pb_Common
  imports Pb_Stream
begin

text \<open>
  Field descriptors of nanopb (Pods/nanopb/pb.h) and the field iterator (pb_common.c), for the
  configuration of the Pod (\<open>PB_FIELD_32BIT\<close>, \<open>PB_NO_PACKED_STRUCTS\<close>, \<open>PB_ENABLE_MALLOC\<close>)
  on a 64-bit little-endian target.

  A descriptor array is the list of its entries, the terminator (tag 0) included; an entry is
  read with \<open>field_nth\<close>, which gives a terminator past the end. Pointers into the array are
  indices. Pointers to structures are addresses of the flat memory.
\<close>

section \<open>Descriptors\<close>

record pb_field =
  ftag :: u32
  ftype :: u8
  data_offset :: u32
  size_offset :: u32
  data_size :: u32
  array_size :: u32
  fptr :: addr

definition PB_LAST_FIELD :: pb_field where
  "PB_LAST_FIELD =
     \<lparr>ftag = 0, ftype = 0, data_offset = 0, size_offset = 0, data_size = 0, array_size = 0,
      fptr = 0\<rparr>"

definition field_nth :: "pb_field list \<Rightarrow> nat \<Rightarrow> pb_field" where
  "field_nth fs i = nth_or PB_LAST_FIELD fs i"

abbreviation (input) PB_LTYPE_BOOL :: u8 where "PB_LTYPE_BOOL \<equiv> 0x00"
abbreviation (input) PB_LTYPE_VARINT :: u8 where "PB_LTYPE_VARINT \<equiv> 0x01"
abbreviation (input) PB_LTYPE_UVARINT :: u8 where "PB_LTYPE_UVARINT \<equiv> 0x02"
abbreviation (input) PB_LTYPE_SVARINT :: u8 where "PB_LTYPE_SVARINT \<equiv> 0x03"
abbreviation (input) PB_LTYPE_FIXED32 :: u8 where "PB_LTYPE_FIXED32 \<equiv> 0x04"
abbreviation (input) PB_LTYPE_FIXED64 :: u8 where "PB_LTYPE_FIXED64 \<equiv> 0x05"
abbreviation (input) PB_LTYPE_LAST_PACKABLE :: u8 where "PB_LTYPE_LAST_PACKABLE \<equiv> 0x05"
abbreviation (input) PB_LTYPE_BYTES :: u8 where "PB_LTYPE_BYTES \<equiv> 0x06"
abbreviation (input) PB_LTYPE_STRING :: u8 where "PB_LTYPE_STRING \<equiv> 0x07"
abbreviation (input) PB_LTYPE_SUBMESSAGE :: u8 where "PB_LTYPE_SUBMESSAGE \<equiv> 0x08"
abbreviation (input) PB_LTYPE_EXTENSION :: u8 where "PB_LTYPE_EXTENSION \<equiv> 0x09"
abbreviation (input) PB_LTYPE_FIXED_LENGTH_BYTES :: u8 where "PB_LTYPE_FIXED_LENGTH_BYTES \<equiv> 0x0A"

abbreviation (input) PB_HTYPE_REQUIRED :: u8 where "PB_HTYPE_REQUIRED \<equiv> 0x00"
abbreviation (input) PB_HTYPE_OPTIONAL :: u8 where "PB_HTYPE_OPTIONAL \<equiv> 0x10"
abbreviation (input) PB_HTYPE_REPEATED :: u8 where "PB_HTYPE_REPEATED \<equiv> 0x20"
abbreviation (input) PB_HTYPE_ONEOF :: u8 where "PB_HTYPE_ONEOF \<equiv> 0x30"

abbreviation (input) PB_ATYPE_STATIC :: u8 where "PB_ATYPE_STATIC \<equiv> 0x00"
abbreviation (input) PB_ATYPE_POINTER :: u8 where "PB_ATYPE_POINTER \<equiv> 0x80"
abbreviation (input) PB_ATYPE_CALLBACK :: u8 where "PB_ATYPE_CALLBACK \<equiv> 0x40"

abbreviation (input) PB_SIZE_MAX :: u32 where "PB_SIZE_MAX \<equiv> 0xFFFFFFFF"

abbreviation (input) PB_WT_VARINT :: u32 where "PB_WT_VARINT \<equiv> 0"
abbreviation (input) PB_WT_64BIT :: u32 where "PB_WT_64BIT \<equiv> 1"
abbreviation (input) PB_WT_STRING :: u32 where "PB_WT_STRING \<equiv> 2"
abbreviation (input) PB_WT_32BIT :: u32 where "PB_WT_32BIT \<equiv> 5"

definition PB_ATYPE :: "u8 \<Rightarrow> u8" where "PB_ATYPE x = x AND 0xC0"
definition PB_HTYPE :: "u8 \<Rightarrow> u8" where "PB_HTYPE x = x AND 0x30"
definition PB_LTYPE :: "u8 \<Rightarrow> u8" where "PB_LTYPE x = x AND 0x0F"

text \<open>\<open>offsetof(pb_bytes_array_t, bytes)\<close> is 4: the size field is a \<open>uint32_t\<close>.\<close>

definition PB_BYTES_ARRAY_T_ALLOCSIZE :: "u64 \<Rightarrow> u64" where
  "PB_BYTES_ARRAY_T_ALLOCSIZE n = n + 4"

section \<open>Extensions in memory\<close>

text \<open>
  \<open>pb_extension_t\<close> holds the pointers \<open>type\<close>, \<open>dest\<close> and \<open>next\<close> at offsets 0, 8 and 16 and
  the flag \<open>found\<close> at 24; \<open>pb_extension_type_t\<close> holds \<open>decode\<close>, \<open>encode\<close> and \<open>arg\<close>.
\<close>

definition ext_type :: "mem \<Rightarrow> addr \<Rightarrow> addr" where "ext_type m e = rd64 m e"
definition ext_dest :: "mem \<Rightarrow> addr \<Rightarrow> addr" where "ext_dest m e = rd64 m (e + 8)"
definition ext_next :: "mem \<Rightarrow> addr \<Rightarrow> addr" where "ext_next m e = rd64 m (e + 16)"
definition exttype_decode :: "mem \<Rightarrow> addr \<Rightarrow> addr" where "exttype_decode m t = rd64 m t"
definition exttype_encode :: "mem \<Rightarrow> addr \<Rightarrow> addr" where "exttype_encode m t = rd64 m (t + 8)"
definition exttype_arg :: "mem \<Rightarrow> addr \<Rightarrow> addr" where "exttype_arg m t = rd64 m (t + 16)"

section \<open>The field iterator\<close>

record pb_field_iter =
  istart :: "pb_field list"
  ipos :: nat
  required_field_index :: u32
  dest_struct :: addr
  pData :: addr
  pSize :: addr

definition iter_field :: "pb_field_iter \<Rightarrow> pb_field" where
  "iter_field it = field_nth (istart it) (ipos it)"

definition pb_field_iter_begin :: "pb_field list \<Rightarrow> addr \<Rightarrow> bool \<times> pb_field_iter" where
  "pb_field_iter_begin fs dest =
     (let f = field_nth fs 0;
          data = dest + ucast (data_offset f);
          size = data + scast (size_offset f)
      in (ftag f \<noteq> 0,
          \<lparr>istart = fs, ipos = 0, required_field_index = 0, dest_struct = dest,
           pData = data, pSize = size\<rparr>))"

text \<open>The size of the entry before the one the iterator moves to.\<close>

definition iter_prev_size :: "pb_field \<Rightarrow> u64" where
  "iter_prev_size prev =
     (if PB_ATYPE (ftype prev) = PB_ATYPE_STATIC \<and> PB_HTYPE (ftype prev) = PB_HTYPE_REPEATED
      then ucast (data_size prev) * ucast (array_size prev)
      else if PB_ATYPE (ftype prev) = PB_ATYPE_POINTER then 8
      else ucast (data_size prev))"

definition pb_field_iter_next :: "pb_field_iter \<Rightarrow> bool \<times> pb_field_iter" where
  "pb_field_iter_next it =
     (let prev = iter_field it in
      if ftag prev = 0 then (False, it)
      else
        (let pos' = Suc (ipos it); f = field_nth (istart it) pos' in
         if ftag f = 0 then (False, snd (pb_field_iter_begin (istart it) (dest_struct it)))
         else if PB_HTYPE (ftype prev) = PB_HTYPE_ONEOF \<and> PB_HTYPE (ftype f) = PB_HTYPE_ONEOF
                 \<and> data_offset f = PB_SIZE_MAX
         then (True, it\<lparr>ipos := pos'\<rparr>)
         else
           (let req = (if PB_HTYPE (ftype prev) = PB_HTYPE_REQUIRED
                       then required_field_index it + 1 else required_field_index it);
                data = pData it + iter_prev_size prev + ucast (data_offset f)
            in (True,
                it\<lparr>ipos := pos', required_field_index := req, pData := data,
                   pSize := data + scast (size_offset f)\<rparr>))))"

text \<open>
  \<open>pb_field_iter_find\<close> goes round the array until it is back where it started. On an
  iterator whose position the round does not meet again the C loop does not end: the result
  is then \<open>None\<close>.
\<close>

partial_function (option) iter_find_loop ::
  "nat \<Rightarrow> u32 \<Rightarrow> pb_field_iter \<Rightarrow> (bool \<times> pb_field_iter) option" where
  "iter_find_loop start tag it =
     (if ftag (iter_field it) = tag \<and> PB_LTYPE (ftype (iter_field it)) \<noteq> PB_LTYPE_EXTENSION
      then Some (True, it)
      else
        (let it' = snd (pb_field_iter_next it) in
         if ipos it' \<noteq> start then iter_find_loop start tag it' else Some (False, it')))"

declare iter_find_loop.simps [code]

definition pb_field_iter_find :: "pb_field_iter \<Rightarrow> u32 \<Rightarrow> (bool \<times> pb_field_iter) option" where
  "pb_field_iter_find it tag = iter_find_loop (ipos it) tag it"

section \<open>Well-formed arrays and iterators\<close>

text \<open>A descriptor array ends in its one terminator.\<close>

definition wf_fields :: "pb_field list \<Rightarrow> bool" where
  "wf_fields fs \<longleftrightarrow>
     fs \<noteq> [] \<and> ftag (last fs) = 0 \<and> (\<forall>f \<in> set (butlast fs). ftag f \<noteq> 0)"

definition nfields :: "pb_field list \<Rightarrow> nat" where
  "nfields fs = length fs - 1"

text \<open>The iterator after \<open>i\<close> advances from the start: what every iterator of the code is.\<close>

fun iter_at :: "pb_field list \<Rightarrow> addr \<Rightarrow> nat \<Rightarrow> pb_field_iter" where
  "iter_at fs dest 0 = snd (pb_field_iter_begin fs dest)"
| "iter_at fs dest (Suc i) = snd (pb_field_iter_next (iter_at fs dest i))"

lemma ftag_last_field [simp]: "ftag PB_LAST_FIELD = 0"
  by (simp add: PB_LAST_FIELD_def)

lemma wf_fields_tag:
  assumes "wf_fields fs"
  shows "ftag (field_nth fs i) = 0 \<longleftrightarrow> nfields fs \<le> i"
proof (cases "i < nfields fs")
  case True
  then have "fs ! i \<in> set (butlast fs)"
    by (metis length_butlast nfields_def nth_butlast nth_mem)
  with assms True show ?thesis by (auto simp: wf_fields_def field_nth_def nth_or_def nfields_def)
next
  case False
  with assms show ?thesis
    by (auto simp: wf_fields_def field_nth_def nth_or_def nfields_def last_conv_nth)
      (metis One_nat_def Suc_pred last_conv_nth length_greater_0_conv less_antisym)
qed

lemma iter_begin_simps [simp]:
  "istart (snd (pb_field_iter_begin fs d)) = fs"
  "ipos (snd (pb_field_iter_begin fs d)) = 0"
  "dest_struct (snd (pb_field_iter_begin fs d)) = d"
  by (simp_all add: pb_field_iter_begin_def Let_def)

lemma iter_next_start [simp]:
  "istart (snd (pb_field_iter_next it)) = istart it"
  "dest_struct (snd (pb_field_iter_next it)) = dest_struct it"
  by (simp_all add: pb_field_iter_next_def Let_def)

lemma iter_next_pos:
  "ipos (snd (pb_field_iter_next it)) =
     (if ftag (iter_field it) = 0 then ipos it
      else if ftag (field_nth (istart it) (Suc (ipos it))) = 0 then 0 else Suc (ipos it))"
  by (simp add: pb_field_iter_next_def Let_def)

lemma iter_next_True:
  "fst (pb_field_iter_next it) \<longleftrightarrow>
     ftag (iter_field it) \<noteq> 0 \<and> ftag (field_nth (istart it) (Suc (ipos it))) \<noteq> 0"
  by (simp add: pb_field_iter_next_def Let_def)

lemma iter_at_start [simp]: "istart (iter_at fs d i) = fs" "dest_struct (iter_at fs d i) = d"
  by (induction i) simp_all

lemma iter_at_pos:
  "wf_fields fs \<Longrightarrow> i < nfields fs \<Longrightarrow> ipos (iter_at fs d i) = i"
  by (induction i) (simp_all add: iter_next_pos wf_fields_tag iter_field_def)

lemma iter_at_field:
  "wf_fields fs \<Longrightarrow> i < nfields fs \<Longrightarrow> iter_field (iter_at fs d i) = field_nth fs i"
  by (simp add: iter_field_def iter_at_pos)

text \<open>After the last entry the iterator is back where it began, field for field.\<close>

lemma iter_next_wraps:
  assumes "wf_fields fs" and "Suc i = nfields fs"
  shows "pb_field_iter_next (iter_at fs d i) = (False, iter_at fs d 0)"
proof -
  have "ftag (iter_field (iter_at fs d i)) \<noteq> 0"
    using assms by (simp add: iter_at_field wf_fields_tag)
  moreover have "ftag (field_nth fs (Suc (ipos (iter_at fs d i)))) = 0"
    using assms by (simp add: iter_at_pos wf_fields_tag)
  ultimately show ?thesis by (simp add: pb_field_iter_next_def Let_def)
qed

lemma iter_next_advances:
  assumes "wf_fields fs" and "Suc i < nfields fs"
  shows "pb_field_iter_next (iter_at fs d i) = (True, iter_at fs d (Suc i))"
proof -
  have "fst (pb_field_iter_next (iter_at fs d i))"
    using assms by (simp add: iter_next_True iter_at_field iter_at_pos wf_fields_tag)
  then show ?thesis by (simp add: prod_eq_iff)
qed

text \<open>\<open>iter_next\<close> as one equation over the positions of a non-empty array.\<close>

lemma iter_next_at:
  assumes "wf_fields fs" and "i < nfields fs"
  shows "pb_field_iter_next (iter_at fs d i)
    = (Suc i < nfields fs, iter_at fs d (Suc i mod nfields fs))"
proof (cases "Suc i < nfields fs")
  case True
  with iter_next_advances [OF assms(1) True] show ?thesis by (simp del: iter_at.simps)
next
  case False
  with assms have i: "Suc i = nfields fs" by simp
  with iter_next_wraps [OF assms(1) i] show ?thesis by (simp del: iter_at.simps)
qed

lemma iter_next_bound:
  assumes "pb_field_iter_next it = (True, it')"
  shows "length (istart it') - ipos it' < length (istart it) - ipos it"
proof -
  from assms have t: "fst (pb_field_iter_next it)" and it': "it' = snd (pb_field_iter_next it)"
    by simp_all
  from t have a: "ftag (iter_field it) \<noteq> 0"
    and b: "ftag (field_nth (istart it) (Suc (ipos it))) \<noteq> 0"
    by (simp_all add: iter_next_True)
  from b have "Suc (ipos it) < length (istart it)"
    by (auto simp: field_nth_def nth_or_def split: if_splits)
  with a b show ?thesis unfolding it' by (simp add: iter_next_pos)
qed

section \<open>Correctness of the search\<close>

definition field_matches :: "u32 \<Rightarrow> pb_field \<Rightarrow> bool" where
  "field_matches tag f \<longleftrightarrow> ftag f = tag \<and> PB_LTYPE (ftype f) \<noteq> PB_LTYPE_EXTENSION"

text \<open>The search from position \<open>(s + k) mod n\<close>, when the \<open>k\<close> entries before it did not match.\<close>

lemma iter_find_loop_at:
  assumes wf: "wf_fields fs" and n: "n = nfields fs" and s: "s < n" and k: "k < n"
    and miss: "\<forall>j < k. \<not> field_matches tag (field_nth fs ((s + j) mod n))"
  shows "(\<exists>j. k \<le> j \<and> j < n \<and> field_matches tag (field_nth fs ((s + j) mod n))
        \<and> (\<forall>j' < j. \<not> field_matches tag (field_nth fs ((s + j') mod n)))
        \<and> iter_find_loop s tag (iter_at fs d ((s + k) mod n))
          = Some (True, iter_at fs d ((s + j) mod n)))
    \<or> (\<forall>j < n. \<not> field_matches tag (field_nth fs ((s + j) mod n)))
       \<and> iter_find_loop s tag (iter_at fs d ((s + k) mod n)) = Some (False, iter_at fs d s)"
  using k miss
proof (induction "n - k" arbitrary: k)
  case 0
  then show ?case by simp
next
  case (Suc m)
  let ?p = "(s + k) mod n"
  have p: "?p < nfields fs" using s n by simp
  have fld: "iter_field (iter_at fs d ?p) = field_nth fs ?p"
    by (rule iter_at_field [OF wf p])
  show ?case
  proof (cases "field_matches tag (field_nth fs ?p)")
    case True
    then have "iter_find_loop s tag (iter_at fs d ?p) = Some (True, iter_at fs d ?p)"
      by (simp add: iter_find_loop.simps [of s tag "iter_at fs d ?p"] fld field_matches_def)
    with True Suc.prems show ?thesis by blast
  next
    case False
    have miss': "\<forall>j < Suc k. \<not> field_matches tag (field_nth fs ((s + j) mod n))"
      using Suc.prems(2) False by (auto simp: less_Suc_eq)
    define q where "q = (s + Suc k) mod n"
    have "Suc ?p mod nfields fs = q" by (simp add: n q_def mod_Suc_eq)
    then have nxt: "snd (pb_field_iter_next (iter_at fs d ?p)) = iter_at fs d q"
      using iter_next_at [OF wf p] by simp
    have posq: "ipos (iter_at fs d q) = q"
      using s n by (intro iter_at_pos [OF wf]) (simp add: q_def)
    have "\<not> (ftag (iter_field (iter_at fs d ?p)) = tag
        \<and> PB_LTYPE (ftype (iter_field (iter_at fs d ?p))) \<noteq> PB_LTYPE_EXTENSION)"
      using False by (simp add: fld field_matches_def)
    then have unf: "iter_find_loop s tag (iter_at fs d ?p) =
        (if q \<noteq> s then iter_find_loop s tag (iter_at fs d q)
         else Some (False, iter_at fs d q))"
      unfolding iter_find_loop.simps [of s tag "iter_at fs d ?p"] nxt Let_def posq
      by (simp only: if_False)
    show ?thesis
    proof (cases "Suc k = n")
      case True
      then have qs: "q = s" using s by (simp add: q_def)
      have "\<forall>j < n. \<not> field_matches tag (field_nth fs ((s + j) mod n))"
        using miss' True by simp
      with unf qs show ?thesis by simp
    next
      case False
      with Suc.prems have k': "Suc k < n" by simp
      have ne: "q \<noteq> s"
      proof (cases "s + Suc k < n")
        case True
        then show ?thesis by (simp add: q_def)
      next
        case False
        with s k' have "q = s + Suc k - n" by (simp add: q_def mod_if)
        with False s k' show ?thesis by simp
      qed
      have "m = n - Suc k" using Suc.hyps(2) by simp
      from Suc.hyps(1) [OF this k' miss'] show ?thesis
        unfolding unf q_def [symmetric] using ne by (auto intro: Suc_leD)
    qed
  qed
qed

text \<open>
  The search ends on every iterator of the code: it finds the first matching entry in cyclic
  order from where it stands, and when there is none it stands where it stood.
\<close>

lemma pb_field_iter_find_at:
  assumes wf: "wf_fields fs" and s: "s < nfields fs"
  shows "(\<exists>j < nfields fs. field_matches tag (field_nth fs ((s + j) mod nfields fs))
        \<and> (\<forall>j' < j. \<not> field_matches tag (field_nth fs ((s + j') mod nfields fs)))
        \<and> pb_field_iter_find (iter_at fs d s) tag
          = Some (True, iter_at fs d ((s + j) mod nfields fs)))
    \<or> (\<forall>j < nfields fs. \<not> field_matches tag (field_nth fs ((s + j) mod nfields fs)))
       \<and> pb_field_iter_find (iter_at fs d s) tag = Some (False, iter_at fs d s)"
proof -
  have pos: "ipos (iter_at fs d s) = s" by (rule iter_at_pos [OF wf s])
  from s have "0 < nfields fs" by simp
  from iter_find_loop_at [OF wf refl s this, of tag d] s show ?thesis
    by (auto simp: pb_field_iter_find_def pos)
qed

lemma cyclic_all_iff:
  fixes n s :: nat
  assumes "s < n"
  shows "(\<forall>j < n. P ((s + j) mod n)) \<longleftrightarrow> (\<forall>i < n. P i)"
proof
  assume h: "\<forall>j < n. P ((s + j) mod n)"
  show "\<forall>i < n. P i"
  proof (intro allI impI)
    fix i
    assume i: "i < n"
    have "(s + (i + (n - s)) mod n) mod n = (s + (i + (n - s))) mod n" by (rule mod_add_right_eq)
    also have "\<dots> = (i + n) mod n" using assms by simp
    also have "\<dots> = i" using i by simp
    finally have "(s + (i + (n - s)) mod n) mod n = i" .
    moreover have "(i + (n - s)) mod n < n" using assms by simp
    ultimately show "P i" using h by metis
  qed
next
  assume "\<forall>i < n. P i"
  then show "\<forall>j < n. P ((s + j) mod n)" using assms by simp
qed

end
