(* ===== verification/Pb_Encode.thy ===== *)
theory Pb_Encode
  imports Pb_Common
begin

text \<open>
  The encoder of nanopb (Pods/nanopb/pb_encode.c), function by function in the order of their
  calls: the wire-format helpers, the field encoders, arrays, fields, extensions, messages.

  The source structure is read from the flat memory. A function whose C version writes to a
  stream returns the C result with the new stream. What can call \<open>pb_encode\<close> again takes
  that call as its argument \<open>enc\<close> and returns an option: \<open>None\<close> stands for "no result", which
  is a recursion deeper than the fuel of \<open>pb_encode\<close>, or a call through a null or
  out-of-range function pointer. User callbacks are functions of the environment record.
\<close>

section \<open>Wire-format helpers\<close>

text \<open>The loop of \<open>pb_encode_varint\<close> that fills the buffer, lowest seven bits first.\<close>

function varint_fill :: "u64 \<Rightarrow> bytes" where
  "varint_fill value =
     (if value \<noteq> 0 then (ucast (value AND 0x7F) OR 0x80) # varint_fill (drop_bit 7 value) else [])"
  by pat_completeness auto
termination
  by (relation "measure unat") (auto intro: drop_bit_less_self_u64 simp del: drop_bit_numeral_minus_bit1)

declare varint_fill.simps [simp del]

definition varint_bytes :: "u64 \<Rightarrow> bytes" where
  "varint_bytes value =
     (if value \<le> 0x7F then [ucast value]
      else
        (let buffer = varint_fill value; i = length buffer
         in buffer[i - 1 := (buffer ! (i - 1)) AND 0x7F]))"

definition pb_encode_varint :: "'s pb_ostream \<Rightarrow> u64 \<Rightarrow> bool \<times> 's pb_ostream" where
  "pb_encode_varint st value =
     (let buffer = varint_bytes value in pb_write st buffer (word_of_nat (length buffer)))"

text \<open>The zigzag code; \<open>value\<close> is the bit pattern of the \<open>int64_t\<close>.\<close>

definition zigzag :: "u64 \<Rightarrow> u64" where
  "zigzag value = (if sint value < 0 then NOT (push_bit 1 value) else push_bit 1 value)"

definition pb_encode_svarint :: "'s pb_ostream \<Rightarrow> u64 \<Rightarrow> bool \<times> 's pb_ostream" where
  "pb_encode_svarint st value = pb_encode_varint st (zigzag value)"

definition pb_encode_fixed32 :: "mem \<Rightarrow> 's pb_ostream \<Rightarrow> addr \<Rightarrow> bool \<times> 's pb_ostream" where
  "pb_encode_fixed32 m st value =
     (let val = rd32 m value in
      pb_write st
        [ucast (val AND 0xFF), ucast (drop_bit 8 val AND 0xFF), ucast (drop_bit 16 val AND 0xFF),
         ucast (drop_bit 24 val AND 0xFF)] 4)"

definition pb_encode_fixed64 :: "mem \<Rightarrow> 's pb_ostream \<Rightarrow> addr \<Rightarrow> bool \<times> 's pb_ostream" where
  "pb_encode_fixed64 m st value =
     (let val = rd64 m value in
      pb_write st
        [ucast (val AND 0xFF), ucast (drop_bit 8 val AND 0xFF), ucast (drop_bit 16 val AND 0xFF),
         ucast (drop_bit 24 val AND 0xFF), ucast (drop_bit 32 val AND 0xFF),
         ucast (drop_bit 40 val AND 0xFF), ucast (drop_bit 48 val AND 0xFF),
         ucast (drop_bit 56 val AND 0xFF)] 8)"

definition pb_encode_tag :: "'s pb_ostream \<Rightarrow> u32 \<Rightarrow> u32 \<Rightarrow> bool \<times> 's pb_ostream" where
  "pb_encode_tag st wiretype field_number =
     pb_encode_varint st (push_bit 3 (ucast field_number) OR ucast wiretype)"

definition wiretype_of_ltype :: "u8 \<Rightarrow> u32 option" where
  "wiretype_of_ltype lt =
     (if lt = PB_LTYPE_BOOL \<or> lt = PB_LTYPE_VARINT \<or> lt = PB_LTYPE_UVARINT \<or> lt = PB_LTYPE_SVARINT
      then Some PB_WT_VARINT
      else if lt = PB_LTYPE_FIXED32 then Some PB_WT_32BIT
      else if lt = PB_LTYPE_FIXED64 then Some PB_WT_64BIT
      else if lt = PB_LTYPE_BYTES \<or> lt = PB_LTYPE_STRING \<or> lt = PB_LTYPE_SUBMESSAGE
              \<or> lt = PB_LTYPE_FIXED_LENGTH_BYTES
      then Some PB_WT_STRING else None)"

definition pb_encode_tag_for_field ::
  "'s pb_ostream \<Rightarrow> pb_field \<Rightarrow> bool \<times> 's pb_ostream" where
  "pb_encode_tag_for_field st field =
     (case wiretype_of_ltype (PB_LTYPE (ftype field)) of
        None \<Rightarrow> oerr st ''invalid field type''
      | Some wiretype \<Rightarrow> pb_encode_tag st wiretype (ftag field))"

text \<open>\<open>buffer\<close> holds the \<open>size\<close> bytes at the C pointer.\<close>

definition pb_encode_string :: "'s pb_ostream \<Rightarrow> bytes \<Rightarrow> u64 \<Rightarrow> bool \<times> 's pb_ostream" where
  "pb_encode_string st buffer sz =
     oseq (pb_encode_varint st sz) (\<lambda>st. pb_write st buffer sz)"

section \<open>Field encoders\<close>

text \<open>\<open>sizeof(bool)\<close> is 1.\<close>

definition safe_read_bool :: "mem \<Rightarrow> addr \<Rightarrow> bool" where
  "safe_read_bool m p = (rd8 m p \<noteq> 0)"

definition pb_enc_bool :: "mem \<Rightarrow> 's pb_ostream \<Rightarrow> addr \<Rightarrow> bool \<times> 's pb_ostream" where
  "pb_enc_bool m st src = pb_encode_varint st (if safe_read_bool m src then 1 else 0)"

text \<open>Reading an integer field: sign-extended or zero-extended from the size of the field.\<close>

definition load_signed :: "mem \<Rightarrow> u32 \<Rightarrow> addr \<Rightarrow> u64 option" where
  "load_signed m sz src =
     (if sz = 1 then Some (scast (rd8 m src))
      else if sz = 2 then Some (scast (rd16 m src))
      else if sz = 4 then Some (scast (rd32 m src))
      else if sz = 8 then Some (rd64 m src)
      else None)"

definition load_unsigned :: "mem \<Rightarrow> u32 \<Rightarrow> addr \<Rightarrow> u64 option" where
  "load_unsigned m sz src =
     (if sz = 1 then Some (ucast (rd8 m src))
      else if sz = 2 then Some (ucast (rd16 m src))
      else if sz = 4 then Some (ucast (rd32 m src))
      else if sz = 8 then Some (rd64 m src)
      else None)"

definition pb_enc_varint :: "mem \<Rightarrow> 's pb_ostream \<Rightarrow> pb_field \<Rightarrow> addr \<Rightarrow> bool \<times> 's pb_ostream" where
  "pb_enc_varint m st field src =
     (case load_signed m (data_size field) src of
        None \<Rightarrow> oerr st ''invalid data_size''
      | Some value \<Rightarrow> pb_encode_varint st value)"

definition pb_enc_uvarint :: "mem \<Rightarrow> 's pb_ostream \<Rightarrow> pb_field \<Rightarrow> addr \<Rightarrow> bool \<times> 's pb_ostream" where
  "pb_enc_uvarint m st field src =
     (case load_unsigned m (data_size field) src of
        None \<Rightarrow> oerr st ''invalid data_size''
      | Some value \<Rightarrow> pb_encode_varint st value)"

definition pb_enc_svarint :: "mem \<Rightarrow> 's pb_ostream \<Rightarrow> pb_field \<Rightarrow> addr \<Rightarrow> bool \<times> 's pb_ostream" where
  "pb_enc_svarint m st field src =
     (case load_signed m (data_size field) src of
        None \<Rightarrow> oerr st ''invalid data_size''
      | Some value \<Rightarrow> pb_encode_svarint st value)"

definition pb_enc_fixed32 :: "mem \<Rightarrow> 's pb_ostream \<Rightarrow> addr \<Rightarrow> bool \<times> 's pb_ostream" where
  "pb_enc_fixed32 m st src = pb_encode_fixed32 m st src"

definition pb_enc_fixed64 :: "mem \<Rightarrow> 's pb_ostream \<Rightarrow> addr \<Rightarrow> bool \<times> 's pb_ostream" where
  "pb_enc_fixed64 m st src = pb_encode_fixed64 m st src"

definition pb_enc_bytes :: "mem \<Rightarrow> 's pb_ostream \<Rightarrow> pb_field \<Rightarrow> addr \<Rightarrow> bool \<times> 's pb_ostream" where
  "pb_enc_bytes m st field src =
     (if src = 0 then pb_encode_string st [] 0
      else
        (let sz = ucast (rd32 m src) :: u64;
             allocsize = PB_BYTES_ARRAY_T_ALLOCSIZE sz in
         if allocsize < sz
            \<or> PB_ATYPE (ftype field) = PB_ATYPE_STATIC \<and> ucast (data_size field) < allocsize
         then oerr st ''bytes size exceeded''
         else pb_encode_string st (mem_read m (src + 4) (unat sz)) sz))"

text \<open>The hand-written \<open>strnlen\<close>.\<close>

function strnlen_loop :: "mem \<Rightarrow> addr \<Rightarrow> u64 \<Rightarrow> u64 \<Rightarrow> u64" where
  "strnlen_loop m p max_sz sz =
     (if sz < max_sz \<and> rd8 m p \<noteq> 0 then strnlen_loop m (p + 1) max_sz (sz + 1) else sz)"
  by pat_completeness auto
termination
proof (relation "measure (\<lambda>(m, p, max_sz, sz). unat (max_sz - sz))", goal_cases)
  case 1
  show ?case by simp
next
  case (2 m p max_sz sz)
  then have lt: "unat sz < unat max_sz" by (simp add: word_less_nat_alt)
  then have s1: "unat (sz + 1) = unat sz + 1"
    using unat_u64_lt [of max_sz] by (simp add: unat_word_ariths)
  from lt s1 have "unat (max_sz - (sz + 1)) = unat max_sz - (unat sz + 1)"
    by (subst unat_sub) (simp_all add: word_le_nat_alt)
  moreover from lt have "unat (max_sz - sz) = unat max_sz - unat sz"
    by (subst unat_sub) (simp_all add: word_le_nat_alt)
  ultimately show ?case using lt by simp
qed

declare strnlen_loop.simps [simp del]

definition pb_enc_string :: "mem \<Rightarrow> 's pb_ostream \<Rightarrow> pb_field \<Rightarrow> addr \<Rightarrow> bool \<times> 's pb_ostream" where
  "pb_enc_string m st field src =
     (let max_sz = (if PB_ATYPE (ftype field) = PB_ATYPE_POINTER then - 1
                    else ucast (data_size field));
          sz = (if src = 0 then 0 else strnlen_loop m src max_sz 0)
      in pb_encode_string st (mem_read m src (unat sz)) sz)"

definition pb_enc_fixed_length_bytes ::
  "mem \<Rightarrow> 's pb_ostream \<Rightarrow> pb_field \<Rightarrow> addr \<Rightarrow> bool \<times> 's pb_ostream" where
  "pb_enc_fixed_length_bytes m st field src =
     pb_encode_string st (mem_read m src (unat (data_size field))) (ucast (data_size field))"

section \<open>Sequencing with fuel\<close>

type_synonym 's enc_result = "(bool \<times> 's pb_ostream) option"

definition fseq ::
  "'s enc_result \<Rightarrow> ('s pb_ostream \<Rightarrow> 's enc_result) \<Rightarrow> 's enc_result" where
  "fseq r k =
     (case r of
        None \<Rightarrow> None
      | Some (ok, st) \<Rightarrow> if ok then k st else Some (False, st))"

section \<open>Submessages\<close>

text \<open>The recursive call: stream, descriptor pointer, structure pointer.\<close>

type_synonym 's enc_call = "'s pb_ostream \<Rightarrow> addr \<Rightarrow> addr \<Rightarrow> 's enc_result"

definition pb_encode_submessage ::
  "'s enc_call \<Rightarrow> 's pb_ostream \<Rightarrow> addr \<Rightarrow> addr \<Rightarrow> 's enc_result" where
  "pb_encode_submessage enc st fds src =
     (case enc (PB_OSTREAM_SIZING (ostate st)) fds src of
        None \<Rightarrow> None
      | Some (ok, sub) \<Rightarrow>
          if \<not> ok then Some (False, st\<lparr>oerrmsg := oerrmsg sub\<rparr>)
          else
            (let sz = bytes_written sub in
             fseq (Some (pb_encode_varint st sz))
               (\<lambda>st.
                  if ocallback st = None then Some (pb_write st [] sz)
                  else if max_size st < bytes_written st + sz then Some (oerr st ''stream full'')
                  else
                    (case enc \<lparr>ocallback = ocallback st, ostate = ostate st, max_size = sz,
                               bytes_written = 0, oerrmsg = None\<rparr> fds src of
                       None \<Rightarrow> None
                     | Some (status, sub) \<Rightarrow>
                         (let st' = st\<lparr>bytes_written := bytes_written st + bytes_written sub,
                                       ostate := ostate sub, oerrmsg := oerrmsg sub\<rparr> in
                          if bytes_written sub \<noteq> sz
                          then Some (oerr st' ''submsg size changed'')
                          else Some (status, st'))))))"

definition pb_enc_submessage ::
  "'s enc_call \<Rightarrow> 's pb_ostream \<Rightarrow> pb_field \<Rightarrow> addr \<Rightarrow> 's enc_result" where
  "pb_enc_submessage enc st field src =
     (if fptr field = 0 then Some (oerr st ''invalid field descriptor'')
      else pb_encode_submessage enc st (fptr field) src)"

text \<open>The table \<open>PB_ENCODERS\<close>.\<close>

definition pb_encoder ::
  "mem \<Rightarrow> 's enc_call \<Rightarrow> 's pb_ostream \<Rightarrow> pb_field \<Rightarrow> addr \<Rightarrow> 's enc_result" where
  "pb_encoder m enc st field src =
     (let lt = PB_LTYPE (ftype field) in
      if lt = PB_LTYPE_BOOL then Some (pb_enc_bool m st src)
      else if lt = PB_LTYPE_VARINT then Some (pb_enc_varint m st field src)
      else if lt = PB_LTYPE_UVARINT then Some (pb_enc_uvarint m st field src)
      else if lt = PB_LTYPE_SVARINT then Some (pb_enc_svarint m st field src)
      else if lt = PB_LTYPE_FIXED32 then Some (pb_enc_fixed32 m st src)
      else if lt = PB_LTYPE_FIXED64 then Some (pb_enc_fixed64 m st src)
      else if lt = PB_LTYPE_BYTES then Some (pb_enc_bytes m st field src)
      else if lt = PB_LTYPE_STRING then Some (pb_enc_string m st field src)
      else if lt = PB_LTYPE_SUBMESSAGE then pb_enc_submessage enc st field src
      else if lt = PB_LTYPE_FIXED_LENGTH_BYTES then Some (pb_enc_fixed_length_bytes m st field src)
      else None)"

section \<open>Arrays\<close>

text \<open>The element loops: \<open>n\<close> items from \<open>p\<close> in steps of \<open>data_size\<close>.\<close>

fun enc_items ::
  "('s pb_ostream \<Rightarrow> addr \<Rightarrow> 's enc_result) \<Rightarrow> u32 \<Rightarrow> nat \<Rightarrow> addr \<Rightarrow> 's pb_ostream \<Rightarrow> 's enc_result" where
  "enc_items f dsize 0 p st = Some (True, st)"
| "enc_items f dsize (Suc n) p st =
     fseq (f st p) (enc_items f dsize n (p + ucast dsize))"

text \<open>The size of the packed payload; the inner \<open>None\<close> is a failing encoder.\<close>

definition packed_size ::
  "mem \<Rightarrow> 's enc_call \<Rightarrow> 's pb_ostream \<Rightarrow> pb_field \<Rightarrow> addr \<Rightarrow> u64 \<Rightarrow> u64 option option" where
  "packed_size m enc st field pdata count =
     (if PB_LTYPE (ftype field) = PB_LTYPE_FIXED32 then Some (Some (4 * count))
      else if PB_LTYPE (ftype field) = PB_LTYPE_FIXED64 then Some (Some (8 * count))
      else
        (case enc_items (\<lambda>s p. pb_encoder m enc s field p) (data_size field) (unat count) pdata
                (PB_OSTREAM_SIZING (ostate st)) of
           None \<Rightarrow> None
         | Some (ok, sz) \<Rightarrow> Some (if ok then Some (bytes_written sz) else None)))"

definition encode_packed ::
  "mem \<Rightarrow> 's enc_call \<Rightarrow> pb_field \<Rightarrow> addr \<Rightarrow> u64 \<Rightarrow> 's pb_ostream \<Rightarrow> 's enc_result" where
  "encode_packed m enc field pdata count st =
     (case packed_size m enc st field pdata count of
        None \<Rightarrow> None
      | Some None \<Rightarrow> Some (False, st)
      | Some (Some sz) \<Rightarrow>
          fseq (Some (pb_encode_varint st sz))
            (\<lambda>st.
               if ocallback st = None then Some (pb_write st [] sz)
               else enc_items (\<lambda>s p. pb_encoder m enc s field p) (data_size field)
                      (unat count) pdata st))"

text \<open>An element of an array that is not packed: the tag and the value, behind a pointer if
  the array holds pointers.\<close>

definition encode_unpacked_item ::
  "mem \<Rightarrow> 's enc_call \<Rightarrow> pb_field \<Rightarrow> 's pb_ostream \<Rightarrow> addr \<Rightarrow> 's enc_result" where
  "encode_unpacked_item m enc field st p =
     fseq (Some (pb_encode_tag_for_field st field))
       (\<lambda>s. if PB_ATYPE (ftype field) = PB_ATYPE_POINTER
              \<and> (PB_LTYPE (ftype field) = PB_LTYPE_STRING \<or> PB_LTYPE (ftype field) = PB_LTYPE_BYTES)
            then pb_encoder m enc s field (rd64 m p)
            else pb_encoder m enc s field p)"

definition encode_array ::
  "mem \<Rightarrow> 's enc_call \<Rightarrow> 's pb_ostream \<Rightarrow> pb_field \<Rightarrow> addr \<Rightarrow> u64 \<Rightarrow> 's enc_result" where
  "encode_array m enc st field pdata count =
     (if count = 0 then Some (True, st)
      else if PB_ATYPE (ftype field) \<noteq> PB_ATYPE_POINTER \<and> ucast (array_size field) < count
      then Some (oerr st ''array max size exceeded'')
      else if PB_LTYPE (ftype field) \<le> PB_LTYPE_LAST_PACKABLE
      then fseq (Some (pb_encode_tag st PB_WT_STRING (ftag field)))
             (encode_packed m enc field pdata count)
      else enc_items (encode_unpacked_item m enc field) (data_size field) (unat count) pdata st)"

section \<open>The environment\<close>

text \<open>
  What the descriptor pointers and the function pointers of the program's data stand for: the
  descriptor array at an address, and the user's callbacks. A callback sees the memory.
\<close>

record 's pb_enc_env =
  fields_at :: "addr \<Rightarrow> pb_field list"
  cb_encode :: "addr \<Rightarrow> mem \<Rightarrow> 's pb_ostream \<Rightarrow> pb_field \<Rightarrow> addr \<Rightarrow> bool \<times> 's pb_ostream"
  ext_encode :: "addr \<Rightarrow> mem \<Rightarrow> 's pb_ostream \<Rightarrow> addr \<Rightarrow> bool \<times> 's pb_ostream"

section \<open>The proto3 default check\<close>

text \<open>A do-while over the fields of a message that stops at the first failure.\<close>

function iter_all :: "(pb_field_iter \<Rightarrow> bool option) \<Rightarrow> pb_field_iter \<Rightarrow> bool option" where
  "iter_all P it =
     (case P it of
        None \<Rightarrow> None
      | Some False \<Rightarrow> Some False
      | Some True \<Rightarrow>
          (case pb_field_iter_next it of
             (go, it') \<Rightarrow> if go then iter_all P it' else Some True))"
  by pat_completeness auto

termination iter_all
  by (relation "measure (\<lambda>(P, it). length (istart it) - ipos it)")
    (auto dest: iter_next_bound [OF sym])

declare iter_all.simps [simp del]

definition check_default_body ::
  "mem \<Rightarrow> ('s pb_enc_env) \<Rightarrow> (pb_field \<Rightarrow> addr \<Rightarrow> bool option) \<Rightarrow> pb_field \<Rightarrow> addr \<Rightarrow> bool option" where
  "check_default_body m env rec field pdata =
     (let at = PB_ATYPE (ftype field); ht = PB_HTYPE (ftype field); lt = PB_LTYPE (ftype field);
          psize = pdata + scast (size_offset field) in
      if ht = PB_HTYPE_REQUIRED then Some False
      else if ht = PB_HTYPE_REPEATED \<and> size_offset field \<noteq> 0 then Some (rd32 m psize = 0)
      else if ht = PB_HTYPE_REPEATED \<and> at = PB_ATYPE_STATIC then Some False
      else if ht = PB_HTYPE_ONEOF then Some (rd32 m psize = 0)
      else if ht = PB_HTYPE_OPTIONAL \<and> size_offset field \<noteq> 0
      then Some (safe_read_bool m psize = False)
      else if at = PB_ATYPE_STATIC \<and> lt = PB_LTYPE_BYTES then Some (rd32 m pdata = 0)
      else if at = PB_ATYPE_STATIC \<and> lt = PB_LTYPE_STRING then Some (rd8 m pdata = 0)
      else if at = PB_ATYPE_STATIC \<and> lt = PB_LTYPE_FIXED_LENGTH_BYTES
      then Some (data_size field = 0)
      else if at = PB_ATYPE_STATIC \<and> lt = PB_LTYPE_SUBMESSAGE then
        (case pb_field_iter_begin (fields_at env (fptr field)) pdata of
           (nonempty, it) \<Rightarrow>
             if nonempty then iter_all (\<lambda>it. rec (iter_field it) (pData it)) it else Some True)
      else if at = PB_ATYPE_POINTER \<and> PB_LTYPE_LAST_PACKABLE < lt then Some (rd64 m pdata = 0)
      else Some (\<forall>b \<in> set (mem_read m pdata (unat (data_size field))). b = 0))"

fun pb_check_proto3_default_value ::
  "mem \<Rightarrow> 's pb_enc_env \<Rightarrow> nat \<Rightarrow> pb_field \<Rightarrow> addr \<Rightarrow> bool option" where
  "pb_check_proto3_default_value m env 0 field pdata = None"
| "pb_check_proto3_default_value m env (Suc n) field pdata =
     check_default_body m env (pb_check_proto3_default_value m env n) field pdata"

section \<open>Fields\<close>

text \<open>\<open>implicit_has\<close> before the allocation type is looked at.\<close>

definition implicit_has ::
  "mem \<Rightarrow> 's pb_enc_env \<Rightarrow> nat \<Rightarrow> pb_field \<Rightarrow> addr \<Rightarrow> bool option" where
  "implicit_has m env n field pdata =
     (if size_offset field \<noteq> 0 then Some True
      else if PB_HTYPE (ftype field) = PB_HTYPE_OPTIONAL
      then map_option Not (pb_check_proto3_default_value m env n field pdata)
      else Some True)"

definition encode_basic_field ::
  "mem \<Rightarrow> 's pb_enc_env \<Rightarrow> nat \<Rightarrow> 's enc_call \<Rightarrow> 's pb_ostream \<Rightarrow> pb_field \<Rightarrow> addr \<Rightarrow> 's enc_result" where
  "encode_basic_field m env n enc st field pdata0 =
     (case implicit_has m env n field pdata0 of
        None \<Rightarrow> None
      | Some has0 \<Rightarrow>
          (let ht = PB_HTYPE (ftype field);
               psize = pdata0 + scast (size_offset field);
               pdata = (if PB_ATYPE (ftype field) = PB_ATYPE_POINTER then rd64 m pdata0 else pdata0);
               has = (if PB_ATYPE (ftype field) = PB_ATYPE_POINTER then pdata \<noteq> 0 else has0);
               tag_and_data =
                 fseq (Some (pb_encode_tag_for_field st field))
                   (\<lambda>st. pb_encoder m enc st field pdata)
           in
           if ht = PB_HTYPE_REQUIRED then
             (if pdata = 0 then Some (oerr st ''missing required field'') else tag_and_data)
           else if ht = PB_HTYPE_OPTIONAL then
             (if (if size_offset field \<noteq> 0 then safe_read_bool m psize else has)
              then tag_and_data else Some (True, st))
           else if ht = PB_HTYPE_REPEATED then
             encode_array m enc st field pdata
               (ucast (if size_offset field \<noteq> 0 then rd32 m psize else array_size field))
           else if ht = PB_HTYPE_ONEOF then
             (if size_offset field = 0 then None
              else if rd32 m psize = ftag field then tag_and_data else Some (True, st))
           else Some (oerr st ''invalid field type'')))"

text \<open>A callback field holds \<open>pb_callback_t\<close>: the function pointer, then the argument.\<close>

definition encode_callback_field ::
  "mem \<Rightarrow> 's pb_enc_env \<Rightarrow> 's pb_ostream \<Rightarrow> pb_field \<Rightarrow> addr \<Rightarrow> bool \<times> 's pb_ostream" where
  "encode_callback_field m env st field pdata =
     (if rd64 m pdata \<noteq> 0 then
        (case cb_encode env (rd64 m pdata) m st field (pdata + 8) of
           (ok, st') \<Rightarrow> if \<not> ok then oerr st' ''callback error'' else (True, st'))
      else (True, st))"

definition encode_field ::
  "mem \<Rightarrow> 's pb_enc_env \<Rightarrow> nat \<Rightarrow> 's enc_call \<Rightarrow> 's pb_ostream \<Rightarrow> pb_field \<Rightarrow> addr \<Rightarrow> 's enc_result" where
  "encode_field m env n enc st field pdata =
     (let at = PB_ATYPE (ftype field) in
      if at = PB_ATYPE_STATIC \<or> at = PB_ATYPE_POINTER
      then encode_basic_field m env n enc st field pdata
      else if at = PB_ATYPE_CALLBACK then Some (encode_callback_field m env st field pdata)
      else Some (oerr st ''invalid field type''))"

section \<open>Extensions\<close>

definition default_extension_encoder ::
  "mem \<Rightarrow> 's pb_enc_env \<Rightarrow> nat \<Rightarrow> 's enc_call \<Rightarrow> 's pb_ostream \<Rightarrow> addr \<Rightarrow> 's enc_result" where
  "default_extension_encoder m env n enc st e =
     (let field = field_nth (fields_at env (exttype_arg m (ext_type m e))) 0 in
      if PB_ATYPE (ftype field) = PB_ATYPE_POINTER
      then encode_field m env n enc st field (e + 8)
      else encode_field m env n enc st field (ext_dest m e))"

fun encode_extensions ::
  "mem \<Rightarrow> 's pb_enc_env \<Rightarrow> nat \<Rightarrow> 's enc_call \<Rightarrow> nat \<Rightarrow> 's pb_ostream \<Rightarrow> addr \<Rightarrow> 's enc_result" where
  "encode_extensions m env n enc 0 st e = None"
| "encode_extensions m env n enc (Suc k) st e =
     (if e = 0 then Some (True, st)
      else
        fseq (if exttype_encode m (ext_type m e) \<noteq> 0
              then Some (ext_encode env (exttype_encode m (ext_type m e)) m st e)
              else default_extension_encoder m env n enc st e)
          (\<lambda>st. encode_extensions m env n enc k st (ext_next m e)))"

definition encode_extension_field ::
  "mem \<Rightarrow> 's pb_enc_env \<Rightarrow> nat \<Rightarrow> 's enc_call \<Rightarrow> 's pb_ostream \<Rightarrow> addr \<Rightarrow> 's enc_result" where
  "encode_extension_field m env n enc st pdata =
     encode_extensions m env n enc n st (rd64 m pdata)"

section \<open>Messages\<close>

function enc_fields ::
  "('s pb_ostream \<Rightarrow> pb_field_iter \<Rightarrow> 's enc_result) \<Rightarrow> pb_field_iter \<Rightarrow> 's pb_ostream \<Rightarrow> 's enc_result" where
  "enc_fields f it st =
     (case f st it of
        None \<Rightarrow> None
      | Some (ok, st) \<Rightarrow>
          if \<not> ok then Some (False, st)
          else
            (case pb_field_iter_next it of
               (go, it') \<Rightarrow> if go then enc_fields f it' st else Some (True, st)))"
  by pat_completeness auto
termination
  by (relation "measure (\<lambda>(f, it, st). length (istart it) - ipos it)")
    (auto dest: iter_next_bound [OF sym])

declare enc_fields.simps [simp del]

definition pb_encode_body ::
  "mem \<Rightarrow> 's pb_enc_env \<Rightarrow> nat \<Rightarrow> 's enc_call \<Rightarrow> 's pb_ostream \<Rightarrow> addr \<Rightarrow> addr \<Rightarrow> 's enc_result" where
  "pb_encode_body m env n enc st fds src =
     (case pb_field_iter_begin (fields_at env fds) src of
        (nonempty, it) \<Rightarrow>
          if \<not> nonempty then Some (True, st)
          else
            enc_fields
              (\<lambda>st it.
                 if PB_LTYPE (ftype (iter_field it)) = PB_LTYPE_EXTENSION
                 then encode_extension_field m env n enc st (pData it)
                 else encode_field m env n enc st (iter_field it) (pData it))
              it st)"

fun pb_encode ::
  "mem \<Rightarrow> 's pb_enc_env \<Rightarrow> nat \<Rightarrow> 's pb_ostream \<Rightarrow> addr \<Rightarrow> addr \<Rightarrow> 's enc_result" where
  "pb_encode m env 0 st fds src = None"
| "pb_encode m env (Suc n) st fds src =
     pb_encode_body m env n (pb_encode m env n) st fds src"

definition pb_encode_delimited ::
  "mem \<Rightarrow> 's pb_enc_env \<Rightarrow> nat \<Rightarrow> 's pb_ostream \<Rightarrow> addr \<Rightarrow> addr \<Rightarrow> 's enc_result" where
  "pb_encode_delimited m env n st fds src =
     pb_encode_submessage (pb_encode m env n) st fds src"

definition pb_encode_nullterminated ::
  "mem \<Rightarrow> 's pb_enc_env \<Rightarrow> nat \<Rightarrow> 's pb_ostream \<Rightarrow> addr \<Rightarrow> addr \<Rightarrow> 's enc_result" where
  "pb_encode_nullterminated m env n st fds src =
     fseq (pb_encode m env n st fds src) (\<lambda>st. Some (pb_write st [0] 1))"

definition pb_get_encoded_size ::
  "mem \<Rightarrow> 's pb_enc_env \<Rightarrow> nat \<Rightarrow> 's \<Rightarrow> addr \<Rightarrow> addr \<Rightarrow> u64 option option" where
  "pb_get_encoded_size m env n s fds src =
     (case pb_encode m env n (PB_OSTREAM_SIZING s) fds src of
        None \<Rightarrow> None
      | Some (ok, st) \<Rightarrow> Some (if ok then Some (bytes_written st) else None))"

end
