(* ===== verification/Pb_Wire.thy ===== *)
theory Pb_Wire
  imports Pb_Common
begin

text \<open>
  The wire-format half of the decoder of nanopb (Pods/nanopb/pb_decode.c): varints, tags,
  skipping, raw values, substreams, fixed-width values. An output parameter that the C code
  writes on success only is an option in the result.
\<close>

section \<open>Reading makes progress\<close>

lemma call_read_left:
  "call_read st count = (True, bs, st') \<Longrightarrow> bytes_left st' = bytes_left st"
  by (auto simp: call_read_def split: pb_isource.splits rd_result.splits)

lemma pb_readbyte_left:
  assumes "pb_readbyte st = (Some b, st')"
  shows "unat (bytes_left st') < unat (bytes_left st)"
proof -
  from assms have nz: "bytes_left st \<noteq> 0" and l: "bytes_left st' = bytes_left st - 1"
    by (auto simp: pb_readbyte_def split: if_splits prod.splits dest: call_read_left)
  from nz have "0 < unat (bytes_left st)" by (simp add: unat_gt_0)
  then show ?thesis unfolding l by (simp add: unat_sub word_le_nat_alt)
qed

lemma pb_read_direct_left:
  assumes "pb_read_direct st count = (True, bs, st')"
  shows "count \<le> bytes_left st \<and> bytes_left st' = bytes_left st - count"
  using assms by (auto simp: pb_read_direct_def split: if_splits prod.splits dest: call_read_left)

lemma pb_read_True_left:
  assumes "pb_read st True count = (True, bs, st')"
  shows "count \<le> bytes_left st \<and> bytes_left st' = bytes_left st - count"
  using assms by (auto simp: pb_read_def split: if_splits dest: pb_read_direct_left)

lemma pb_read_1_left:
  assumes "pb_read st True 1 = (True, bs, st')"
  shows "unat (bytes_left st') < unat (bytes_left st)"
proof -
  from pb_read_True_left [OF assms]
  have le: "1 \<le> bytes_left st" and l: "bytes_left st' = bytes_left st - 1" by simp_all
  from le have "unat (bytes_left st - 1) = unat (bytes_left st) - 1"
    by (subst unat_sub) simp_all
  moreover from le have "1 \<le> unat (bytes_left st)" by (simp add: word_le_nat_alt)
  ultimately show ?thesis unfolding l by simp
qed

section \<open>Varints\<close>

text \<open>
  \<open>pb_decode_varint32_eof\<close> keeps its bit position in a \<open>uint_fast8_t\<close>, which is 8 bits wide
  on the target, so that it wraps.
\<close>

definition varint32_add :: "u8 \<Rightarrow> u8 \<Rightarrow> u32 \<Rightarrow> u32 option" where
  "varint32_add byte bitpos result =
     (if 32 \<le> bitpos then
        (let sign_extension = (if bitpos < 63 then 0xFF else 0x01) in
         if byte AND 0x7F \<noteq> 0 \<and> (drop_bit 31 result = 0 \<or> byte \<noteq> sign_extension)
         then None else Some result)
      else Some (result OR push_bit (unat bitpos) (ucast (byte AND 0x7F))))"

function varint32_loop ::
  "'s pb_istream \<Rightarrow> u8 \<Rightarrow> u32 \<Rightarrow> (u32 \<times> u8 \<times> u8) option \<times> 's pb_istream" where
  "varint32_loop st bitpos result =
     (case pb_readbyte st of
        (None, st') \<Rightarrow> (None, st')
      | (Some byte, st') \<Rightarrow>
          (case varint32_add byte bitpos result of
             None \<Rightarrow> (None, ierr st' ''varint overflow'')
           | Some result' \<Rightarrow>
               if byte AND 0x80 \<noteq> 0 then varint32_loop st' (bitpos + 7) result'
               else (Some (result', bitpos + 7, byte), st')))"
  by pat_completeness auto
termination
  by (relation "measure (\<lambda>(st, bitpos, result). unat (bytes_left st))")
    (auto dest: pb_readbyte_left [OF sym])

declare varint32_loop.simps [simp del]

text \<open>The second component of the result is set when the C code sets \<open>*eof\<close>.\<close>

definition pb_decode_varint32_eof ::
  "'s pb_istream \<Rightarrow> u32 option \<times> bool \<times> 's pb_istream" where
  "pb_decode_varint32_eof st =
     (case pb_readbyte st of
        (None, st') \<Rightarrow> (None, bytes_left st' = 0, st')
      | (Some byte, st') \<Rightarrow>
          if byte AND 0x80 = 0 then (Some (ucast byte), False, st')
          else
            (case varint32_loop st' 7 (ucast (byte AND 0x7F)) of
               (None, st'') \<Rightarrow> (None, False, st'')
             | (Some (result, bitpos, byte), st'') \<Rightarrow>
                 if bitpos = 35 \<and> byte AND 0x70 \<noteq> 0
                 then (None, False, ierr st'' ''varint overflow'')
                 else (Some result, False, st'')))"

definition pb_decode_varint32 :: "'s pb_istream \<Rightarrow> u32 option \<times> 's pb_istream" where
  "pb_decode_varint32 st = (case pb_decode_varint32_eof st of (r, eof, st') \<Rightarrow> (r, st'))"

text \<open>Here the bit position stops at 70, below the width of its type.\<close>

function varint_loop :: "'s pb_istream \<Rightarrow> nat \<Rightarrow> u64 \<Rightarrow> u64 option \<times> 's pb_istream" where
  "varint_loop st bitpos result =
     (if 64 \<le> bitpos then (None, ierr st ''varint overflow'')
      else
        (case pb_readbyte st of
           (None, st') \<Rightarrow> (None, st')
         | (Some byte, st') \<Rightarrow>
             (let result' = result OR push_bit bitpos (ucast (byte AND 0x7F)) in
              if byte AND 0x80 \<noteq> 0 then varint_loop st' (bitpos + 7) result'
              else (Some result', st'))))"
  by pat_completeness auto
termination
  by (relation "measure (\<lambda>(st, bitpos, result). 71 - bitpos)") auto

declare varint_loop.simps [simp del]

definition pb_decode_varint :: "'s pb_istream \<Rightarrow> u64 option \<times> 's pb_istream" where
  "pb_decode_varint st = varint_loop st 0 0"

definition unzigzag :: "u64 \<Rightarrow> u64" where
  "unzigzag v = (if v AND 1 \<noteq> 0 then NOT (drop_bit 1 v) else drop_bit 1 v)"

definition pb_decode_svarint :: "'s pb_istream \<Rightarrow> u64 option \<times> 's pb_istream" where
  "pb_decode_svarint st =
     (case pb_decode_varint st of (r, st') \<Rightarrow> (map_option unzigzag r, st'))"

section \<open>Fixed-width values\<close>

definition pb_decode_fixed32 :: "'s pb_istream \<Rightarrow> u32 option \<times> 's pb_istream" where
  "pb_decode_fixed32 st =
     (case pb_read st True 4 of
        (ok, bs, st') \<Rightarrow>
          if \<not> ok then (None, st')
          else
            (Some (push_bit 0 (ucast (bs ! 0)) OR push_bit 8 (ucast (bs ! 1))
                   OR push_bit 16 (ucast (bs ! 2)) OR push_bit 24 (ucast (bs ! 3))), st'))"

definition pb_decode_fixed64 :: "'s pb_istream \<Rightarrow> u64 option \<times> 's pb_istream" where
  "pb_decode_fixed64 st =
     (case pb_read st True 8 of
        (ok, bs, st') \<Rightarrow>
          if \<not> ok then (None, st')
          else
            (Some (push_bit 0 (ucast (bs ! 0)) OR push_bit 8 (ucast (bs ! 1))
                   OR push_bit 16 (ucast (bs ! 2)) OR push_bit 24 (ucast (bs ! 3))
                   OR push_bit 32 (ucast (bs ! 4)) OR push_bit 40 (ucast (bs ! 5))
                   OR push_bit 48 (ucast (bs ! 6)) OR push_bit 56 (ucast (bs ! 7))), st'))"

section \<open>Tags and skipping\<close>

definition pb_decode_tag ::
  "'s pb_istream \<Rightarrow> (u32 \<times> u32) option \<times> bool \<times> 's pb_istream" where
  "pb_decode_tag st =
     (case pb_decode_varint32_eof st of
        (None, eof, st') \<Rightarrow> (None, eof, st')
      | (Some temp, eof, st') \<Rightarrow>
          if temp = 0 then (None, True, st')
          else (Some (temp AND 7, drop_bit 3 temp), eof, st'))"

function pb_skip_varint :: "'s pb_istream \<Rightarrow> bool \<times> 's pb_istream" where
  "pb_skip_varint st =
     (case pb_read st True 1 of
        (ok, bs, st') \<Rightarrow>
          if \<not> ok then (False, st')
          else if bs ! 0 AND 0x80 \<noteq> 0 then pb_skip_varint st' else (True, st'))"
  by pat_completeness auto
termination
  by (relation "measure (\<lambda>st. unat (bytes_left st))") (auto dest: pb_read_1_left [OF sym])

declare pb_skip_varint.simps [simp del]

definition pb_skip_string :: "'s pb_istream \<Rightarrow> bool \<times> 's pb_istream" where
  "pb_skip_string st =
     (case pb_decode_varint32 st of
        (None, st') \<Rightarrow> (False, st')
      | (Some len, st') \<Rightarrow>
          (case pb_read st' False (ucast len) of (ok, bs, st'') \<Rightarrow> (ok, st'')))"

definition pb_skip_field :: "'s pb_istream \<Rightarrow> u32 \<Rightarrow> bool \<times> 's pb_istream" where
  "pb_skip_field st wire_type =
     (if wire_type = PB_WT_VARINT then pb_skip_varint st
      else if wire_type = PB_WT_64BIT
      then (case pb_read st False 8 of (ok, bs, st') \<Rightarrow> (ok, st'))
      else if wire_type = PB_WT_STRING then pb_skip_string st
      else if wire_type = PB_WT_32BIT
      then (case pb_read st False 4 of (ok, bs, st') \<Rightarrow> (ok, st'))
      else (False, ierr st ''invalid wire_type''))"

section \<open>Raw values\<close>

text \<open>The bytes returned are what the loop has put into the caller's buffer.\<close>

function raw_varint ::
  "'s pb_istream \<Rightarrow> nat \<Rightarrow> nat \<Rightarrow> bytes \<Rightarrow> bool \<times> bytes \<times> 's pb_istream" where
  "raw_varint st max_sz sz buf =
     (if max_sz < Suc sz then (False, buf, st)
      else
        (case pb_read st True 1 of
           (ok, bs, st') \<Rightarrow>
             if \<not> ok then (False, buf, st')
             else if bs ! 0 AND 0x80 \<noteq> 0 then raw_varint st' max_sz (Suc sz) (buf @ bs)
             else (True, buf @ bs, st')))"
  by pat_completeness auto
termination
  by (relation "measure (\<lambda>(st, max_sz, sz, buf). max_sz - sz)") auto

declare raw_varint.simps [simp del]

definition read_raw_value ::
  "'s pb_istream \<Rightarrow> u32 \<Rightarrow> nat \<Rightarrow> bool \<times> bytes \<times> 's pb_istream" where
  "read_raw_value st wire_type max_sz =
     (if wire_type = PB_WT_VARINT then raw_varint st max_sz 0 []
      else if wire_type = PB_WT_64BIT then pb_read st True 8
      else if wire_type = PB_WT_32BIT then pb_read st True 4
      else (False, [], ierr st ''invalid wire_type''))"

section \<open>Substreams\<close>

definition pb_make_string_substream ::
  "'s pb_istream \<Rightarrow> 's pb_istream option \<times> 's pb_istream" where
  "pb_make_string_substream st =
     (case pb_decode_varint32 st of
        (None, st') \<Rightarrow> (None, st')
      | (Some sz, st') \<Rightarrow>
          if bytes_left st' < ucast sz then (None, ierr st' ''parent stream too short'')
          else (Some (st'\<lparr>bytes_left := ucast sz\<rparr>),
                st'\<lparr>bytes_left := bytes_left st' - ucast sz\<rparr>))"

definition pb_close_string_substream ::
  "'s pb_istream \<Rightarrow> 's pb_istream \<Rightarrow> bool \<times> 's pb_istream" where
  "pb_close_string_substream st sub =
     (case (if bytes_left sub \<noteq> 0 then pb_read sub False (bytes_left sub) else (True, [], sub)) of
        (ok, bs, sub') \<Rightarrow>
          if \<not> ok then (False, st)
          else (True, st\<lparr>isource := isource sub', ierrmsg := ierrmsg sub'\<rparr>))"

end
