(* ===== verification/Pb_Codec.thy ===== *)
theory Pb_Codec
  imports Pb_Encode Pb_Wire
begin

text \<open>
  Correctness of the wire format: what the encoder writes, the decoder reads back. Two
  interfaces carry the proofs: \<open>pb_sink\<close>, what an output callback promises (it appends the
  bytes while it has room), and \<open>pb_source\<close>, what an input callback promises (it delivers the
  next bytes). Both are discharged for the memory-buffer callbacks \<open>buf_write\<close> and \<open>buf_read\<close>.
\<close>

section \<open>Seven-bit groups\<close>

lemma and_7F_u8: "(b :: u8) AND 0x7F = take_bit 7 b"
  by (simp add: take_bit_eq_mask mask_eq_exp_minus_1)

lemma and_7F_u64: "(b :: u64) AND 0x7F = take_bit 7 b"
  by (simp add: take_bit_eq_mask mask_eq_exp_minus_1)

lemma u8_80: "(0x80 :: u8) = push_bit 7 1"
  by simp

lemma and_80_u8: "(b :: u8) AND 0x80 \<noteq> 0 \<longleftrightarrow> bit b 7"
  using and_exp_eq_0_iff_not_bit [of b 7] by simp

lemma or_80_bit: "bit ((b :: u8) OR 0x80) n \<longleftrightarrow> bit b n \<or> n = 7"
  unfolding u8_80 by (auto simp: bit_or_iff bit_push_bit_iff simp del: push_bit_of_1)

lemma le_7F_iff: "(v :: u64) \<le> 0x7F \<longleftrightarrow> drop_bit 7 v = 0"
proof -
  have "drop_bit 7 v = 0 \<longleftrightarrow> unat v div 128 = 0"
    by (simp add: drop_bit_eq_div unat_div word_unat_eq_iff)
  also have "\<dots> \<longleftrightarrow> unat v \<le> 127" by auto
  finally show ?thesis by (simp add: word_le_nat_alt)
qed

lemma take_drop_7: "take_bit 7 v OR push_bit 7 (drop_bit 7 v) = (v :: u64)"
proof (rule bit_word_eqI)
  fix n
  assume "n < LENGTH(64)"
  then show "bit (take_bit 7 v OR push_bit 7 (drop_bit 7 v)) n = bit v n"
    by (cases "n < 7") (simp_all add: bit_simps)
qed

lemma le_7F_take: "(v :: u64) \<le> 0x7F \<Longrightarrow> take_bit 7 v = v"
  using take_drop_7 [of v] by (simp add: le_7F_iff)

lemma group_payload:
  "take_bit 7 (ucast (take_bit 7 (v :: u64)) OR (0x80 :: u8)) = ucast (take_bit 7 v)"
  by (rule bit_word_eqI) (auto simp: bit_take_bit_iff or_80_bit bit_simps)

lemma group_last: "v \<le> 0x7F \<Longrightarrow> take_bit 7 (ucast v :: u8) = ucast (v :: u64)"
proof -
  assume v: "v \<le> 0x7F"
  have "take_bit 7 (ucast (take_bit 7 v) :: u8) = ucast (take_bit 7 v)"
    by (rule bit_word_eqI) (auto simp: bit_simps)
  with v show ?thesis by (simp add: le_7F_take)
qed

lemma group_stop: "v \<le> 0x7F \<Longrightarrow> \<not> bit (ucast (v :: u64) :: u8) 7"
  using group_last [of v] by (metis bit_take_bit_iff less_irrefl)

lemma group_value: "ucast (ucast (take_bit 7 v) :: u8) = take_bit 7 (v :: u64)"
  by (rule bit_word_eqI) (auto simp: bit_simps)

lemma group_value_last: "v \<le> 0x7F \<Longrightarrow> ucast (ucast v :: u8) = (v :: u64)"
  using group_value [of v] by (simp add: le_7F_take)

lemmas varint_groups =
  and_7F_u8 and_7F_u64 and_80_u8 group_payload group_last group_stop group_value group_value_last

section \<open>The varint code\<close>

text \<open>The reference code: groups of seven bits, all but the last with the top bit set.\<close>

function varint_list :: "u64 \<Rightarrow> bytes" where
  "varint_list v =
     (if v \<le> 0x7F then [ucast v]
      else (ucast (take_bit 7 v) OR 0x80) # varint_list (drop_bit 7 v))"
  by pat_completeness auto
termination
  by (relation "measure unat")
    (auto intro: drop_bit_less_self_u64 simp: le_7F_iff simp del: drop_bit_numeral_minus_bit1)

declare varint_list.simps [simp del]

lemma varint_fill_simps:
  "varint_fill 0 = []"
  "v \<noteq> 0 \<Longrightarrow> varint_fill v = (ucast (take_bit 7 v) OR 0x80) # varint_fill (drop_bit 7 v)"
  by (subst varint_fill.simps, simp add: and_7F_u64)+

lemma varint_fill_last:
  "v \<noteq> 0 \<Longrightarrow> (varint_fill v)[length (varint_fill v) - 1 :=
     (varint_fill v ! (length (varint_fill v) - 1)) AND 0x7F] = varint_list v"
proof (induction v rule: varint_list.induct)
  case (1 v)
  show ?case
  proof (cases "v \<le> 0x7F")
    case True
    with 1 show ?thesis
      by (simp add: varint_fill_simps le_7F_iff [THEN iffD1] varint_list.simps [of v] and_7F_u8
          group_payload le_7F_take group_last)
  next
    case False
    then have nz: "drop_bit 7 v \<noteq> 0" by (simp add: le_7F_iff)
    let ?f = "varint_fill (drop_bit 7 v)"
    have f: "varint_fill v = (ucast (take_bit 7 v) OR 0x80) # ?f"
      by (rule varint_fill_simps(2) [OF 1(2)])
    note ih = "1.IH" [OF False nz]
    from nz have "?f \<noteq> []" by (simp add: varint_fill_simps)
    then obtain k where "length ?f = Suc k" by (cases ?f) auto
    with ih False show ?thesis unfolding f varint_list.simps [of v] by simp
  qed
qed

text \<open>The buffer of \<open>pb_encode_varint\<close> holds the reference code.\<close>

lemma varint_bytes_eq: "varint_bytes v = varint_list v"
proof (cases "v \<le> 0x7F")
  case True
  then show ?thesis by (simp add: varint_bytes_def varint_list.simps [of v])
next
  case False
  then have "v \<noteq> 0" by auto
  with False varint_fill_last [of v] show ?thesis by (simp add: varint_bytes_def Let_def)
qed

lemma varint_list_length_bound:
  "unat v < 2 ^ (7 * k) \<Longrightarrow> 0 < k \<Longrightarrow> length (varint_list v) \<le> k"
proof (induction v arbitrary: k rule: varint_list.induct)
  case (1 v)
  show ?case
  proof (cases "v \<le> 0x7F")
    case True
    with 1 show ?thesis by (simp add: varint_list.simps [of v])
  next
    case False
    have "k \<noteq> 1" using False 1 by (auto simp: word_le_nat_alt)
    then obtain j where k: "k = Suc j" and j: "0 < j" using 1 by (cases k) auto
    have "unat (drop_bit 7 v) = unat v div 2 ^ 7" by (simp add: drop_bit_eq_div unat_div)
    moreover have "unat v div 2 ^ 7 < 2 ^ (7 * j)"
      using 1 k by (intro less_mult_imp_div_less) (simp add: power_add mult.commute)
    ultimately have "length (varint_list (drop_bit 7 v)) \<le> j"
      using "1.IH" [OF False] j by simp
    with False k show ?thesis by (simp add: varint_list.simps [of v])
  qed
qed

lemma varint_list_length_lower:
  "2 ^ (7 * k) \<le> unat v \<Longrightarrow> k < length (varint_list v)"
proof (induction v arbitrary: k rule: varint_list.induct)
  case (1 v)
  show ?case
  proof (cases k)
    case 0
    then show ?thesis by (simp add: varint_list.simps [of v])
  next
    case (Suc j)
    have p: "(2::nat) ^ (7 * Suc j) = 2 ^ (7 * j) * 128" by (simp add: power_add)
    have "(2::nat) ^ 7 \<le> 2 ^ (7 * Suc j)" by (rule power_increasing) simp_all
    then have "128 \<le> unat v" using 1 Suc by simp
    then have big: "\<not> v \<le> 0x7F" by (simp add: word_le_nat_alt)
    have "(2::nat) ^ (7 * Suc j) div 128 = 2 ^ (7 * j)" by (simp only: p)
    then have "2 ^ (7 * j) \<le> unat v div 128"
      using div_le_mono [OF 1(2), of 128] by (simp only: Suc)
    then have "2 ^ (7 * j) \<le> unat (drop_bit 7 v)" by (simp add: drop_bit_eq_div unat_div)
    with "1.IH" [OF big] big Suc show ?thesis by (simp add: varint_list.simps [of v])
  qed
qed

lemma varint_list_le_10: "length (varint_list v) \<le> 10"
  using varint_list_length_bound [of v 10] unat_u64_lt [of v] by simp

lemma varint_list_not_Nil [simp]: "varint_list v \<noteq> []"
  by (subst varint_list.simps) simp

lemma varint_list_pos: "0 < length (varint_list v)"
  by simp

section \<open>What an input stream promises\<close>

locale pb_source =
  fixes src_ok :: "'s pb_isource \<Rightarrow> bool"
    and src_bytes :: "'s pb_isource \<Rightarrow> bytes"
  assumes src_call:
    "src_ok (isource st) \<Longrightarrow> unat count \<le> length (src_bytes (isource st)) \<Longrightarrow>
      \<exists>src'. call_read st count
          = (True, take (unat count) (src_bytes (isource st)), st\<lparr>isource := src'\<rparr>)
        \<and> src_ok src' \<and> src_bytes src' = drop (unat count) (src_bytes (isource st))"
begin

text \<open>A good stream has the bytes it says are left; \<open>rest\<close> is what it will deliver.\<close>

definition good :: "'s pb_istream \<Rightarrow> bool" where
  "good st \<longleftrightarrow> src_ok (isource st) \<and> unat (bytes_left st) \<le> length (src_bytes (isource st))"

definition rest :: "'s pb_istream \<Rightarrow> bytes" where
  "rest st = take (unat (bytes_left st)) (src_bytes (isource st))"

lemma length_rest: "good st \<Longrightarrow> length (rest st) = unat (bytes_left st)"
  by (simp add: good_def rest_def)

lemma good_ierr [simp]: "good (ierr st msg) = good st" "rest (ierr st msg) = rest st"
  by (simp_all add: good_def rest_def ierr_def)

text \<open>\<open>reads st n st'\<close>: \<open>st'\<close> is \<open>st\<close> after \<open>n\<close> bytes have been taken from it.\<close>

definition reads :: "'s pb_istream \<Rightarrow> nat \<Rightarrow> 's pb_istream \<Rightarrow> bool" where
  "reads st n st' \<longleftrightarrow>
     good st' \<and> n \<le> unat (bytes_left st) \<and> rest st' = drop n (rest st)
     \<and> src_bytes (isource st') = drop n (src_bytes (isource st))
     \<and> unat (bytes_left st') = unat (bytes_left st) - n \<and> ierrmsg st' = ierrmsg st"

lemma reads_refl: "good st \<Longrightarrow> reads st 0 st"
  by (simp add: reads_def)

lemma reads_trans: "reads st n st1 \<Longrightarrow> reads st1 k st2 \<Longrightarrow> reads st (n + k) st2"
  by (auto simp: reads_def add.commute)

lemma call_reads:
  assumes g: "good st" and n: "count \<le> bytes_left st"
  obtains st' where "call_read st count = (True, take (unat count) (rest st), st')"
    and "reads st (unat count) (st'\<lparr>bytes_left := bytes_left st' - count\<rparr>)"
    and "bytes_left st' = bytes_left st"
proof -
  from n have le: "unat count \<le> unat (bytes_left st)" by (simp add: word_le_nat_alt)
  with g have "unat count \<le> length (src_bytes (isource st))" and ok: "src_ok (isource st)"
    by (simp_all add: good_def)
  from src_call [OF ok this(1)] obtain src' where
    c: "call_read st count = (True, take (unat count) (src_bytes (isource st)), st\<lparr>isource := src'\<rparr>)"
    and ok': "src_ok src'" and b: "src_bytes src' = drop (unat count) (src_bytes (isource st))"
    by blast
  have u: "unat (bytes_left st - count) = unat (bytes_left st) - unat count"
    using n by (simp add: unat_sub)
  have "take (unat count) (src_bytes (isource st)) = take (unat count) (rest st)"
    using le by (simp add: rest_def min_def)
  with c have "call_read st count = (True, take (unat count) (rest st), st\<lparr>isource := src'\<rparr>)"
    by simp
  moreover have "reads st (unat count)
      ((st\<lparr>isource := src'\<rparr>)\<lparr>bytes_left := bytes_left (st\<lparr>isource := src'\<rparr>) - count\<rparr>)"
    using g ok' b u le by (simp add: reads_def good_def rest_def drop_take diff_le_mono)
  ultimately show ?thesis using that [of "st\<lparr>isource := src'\<rparr>"] by simp
qed

lemma read_direct_reads:
  assumes "good st" and "count \<le> bytes_left st"
  shows "\<exists>st'. pb_read_direct st count = (True, take (unat count) (rest st), st')
    \<and> reads st (unat count) st'"
  by (rule call_reads [OF assms]) (use assms in \<open>auto simp: pb_read_direct_def not_less\<close>)

lemma readbyte_reads:
  assumes g: "good st" and r: "rest st = b # bs"
  shows "\<exists>st'. pb_readbyte st = (Some b, st') \<and> reads st 1 st'"
proof -
  have "unat (bytes_left st) = length (b # bs)" using length_rest [OF g] r by simp
  then have nz: "bytes_left st \<noteq> 0" and le: "1 \<le> bytes_left st"
    by (auto simp: word_le_nat_alt)
  from call_reads [OF g le] obtain st' where
    "call_read st 1 = (True, take (unat (1::u64)) (rest st), st')"
    "reads st (unat (1::u64)) (st'\<lparr>bytes_left := bytes_left st' - 1\<rparr>)" by blast
  with nz r show ?thesis by (simp add: pb_readbyte_def nth_or_def)
qed

lemma readbyte_eos:
  "bytes_left st = 0 \<Longrightarrow> pb_readbyte st = (None, ierr st ''end-of-stream'')"
  by (simp add: pb_readbyte_def)

lemma read_True_reads:
  assumes "good st" and "count \<le> bytes_left st"
  shows "\<exists>st'. pb_read st True count = (True, take (unat count) (rest st), st')
    \<and> reads st (unat count) st'"
  using read_direct_reads [OF assms] assms by (auto simp: pb_read_def reads_refl)

text \<open>Skipping in steps of 16 takes the same bytes as one read.\<close>

lemma read_skip_reads:
  "good st \<Longrightarrow> count \<le> bytes_left st \<Longrightarrow>
    \<exists>st'. pb_read_skip st count = (True, [], st') \<and> reads st (unat count) st'"
proof (induction st count rule: pb_read_skip.induct)
  case (1 st count)
  show ?case
  proof (cases "16 < count")
    case True
    with 1 have "16 \<le> bytes_left st" by simp
    from read_direct_reads [OF 1(2) this] obtain st1 where
      d: "pb_read_direct st 16 = (True, take (unat (16::u64)) (rest st), st1)"
      and r: "reads st (unat (16::u64)) st1" by blast
    have u: "unat (count - 16) = unat count - 16"
      using True by (subst unat_sub) simp_all
    from r have g1: "good st1" and l1: "unat (bytes_left st1) = unat (bytes_left st) - 16"
      by (simp_all add: reads_def)
    have "unat count \<le> unat (bytes_left st)" using 1(3) by (simp add: word_le_nat_alt)
    then have "count - 16 \<le> bytes_left st1"
      by (simp add: word_le_nat_alt u l1)
    from "1.IH" [OF True d [symmetric] refl _ g1 this] obtain st' where
      "pb_read_skip st1 (count - 16) = (True, [], st')" "reads st1 (unat (count - 16)) st'"
      by auto
    moreover have "unat count = 16 + unat (count - 16)"
      using True by (simp add: u word_less_nat_alt)
    moreover have "reads st 16 st1" using r by simp
    ultimately have "pb_read_skip st count = (True, [], st')" and "reads st (unat count) st'"
      using d True by (simp_all add: pb_read_skip.simps [of st count] reads_trans)
    then show ?thesis by blast
  next
    case False
    from read_direct_reads [OF 1(2,3)] False show ?thesis
      by (auto simp: pb_read_skip.simps [of st count])
  qed
qed

lemma read_False_reads:
  assumes "good st" and "count \<le> bytes_left st"
  shows "\<exists>bs st'. pb_read st False count = (True, bs, st') \<and> reads st (unat count) st'"
  using read_direct_reads [OF assms] read_skip_reads [OF assms] assms
  by (auto simp: pb_read_def reads_refl)

end

text \<open>The memory buffer keeps the promise as long as its position is inside the buffer.\<close>

fun buf_src_ok :: "'s pb_isource \<Rightarrow> bool" where
  "buf_src_ok (BufRead buf pos) \<longleftrightarrow> pos \<le> length buf"
| "buf_src_ok (UserRead f s) \<longleftrightarrow> False"

fun buf_src_bytes :: "'s pb_isource \<Rightarrow> bytes" where
  "buf_src_bytes (BufRead buf pos) = drop pos buf"
| "buf_src_bytes (UserRead f s) = []"

interpretation bufsrc: pb_source buf_src_ok buf_src_bytes
proof unfold_locales
  fix st :: "'s pb_istream" and count :: u64
  assume ok: "buf_src_ok (isource st)" and n: "unat count \<le> length (buf_src_bytes (isource st))"
  then obtain buf pos where s: "isource st = BufRead buf pos" and "pos \<le> length buf"
    by (cases "isource st") auto
  with n have "pos + unat count \<le> length buf" by simp
  then show "\<exists>src'. call_read st count
      = (True, take (unat count) (buf_src_bytes (isource st)), st\<lparr>isource := src'\<rparr>)
    \<and> buf_src_ok src' \<and> buf_src_bytes src' = drop (unat count) (buf_src_bytes (isource st))"
    by (intro exI [of _ "BufRead buf (pos + unat count)"])
      (simp add: s call_read_def read_at_in_bounds add.commute)
qed

lemma istream_from_buffer_good:
  "unat n \<le> length buf \<Longrightarrow> bufsrc.good (pb_istream_from_buffer buf n)"
  by (simp add: bufsrc.good_def pb_istream_from_buffer_def)

lemma istream_from_buffer_rest:
  "bufsrc.rest (pb_istream_from_buffer buf n) = take (unat n) buf"
  by (simp add: bufsrc.rest_def pb_istream_from_buffer_def)

section \<open>Reading varints\<close>

lemma group_payload': "take_bit 7 (ucast (take_bit 7 (v :: u64)) :: u8) = ucast (take_bit 7 v)"
  by (rule bit_word_eqI) (auto simp: bit_simps)

lemma group_merge_u64:
  "(push_bit b (take_bit 7 v) OR push_bit (b + 7) (drop_bit 7 v)) = push_bit b (v :: u64)"
proof -
  have "push_bit b v = push_bit b (take_bit 7 v OR push_bit 7 (drop_bit 7 v))"
    by (simp only: take_drop_7)
  also have "\<dots> = push_bit b (take_bit 7 v) OR push_bit (b + 7) (drop_bit 7 v)"
    by (simp only: push_bit_or push_bit_push_bit)
  finally show ?thesis by simp
qed

lemma unat_drop_bit_less:
  assumes "unat (v :: u64) < 2 ^ (n + 7)"
  shows "unat (drop_bit 7 v) < 2 ^ n"
proof -
  have "unat (drop_bit 7 v) = unat v div 2 ^ 7" by (simp add: drop_bit_eq_div unat_div)
  also have "\<dots> < 2 ^ n"
    using assms by (intro less_mult_imp_div_less) (simp add: power_add)
  finally show ?thesis .
qed

lemma big_needs_bits:
  assumes "\<not> (v :: u64) \<le> 0x7F" and "unat v < 2 ^ n"
  shows "7 < n"
proof (rule ccontr)
  assume "\<not> 7 < n"
  then have "(2::nat) ^ n \<le> 2 ^ 7" by (intro power_increasing) simp_all
  with assms show False by (simp add: word_le_nat_alt)
qed

context pb_source
begin

lemma varint_loop_reads:
  "good st \<Longrightarrow> rest st = varint_list v @ ts \<Longrightarrow> bitpos < 64 \<Longrightarrow> unat v < 2 ^ (64 - bitpos) \<Longrightarrow>
    \<exists>st'. varint_loop st bitpos result = (Some (result OR push_bit bitpos v), st')
      \<and> reads st (length (varint_list v)) st'"
proof (induction v arbitrary: st bitpos result rule: varint_list.induct)
  case (1 v)
  show ?case
  proof (cases "v \<le> 0x7F")
    case True
    with 1 have "rest st = ucast v # ts" by (simp add: varint_list.simps [of v])
    from readbyte_reads [OF 1(2) this] obtain st' where
      "pb_readbyte st = (Some (ucast v), st')" "reads st 1 st'" by blast
    with True 1 show ?thesis
      by (simp add: varint_loop.simps [of st] varint_groups varint_list.simps [of v])
  next
    case False
    define b :: u8 where "b = ucast (take_bit 7 v) OR 0x80"
    from False 1 have "rest st = b # varint_list (drop_bit 7 v) @ ts"
      by (simp add: varint_list.simps [of v] b_def)
    from readbyte_reads [OF 1(2) this] obtain st1 where
      r: "pb_readbyte st = (Some b, st1)" "reads st 1 st1" by blast
    have bits: "take_bit 7 b = ucast (take_bit 7 v)" "bit b 7"
      by (simp_all add: b_def group_payload group_payload' or_80_bit)
    from big_needs_bits [OF False 1(5)] have bp: "bitpos + 7 < 64" by simp
    have e: "64 - (bitpos + 7) + 7 = 64 - bitpos" using bp by simp
    have small: "unat (drop_bit 7 v) < 2 ^ (64 - (bitpos + 7))"
      by (rule unat_drop_bit_less) (simp only: e 1(5))
    have g1: "good st1" and rest1: "rest st1 = varint_list (drop_bit 7 v) @ ts"
      using r(2) \<open>rest st = b # _\<close> by (simp_all add: reads_def)
    from "1.IH" [OF False g1 rest1 bp small, of "result OR push_bit bitpos (take_bit 7 v)"]
    obtain st' where
      l: "varint_loop st1 (bitpos + 7) (result OR push_bit bitpos (take_bit 7 v))
          = (Some ((result OR push_bit bitpos (take_bit 7 v)) OR push_bit (bitpos + 7) (drop_bit 7 v)), st')"
      and r': "reads st1 (length (varint_list (drop_bit 7 v))) st'" by blast
    have "varint_loop st bitpos result
        = varint_loop st1 (bitpos + 7) (result OR push_bit bitpos (take_bit 7 v))"
      using 1(4) r(1) bits
      by (subst varint_loop.simps) (simp add: and_7F_u8 and_80_u8 group_value Let_def)
    also note l
    finally have "varint_loop st bitpos result
        = (Some ((result OR push_bit bitpos (take_bit 7 v)) OR push_bit (bitpos + 7) (drop_bit 7 v)), st')" .
    moreover have "reads st (length (varint_list v)) st'"
      using reads_trans [OF r(2) r'] False by (simp add: varint_list.simps [of v])
    ultimately show ?thesis by (simp add: or.assoc group_merge_u64)
  qed
qed

lemma decode_varint_reads:
  assumes "good st" and "rest st = varint_list v @ ts"
  shows "\<exists>st'. pb_decode_varint st = (Some v, st') \<and> reads st (length (varint_list v)) st'"
  using varint_loop_reads [OF assms, of 0 0] unat_u64_lt [of v]
  by (simp add: pb_decode_varint_def)

end

lemma group_merge_u32:
  "(push_bit b (ucast (take_bit 7 v)) OR push_bit (b + 7) (ucast (drop_bit 7 v)))
     = (push_bit b (ucast (v :: u64)) :: u32)"
proof -
  have "ucast (take_bit 7 v) OR push_bit 7 (ucast (drop_bit 7 v)) = (ucast v :: u32)"
  proof (rule bit_word_eqI)
    fix n
    assume "n < LENGTH(32)"
    then show "bit (ucast (take_bit 7 v) OR push_bit 7 (ucast (drop_bit 7 v)) :: u32) n
        = bit (ucast v :: u32) n"
      by (cases "n < 7") (auto simp: bit_simps)
  qed
  then have "push_bit b (ucast v :: u32)
      = push_bit b (ucast (take_bit 7 v) OR push_bit 7 (ucast (drop_bit 7 v)))" by simp
  also have "\<dots> = push_bit b (ucast (take_bit 7 v)) OR push_bit (b + 7) (ucast (drop_bit 7 v))"
    by (simp only: push_bit_or push_bit_push_bit)
  finally show ?thesis by simp
qed

lemma group_value_u32: "ucast (ucast (take_bit 7 v) :: u8) = (ucast (take_bit 7 (v :: u64)) :: u32)"
  by (rule bit_word_eqI) (auto simp: bit_simps)

lemma and_70_small:
  assumes "unat (v :: u64) < 16"
  shows "(ucast v :: u8) AND 0x70 = 0"
proof -
  have "unat (ucast v :: u8) = unat v mod 256" by (simp add: unsigned_ucast_eq take_bit_eq_mod)
  with assms have u: "unat (ucast v :: u8) < 16" by simp
  have t: "take_bit 4 (ucast v :: u8) = ucast v"
    using u by (simp add: take_bit_eq_mod word_unat_eq_iff unat_mod)
  have "take_bit 4 (ucast v :: u8) AND 0x70 = 0"
    by (simp add: take_bit_eq_mask mask_eq_exp_minus_1 and.assoc)
  with t show ?thesis by simp
qed

context pb_source
begin

lemma varint32_loop_reads:
  "good st \<Longrightarrow> rest st = varint_list v @ ts \<Longrightarrow> b < 32 \<Longrightarrow> unat v < 2 ^ (32 - b) \<Longrightarrow>
    \<exists>st' bp byte. varint32_loop st (word_of_nat b) result
        = (Some (result OR push_bit b (ucast v), bp, byte), st')
      \<and> \<not> (bp = 35 \<and> byte AND 0x70 \<noteq> 0)
      \<and> reads st (length (varint_list v)) st'"
proof (induction v arbitrary: st b result rule: varint_list.induct)
  case (1 v)
  have nb: "\<not> 32 \<le> (word_of_nat b :: u8)" and ub: "unat (word_of_nat b :: u8) = b"
    using 1(4) by (simp_all add: word_le_nat_alt unat_of_nat take_bit_eq_mod)
  show ?case
  proof (cases "v \<le> 0x7F")
    case True
    with 1 have "rest st = ucast v # ts" by (simp add: varint_list.simps [of v])
    from readbyte_reads [OF 1(2) this] obtain st' where
      r: "pb_readbyte st = (Some (ucast v), st')" "reads st 1 st'" by blast
    have "\<not> (word_of_nat b + 7 = (35::u8) \<and> (ucast v :: u8) AND 0x70 \<noteq> 0)"
    proof
      assume h: "word_of_nat b + 7 = (35::u8) \<and> (ucast v :: u8) AND 0x70 \<noteq> 0"
      then have "(word_of_nat b :: u8) = 28" by (simp add: eq_diff_eq [symmetric])
      then have "b = 28" using ub by simp
      with 1(5) h show False using and_70_small [of v] by simp
    qed
    moreover have "(ucast (ucast v :: u8) :: u32) = ucast v"
      using group_value_u32 [of v] le_7F_take [OF True] by simp
    ultimately show ?thesis
      using True r nb ub
      by (simp add: varint32_loop.simps [of st] varint32_add_def varint_groups varint_list.simps [of v])
  next
    case False
    define c :: u8 where "c = ucast (take_bit 7 v) OR 0x80"
    from False 1 have rs: "rest st = c # varint_list (drop_bit 7 v) @ ts"
      by (simp add: varint_list.simps [of v] c_def)
    from readbyte_reads [OF 1(2) rs] obtain st1 where
      r: "pb_readbyte st = (Some c, st1)" "reads st 1 st1" by blast
    have bits: "take_bit 7 c = ucast (take_bit 7 v)" "bit c 7"
      by (simp_all add: c_def group_payload group_payload' or_80_bit)
    from big_needs_bits [OF False 1(5)] have bp: "b + 7 < 32" by simp
    have e: "32 - (b + 7) + 7 = 32 - b" using bp by simp
    have small: "unat (drop_bit 7 v) < 2 ^ (32 - (b + 7))"
      by (rule unat_drop_bit_less) (simp only: e 1(5))
    have g1: "good st1" and rest1: "rest st1 = varint_list (drop_bit 7 v) @ ts"
      using r(2) rs by (simp_all add: reads_def)
    have wb: "(word_of_nat b + 7 :: u8) = word_of_nat (b + 7)" by simp
    from "1.IH" [OF False g1 rest1 bp small, of "result OR push_bit b (ucast (take_bit 7 v))"]
    obtain st' bp' byte where
      l: "varint32_loop st1 (word_of_nat (b + 7)) (result OR push_bit b (ucast (take_bit 7 v)))
          = (Some ((result OR push_bit b (ucast (take_bit 7 v))) OR push_bit (b + 7) (ucast (drop_bit 7 v)), bp', byte), st')"
      and fin: "\<not> (bp' = 35 \<and> byte AND 0x70 \<noteq> 0)"
      and r': "reads st1 (length (varint_list (drop_bit 7 v))) st'" by blast
    have add: "varint32_add c (word_of_nat b) result = Some (result OR push_bit b (ucast (take_bit 7 v)))"
      using nb ub bits by (simp add: varint32_add_def and_7F_u8 group_value_u32)
    have "varint32_loop st (word_of_nat b) result
        = varint32_loop st1 (word_of_nat (b + 7)) (result OR push_bit b (ucast (take_bit 7 v)))"
      using r(1) bits(2) add unfolding wb [symmetric]
      by (subst varint32_loop.simps) (simp add: and_80_u8)
    also note l
    finally have "varint32_loop st (word_of_nat b) result
        = (Some ((result OR push_bit b (ucast (take_bit 7 v))) OR push_bit (b + 7) (ucast (drop_bit 7 v)), bp', byte), st')" .
    moreover have "reads st (length (varint_list v)) st'"
      using reads_trans [OF r(2) r'] False by (simp add: varint_list.simps [of v])
    ultimately show ?thesis using fin by (auto simp: or.assoc group_merge_u32)
  qed
qed

lemma decode_varint32_eof_reads:
  assumes g: "good st" and r: "rest st = varint_list v @ ts" and v: "unat v < 2 ^ 32"
  shows "\<exists>st'. pb_decode_varint32_eof st = (Some (ucast v), False, st')
    \<and> reads st (length (varint_list v)) st'"
proof (cases "v \<le> 0x7F")
  case True
  with r have "rest st = ucast v # ts" by (simp add: varint_list.simps [of v])
  from readbyte_reads [OF g this] obtain st' where
    "pb_readbyte st = (Some (ucast v), st')" "reads st 1 st'" by blast
  moreover have "(ucast (ucast v :: u8) :: u32) = ucast v"
    using group_value_u32 [of v] le_7F_take [OF True] by simp
  moreover have "(ucast v :: u8) AND 0x80 = 0"
    using and_80_u8 [of "ucast v"] group_stop [OF True] by blast
  ultimately show ?thesis using True
    by (simp add: pb_decode_varint32_eof_def varint_list.simps [of v])
next
  case False
  define c :: u8 where "c = ucast (take_bit 7 v) OR 0x80"
  from False r have rs: "rest st = c # varint_list (drop_bit 7 v) @ ts"
    by (simp add: varint_list.simps [of v] c_def)
  from readbyte_reads [OF g rs] obtain st1 where
    r1: "pb_readbyte st = (Some c, st1)" "reads st 1 st1" by blast
  have bits: "take_bit 7 c = ucast (take_bit 7 v)" "c AND 0x80 \<noteq> 0"
    using and_80_u8 [of c] by (simp_all add: c_def group_payload group_payload' or_80_bit)
  have small: "unat (drop_bit 7 v) < 2 ^ (32 - 7)"
    using v by (intro unat_drop_bit_less) simp
  have g1: "good st1" and rest1: "rest st1 = varint_list (drop_bit 7 v) @ ts"
    using r1(2) rs by (simp_all add: reads_def)
  have m: "ucast (take_bit 7 v) OR push_bit 7 (ucast (drop_bit 7 v)) = (ucast v :: u32)"
    using group_merge_u32 [of 0 v] by simp
  from varint32_loop_reads [OF g1 rest1 _ small, of "ucast (take_bit 7 v)"] obtain st' bp byte where
    "varint32_loop st1 7 (ucast (take_bit 7 v)) = (Some (ucast v, bp, byte), st')"
    and "\<not> (bp = 35 \<and> byte AND 0x70 \<noteq> 0)"
    and r2: "reads st1 (length (varint_list (drop_bit 7 v))) st'"
    unfolding m by auto
  moreover have "reads st (length (varint_list v)) st'"
    using reads_trans [OF r1(2) r2] False by (simp add: varint_list.simps [of v])
  ultimately show ?thesis using r1(1) bits
    by (auto simp: pb_decode_varint32_eof_def and_7F_u8 group_value_u32)
qed

lemma decode_varint32_reads:
  assumes "good st" and "rest st = varint_list v @ ts" and "unat v < 2 ^ 32"
  shows "\<exists>st'. pb_decode_varint32 st = (Some (ucast v), st') \<and> reads st (length (varint_list v)) st'"
  using decode_varint32_eof_reads [OF assms] by (auto simp: pb_decode_varint32_def)

end

section \<open>What an output stream promises\<close>

locale pb_sink =
  fixes sink_cb :: "'s pb_ocallback"
    and sink_out :: "'s \<Rightarrow> bytes"
    and sink_room :: "'s \<Rightarrow> nat"
  assumes sink_call:
    "length buf = unat count \<Longrightarrow> unat count \<le> sink_room s \<Longrightarrow>
      \<exists>s'. sink_cb s buf count = (True, s') \<and> sink_out s' = sink_out s @ buf
        \<and> sink_room s' = sink_room s - unat count"
begin

text \<open>A stream into the sink whose limit is covered by the room of the sink.\<close>

definition into :: "'s pb_ostream \<Rightarrow> bool" where
  "into st \<longleftrightarrow> ocallback st = Some sink_cb \<and> bytes_written st \<le> max_size st
     \<and> unat (max_size st) - unat (bytes_written st) \<le> sink_room (ostate st)"

definition appends :: "'s pb_ostream \<Rightarrow> bytes \<Rightarrow> 's pb_ostream \<Rightarrow> bool" where
  "appends st bs st' \<longleftrightarrow>
     into st' \<and> sink_out (ostate st') = sink_out (ostate st) @ bs
     \<and> unat (bytes_written st') = unat (bytes_written st) + length bs
     \<and> sink_room (ostate st') = sink_room (ostate st) - length bs
     \<and> max_size st' = max_size st \<and> oerrmsg st' = oerrmsg st"

definition fits :: "'s pb_ostream \<Rightarrow> bytes \<Rightarrow> bool" where
  "fits st bs \<longleftrightarrow> unat (bytes_written st) + length bs \<le> unat (max_size st)"

lemma appends_trans: "appends st a st1 \<Longrightarrow> appends st1 b st2 \<Longrightarrow> appends st (a @ b) st2"
  by (simp add: appends_def)

lemma appends_fits:
  "appends st a st1 \<Longrightarrow> fits st1 b \<longleftrightarrow> fits st (a @ b)"
  by (simp add: appends_def fits_def add.assoc)

lemma appends_Nil: "into st \<Longrightarrow> appends st [] st"
  by (simp add: appends_def)

lemma write_fits:
  assumes i: "into st" and l: "length buf = unat count" and f: "fits st buf"
  shows "\<exists>st'. pb_write st buf count = (True, st') \<and> appends st buf st'"
proof (cases "count = 0")
  case True
  with l i show ?thesis by (auto simp: pb_write_def into_def appends_def)
next
  case False
  let ?w = "bytes_written st"
  have lt: "unat ?w + unat count < 18446744073709551616"
    using f l unat_u64_lt [of "max_size st"] by (simp add: fits_def)
  then have u: "unat (?w + count) = unat ?w + unat count" by (rule unat_plus_no_overflow_u64)
  from lt have nw: "\<not> ?w + count < ?w" by (simp add: add_wraps_iff_u64)
  have nm: "\<not> max_size st < ?w + count" using f l u by (simp add: word_less_nat_alt fits_def)
  have "unat count \<le> sink_room (ostate st)" using i f l unfolding into_def fits_def by linarith
  from sink_call [OF l this] obtain s' where
    c: "sink_cb (ostate st) buf count = (True, s')" "sink_out s' = sink_out (ostate st) @ buf"
    "sink_room s' = sink_room (ostate st) - unat count" by blast
  have "pb_write st buf count = (True, st\<lparr>ostate := s', bytes_written := ?w + count\<rparr>)"
    using i False nw nm c by (simp add: pb_write_def into_def word_gt_0)
  moreover have "unat (max_size st) - (unat ?w + unat count) \<le> sink_room s'"
    using i f l c(3) unfolding into_def fits_def by linarith
  then have "appends st buf (st\<lparr>ostate := s', bytes_written := ?w + count\<rparr>)"
    using i f l u c by (simp add: appends_def into_def fits_def word_le_nat_alt)
  ultimately show ?thesis by blast
qed

lemma write_full:
  assumes i: "into st" and l: "length buf = unat count" and f: "\<not> fits st buf"
  shows "pb_write st buf count = oerr st ''stream full''"
proof -
  let ?w = "bytes_written st"
  have nz: "0 < count"
  proof (rule ccontr)
    assume "\<not> 0 < count"
    then have "count = 0" by (simp add: word_gt_0)
    with l i f show False by (simp add: fits_def into_def word_le_nat_alt)
  qed
  have "?w + count < ?w \<or> max_size st < ?w + count"
  proof (cases "unat ?w + unat count < 18446744073709551616")
    case True
    then have "unat (?w + count) = unat ?w + unat count" by (rule unat_plus_no_overflow_u64)
    with f l show ?thesis by (simp add: word_less_nat_alt fits_def)
  next
    case False
    then show ?thesis by (simp add: add_wraps_iff_u64)
  qed
  with i nz show ?thesis by (simp add: pb_write_def into_def)
qed

text \<open>\<open>emits f bs\<close>: \<open>f\<close> appends \<open>bs\<close> when it fits and fails when it does not.\<close>

definition emits :: "('s pb_ostream \<Rightarrow> bool \<times> 's pb_ostream) \<Rightarrow> bytes \<Rightarrow> bool" where
  "emits f bs \<longleftrightarrow> (\<forall>st. into st \<longrightarrow>
     (fits st bs \<longrightarrow> (\<exists>st'. f st = (True, st') \<and> appends st bs st'))
     \<and> (\<not> fits st bs \<longrightarrow> \<not> fst (f st)))"

lemma emits_write: "length buf = unat count \<Longrightarrow> emits (\<lambda>st. pb_write st buf count) buf"
  by (auto simp: emits_def write_fits write_full oerr_def)

lemma emits_seq:
  assumes f: "emits f a" and g: "emits g b"
  shows "emits (\<lambda>st. oseq (f st) g) (a @ b)"
  unfolding emits_def
proof (intro allI impI conjI)
  fix st
  assume i: "into st" and "fits st (a @ b)"
  then have "fits st a" by (simp add: fits_def)
  with f i obtain st1 where 1: "f st = (True, st1)" "appends st a st1"
    by (auto simp: emits_def)
  then have "into st1" "fits st1 b" using \<open>fits st (a @ b)\<close>
    by (simp_all add: appends_fits) (simp add: appends_def)
  with g obtain st2 where "g st1 = (True, st2)" "appends st1 b st2" by (auto simp: emits_def)
  with 1 show "\<exists>st'. oseq (f st) g = (True, st') \<and> appends st (a @ b) st'"
    by (auto intro: appends_trans)
next
  fix st
  assume i: "into st" and n: "\<not> fits st (a @ b)"
  show "\<not> fst (oseq (f st) g)"
  proof (cases "fits st a")
    case True
    with f i obtain st1 where 1: "f st = (True, st1)" "appends st a st1"
      by (auto simp: emits_def)
    then have "into st1" "\<not> fits st1 b" using n
      by (simp_all add: appends_fits) (simp add: appends_def)
    with g 1 show ?thesis by (simp add: emits_def)
  next
    case False
    with f i have "\<not> fst (f st)" by (simp add: emits_def)
    then show ?thesis by (cases "f st") simp
  qed
qed

lemma emits_success:
  "emits f bs \<Longrightarrow> into st \<Longrightarrow> f st = (True, st') \<Longrightarrow> appends st bs st'"
  by (cases "fits st bs") (auto simp: emits_def)

lemma emits_varint: "emits (\<lambda>st. pb_encode_varint st v) (varint_list v)"
proof -
  have "length (varint_list v) = unat (word_of_nat (length (varint_list v)) :: u64)"
    using varint_list_le_10 [of v] by simp
  then show ?thesis
    unfolding pb_encode_varint_def varint_bytes_eq Let_def by (rule emits_write)
qed

lemma emits_svarint: "emits (\<lambda>st. pb_encode_svarint st v) (varint_list (zigzag v))"
  unfolding pb_encode_svarint_def by (rule emits_varint)

lemma emits_string:
  "length buf = unat n \<Longrightarrow> emits (\<lambda>st. pb_encode_string st buf n) (varint_list n @ buf)"
  unfolding pb_encode_string_def by (rule emits_seq [OF emits_varint emits_write])

lemma emits_tag:
  "emits (\<lambda>st. pb_encode_tag st wt n) (varint_list (push_bit 3 (ucast n) OR ucast wt))"
  unfolding pb_encode_tag_def by (rule emits_varint)

end

text \<open>The buffer callback appends after its position and has the rest of the buffer as room.\<close>

fun buf_out :: "obuf \<Rightarrow> bytes" where
  "buf_out (mem, pos) = take pos mem"

fun buf_room :: "obuf \<Rightarrow> nat" where
  "buf_room (mem, pos) = length mem - pos"

interpretation bufsink: pb_sink buf_write buf_out buf_room
proof unfold_locales
  fix buf :: bytes and count :: u64 and s :: obuf
  assume l: "length buf = unat count" and r: "unat count \<le> buf_room s"
  obtain m p where s: "s = (m, p)" by (cases s)
  have rd: "read_at buf 0 (length buf) = buf" by (simp add: read_at_in_bounds)
  show "\<exists>s'. buf_write s buf count = (True, s') \<and> buf_out s' = buf_out s @ buf
      \<and> buf_room s' = buf_room s - unat count"
  proof (cases "p \<le> length m")
    case True
    from r True have "p + length buf \<le> length m" by (simp add: s l)
    with True show ?thesis
      unfolding s buf_write.simps l [symmetric] rd
      by (simp add: take_list_blit length_list_blit)
  next
    case False
    with r l have "buf = []" "count = 0" by (simp_all add: s unat_eq_0)
    then show ?thesis by (simp add: s)
  qed
qed

lemma ostream_from_buffer_into:
  "unat n \<le> length buf \<Longrightarrow> bufsink.into (pb_ostream_from_buffer buf n)"
  by (simp add: bufsink.into_def pb_ostream_from_buffer_def)

lemma ostream_from_buffer_simps [simp]:
  "buf_out (ostate (pb_ostream_from_buffer buf n)) = []"
  "bytes_written (pb_ostream_from_buffer buf n) = 0"
  "max_size (pb_ostream_from_buffer buf n) = n"
  "ostate (pb_ostream_from_buffer buf n) = (buf, 0)"
  "oerrmsg (pb_ostream_from_buffer buf n) = None"
  by (simp_all add: pb_ostream_from_buffer_def)

section \<open>Zigzag\<close>

lemma sint_neg_bit: "sint (v :: u64) < 0 \<longleftrightarrow> bit v 63"
  using bit_last_iff [of v] by simp

lemma bit_push_1: "bit (push_bit 1 (v :: u64)) n \<longleftrightarrow> 1 \<le> n \<and> n < 64 \<and> bit v (n - 1)"
  by (auto simp: bit_push_bit_iff simp del: One_nat_def push_bit_Suc dest: bit_imp_le_length)

lemma bit_zigzag:
  "bit (zigzag v) n \<longleftrightarrow> n < 64 \<and> (if n = 0 then bit v 63 else bit v (n - 1) \<noteq> bit v 63)"
  by (auto simp: zigzag_def sint_neg_bit bit_not_iff bit_push_1 simp del: One_nat_def push_bit_Suc)

lemma and_1_u64: "(v :: u64) AND 1 \<noteq> 0 \<longleftrightarrow> bit v 0"
  using and_exp_eq_0_iff_not_bit [of v 0] by simp

lemma bit_drop_1: "bit (drop_bit 1 (v :: u64)) n \<longleftrightarrow> bit v (n + 1)"
  by (simp add: bit_drop_bit_eq add.commute del: One_nat_def drop_bit_Suc)

lemma unzigzag_zigzag: "unzigzag (zigzag v) = v"
proof (rule bit_word_eqI)
  fix n
  assume n: "n < LENGTH(64)"
  show "bit (unzigzag (zigzag v)) n = bit v n"
    using n by (cases "n = 63")
     (auto simp: unzigzag_def and_1_u64 bit_zigzag bit_drop_1 bit_not_iff simp del: One_nat_def drop_bit_Suc)
qed

text \<open>The zigzag code interleaves: 0, -1, 1, -2, 2, \<dots> become 0, 1, 2, 3, 4, \<dots>\<close>

lemma uint_zigzag:
  "uint (zigzag v) = (if sint v < 0 then - 2 * sint v - 1 else 2 * sint v)"
proof -
  have r: "- (2 ^ 63) \<le> sint v" "sint v < 2 ^ 63"
    using sint_range_size [of v] by (simp_all add: word_size)
  have u: "uint (word_of_int k :: u64) = k mod 2 ^ 64" for k
    by (simp add: uint_word_of_int)
  have s: "push_bit 1 v = word_of_int (2 * sint v)"
    by (simp add: push_bit_eq_mult)
  show ?thesis
  proof (cases "sint v < 0")
    case True
    have "NOT (push_bit 1 v) = - push_bit 1 v - 1" by (simp add: not_eq_complement del: One_nat_def push_bit_Suc)
    also have "\<dots> = word_of_int (- 2 * sint v - 1)" by (simp add: s del: One_nat_def push_bit_Suc)
    finally have "uint (NOT (push_bit 1 v)) = (- 2 * sint v - 1) mod 2 ^ 64"
      by (simp only: u)
    with True r show ?thesis by (simp add: zigzag_def del: One_nat_def push_bit_Suc)
  next
    case False
    have "uint (push_bit 1 v) = (2 * sint v) mod 2 ^ 64"
      unfolding s by (rule u)
    with False r show ?thesis by (simp add: zigzag_def del: One_nat_def push_bit_Suc)
  qed
qed

section \<open>Fixed-width values\<close>

lemma and_FF_u32: "ucast ((w :: u32) AND 0xFF) = (ucast w :: u8)"
proof -
  have "w AND 0xFF = take_bit 8 w" by (simp add: take_bit_eq_mask mask_eq_exp_minus_1)
  then show ?thesis by (simp, intro bit_word_eqI) (auto simp: bit_simps)
qed

lemma and_FF_u64: "ucast ((w :: u64) AND 0xFF) = (ucast w :: u8)"
proof -
  have "w AND 0xFF = take_bit 8 w" by (simp add: take_bit_eq_mask mask_eq_exp_minus_1)
  then show ?thesis by (simp, intro bit_word_eqI) (auto simp: bit_simps)
qed

lemma le_bytes_4:
  "le_bytes 4 w = [ucast w, ucast (drop_bit 8 w), ucast (drop_bit 16 w), ucast (drop_bit 24 w)]"
  by (simp add: numeral_eq_Suc)

lemma le_bytes_8:
  "le_bytes 8 w = [ucast w, ucast (drop_bit 8 w), ucast (drop_bit 16 w), ucast (drop_bit 24 w),
     ucast (drop_bit 32 w), ucast (drop_bit 40 w), ucast (drop_bit 48 w), ucast (drop_bit 56 w)]"
  by (simp add: numeral_eq_Suc)

lemma encode_fixed32_bytes:
  "pb_encode_fixed32 m st p = pb_write st (le_bytes 4 (rd32 m p)) 4"
  by (simp add: pb_encode_fixed32_def le_bytes_4 and_FF_u32 Let_def)

lemma encode_fixed64_bytes:
  "pb_encode_fixed64 m st p = pb_write st (le_bytes 8 (rd64 m p)) 8"
  by (simp add: pb_encode_fixed64_def le_bytes_8 and_FF_u64 Let_def)

lemma le_word_4:
  assumes "length bs = 4"
  shows "push_bit 0 (ucast (bs ! 0)) OR push_bit 8 (ucast (bs ! 1)) OR push_bit 16 (ucast (bs ! 2))
     OR push_bit 24 (ucast (bs ! 3)) = (le_word bs :: u32)"
proof -
  obtain a b c d where "bs = [a, b, c, d]"
    using assms by (auto simp: numeral_eq_Suc length_Suc_conv)
  then show ?thesis by (simp add: push_bit_or or.assoc)
qed

lemma le_word_8:
  assumes "length bs = 8"
  shows "push_bit 0 (ucast (bs ! 0)) OR push_bit 8 (ucast (bs ! 1)) OR push_bit 16 (ucast (bs ! 2))
     OR push_bit 24 (ucast (bs ! 3)) OR push_bit 32 (ucast (bs ! 4)) OR push_bit 40 (ucast (bs ! 5))
     OR push_bit 48 (ucast (bs ! 6)) OR push_bit 56 (ucast (bs ! 7)) = (le_word bs :: u64)"
proof -
  obtain a b c d e f g h where "bs = [a, b, c, d, e, f, g, h]"
    using assms by (auto simp: numeral_eq_Suc length_Suc_conv)
  then show ?thesis by (simp add: push_bit_or or.assoc)
qed

context pb_sink
begin

lemma emits_fixed32: "emits (\<lambda>st. pb_encode_fixed32 m st p) (le_bytes 4 (rd32 m p))"
  unfolding encode_fixed32_bytes by (rule emits_write) simp

lemma emits_fixed64: "emits (\<lambda>st. pb_encode_fixed64 m st p) (le_bytes 8 (rd64 m p))"
  unfolding encode_fixed64_bytes by (rule emits_write) simp

end

context pb_source
begin

lemma left_of_rest: "good st \<Longrightarrow> rest st = bs @ ts \<Longrightarrow> length bs \<le> unat (bytes_left st)"
  using length_rest [of st] by simp

lemma decode_fixed32_reads:
  assumes g: "good st" and r: "rest st = le_bytes 4 w @ ts"
  shows "\<exists>st'. pb_decode_fixed32 st = (Some w, st') \<and> reads st 4 st'"
proof -
  have "4 \<le> bytes_left st" using left_of_rest [OF g r] by (simp add: word_le_nat_alt)
  from read_True_reads [OF g this] obtain st' where
    "pb_read st True 4 = (True, take 4 (rest st), st')" "reads st 4 st'" by auto
  moreover have "take 4 (rest st) = le_bytes 4 w" using r by simp
  ultimately show ?thesis
    using le_word_4 [of "le_bytes 4 w"] le_word_le_bytes [of 4 w]
    by (simp add: pb_decode_fixed32_def)
qed

lemma decode_fixed64_reads:
  assumes g: "good st" and r: "rest st = le_bytes 8 w @ ts"
  shows "\<exists>st'. pb_decode_fixed64 st = (Some w, st') \<and> reads st 8 st'"
proof -
  have "8 \<le> bytes_left st" using left_of_rest [OF g r] by (simp add: word_le_nat_alt)
  from read_True_reads [OF g this] obtain st' where
    "pb_read st True 8 = (True, take 8 (rest st), st')" "reads st 8 st'" by auto
  moreover have "take 8 (rest st) = le_bytes 8 w" using r by simp
  ultimately show ?thesis
    using le_word_8 [of "le_bytes 8 w"] le_word_le_bytes [of 8 w]
    by (simp add: pb_decode_fixed64_def)
qed

section \<open>Tags\<close>

lemma decode_tag_reads:
  assumes g: "good st" and wt: "unat (wt :: u32) < 8" and n: "unat (n :: u32) < 2 ^ 29" "n \<noteq> 0"
    and r: "rest st = varint_list (push_bit 3 (ucast n) OR ucast wt) @ ts"
  shows "\<exists>st'. pb_decode_tag st = (Some (wt, n), False, st')
    \<and> reads st (length (varint_list (push_bit 3 (ucast n) OR ucast wt))) st'"
proof -
  let ?v = "push_bit 3 (ucast n) OR ucast wt :: u64"
  have wtb: "\<not> bit wt k" if "3 \<le> k" for k
    using not_bit_above [of wt 3 k] wt that by simp
  have nb: "\<not> bit n k" if "29 \<le> k" for k
    using not_bit_above [of n 29 k] n that by simp
  have bv: "bit ?v k \<longleftrightarrow> k < 64 \<and> (3 \<le> k \<and> bit n (k - 3) \<or> bit wt k)" for k
    by (auto simp: bit_simps)
  have v32: "unat ?v < 2 ^ 32"
    by (rule unat_less_if_bits) (auto simp: bv nb wtb)
  have wt': "ucast ?v AND 7 = wt"
  proof -
    have "ucast ?v AND 7 = (take_bit 3 (ucast ?v) :: u32)"
      by (simp add: take_bit_eq_mask mask_eq_exp_minus_1)
    also have "\<dots> = wt"
    proof (rule bit_word_eqI)
      fix k assume "k < LENGTH(32)"
      then show "bit (take_bit 3 (ucast ?v) :: u32) k = bit wt k"
        using wtb [of k] by (cases "3 \<le> k") (auto simp: bit_take_bit_iff bit_ucast_iff bv)
    qed
    finally show ?thesis .
  qed
  have n': "drop_bit 3 (ucast ?v) = n"
  proof (rule bit_word_eqI)
    fix k assume "k < LENGTH(32)"
    then show "bit (drop_bit 3 (ucast ?v) :: u32) k = bit n k"
      using wtb [of "3 + k"] nb [of k]
      by (cases "29 \<le> k") (auto simp: bit_drop_bit_eq bit_ucast_iff bv)
  qed
  have nz: "(ucast ?v :: u32) \<noteq> 0" using n' n(2) by auto
  from decode_varint32_eof_reads [OF g r v32] wt' n' nz show ?thesis
    by (auto simp: pb_decode_tag_def)
qed

end

section \<open>Skipping\<close>

text \<open>The payloads the wire types announce.\<close>

fun varint_shaped :: "bytes \<Rightarrow> bool" where
  "varint_shaped [] \<longleftrightarrow> False"
| "varint_shaped [b] \<longleftrightarrow> \<not> bit b 7"
| "varint_shaped (b # c # bs) \<longleftrightarrow> bit b 7 \<and> varint_shaped (c # bs)"

inductive wire_payload :: "u32 \<Rightarrow> bytes \<Rightarrow> bool" where
  payload_varint: "varint_shaped bs \<Longrightarrow> wire_payload PB_WT_VARINT bs"
| payload_64bit: "length bs = 8 \<Longrightarrow> wire_payload PB_WT_64BIT bs"
| payload_32bit: "length bs = 4 \<Longrightarrow> wire_payload PB_WT_32BIT bs"
| payload_string: "length bs = unat n \<Longrightarrow> unat n < 2 ^ 32 \<Longrightarrow>
    wire_payload PB_WT_STRING (varint_list n @ bs)"

lemma varint_shaped_list: "varint_shaped (varint_list v)"
proof (induction v rule: varint_list.induct)
  case (1 v)
  show ?case
  proof (cases "v \<le> 0x7F")
    case True
    then show ?thesis by (simp add: varint_list.simps [of v] group_stop)
  next
    case False
    obtain c cs where c: "varint_list (drop_bit 7 v) = c # cs"
      by (cases "varint_list (drop_bit 7 v)") simp_all
    have "varint_list v = (ucast (take_bit 7 v) OR 0x80) # c # cs"
      using False c by (simp add: varint_list.simps [of v])
    with 1 False c show ?thesis by (simp add: or_80_bit del: drop_bit_numeral_minus_bit1)
  qed
qed

context pb_source
begin

lemma skip_varint_reads:
  "varint_shaped bs \<Longrightarrow> good st \<Longrightarrow> rest st = bs @ ts \<Longrightarrow>
    \<exists>st'. pb_skip_varint st = (True, st') \<and> reads st (length bs) st'"
proof (induction bs arbitrary: st rule: varint_shaped.induct)
  case 1
  then show ?case by simp
next
  case (2 b)
  have "1 \<le> bytes_left st" using left_of_rest [OF 2(2,3)] by (simp add: word_le_nat_alt)
  from read_True_reads [OF 2(2) this] 2 obtain st' where
    "pb_read st True 1 = (True, [b], st')" "reads st 1 st'" by auto
  with 2 show ?case using and_80_u8 [of b] by (auto simp: pb_skip_varint.simps [of st])
next
  case (3 b c bs)
  have "1 \<le> bytes_left st" using left_of_rest [OF 3(3,4)] by (simp add: word_le_nat_alt)
  from read_True_reads [OF 3(3) this] 3(4) obtain st1 where
    r: "pb_read st True 1 = (True, [b], st1)" "reads st 1 st1" by auto
  then have "good st1" "rest st1 = (c # bs) @ ts" using 3(4) by (simp_all add: reads_def)
  with "3.IH" [of st1] 3(2) obtain st' where
    "pb_skip_varint st1 = (True, st')" "reads st1 (length (c # bs)) st'" by auto
  moreover from this(2) have "reads st (length (b # c # bs)) st'"
    using reads_trans [OF r(2)] by fastforce
  ultimately show ?case using r 3(2) and_80_u8 [of b]
    by (auto simp: pb_skip_varint.simps [of st])
qed

lemma skip_field_reads:
  assumes p: "wire_payload wt bs" and g: "good st" and r: "rest st = bs @ ts"
  shows "\<exists>st'. pb_skip_field st wt = (True, st') \<and> reads st (length bs) st'"
  using p
proof cases
  case payload_varint
  with skip_varint_reads [OF _ g r] show ?thesis by (simp add: pb_skip_field_def)
next
  case payload_64bit
  then have "8 \<le> bytes_left st" using left_of_rest [OF g r] by (simp add: word_le_nat_alt)
  from read_False_reads [OF g this] payload_64bit show ?thesis by (auto simp: pb_skip_field_def)
next
  case payload_32bit
  then have "4 \<le> bytes_left st" using left_of_rest [OF g r] by (simp add: word_le_nat_alt)
  from read_False_reads [OF g this] payload_32bit show ?thesis by (auto simp: pb_skip_field_def)
next
  case (payload_string data n)
  with r have rst: "rest st = varint_list n @ data @ ts" by simp
  from decode_varint32_reads [OF g rst payload_string(4)] obtain st1 where
    d: "pb_decode_varint32 st = (Some (ucast n), st1)"
    and r1: "reads st (length (varint_list n)) st1" by blast
  have n: "ucast (ucast n :: u32) = n"
    using payload_string(4) not_bit_above [of n 32]
    by (intro bit_word_eqI) (auto simp: bit_ucast_iff not_less [symmetric])
  from r1 rst have g1: "good st1" and rs: "rest st1 = data @ ts"
    by (simp_all add: reads_def)
  have "n \<le> bytes_left st1"
    using left_of_rest [OF g1 rs] payload_string(3) by (simp add: word_le_nat_alt)
  from read_False_reads [OF g1 this] obtain bs' st' where
    "pb_read st1 False n = (True, bs', st')" "reads st1 (unat n) st'" by blast
  with d n payload_string reads_trans [OF r1] show ?thesis
    by (auto simp: pb_skip_field_def pb_skip_string_def)
qed

end

section \<open>Substreams\<close>

lemma ucast_u32_u64_id:
  "unat (n :: u64) < 2 ^ 32 \<Longrightarrow> ucast (ucast n :: u32) = n"
  using not_bit_above [of n 32]
  by (intro bit_word_eqI) (auto simp: bit_ucast_iff not_less [symmetric])

context pb_source
begin

lemma make_substream_reads:
  assumes g: "good st" and r: "rest st = varint_list n @ data @ ts"
    and l: "length data = unat n" and n: "unat n < 2 ^ 32"
  shows "\<exists>sub st1. pb_make_string_substream st = (Some sub, st1)
    \<and> good sub \<and> rest sub = data \<and> unat (bytes_left st1) = length ts
    \<and> src_bytes (isource sub) = drop (length (varint_list n)) (src_bytes (isource st))
    \<and> ierrmsg sub = ierrmsg st"
proof -
  from decode_varint32_reads [OF g r n] obtain st1 where
    d: "pb_decode_varint32 st = (Some (ucast n), st1)"
    and r1: "reads st (length (varint_list n)) st1" by blast
  from r1 r have g1: "good st1" and rs: "rest st1 = data @ ts"
    by (simp_all add: reads_def)
  have len: "unat (bytes_left st1) = unat n + length ts"
    using length_rest [OF g1] rs l by simp
  then have nl: "\<not> bytes_left st1 < n" by (simp add: word_less_nat_alt)
  let ?sub = "st1\<lparr>bytes_left := n\<rparr>"
  have "good ?sub" using g1 len by (simp add: good_def)
  moreover have "rest ?sub = take (unat n) (rest st1)"
    using len by (simp add: rest_def min_def)
  then have "rest ?sub = data" using rs l by simp
  moreover have "unat (bytes_left st1 - n) = length ts"
    using len nl by (subst unat_sub) (simp_all add: not_less)
  ultimately show ?thesis using d nl r1
    by (simp add: pb_make_string_substream_def ucast_u32_u64_id [OF n] reads_def)
qed

text \<open>However much of the substream has been read, closing it leaves the parent after it.\<close>

lemma close_substream_reads:
  assumes g: "good sub" and r: "reads sub k sub'"
    and l: "unat (bytes_left st1) + unat (bytes_left sub) \<le> length (src_bytes (isource sub))"
  shows "\<exists>st2. pb_close_string_substream st1 sub' = (True, st2) \<and> good st2
    \<and> src_bytes (isource st2) = drop (unat (bytes_left sub)) (src_bytes (isource sub))
    \<and> bytes_left st2 = bytes_left st1 \<and> ierrmsg st2 = ierrmsg sub"
proof -
  from r have g': "good sub'" and k: "k \<le> unat (bytes_left sub)"
    and left': "unat (bytes_left sub') = unat (bytes_left sub) - k"
    and src': "src_bytes (isource sub') = drop k (src_bytes (isource sub))"
    and e': "ierrmsg sub' = ierrmsg sub" by (simp_all add: reads_def)
  obtain bs sub2 where
    c: "(if bytes_left sub' \<noteq> 0 then pb_read sub' False (bytes_left sub') else (True, [], sub'))
        = (True, bs, sub2)" and r2: "reads sub' (unat (bytes_left sub')) sub2"
    using read_False_reads [OF g' order_refl] reads_refl [OF g'] by (cases "bytes_left sub' = 0") auto
  have "src_bytes (isource sub2) = drop (unat (bytes_left sub)) (src_bytes (isource sub))"
    using r2 left' k src' by (simp add: reads_def)
  moreover have "src_ok (isource sub2)" "ierrmsg sub2 = ierrmsg sub"
    using r2 e' by (simp_all add: reads_def good_def)
  ultimately show ?thesis using c l
    by (simp add: pb_close_string_substream_def good_def)
qed

lemma substream_reads:
  assumes g: "good st" and r: "rest st = varint_list n @ data @ ts"
    and l: "length data = unat n" and n: "unat n < 2 ^ 32"
    and m: "pb_make_string_substream st = (Some sub, st1)" and k: "reads sub k sub'"
  shows "\<exists>st2. pb_close_string_substream st1 sub' = (True, st2)
    \<and> reads st (length (varint_list n @ data)) st2"
proof -
  from make_substream_reads [OF g r l n] m have gs: "good sub" and rs: "rest sub = data"
    and left1: "unat (bytes_left st1) = length ts"
    and src: "src_bytes (isource sub) = drop (length (varint_list n)) (src_bytes (isource st))"
    and e: "ierrmsg sub = ierrmsg st" by simp_all
  have ls: "unat (bytes_left sub) = unat n" using length_rest [OF gs] rs l by simp
  have lst: "unat (bytes_left st) = length (varint_list n) + unat n + length ts"
    using length_rest [OF g] r l by simp
  have "unat (bytes_left st) \<le> length (src_bytes (isource st))" using g by (simp add: good_def)
  then have le: "unat (bytes_left st1) + unat (bytes_left sub) \<le> length (src_bytes (isource sub))"
    using lst left1 ls src by simp
  from close_substream_reads [OF gs k le] obtain st2 where
    c: "pb_close_string_substream st1 sub' = (True, st2)" and g2: "good st2"
    and s2: "src_bytes (isource st2) = drop (unat (bytes_left sub)) (src_bytes (isource sub))"
    and b2: "bytes_left st2 = bytes_left st1" and e2: "ierrmsg st2 = ierrmsg sub" by blast
  have s2': "src_bytes (isource st2) = drop (length (varint_list n) + unat n) (src_bytes (isource st))"
    using s2 src ls by (simp add: add.commute)
  have "rest st2 = drop (length (varint_list n) + unat n) (rest st)"
    using s2' b2 left1 lst by (simp add: rest_def drop_take add.commute)
  with c g2 s2' b2 left1 lst l e e2 show ?thesis
    by (simp add: reads_def add.commute)
qed

end

end
