(* ===== verification/Pb_Roundtrip.thy ===== *)
theory Pb_Roundtrip
  imports Pb_Codec
begin

text \<open>
  The properties of the wire format of nanopb, over whole operations of the program: a value
  written to a memory buffer and read back from it, the size of its code, the safety of the
  buffer, skipping and substreams. The proofs put the two interfaces of the codec theory
  together.
\<close>

section \<open>From a written buffer to a stream\<close>

definition written_stream :: "obuf pb_ostream \<Rightarrow> 's pb_istream" where
  "written_stream st = pb_istream_from_buffer (fst (ostate st)) (bytes_written st)"

text \<open>The bytes appended to a fresh buffer are what the stream over it holds.\<close>

lemma written_stream_appends:
  assumes a: "bufsink.appends (pb_ostream_from_buffer buf n) bs st"
  shows "bufsrc.good (written_stream st :: 's pb_istream)" "bufsrc.rest (written_stream st :: 's pb_istream) = bs"
proof -
  obtain mem pos where s: "ostate st = (mem, pos)" by (cases "ostate st")
  have out: "take pos mem = bs" and bw: "unat (bytes_written st) = length bs"
    using a s by (simp_all add: bufsink.appends_def)
  have "length bs \<le> length mem" using arg_cong [OF out, of length] by simp
  then show "bufsrc.good (written_stream st :: 's pb_istream)"
    by (simp add: written_stream_def istream_from_buffer_good s bw)
  have "take (length bs) mem = bs"
    using out by (metis append_eq_conv_conj append_take_drop_id)
  then show "bufsrc.rest (written_stream st :: 's pb_istream) = bs"
    by (simp add: written_stream_def istream_from_buffer_rest s bw)
qed

text \<open>What a successful encoder has put into a fresh buffer is what the stream over it holds.\<close>

lemma written_stream_rest:
  assumes n: "unat n \<le> length buf" and e: "bufsink.emits f bs"
    and w: "f (pb_ostream_from_buffer buf n) = (True, st)"
  shows "bufsrc.good (written_stream st :: 's pb_istream)"
    and "bufsrc.rest (written_stream st :: 's pb_istream) = bs"
proof -
  have i: "bufsink.into (pb_ostream_from_buffer buf n)"
    by (rule ostream_from_buffer_into [OF n])
  have a: "bufsink.appends (pb_ostream_from_buffer buf n) bs st"
    by (rule bufsink.emits_success [OF e i w])
  show "bufsrc.good (written_stream st :: 's pb_istream)" "bufsrc.rest (written_stream st :: 's pb_istream) = bs"
    by (fact written_stream_appends [OF a])+
qed

lemma reads_all_left:
  "bufsrc.good st \<Longrightarrow> bufsrc.rest st = bs \<Longrightarrow> bufsrc.reads st (length bs) st' \<Longrightarrow> bytes_left st' = 0"
  using bufsrc.length_rest [of st] by (simp add: bufsrc.reads_def unat_eq_0)

section \<open>Round trips\<close>

text \<open>
  A varint written by \<open>pb_encode_varint\<close> into a buffer is read back by
  \<open>pb_decode_varint\<close> from the bytes written, which it uses up, for every 64-bit value.
\<close>

theorem varint_roundtrip:
  assumes "unat n \<le> length buf"
    and "pb_encode_varint (pb_ostream_from_buffer buf n) v = (True, st)"
  shows "\<exists>st'. pb_decode_varint (written_stream st :: 's pb_istream) = (Some v, st')
    \<and> bytes_left st' = 0"
proof -
  note w = written_stream_rest [OF assms(1) bufsink.emits_varint assms(2), where 's = 's]
  from bufsrc.decode_varint_reads [OF w(1), of v "[]"] w(2) reads_all_left [OF w]
  show ?thesis by auto
qed

theorem varint_roundtrip_witness:
  "\<exists>st. pb_encode_varint (pb_ostream_from_buffer [0, 0, 0] 3) 300 = (True, st)
   \<and> (\<exists>st'. pb_decode_varint (written_stream st :: unit pb_istream) = (Some 300, st')
        \<and> bytes_left st' = 0)"
proof -
  have "fst (pb_encode_varint (pb_ostream_from_buffer [0, 0, 0] 3) 300)" by code_simp
  then obtain st where e: "pb_encode_varint (pb_ostream_from_buffer [0, 0, 0] 3) 300 = (True, st)"
    by (metis (full_types) prod.exhaust_sel)
  show ?thesis using e varint_roundtrip [OF _ e, where 's = unit] by simp
qed

text \<open>
  A signed varint is read back as the value written, over the zigzag code, which maps
  \<open>0, -1, 1, -2, \<dots>\<close> to \<open>0, 1, 2, 3, \<dots>\<close>.
\<close>

theorem svarint_roundtrip:
  assumes "unat n \<le> length buf"
    and "pb_encode_svarint (pb_ostream_from_buffer buf n) v = (True, st)"
  shows "(\<exists>st'. pb_decode_svarint (written_stream st :: 's pb_istream) = (Some v, st')
    \<and> bytes_left st' = 0)
    \<and> uint (zigzag v) = (if sint v < 0 then - 2 * sint v - 1 else 2 * sint v)"
proof -
  note w = written_stream_rest [OF assms(1) bufsink.emits_svarint assms(2), where 's = 's]
  from bufsrc.decode_varint_reads [OF w(1), of "zigzag v" "[]"] w(2) reads_all_left [OF w]
  show ?thesis by (auto simp: pb_decode_svarint_def unzigzag_zigzag uint_zigzag)
qed

theorem svarint_roundtrip_witness:
  "\<exists>st. pb_encode_svarint (pb_ostream_from_buffer [9, 9] 2) (- 1) = (True, st)
   \<and> (\<exists>st'. pb_decode_svarint (written_stream st :: unit pb_istream) = (Some (- 1), st')
        \<and> bytes_left st' = 0) \<and> uint (zigzag (- 1)) = 1"
proof -
  obtain st where e: "pb_encode_svarint (pb_ostream_from_buffer [9, 9] 2) (- 1) = (True, st)"
    by (simp add: pb_encode_svarint_def zigzag_def pb_encode_varint_def varint_bytes_def pb_write_def
        pb_ostream_from_buffer_def)
  show ?thesis using e svarint_roundtrip [OF _ e, where 's = unit] by simp
qed

text \<open>
  A field tag is read back as its wire type and its field number, for every wire type and
  every field number protobuf allows, and is not taken for the end of the message.
\<close>

theorem tag_roundtrip:
  assumes "unat n \<le> length buf" and "unat wt < 8" and "0 < unat k" and "unat k < 2 ^ 29"
    and "pb_encode_tag (pb_ostream_from_buffer buf n) wt k = (True, st)"
  shows "\<exists>st'. pb_decode_tag (written_stream st :: 's pb_istream) = (Some (wt, k), False, st')
    \<and> bytes_left st' = 0"
proof -
  note w = written_stream_rest [OF assms(1) bufsink.emits_tag assms(5), where 's = 's]
  have "k \<noteq> 0" using assms(3) by auto
  from bufsrc.decode_tag_reads [OF w(1) assms(2,4) this, of "[]"] w(2) reads_all_left [OF w]
  show ?thesis by auto
qed

theorem tag_roundtrip_witness:
  "\<exists>st. pb_encode_tag (pb_ostream_from_buffer [0, 0] 2) PB_WT_STRING 1 = (True, st)
   \<and> (\<exists>st'. pb_decode_tag (written_stream st :: unit pb_istream) = (Some (PB_WT_STRING, 1), False, st')
        \<and> bytes_left st' = 0)"
proof -
  obtain st where e: "pb_encode_tag (pb_ostream_from_buffer [0, 0] 2) PB_WT_STRING 1 = (True, st)"
    by (simp add: pb_encode_tag_def pb_encode_varint_def varint_bytes_def pb_write_def
        pb_ostream_from_buffer_def)
  show ?thesis using e tag_roundtrip [OF _ _ _ _ e, where 's = unit] by simp
qed

text \<open>
  A 64-bit fixed-width value in memory is read back by \<open>pb_decode_fixed64\<close> from the eight
  bytes \<open>pb_encode_fixed64\<close> writes.
\<close>

theorem fixed64_roundtrip:
  assumes "unat n \<le> length buf"
    and "pb_encode_fixed64 m (pb_ostream_from_buffer buf n) p = (True, st)"
  shows "bytes_written st = 8
    \<and> (\<exists>st'. pb_decode_fixed64 (written_stream st :: 's pb_istream) = (Some (rd64 m p), st')
        \<and> bytes_left st' = 0)"
proof -
  note w = written_stream_rest [OF assms(1) bufsink.emits_fixed64 assms(2), where 's = 's]
  have "unat (bytes_written st) = 8"
    using bufsrc.length_rest [OF w(1)] w(2)
    by (simp add: written_stream_def pb_istream_from_buffer_def)
  then have "bytes_written st = 8" by (simp add: word_unat_eq_iff)
  with bufsrc.decode_fixed64_reads [OF w(1), of "rd64 m p" "[]"] w(2) reads_all_left [OF w]
  show ?thesis by auto
qed

theorem fixed64_roundtrip_witness:
  "\<exists>st. pb_encode_fixed64 (\<lambda>a. ucast a) (pb_ostream_from_buffer (replicate 8 0) 8) 1 = (True, st)
   \<and> bytes_written st = 8
   \<and> (\<exists>st'. pb_decode_fixed64 (written_stream st :: unit pb_istream)
        = (Some (rd64 (\<lambda>a. ucast a) 1), st') \<and> bytes_left st' = 0)"
proof -
  have "fst (pb_encode_fixed64 (\<lambda>a. ucast a) (pb_ostream_from_buffer (replicate 8 0) 8) 1)"
    by code_simp
  then obtain st where
    e: "pb_encode_fixed64 (\<lambda>a. ucast a) (pb_ostream_from_buffer (replicate 8 0) 8) 1 = (True, st)"
    by (metis (full_types) prod.exhaust_sel)
  show ?thesis using e fixed64_roundtrip [OF _ e, where 's = unit] by simp
qed

text \<open>
  The code of a varint has as many bytes as the value has seven-bit groups, at least one
  and at most ten: \<open>pb_encode_varint\<close> is minimal, and the ten bytes of its local buffer
  suffice.
\<close>

theorem varint_code_length:
  "length (varint_bytes v) = (LEAST k. 0 < k \<and> unat v < 2 ^ (7 * k))
   \<and> length (varint_bytes v) \<le> 10 \<and> length (varint_fill v) \<le> 10"
proof -
  let ?k = "length (varint_list v)"
  have ub: "unat v < 2 ^ (7 * ?k)"
    using varint_list_length_lower [of ?k v] by (meson less_irrefl not_le)
  have "(LEAST k. 0 < k \<and> unat v < 2 ^ (7 * k)) = ?k"
    by (rule Least_equality) (use ub varint_list_pos varint_list_length_bound in auto)
  moreover have "length (varint_fill v) \<le> ?k"
  proof (cases "v = 0")
    case True
    then show ?thesis by (simp add: varint_fill_simps)
  next
    case False
    from arg_cong [OF varint_fill_last [OF False], of length] show ?thesis by simp
  qed
  ultimately show ?thesis using varint_list_le_10 [of v] by (simp add: varint_bytes_eq)
qed

section \<open>Safety of the output buffer\<close>

lemma buffer_write_inside:
  assumes i: "bufsink.into st" and s: "ostate st = (mem, pos)" and p: "pos \<le> length mem"
    and l: "length buf = unat count" and w: "pb_write st buf count = (ok, st')"
  shows "\<exists>mem' pos'. ostate st' = (mem', pos') \<and> length mem' = length mem
    \<and> pos' = (if ok then pos + unat count else pos)
    \<and> take pos mem' = take pos mem \<and> drop pos' mem' = drop pos' mem
    \<and> (ok \<longrightarrow> take (unat count) (drop pos mem') = buf)
    \<and> bytes_written st' \<le> max_size st' \<and> bufsink.into st'"
proof (cases "bufsink.fits st buf")
  case True
  have "count = 0 \<or> 0 < count" by (simp add: word_gt_0)
  have c: "ocallback st = Some buf_write" using i by (simp add: bufsink.into_def)
  from bufsink.write_fits [OF i l True] w have ok: "ok" and a: "bufsink.appends st buf st'"
    by auto
  have room: "pos + length buf \<le> length mem"
    using i True s p unfolding bufsink.into_def bufsink.fits_def by simp linarith
  have "ostate st' = (list_blit mem pos buf, pos + unat count)"
    using w ok c s l \<open>count = 0 \<or> 0 < count\<close>
    by (auto simp: pb_write_def oerr_def read_at_in_bounds split: if_splits)
  moreover have "length (list_blit mem pos buf) = length mem"
    "take pos (list_blit mem pos buf) = take pos mem"
    "drop (pos + length buf) (list_blit mem pos buf) = drop (pos + length buf) mem"
    "take (length buf) (drop pos (list_blit mem pos buf)) = buf"
    using p room by (simp_all add: list_blit_def)
  moreover have "bufsink.into st'" using a by (simp add: bufsink.appends_def)
  moreover from this have "bytes_written st' \<le> max_size st'" by (simp add: bufsink.into_def)
  ultimately show ?thesis using ok l by auto
next
  case False
  from bufsink.write_full [OF i l this] w have "ok = False" "st' = snd (oerr st ''stream full'')"
    by (auto simp: oerr_def)
  with i s show ?thesis by (auto simp: oerr_def bufsink.into_def)
qed

text \<open>
  A write through a stream that is inside its buffer stays inside it: success or not, the
  memory keeps its size, the bytes before the position and after the bytes written are
  untouched, the limit is never exceeded, and the stream is inside the buffer again.
\<close>

theorem buffer_write_safe:
  assumes i: "bufsink.into st" and s: "ostate st = (mem, pos)" and p: "pos \<le> length mem"
    and l: "length buf = unat count" and w: "pb_write st buf count = (ok, st')"
  shows "\<exists>mem' pos'. ostate st' = (mem', pos') \<and> length mem' = length mem
    \<and> pos' = (if ok then pos + unat count else pos)
    \<and> take pos mem' = take pos mem \<and> drop pos' mem' = drop pos' mem
    \<and> (ok \<longrightarrow> take (unat count) (drop pos mem') = buf)
    \<and> bytes_written st' \<le> max_size st' \<and> bufsink.into st'"
  by (rule buffer_write_inside [OF assms])

theorem buffer_write_safe_witness:
  "\<exists>st' mem' pos'. pb_write (pb_ostream_from_buffer [7, 7] 1) [1, 2] 2 = (False, st')
   \<and> ostate st' = (mem', pos') \<and> length mem' = 2 \<and> bufsink.into st'"
proof -
  have "\<not> fst (pb_write (pb_ostream_from_buffer [7, 7] 1) [1, 2] 2)" by code_simp
  then obtain st' where w: "pb_write (pb_ostream_from_buffer [7, 7] 1) [1, 2] 2 = (False, st')"
    by (metis (full_types) prod.exhaust_sel)
  from buffer_write_safe [OF ostream_from_buffer_into _ _ _ w] w show ?thesis by auto
qed

section \<open>Skipping and substreams\<close>

text \<open>
  \<open>pb_skip_field\<close> takes from a good stream exactly the payload of the wire type, whatever
  follows it; for a length-delimited field this is the length and the announced bytes.
\<close>

theorem skip_field_exact:
  assumes "bufsrc.good st" and "bufsrc.rest st = bs @ ts" and "wire_payload wt bs"
  shows "\<exists>st'. pb_skip_field st wt = (True, st') \<and> bufsrc.good st' \<and> bufsrc.rest st' = ts"
  using bufsrc.skip_field_reads [OF assms(3,1,2)] assms(2) by (auto simp: bufsrc.reads_def)

theorem skip_field_exact_witness:
  "\<exists>st'. pb_skip_field (pb_istream_from_buffer [0x80, 0x01, 5] 3 :: unit pb_istream) PB_WT_VARINT
      = (True, st') \<and> bufsrc.good st' \<and> bufsrc.rest st' = [5]"
proof (rule skip_field_exact)
  show "bufsrc.good (pb_istream_from_buffer [0x80, 0x01, 5] 3 :: unit pb_istream)"
    by (simp add: istream_from_buffer_good)
  show "bufsrc.rest (pb_istream_from_buffer [0x80, 0x01, 5] 3 :: unit pb_istream) = [0x80, 0x01] @ [5]"
    by (simp add: istream_from_buffer_rest)
  show "wire_payload PB_WT_VARINT [0x80, 0x01]"
    by (rule payload_varint) (simp flip: and_80_u8)
qed

text \<open>
  A substream holds exactly the announced bytes, and however many of them its user has
  read when it is closed, the parent goes on right after them.
\<close>

theorem substream_isolated:
  assumes "bufsrc.good st" and "bufsrc.rest st = varint_bytes n @ data @ ts"
    and "length data = unat n" and "unat n < 2 ^ 32"
  shows "\<exists>sub st1. pb_make_string_substream st = (Some sub, st1)
    \<and> bufsrc.good sub \<and> bufsrc.rest sub = data
    \<and> (\<forall>k sub'. bufsrc.reads sub k sub' \<longrightarrow>
         (\<exists>st2. pb_close_string_substream st1 sub' = (True, st2)
            \<and> bufsrc.good st2 \<and> bufsrc.rest st2 = ts))"
proof -
  note r = assms(2) [unfolded varint_bytes_eq]
  from bufsrc.make_substream_reads [OF assms(1) r assms(3,4)] obtain sub st1 where
    m: "pb_make_string_substream st = (Some sub, st1)" "bufsrc.good sub" "bufsrc.rest sub = data"
    by blast
  have "\<exists>st2. pb_close_string_substream st1 sub' = (True, st2) \<and> bufsrc.good st2
      \<and> bufsrc.rest st2 = ts" if "bufsrc.reads sub k sub'" for k sub'
    using bufsrc.substream_reads [OF assms(1) r assms(3,4) m(1) that] r
    by (auto simp: bufsrc.reads_def)
  with m show ?thesis by blast
qed

theorem substream_isolated_witness:
  "\<exists>sub st1. pb_make_string_substream (pb_istream_from_buffer [2, 10, 11, 12] 4 :: unit pb_istream)
      = (Some sub, st1)
    \<and> bufsrc.good sub \<and> bufsrc.rest sub = [10, 11]
    \<and> (\<forall>k sub'. bufsrc.reads sub k sub' \<longrightarrow>
         (\<exists>st2. pb_close_string_substream st1 sub' = (True, st2)
            \<and> bufsrc.good st2 \<and> bufsrc.rest st2 = [12]))"
  by (rule substream_isolated [where n = 2])
    (simp_all add: istream_from_buffer_good istream_from_buffer_rest varint_bytes_def)

section \<open>The limit of the 32-bit varint decoder\<close>

text \<open>
  \<open>pb_decode_varint32\<close> has no limit on the length of a varint, and its eight-bit bit
  position wraps: a varint of 38 bytes, whose value is at least \<open>2 ^ 259\<close>, is accepted as 8,
  where \<open>pb_decode_varint\<close> reports an overflow.
\<close>

theorem varint32_position_wraps:
  "(let st = pb_istream_from_buffer (replicate 37 0x80 @ [1]) 38 :: 's pb_istream in
      fst (pb_decode_varint32 st) = Some 8
      \<and> bytes_left (snd (pb_decode_varint32 st)) = 0
      \<and> ierrmsg (snd (pb_decode_varint32 st)) = None
      \<and> fst (pb_decode_varint st) = None
      \<and> ierrmsg (snd (pb_decode_varint st)) = Some ''varint overflow'')"
  by code_simp

end
