(* ===== verification/Pb_Encode_Props.thy ===== *)
theory Pb_Encode_Props
  imports Pb_Roundtrip
begin

text \<open>
  Properties of the whole encoder. The interface \<open>enc_closed\<close> is what a property of a
  stream-to-stream step must satisfy to hold of every message: it holds of the primitives,
  passes through sequencing, and through the two places where the code runs an encoder twice,
  once to size it and once to write (submessages, packed arrays). Inside the locale the
  property is carried through all the functions of pb_encode.c once; the two instances are the
  number of bytes written and the safety of the output buffer.
\<close>

lemma strnlen_le: "sz \<le> mx \<Longrightarrow> strnlen_loop m p mx sz \<le> mx"
proof (induction m p mx sz rule: strnlen_loop.induct)
  case (1 m p mx sz)
  show ?case
  proof (cases "sz < mx \<and> rd8 m p \<noteq> 0")
    case True
    then have "sz + 1 \<le> mx" by (simp add: inc_le)
    with 1 True show ?thesis by (subst strnlen_loop.simps) simp
  next
    case False
    with 1 show ?thesis by (subst strnlen_loop.simps) auto
  qed
qed

type_synonym 's enc_step = "'s pb_ostream \<Rightarrow> 's enc_result"

definition on_failure :: "'s enc_step \<Rightarrow> string \<Rightarrow> 's enc_step" where
  "on_failure f msg st =
     (case f st of
        None \<Rightarrow> None
      | Some (ok, st') \<Rightarrow> Some (if \<not> ok then oerr st' msg else (True, st')))"

locale enc_closed =
  fixes m :: mem
    and env :: "'s pb_enc_env"
    and Q :: "'s enc_step \<Rightarrow> bool"
    and sized :: "u64 \<Rightarrow> bool"
  assumes Q_none: "Q (\<lambda>st. None)"
    and Q_return: "Q (\<lambda>st. Some (True, st))"
    and Q_err: "Q (\<lambda>st. Some (oerr st msg))"
    and Q_write: "length buf = unat count \<Longrightarrow> sized count \<Longrightarrow> Q (\<lambda>st. Some (pb_write st buf count))"
    and sized_u32: "unat count < 4294967296 \<Longrightarrow> sized count"
    and sized_string: "sized (strnlen_loop m p (- 1) 0)"
    and Q_seq: "Q f \<Longrightarrow> Q g \<Longrightarrow> Q (\<lambda>st. fseq (f st) g)"
    and Q_on_failure: "Q f \<Longrightarrow> Q (on_failure f msg)"
    and Q_callback: "Q (\<lambda>st. Some (cb_encode env fp m st field arg))"
    and Q_ext_callback: "Q (\<lambda>st. Some (ext_encode env fp m st e))"
    and Q_submessage:
      "(\<And>fds src. Q (\<lambda>st. pb_encode m env n st fds src)) \<Longrightarrow>
       Q (\<lambda>st. pb_encode_submessage (pb_encode m env n) st fds src)"
    and Q_packed:
      "(\<And>p. Q (\<lambda>st. pb_encoder m enc st field p)) \<Longrightarrow>
       PB_LTYPE (ftype field) \<le> PB_LTYPE_LAST_PACKABLE \<Longrightarrow>
       Q (encode_packed m enc field pdata count)"
begin

text \<open>The branches of the code do not depend on the stream.\<close>

lemma Q_if: "(c \<Longrightarrow> Q f) \<Longrightarrow> (\<not> c \<Longrightarrow> Q g) \<Longrightarrow> Q (\<lambda>st. if c then f st else g st)"
  by (cases c) simp_all

lemma Q_if_Some:
  "(c \<Longrightarrow> Q (\<lambda>st. Some (f st))) \<Longrightarrow> (\<not> c \<Longrightarrow> Q (\<lambda>st. Some (g st))) \<Longrightarrow>
   Q (\<lambda>st. Some (if c then f st else g st))"
  by (cases c) simp_all

lemma Q_case:
  "(x = None \<Longrightarrow> Q f) \<Longrightarrow> (\<And>v. x = Some v \<Longrightarrow> Q (g v)) \<Longrightarrow>
   Q (\<lambda>st. case x of None \<Rightarrow> f st | Some v \<Rightarrow> g v st)"
  by (cases x) simp_all

lemma Q_case_Some:
  "(x = None \<Longrightarrow> Q (\<lambda>st. Some (f st))) \<Longrightarrow> (\<And>v. x = Some v \<Longrightarrow> Q (\<lambda>st. Some (g v st))) \<Longrightarrow>
   Q (\<lambda>st. Some (case x of None \<Rightarrow> f st | Some v \<Rightarrow> g v st))"
  by (cases x) simp_all

lemmas Q_branches = Q_if Q_if_Some Q_case Q_case_Some

lemma Q_varint: "Q (\<lambda>st. Some (pb_encode_varint st v))"
  unfolding pb_encode_varint_def varint_bytes_eq Let_def
  by (rule Q_write) (use varint_list_le_10 [of v] in \<open>simp_all add: sized_u32\<close>)

lemma some_oseq: "Some (oseq r k) = fseq (Some r) (\<lambda>st. Some (k st))"
  by (cases r) (simp add: oseq_def fseq_def)

lemma Q_string: "length buf = unat n \<Longrightarrow> sized n \<Longrightarrow> Q (\<lambda>st. Some (pb_encode_string st buf n))"
  unfolding pb_encode_string_def some_oseq by (rule Q_seq [OF Q_varint Q_write])

lemma sized_ucast: "sized (ucast (n :: u32))"
  by (rule sized_u32) (simp add: unat_ucast_u32_u64 unat_u32_lt)

lemma sized_strnlen: "sized (strnlen_loop m p (ucast (n :: u32)) 0)"
  using strnlen_le [of 0 "ucast n" m p]
  by (intro sized_u32) (simp add: unat_ucast_u32_u64 word_le_nat_alt le_less_trans [OF _ unat_u32_lt])

lemma Q_tag: "Q (\<lambda>st. Some (pb_encode_tag st wt k))"
  unfolding pb_encode_tag_def by (rule Q_varint)

lemma Q_tag_for_field: "Q (\<lambda>st. Some (pb_encode_tag_for_field st field))"
  by (cases "wiretype_of_ltype (PB_LTYPE (ftype field))")
    (simp_all add: pb_encode_tag_for_field_def Q_err Q_tag)

lemma Q_enc_bytes: "Q (\<lambda>st. Some (pb_enc_bytes m st field p))"
  unfolding pb_enc_bytes_def Let_def
  by (intro Q_branches Q_err Q_string) (simp_all add: sized_u32 sized_ucast)

lemma Q_enc_string: "Q (\<lambda>st. Some (pb_enc_string m st field p))"
  unfolding pb_enc_string_def Let_def
  by (rule Q_string) (simp_all add: sized_u32 sized_string sized_strnlen)

lemma Q_fixed_length_bytes: "Q (\<lambda>st. Some (pb_enc_fixed_length_bytes m st field p))"
  unfolding pb_enc_fixed_length_bytes_def
  by (rule Q_string) (simp_all add: unat_ucast_u32_u64 sized_ucast)

lemma Q_enc_integers:
  "Q (\<lambda>st. Some (pb_enc_bool m st p))"
  "Q (\<lambda>st. Some (pb_enc_varint m st field p))"
  "Q (\<lambda>st. Some (pb_enc_uvarint m st field p))"
  "Q (\<lambda>st. Some (pb_enc_svarint m st field p))"
  "Q (\<lambda>st. Some (pb_enc_fixed32 m st p))"
  "Q (\<lambda>st. Some (pb_enc_fixed64 m st p))"
  unfolding pb_enc_bool_def pb_enc_varint_def pb_enc_uvarint_def pb_enc_svarint_def
      pb_encode_svarint_def pb_enc_fixed32_def pb_enc_fixed64_def encode_fixed32_bytes
      encode_fixed64_bytes
  by (intro Q_branches Q_varint Q_write Q_err; simp add: sized_u32)+

lemma Q_encoder:
  assumes "\<And>fds src. Q (\<lambda>st. pb_encode_submessage enc st fds src)"
  shows "Q (\<lambda>st. pb_encoder m enc st field p)"
  unfolding pb_encoder_def Let_def pb_enc_submessage_def
  by (intro Q_branches Q_enc_integers Q_enc_bytes Q_enc_string Q_fixed_length_bytes Q_err Q_none
      assms)

lemma Q_items:
  assumes "\<And>p. Q (\<lambda>st. f st p)"
  shows "Q (enc_items f dsize n p)"
proof (induction n arbitrary: p)
  case 0
  have "enc_items f dsize 0 p = (\<lambda>st. Some (True, st))" by (rule ext) simp
  then show ?case by (simp add: Q_return)
next
  case (Suc n)
  have "enc_items f dsize (Suc n) p = (\<lambda>st. fseq (f st p) (enc_items f dsize n (p + ucast dsize)))"
    by (rule ext) simp
  then show ?case by (simp add: Q_seq assms Suc)
qed

lemma Q_unpacked_item:
  assumes "\<And>fds src. Q (\<lambda>st. pb_encode_submessage enc st fds src)"
  shows "Q (\<lambda>st. encode_unpacked_item m enc field st p)"
  unfolding encode_unpacked_item_def
  by (intro Q_seq Q_tag_for_field Q_if Q_encoder assms)

lemma Q_array:
  assumes "\<And>fds src. Q (\<lambda>st. pb_encode_submessage enc st fds src)"
  shows "Q (\<lambda>st. encode_array m enc st field pdata count)"
  unfolding encode_array_def
  by (intro Q_branches Q_return Q_err Q_seq Q_tag Q_packed Q_encoder Q_items Q_unpacked_item assms)

lemma Q_basic_field:
  assumes "\<And>fds src. Q (\<lambda>st. pb_encode_submessage enc st fds src)"
  shows "Q (\<lambda>st. encode_basic_field m env n enc st field pdata)"
  unfolding encode_basic_field_def Let_def
  by (intro Q_branches Q_none Q_err Q_return Q_array Q_seq Q_tag_for_field Q_encoder assms)

lemma Q_callback_field: "Q (\<lambda>st. Some (encode_callback_field m env st field pdata))"
proof (cases "rd64 m pdata = 0")
  case True
  then show ?thesis by (simp add: encode_callback_field_def Q_return)
next
  case False
  have "(\<lambda>st. Some (encode_callback_field m env st field pdata))
      = on_failure (\<lambda>st. Some (cb_encode env (rd64 m pdata) m st field (pdata + 8))) ''callback error''"
    using False by (auto simp: encode_callback_field_def on_failure_def fun_eq_iff split: prod.split)
  then show ?thesis by (simp add: Q_on_failure Q_callback)
qed

lemma Q_field:
  assumes "\<And>fds src. Q (\<lambda>st. pb_encode_submessage enc st fds src)"
  shows "Q (\<lambda>st. encode_field m env n enc st field pdata)"
  unfolding encode_field_def Let_def
  by (intro Q_branches Q_basic_field assms Q_callback_field Q_err)

lemma Q_extensions:
  assumes "\<And>fds src. Q (\<lambda>st. pb_encode_submessage enc st fds src)"
  shows "Q (\<lambda>st. encode_extensions m env n enc k st e)"
proof (induction k arbitrary: e)
  case 0
  show ?case by (simp add: Q_none)
next
  case (Suc k)
  show ?case
    unfolding encode_extensions.simps default_extension_encoder_def Let_def
    by (intro Q_branches Q_seq Q_return Q_ext_callback Q_field assms Suc)
qed

lemma Q_fields:
  assumes f: "\<And>it. Q (\<lambda>st. f st it)"
  shows "Q (enc_fields f it)"
proof (induction "length (istart it) - ipos it" arbitrary: it rule: less_induct)
  case less
  have "Q (\<lambda>st. if fst (pb_field_iter_next it) then enc_fields f (snd (pb_field_iter_next it)) st
      else Some (True, st))"
    by (intro Q_if Q_return) (use less iter_next_bound in \<open>metis prod.collapse\<close>)
  from Q_seq [OF f this] have "Q (\<lambda>st. fseq (f st it) (\<lambda>st. if fst (pb_field_iter_next it)
      then enc_fields f (snd (pb_field_iter_next it)) st else Some (True, st)))" .
  moreover have "enc_fields f it = (\<lambda>st. fseq (f st it) (\<lambda>st. if fst (pb_field_iter_next it)
      then enc_fields f (snd (pb_field_iter_next it)) st else Some (True, st)))"
    by (rule ext) (subst enc_fields.simps, auto simp: fseq_def split: option.split prod.split)
  ultimately show ?case by simp
qed

lemma Q_encode: "Q (\<lambda>st. pb_encode m env n st fds src)"
proof (induction n arbitrary: fds src)
  case 0
  show ?case by (simp add: Q_none)
next
  case (Suc n)
  have "Q (\<lambda>st. if PB_LTYPE (ftype (iter_field it)) = PB_LTYPE_EXTENSION
      then encode_extension_field m env n (pb_encode m env n) st (pData it)
      else encode_field m env n (pb_encode m env n) st (iter_field it) (pData it))" for it
    unfolding encode_extension_field_def
    by (intro Q_if Q_extensions Q_field Q_submessage Suc)
  from Q_fields [OF this] show ?case
    by (cases "pb_field_iter_begin (fields_at env fds) src")
      (auto simp: pb_encode_body_def intro!: Q_if Q_return)
qed

lemma Q_delimited: "Q (\<lambda>st. pb_encode_delimited m env n st fds src)"
  unfolding pb_encode_delimited_def by (intro Q_submessage Q_encode)

lemma Q_nullterminated: "Q (\<lambda>st. pb_encode_nullterminated m env n st fds src)"
  unfolding pb_encode_nullterminated_def by (intro Q_seq Q_encode Q_write) (simp_all add: sized_u32)

end

end
