(* ===== verification/Pb_Encode_Size.thy ===== *)
theory Pb_Encode_Size
  imports Pb_Encode_Props
begin

text \<open>
  The two instances of the encoder interface about sizes: a successful run of an encoder adds
  the same number of bytes to every stream (\<open>steady\<close>), and an encoder that can be sized writes
  one byte string, fixed by the message, to every buffer that has room for it (\<open>writes\<close>).
\<close>

section \<open>Every run counts the same bytes\<close>

definition adds :: "'s enc_step \<Rightarrow> u64 \<Rightarrow> bool" where
  "adds f k \<longleftrightarrow> (\<forall>st st'. f st = Some (True, st') \<longrightarrow> bytes_written st' = bytes_written st + k)"

definition steady :: "'s enc_step \<Rightarrow> bool" where
  "steady f \<longleftrightarrow> (\<exists>k. adds f k)"

lemma addsD: "adds f k \<Longrightarrow> f st = Some (True, st') \<Longrightarrow> bytes_written st' = bytes_written st + k"
  by (simp add: adds_def)

lemma oerr_failed [simp]: "oerr st msg \<noteq> (True, st')" "fst (oerr st msg) = False"
  by (simp_all add: oerr_def)

lemma fseq_success:
  "fseq r k = Some (True, st') \<longleftrightarrow> (\<exists>st1. r = Some (True, st1) \<and> k st1 = Some (True, st'))"
  by (auto simp: fseq_def split: option.splits prod.splits if_splits)

lemma adds_write: "adds (\<lambda>st. Some (pb_write st buf count)) count"
  by (auto simp: adds_def pb_write_def split: option.splits if_splits prod.splits)

lemma adds_seq: "adds f j \<Longrightarrow> adds g k \<Longrightarrow> adds (\<lambda>st. fseq (f st) g) (j + k)"
  by (auto simp: adds_def fseq_success algebra_simps)

lemma adds_varint: "adds (\<lambda>st. Some (pb_encode_varint st v)) (word_of_nat (length (varint_list v)))"
  unfolding pb_encode_varint_def varint_bytes_eq Let_def by (rule adds_write)

lemma sizing_simps [simp]:
  "ocallback (PB_OSTREAM_SIZING s) = None" "bytes_written (PB_OSTREAM_SIZING s) = 0"
  "ostate (PB_OSTREAM_SIZING s) = s"
  by (simp_all add: PB_OSTREAM_SIZING_def)

text \<open>A step that never succeeds on a sizing stream adds any number of bytes.\<close>

lemma adds_submessage:
  assumes "adds (\<lambda>st. enc st fds src) k"
  shows "adds (\<lambda>st. pb_encode_submessage enc st fds src) (word_of_nat (length (varint_list k)) + k)"
  unfolding adds_def
proof (intro allI impI)
  fix st st'
  assume r: "pb_encode_submessage enc st fds src = Some (True, st')"
  then obtain sub where sub: "enc (PB_OSTREAM_SIZING (ostate st)) fds src = Some (True, sub)"
    by (auto simp: pb_encode_submessage_def split: option.splits prod.splits if_splits)
  with assms have bw: "bytes_written sub = k" by (auto dest: addsD)
  from r sub bw obtain st1 where v: "pb_encode_varint st k = (True, st1)"
    and t: "(if ocallback st1 = None then Some (pb_write st1 [] k)
         else if max_size st1 < bytes_written st1 + k then Some (oerr st1 ''stream full'')
         else
           (case enc \<lparr>ocallback = ocallback st1, ostate = ostate st1, max_size = k,
                      bytes_written = 0, oerrmsg = None\<rparr> fds src of
              None \<Rightarrow> None
            | Some (status, sub) \<Rightarrow>
                (let st' = st1\<lparr>bytes_written := bytes_written st1 + bytes_written sub,
                              ostate := ostate sub, oerrmsg := oerrmsg sub\<rparr> in
                 if bytes_written sub \<noteq> k
                 then Some (oerr st' ''submsg size changed'')
                 else Some (status, st')))) = Some (True, st')"
    by (auto simp: pb_encode_submessage_def fseq_success Let_def)
  from v have "bytes_written st1 = bytes_written st + word_of_nat (length (varint_list k))"
    by (intro addsD [OF adds_varint]) simp
  moreover from t have "bytes_written st' = bytes_written st1 + k"
    using adds_write [of "[]" k]
    by (auto simp: adds_def Let_def split: if_splits option.splits prod.splits)
  ultimately show "bytes_written st' = bytes_written st + (word_of_nat (length (varint_list k)) + k)"
    by simp
qed

text \<open>A run of items adds the sum.\<close>

lemma adds_items:
  "(\<And>p. adds (\<lambda>st. f st p) (c p)) \<Longrightarrow> \<exists>k. adds (enc_items f dsize n p) k"
proof (induction n arbitrary: p)
  case 0
  show ?case by (rule exI [of _ 0]) (simp add: adds_def)
next
  case (Suc n)
  then obtain k where "adds (enc_items f dsize n (p + ucast dsize)) k" by blast
  from adds_seq [OF Suc.prems this] show ?case
    by (intro exI [of _ "c p + k"]) (simp add: adds_def)
qed

lemma adds_items_const:
  "(\<And>p. adds (\<lambda>st. f st p) c) \<Longrightarrow> adds (enc_items f dsize n p) (word_of_nat n * c)"
proof (induction n arbitrary: p)
  case 0
  show ?case by (simp add: adds_def)
next
  case (Suc n)
  from adds_seq [OF Suc.prems Suc.IH [OF Suc.prems]] show ?case
    by (auto simp: adds_def algebra_simps)
qed

lemma adds_packed_fixed:
  "PB_LTYPE (ftype field) = PB_LTYPE_FIXED32 \<Longrightarrow> adds (\<lambda>st. pb_encoder m enc st field p) 4"
  "PB_LTYPE (ftype field) = PB_LTYPE_FIXED64 \<Longrightarrow> adds (\<lambda>st. pb_encoder m enc st field p) 8"
  by (simp_all add: pb_encoder_def Let_def pb_enc_fixed32_def pb_enc_fixed64_def
      encode_fixed32_bytes encode_fixed64_bytes adds_write)

lemma steady_packed:
  assumes f: "\<And>p. steady (\<lambda>st. pb_encoder m enc st field p)"
  shows "steady (encode_packed m enc field pdata count)"
proof -
  let ?items = "enc_items (\<lambda>s p. pb_encoder m enc s field p) (data_size field) (unat count) pdata"
  obtain c where c: "adds (\<lambda>st. pb_encoder m enc st field p) (c p)" for p
    using f unfolding steady_def by metis
  have "\<exists>k. adds ?items k" by (rule adds_items) (rule c)
  then obtain k where k: "adds ?items k" ..
  have fixed: "adds ?items (4 * count)" if "PB_LTYPE (ftype field) = PB_LTYPE_FIXED32"
    using adds_items_const [where f = "\<lambda>s p. pb_encoder m enc s field p" and n = "unat count",
        OF adds_packed_fixed(1) [OF that]]
    by (simp add: mult.commute)
  have fixed': "adds ?items (8 * count)" if "PB_LTYPE (ftype field) = PB_LTYPE_FIXED64"
    using adds_items_const [where f = "\<lambda>s p. pb_encoder m enc s field p" and n = "unat count",
        OF adds_packed_fixed(2) [OF that]]
    by (simp add: mult.commute)
  have other: "sz = k" if "packed_size m enc st field pdata count = Some (Some sz)"
    "PB_LTYPE (ftype field) \<noteq> PB_LTYPE_FIXED32" "PB_LTYPE (ftype field) \<noteq> PB_LTYPE_FIXED64"
    for st sz
  proof -
    from that obtain sub where "?items (PB_OSTREAM_SIZING (ostate st)) = Some (True, sub)"
      and "sz = bytes_written sub"
      by (auto simp: packed_size_def split: option.splits prod.splits if_splits)
    with addsD [OF k] show ?thesis by simp
  qed
  have "\<exists>z. adds ?items z
      \<and> (\<forall>st sz. packed_size m enc st field pdata count = Some (Some sz) \<longrightarrow> sz = z)"
  proof (cases "PB_LTYPE (ftype field) = PB_LTYPE_FIXED32 \<or> PB_LTYPE (ftype field) = PB_LTYPE_FIXED64")
    case True
    then show ?thesis using fixed fixed' by (auto simp: packed_size_def)
  next
    case False
    then show ?thesis using k other by blast
  qed
  then obtain z where z: "adds ?items z"
    and sz: "\<And>st sz. packed_size m enc st field pdata count = Some (Some sz) \<Longrightarrow> sz = z" by blast
  have "adds (encode_packed m enc field pdata count) (word_of_nat (length (varint_list z)) + z)"
    unfolding adds_def
  proof (intro allI impI)
    fix st st'
    assume "encode_packed m enc field pdata count st = Some (True, st')"
    then obtain st1 where "pb_encode_varint st z = (True, st1)"
      and "(if ocallback st1 = None then Some (pb_write st1 [] z) else ?items st1) = Some (True, st')"
      using sz [of st]
      by (auto simp: encode_packed_def fseq_success split: option.splits)
    then show "bytes_written st' = bytes_written st + (word_of_nat (length (varint_list z)) + z)"
      using addsD [OF adds_varint, of st z st1] addsD [OF z, of st1 st'] addsD [OF adds_write, of st1 "[]" z st']
      by (auto split: if_splits)
  qed
  then show ?thesis unfolding steady_def by blast
qed

definition callbacks_are :: "('s enc_step \<Rightarrow> bool) \<Rightarrow> mem \<Rightarrow> 's pb_enc_env \<Rightarrow> bool" where
  "callbacks_are Q m env \<longleftrightarrow>
     (\<forall>fp field arg. Q (\<lambda>st. Some (cb_encode env fp m st field arg)))
     \<and> (\<forall>fp e. Q (\<lambda>st. Some (ext_encode env fp m st e)))"

lemma steady_closed:
  assumes "callbacks_are steady m env"
  shows "enc_closed m env steady (\<lambda>_. True)"
proof unfold_locales
  show "steady (\<lambda>st. None)" by (simp add: steady_def adds_def)
  show "steady (\<lambda>st. Some (True, st))"
    unfolding steady_def by (rule exI [of _ 0]) (simp add: adds_def)
  show "steady (\<lambda>st. Some (oerr st msg))" for msg by (simp add: steady_def adds_def)
  show "steady (\<lambda>st. Some (pb_write st buf count))" for buf and count :: u64
    unfolding steady_def by (rule exI) (rule adds_write)
  show "steady f \<Longrightarrow> steady g \<Longrightarrow> steady (\<lambda>st. fseq (f st) g)" for f g
    unfolding steady_def using adds_seq by blast
  show "steady f \<Longrightarrow> steady (on_failure f msg)" for f msg
    by (auto simp: steady_def adds_def on_failure_def split: option.splits prod.splits if_splits)
  show "(\<And>fds src. steady (\<lambda>st. pb_encode m env n st fds src)) \<Longrightarrow>
      steady (\<lambda>st. pb_encode_submessage (pb_encode m env n) st fds src)" for n fds src
    unfolding steady_def using adds_submessage by blast
qed (use assms in \<open>simp_all add: callbacks_are_def steady_packed\<close>)

text \<open>A program without user callbacks: a call through a callback pointer fails.\<close>

definition no_callbacks :: "(addr \<Rightarrow> pb_field list) \<Rightarrow> 's pb_enc_env" where
  "no_callbacks fds =
     \<lparr>fields_at = fds,
      cb_encode = (\<lambda>fp m st field arg. oerr st ''callback error''),
      ext_encode = (\<lambda>fp m st e. oerr st ''callback error'')\<rparr>"

lemma no_callbacks_are: "(\<And>msg. Q (\<lambda>st. Some (oerr st msg))) \<Longrightarrow> callbacks_are Q m (no_callbacks fds)"
  by (simp add: callbacks_are_def no_callbacks_def)

interpretation steady: enc_closed m "no_callbacks fds" steady "\<lambda>_. True"
  by (rule steady_closed, rule no_callbacks_are) (simp add: steady_def adds_def)

(*BEGIN*)
section \<open>A sized message is one byte string\<close>

text \<open>
  \<open>outputs f bs\<close>: on a sizing stream \<open>f\<close> succeeds and counts the bytes of \<open>bs\<close>; on a stream
  into a buffer that has room for \<open>bs\<close> it succeeds and appends \<open>bs\<close>. The count is modulo
  \<open>2^64\<close>; the room is not.
\<close>

definition into_ok :: "obuf pb_ostream \<Rightarrow> bool" where
  "into_ok st \<longleftrightarrow> bufsink.into st \<and> oerrmsg st = None"

lemma appends_into_ok: "bufsink.appends st bs st' \<Longrightarrow> into_ok st \<Longrightarrow> into_ok st'"
  by (simp add: bufsink.appends_def into_ok_def)

definition outputs :: "obuf enc_step \<Rightarrow> bytes \<Rightarrow> bool" where
  "outputs f bs \<longleftrightarrow>
     (\<forall>st. ocallback st = None \<longrightarrow>
        (\<exists>st'. f st = Some (True, st') \<and> ocallback st' = None
           \<and> bytes_written st' = bytes_written st + word_of_nat (length bs)))
     \<and> (\<forall>st. into_ok st \<longrightarrow> bufsink.fits st bs \<longrightarrow>
        (\<exists>st'. f st = Some (True, st') \<and> bufsink.appends st bs st'))"

definition unsizable :: "obuf enc_step \<Rightarrow> bool" where
  "unsizable f \<longleftrightarrow> (\<forall>st st'. ocallback st = None \<longrightarrow> f st \<noteq> Some (True, st'))"

definition writes :: "obuf enc_step \<Rightarrow> bool" where
  "writes f \<longleftrightarrow> (\<exists>bs. outputs f bs) \<or> unsizable f"

lemma outputs_sizing:
  "outputs f bs \<Longrightarrow> ocallback st = None \<Longrightarrow>
   \<exists>st'. f st = Some (True, st') \<and> ocallback st' = None
     \<and> bytes_written st' = bytes_written st + word_of_nat (length bs)"
  by (simp add: outputs_def)

lemma outputs_buffer:
  "outputs f bs \<Longrightarrow> into_ok st \<Longrightarrow> bufsink.fits st bs \<Longrightarrow>
   \<exists>st'. f st = Some (True, st') \<and> bufsink.appends st bs st'"
  by (simp add: outputs_def)

lemma writesI [intro]: "outputs f bs \<Longrightarrow> writes f"
  by (auto simp: writes_def)

lemma unsizable_writes [intro]: "unsizable f \<Longrightarrow> writes f"
  by (simp add: writes_def)

lemma outputs_write:
  assumes l: "length buf = unat count"
  shows "outputs (\<lambda>st. Some (pb_write st buf count)) buf"
  unfolding outputs_def using l bufsink.write_fits [OF _ l] by (auto simp: pb_write_def into_ok_def)

lemma outputs_varint: "outputs (\<lambda>st. Some (pb_encode_varint st v)) (varint_list v)"
  unfolding pb_encode_varint_def varint_bytes_eq Let_def
  by (rule outputs_write) (use varint_list_le_10 [of v] in simp)

lemma outputs_seq:
  assumes f: "outputs f a" and g: "outputs g b"
  shows "outputs (\<lambda>st. fseq (f st) g) (a @ b)"
  unfolding outputs_def
proof (intro conjI allI impI)
  fix st :: "obuf pb_ostream"
  assume "ocallback st = None"
  then obtain st1 where 1: "f st = Some (True, st1)" "ocallback st1 = None"
    "bytes_written st1 = bytes_written st + word_of_nat (length a)"
    using outputs_sizing [OF f] by blast
  from outputs_sizing [OF g this(2)] 1 show "\<exists>st'. fseq (f st) g = Some (True, st')
      \<and> ocallback st' = None
      \<and> bytes_written st' = bytes_written st + word_of_nat (length (a @ b))"
    by (auto simp: fseq_def algebra_simps)
next
  fix st :: "obuf pb_ostream"
  assume i: "into_ok st" and fit: "bufsink.fits st (a @ b)"
  then have "bufsink.fits st a" by (simp add: bufsink.fits_def)
  from outputs_buffer [OF f i this] obtain st1 where
    1: "f st = Some (True, st1)" "bufsink.appends st a st1" by blast
  have "into_ok st1" by (rule appends_into_ok [OF 1(2) i])
  moreover have "bufsink.fits st1 b" using 1 fit by (simp add: bufsink.appends_fits)
  note this1 = calculation this
  from outputs_buffer [OF g this1] 1 show "\<exists>st'. fseq (f st) g = Some (True, st')
      \<and> bufsink.appends st (a @ b) st'"
    by (auto simp: fseq_def intro: bufsink.appends_trans)
qed

lemma writes_seq:
  assumes f: "writes f" and g: "writes g"
  shows "writes (\<lambda>st. fseq (f st) g)"
proof (cases "unsizable f")
  case True
  then have "unsizable (\<lambda>st. fseq (f st) g)"
    by (auto simp: unsizable_def fseq_success)
  then show ?thesis ..
next
  case False
  with f obtain a where a: "outputs f a" by (auto simp: writes_def)
  show ?thesis
  proof (cases "unsizable g")
    case True
    then have "unsizable (\<lambda>st. fseq (f st) g)"
      unfolding unsizable_def fseq_success using outputs_sizing [OF a]
      by (metis Pair_inject option.inject)
    then show ?thesis ..
  next
    case False
    with g obtain b where "outputs g b" by (auto simp: writes_def)
    from outputs_seq [OF a this] show ?thesis ..
  qed
qed

text \<open>
  The submessage code runs the encoder on a substream whose limit is the size found before.
\<close>

lemma substream_appends:
  assumes o: "outputs f bs" and i: "into_ok st" and fit: "bufsink.fits st bs"
  shows "\<exists>sub. f \<lparr>ocallback = ocallback st, ostate = ostate st, max_size = word_of_nat (length bs),
               bytes_written = 0, oerrmsg = None\<rparr> = Some (True, sub)
      \<and> bytes_written sub = word_of_nat (length bs)
      \<and> bufsink.appends st bs (st\<lparr>bytes_written := bytes_written st + bytes_written sub,
             ostate := ostate sub, oerrmsg := oerrmsg sub\<rparr>)"
proof -
  let ?sub = "\<lparr>ocallback = ocallback st, ostate = ostate st, max_size = word_of_nat (length bs),
               bytes_written = 0, oerrmsg = None\<rparr>"
  let ?w = "unat (bytes_written st)" and ?l = "length bs"
  have into: "ocallback st = Some buf_write" "bytes_written st \<le> max_size st"
    "unat (max_size st) - ?w \<le> buf_room (ostate st)" and err: "oerrmsg st = None"
    using i by (simp_all add: into_ok_def bufsink.into_def)
  have n: "?w + ?l \<le> unat (max_size st)" using fit by (simp add: bufsink.fits_def)
  with into have room: "?l \<le> buf_room (ostate st)" by linarith
  have lt: "?w + ?l < 18446744073709551616"
    using n unat_u64_lt [of "max_size st"] by simp
  then have u: "unat (word_of_nat ?l :: u64) = ?l" by simp
  have "into_ok ?sub" "bufsink.fits ?sub bs"
    using into room u by (simp_all add: into_ok_def bufsink.into_def bufsink.fits_def)
  from outputs_buffer [OF o this] obtain sub where
    s: "f ?sub = Some (True, sub)" and a: "bufsink.appends ?sub bs sub" by blast
  have bw: "unat (bytes_written sub) = ?l"
    and out: "buf_out (ostate sub) = buf_out (ostate st) @ bs"
    and left: "buf_room (ostate sub) = buf_room (ostate st) - ?l" and e: "oerrmsg sub = None"
    using a by (simp_all add: bufsink.appends_def)
  have w: "bytes_written sub = word_of_nat ?l"
    by (rule word_unat_eq_iff [THEN iffD2]) (simp add: bw u)
  have sum: "unat (bytes_written st + bytes_written sub) = ?w + ?l"
    using lt bw by (simp add: unat_plus_no_overflow_u64)
  have "unat (max_size st) - (?w + ?l) \<le> buf_room (ostate st) - ?l" using into(3) by simp
  then have "bufsink.appends st bs (st\<lparr>bytes_written := bytes_written st + bytes_written sub,
             ostate := ostate sub, oerrmsg := oerrmsg sub\<rparr>)"
    unfolding bufsink.appends_def bufsink.into_def
    using out left e err sum n into(1) by (simp add: word_le_nat_alt)
  with s w show ?thesis by blast
qed

(*BEGIN*)

lemma pb_write_null [simp]:
  "ocallback st = None \<Longrightarrow> pb_write st buf n = (True, st\<lparr>bytes_written := bytes_written st + n\<rparr>)"
  by (simp add: pb_write_def)

lemma outputs_return: "outputs (\<lambda>st. Some (True, st)) []"
  by (simp add: outputs_def bufsink.appends_Nil into_ok_def)

lemma fits_not_wraps:
  assumes "bufsink.fits st bs"
  shows "\<not> max_size st < bytes_written st + word_of_nat (length bs)"
proof -
  have n: "unat (bytes_written st) + length bs \<le> unat (max_size st)"
    using assms by (simp add: bufsink.fits_def)
  then have "unat (bytes_written st) + length bs < 18446744073709551616"
    using unat_u64_lt [of "max_size st"] by simp
  then have "unat (bytes_written st + word_of_nat (length bs)) = unat (bytes_written st) + length bs"
    by (simp add: unat_plus_no_overflow_u64)
  with n show ?thesis by (simp add: word_less_nat_alt)
qed

lemma outputs_submessage:
  assumes o: "outputs (\<lambda>st. enc st fds src) bs"
  shows "outputs (\<lambda>st. pb_encode_submessage enc st fds src)
    (varint_list (word_of_nat (length bs)) @ bs)"
proof -
  let ?z = "word_of_nat (length bs) :: u64"
  let ?K = "\<lambda>st.
     if ocallback st = None then Some (pb_write st [] ?z)
     else if max_size st < bytes_written st + ?z then Some (oerr st ''stream full'')
     else
       (case enc \<lparr>ocallback = ocallback st, ostate = ostate st, max_size = ?z,
                  bytes_written = 0, oerrmsg = None\<rparr> fds src of
          None \<Rightarrow> None
        | Some (status, sub) \<Rightarrow>
            (let st' = st\<lparr>bytes_written := bytes_written st + bytes_written sub,
                          ostate := ostate sub, oerrmsg := oerrmsg sub\<rparr> in
             if bytes_written sub \<noteq> ?z
             then Some (oerr st' ''submsg size changed'')
             else Some (status, st')))"
  have "pb_encode_submessage enc st fds src = fseq (Some (pb_encode_varint st ?z)) ?K" for st
  proof -
    obtain sub where "enc (PB_OSTREAM_SIZING (ostate st)) fds src = Some (True, sub)"
      and bw: "bytes_written sub = ?z"
      using outputs_sizing [OF o, of "PB_OSTREAM_SIZING (ostate st)"] by auto
    then show ?thesis unfolding pb_encode_submessage_def by (simp add: bw Let_def cong: if_cong option.case_cong prod.case_cong)
  qed
  moreover have "outputs ?K bs"
    unfolding outputs_def
  proof (intro conjI allI impI)
    fix st :: "obuf pb_ostream"
    assume "into_ok st" and fit: "bufsink.fits st bs"
    then have "ocallback st \<noteq> None" by (simp add: into_ok_def bufsink.into_def)
    with substream_appends [OF o \<open>into_ok st\<close> fit] fits_not_wraps [OF fit]
    show "\<exists>st'. ?K st = Some (True, st') \<and> bufsink.appends st bs st'" by auto
  qed simp
  ultimately show ?thesis using outputs_seq [OF outputs_varint] by simp
qed

lemma writes_submessage:
  assumes "writes (\<lambda>st. enc st fds src)"
  shows "writes (\<lambda>st. pb_encode_submessage enc st fds src)"
  using assms unfolding writes_def
proof
  assume "\<exists>bs. outputs (\<lambda>st. enc st fds src) bs"
  then show "(\<exists>bs. outputs (\<lambda>st. pb_encode_submessage enc st fds src) bs)
      \<or> unsizable (\<lambda>st. pb_encode_submessage enc st fds src)"
    using outputs_submessage by blast
next
  assume "unsizable (\<lambda>st. enc st fds src)"
  then have "unsizable (\<lambda>st. pb_encode_submessage enc st fds src)"
    by (auto simp: unsizable_def pb_encode_submessage_def split: option.splits prod.splits if_splits)
  then show "(\<exists>bs. outputs (\<lambda>st. pb_encode_submessage enc st fds src) bs)
      \<or> unsizable (\<lambda>st. pb_encode_submessage enc st fds src)" ..
qed

lemma writes_items:
  assumes "\<And>p. writes (\<lambda>st. f st p)"
  shows "writes (enc_items f dsize n p)"
proof (induction n arbitrary: p)
  case 0
  have "enc_items f dsize 0 p = (\<lambda>st. Some (True, st))" by (rule ext) simp
  then show ?case using writesI [OF outputs_return] by simp
next
  case (Suc n)
  have "enc_items f dsize (Suc n) p = (\<lambda>st. fseq (f st p) (enc_items f dsize n (p + ucast dsize)))"
    by (rule ext) simp
  then show ?case using writes_seq [OF assms Suc] by simp
qed

lemma outputs_items_length:
  assumes c: "\<And>p. outputs (\<lambda>st. f st p) (c p)" and k: "\<And>p. length (c p) = k"
  shows "\<exists>bs. outputs (enc_items f dsize n p) bs \<and> length bs = n * k"
proof (induction n arbitrary: p)
  case 0
  have "enc_items f dsize 0 p = (\<lambda>st. Some (True, st))" by (rule ext) simp
  then show ?case using outputs_return by (intro exI [of _ "[]"]) simp
next
  case (Suc n)
  from Suc obtain bs where bs: "outputs (enc_items f dsize n (p + ucast dsize)) bs" "length bs = n * k"
    by blast
  have "enc_items f dsize (Suc n) p = (\<lambda>st. fseq (f st p) (enc_items f dsize n (p + ucast dsize)))"
    by (rule ext) simp
  with outputs_seq [OF c [of p] bs(1)] bs(2) k show ?case by (intro exI [of _ "c p @ bs"]) simp
qed

lemma outputs_packed:
  assumes items: "outputs (enc_items (\<lambda>s p. pb_encoder m enc s field p) (data_size field)
      (unat count) pdata) bs"
    and sz: "\<And>st. packed_size m enc st field pdata count = Some (Some (word_of_nat (length bs)))"
  shows "outputs (encode_packed m enc field pdata count) (varint_list (word_of_nat (length bs)) @ bs)"
proof -
  let ?K = "\<lambda>st. if ocallback st = None then Some (pb_write st [] (word_of_nat (length bs)))
     else enc_items (\<lambda>s p. pb_encoder m enc s field p) (data_size field) (unat count) pdata st"
  have "outputs ?K bs"
    using items by (auto simp: outputs_def into_ok_def bufsink.into_def)
  from outputs_seq [OF outputs_varint this] show ?thesis
    by (simp add: encode_packed_def [abs_def] sz)
qed

lemma writes_packed:
  assumes f: "\<And>p. writes (\<lambda>st. pb_encoder m enc st field p)"
  shows "writes (encode_packed m enc field pdata count)"
proof -
  let ?items = "enc_items (\<lambda>s p. pb_encoder m enc s field p) (data_size field) (unat count) pdata"
  have c: "word_of_nat (unat count * n) = word_of_nat n * count" for n by simp
  consider (f32) "PB_LTYPE (ftype field) = PB_LTYPE_FIXED32"
    | (f64) "PB_LTYPE (ftype field) = PB_LTYPE_FIXED64"
    | (var) "PB_LTYPE (ftype field) \<noteq> PB_LTYPE_FIXED32" "PB_LTYPE (ftype field) \<noteq> PB_LTYPE_FIXED64"
    by blast
  then show ?thesis
  proof cases
    case f32
    then have "outputs (\<lambda>st. pb_encoder m enc st field p) (le_bytes 4 (rd32 m p))" for p
      by (simp add: pb_encoder_def Let_def pb_enc_fixed32_def encode_fixed32_bytes outputs_write)
    then obtain bs where "outputs ?items bs" "length bs = unat count * 4"
      using outputs_items_length [of "\<lambda>s p. pb_encoder m enc s field p" _ 4] by fastforce
    with outputs_packed [OF this(1)] f32 show ?thesis by (auto simp: packed_size_def mult.commute)
  next
    case f64
    then have "outputs (\<lambda>st. pb_encoder m enc st field p) (le_bytes 8 (rd64 m p))" for p
      by (simp add: pb_encoder_def Let_def pb_enc_fixed64_def encode_fixed64_bytes outputs_write)
    then obtain bs where "outputs ?items bs" "length bs = unat count * 8"
      using outputs_items_length [of "\<lambda>s p. pb_encoder m enc s field p" _ 8] by fastforce
    with outputs_packed [OF this(1)] f64 show ?thesis by (auto simp: packed_size_def mult.commute)
  next
    case var
    have "writes ?items" by (rule writes_items) (rule f)
    then consider (out) bs where "outputs ?items bs" | (none) "unsizable ?items"
      by (auto simp: writes_def)
    then show ?thesis
    proof cases
      case out
      have "packed_size m enc st field pdata count = Some (Some (word_of_nat (length bs)))" for st
        using outputs_sizing [OF out, of "PB_OSTREAM_SIZING (ostate st)"] var
        by (auto simp: packed_size_def)
      from outputs_packed [OF out this] show ?thesis ..
    next
      case none
      have "packed_size m enc st field pdata count \<noteq> Some (Some z)" for st z
        using none var
        by (auto simp: packed_size_def unsizable_def split: option.splits prod.splits if_splits)
      then have "unsizable (encode_packed m enc field pdata count)"
        by (auto simp: unsizable_def encode_packed_def split: option.splits)
      then show ?thesis ..
    qed
  qed
qed

lemma writes_closed:
  assumes "callbacks_are writes m env"
  shows "enc_closed m env writes (\<lambda>_. True)"
proof unfold_locales
  show "writes (\<lambda>st. None)" by (simp add: writes_def unsizable_def)
  show "writes (\<lambda>st. Some (True, st))"
    by (rule writesI [OF outputs_return])
  show "writes (\<lambda>st. Some (oerr st msg))" for msg by (simp add: writes_def unsizable_def)
  show "length buf = unat count \<Longrightarrow> writes (\<lambda>st. Some (pb_write st buf count))" for buf count
    by (rule writesI) (rule outputs_write)
  show "writes f \<Longrightarrow> writes (on_failure f msg)" for f msg
    unfolding writes_def
  proof (erule disjE exE)+
    fix bs
    assume o: "outputs f bs"
    have "outputs (on_failure f msg) bs"
      unfolding outputs_def
    proof (intro conjI allI impI)
      fix st :: "obuf pb_ostream"
      assume "ocallback st = None"
      from outputs_sizing [OF o this] show "\<exists>st'. on_failure f msg st = Some (True, st')
          \<and> ocallback st' = None \<and> bytes_written st' = bytes_written st + word_of_nat (length bs)"
        by (auto simp: on_failure_def)
    next
      fix st :: "obuf pb_ostream"
      assume "into_ok st" "bufsink.fits st bs"
      from outputs_buffer [OF o this] show "\<exists>st'. on_failure f msg st = Some (True, st')
          \<and> bufsink.appends st bs st'"
        by (auto simp: on_failure_def)
    qed
    then show "(\<exists>bs. outputs (on_failure f msg) bs) \<or> unsizable (on_failure f msg)" by blast
  next
    assume "unsizable f"
    then have "unsizable (on_failure f msg)"
      by (auto simp: unsizable_def on_failure_def split: option.splits prod.splits if_splits)
    then show "(\<exists>bs. outputs (on_failure f msg) bs) \<or> unsizable (on_failure f msg)" ..
  qed
qed (use assms in \<open>simp_all add: callbacks_are_def writes_packed writes_submessage writes_seq\<close>)

interpretation writes: enc_closed m "no_callbacks fds" writes "\<lambda>_. True"
  by (rule writes_closed, rule no_callbacks_are) (simp add: writes_def unsizable_def)

(*BEGIN*)
section \<open>An encoder stays inside its buffer\<close>

text \<open>
  \<open>tame st\<close>: a stream into a buffer whose limit is inside the buffer and is less than half the
  range of \<open>size_t\<close>. \<open>stays st st'\<close>: the buffer of \<open>st'\<close> differs from that of \<open>st\<close> only from the
  old position up to the limit.
\<close>

definition limit :: "obuf pb_ostream \<Rightarrow> nat" where
  "limit st = snd (ostate st) + (unat (max_size st) - unat (bytes_written st))"

definition tame :: "obuf pb_ostream \<Rightarrow> bool" where
  "tame st \<longleftrightarrow> bufsink.into st \<and> snd (ostate st) \<le> length (fst (ostate st))
     \<and> unat (max_size st) < 9223372036854775808"

definition stays :: "obuf pb_ostream \<Rightarrow> obuf pb_ostream \<Rightarrow> bool" where
  "stays st st' \<longleftrightarrow>
     length (fst (ostate st')) = length (fst (ostate st))
     \<and> snd (ostate st) \<le> snd (ostate st')
     \<and> take (snd (ostate st)) (fst (ostate st')) = take (snd (ostate st)) (fst (ostate st))
     \<and> drop (limit st) (fst (ostate st')) = drop (limit st) (fst (ostate st))
     \<and> limit st' = limit st \<and> max_size st' = max_size st
     \<and> unat (bytes_written st') = unat (bytes_written st) + (snd (ostate st') - snd (ostate st))"

definition keeps :: "obuf enc_step \<Rightarrow> bool" where
  "keeps f \<longleftrightarrow> (\<forall>st ok st'. tame st \<longrightarrow> f st = Some (ok, st') \<longrightarrow> tame st' \<and> stays st st')"

lemma keepsD: "keeps f \<Longrightarrow> tame st \<Longrightarrow> f st = Some (ok, st') \<Longrightarrow> tame st' \<and> stays st st'"
  unfolding keeps_def by blast

lemma stays_refl: "stays st st"
  by (simp add: stays_def)

lemma stays_trans: "stays st st1 \<Longrightarrow> stays st1 st2 \<Longrightarrow> stays st st2"
  unfolding stays_def by (smt (verit, best) add_diff_cancel_left' le_iff_add group_cancel.add1 le_trans take_take min.absorb1)

lemma stays_oerrmsg:
  "tame (st\<lparr>oerrmsg := e\<rparr>) = tame st" "stays st (st\<lparr>oerrmsg := e\<rparr>)"
  by (simp_all add: tame_def stays_def bufsink.into_def limit_def)

lemma keeps_write:
  assumes l: "length buf = unat count"
  shows "keeps (\<lambda>st. Some (pb_write st buf count))"
  unfolding keeps_def
proof (intro allI impI)
  fix st ok st'
  assume t: "tame st" and "Some (pb_write st buf count) = Some (ok, st')"
  then have w: "pb_write st buf count = (ok, st')" by simp
  obtain mem pos where s: "ostate st = (mem, pos)" by (cases "ostate st")
  have i: "bufsink.into st" and p: "pos \<le> length mem" using t s by (simp_all add: tame_def)
  show "tame st' \<and> stays st st'"
  proof (cases ok)
    case False
    with w i have "st' = snd (oerr st ''stream full'')"
      using bufsink.write_full [OF i l] bufsink.write_fits [OF i l]
      by (cases "bufsink.fits st buf") auto
    with t show ?thesis by (simp add: oerr_def stays_oerrmsg)
  next
    case True
    from buffer_write_inside [OF i s p l w] True obtain mem' where
      s': "ostate st' = (mem', pos + unat count)" "length mem' = length mem"
      "take pos mem' = take pos mem" "drop (pos + unat count) mem' = drop (pos + unat count) mem"
      "bufsink.into st'"
      by auto
    have a: "bufsink.appends st buf st'" and f: "bufsink.fits st buf"
      using w True bufsink.write_fits [OF i l] bufsink.write_full [OF i l]
      by (cases "bufsink.fits st buf"; auto simp: oerr_def)+
    have bw: "unat (bytes_written st') = unat (bytes_written st) + unat count"
      "max_size st' = max_size st"
      using a l by (simp_all add: bufsink.appends_def)
    have lim: "limit st' = limit st" "pos + unat count \<le> limit st"
      "limit st \<le> length mem"
      using f l bw s s' i p by (auto simp: limit_def bufsink.fits_def bufsink.into_def)
    then have "drop (limit st) mem' = drop (limit st) mem"
      using s'(4) by (metis drop_drop le_add_diff_inverse2)
    then show ?thesis
      using t s s' bw lim by (simp add: tame_def stays_def)
  qed
qed

text \<open>
  The submessage code adds the size it has found to the bytes written without a check for
  overflow: the size has to be less than half the range of \<open>size_t\<close>.
\<close>

definition sizes_small :: "mem \<Rightarrow> 's pb_enc_env \<Rightarrow> bool" where
  "sizes_small m env \<longleftrightarrow>
     (\<forall>n s fds src st'. pb_encode m env n (PB_OSTREAM_SIZING s) fds src = Some (True, st')
        \<longrightarrow> unat (bytes_written st') < 9223372036854775808)"

lemma substream_tame:
  assumes t: "tame st" and c: "\<not> max_size st < bytes_written st + sz"
    and sz: "unat sz < 9223372036854775808"
  shows "tame \<lparr>ocallback = ocallback st, ostate = ostate st, max_size = sz, bytes_written = 0,
               oerrmsg = None\<rparr>"
    and "unat (bytes_written st) + unat sz \<le> unat (max_size st)"
proof -
  have "unat (bytes_written st) \<le> unat (max_size st)" "unat (max_size st) < 9223372036854775808"
    using t by (simp_all add: tame_def bufsink.into_def word_le_nat_alt)
  with c sz show le: "unat (bytes_written st) + unat sz \<le> unat (max_size st)"
    by (simp add: word_less_nat_alt unat_plus_no_overflow_u64)
  with t sz show "tame \<lparr>ocallback = ocallback st, ostate = ostate st, max_size = sz,
      bytes_written = 0, oerrmsg = None\<rparr>"
    by (auto simp: tame_def bufsink.into_def)
qed

lemma substream_stays:
  assumes t: "tame st" and le: "unat (bytes_written st) + unat sz \<le> unat (max_size st)"
    and s: "stays \<lparr>ocallback = ocallback st, ostate = ostate st, max_size = sz, bytes_written = 0,
               oerrmsg = None\<rparr> sub" and tame_sub: "tame sub"
  shows "tame (st\<lparr>bytes_written := bytes_written st + bytes_written sub, ostate := ostate sub,
               oerrmsg := e\<rparr>)"
    and "stays st (st\<lparr>bytes_written := bytes_written st + bytes_written sub, ostate := ostate sub,
               oerrmsg := e\<rparr>)"
proof -
  obtain m p m' p' where st: "ostate st = (m, p)" "ostate sub = (m', p')"
    by (cases "ostate st"; cases "ostate sub")
  have sub: "length m' = length m" "p \<le> p'" "take p m' = take p m"
    "drop (p + unat sz) m' = drop (p + unat sz) m" "p' \<le> length m'"
    "unat (bytes_written sub) = p' - p" "p' + (unat sz - unat (bytes_written sub)) = p + unat sz"
    "unat (bytes_written sub) \<le> unat sz"
    using s tame_sub st
    by (auto simp: stays_def tame_def limit_def bufsink.into_def word_le_nat_alt)
  have "unat (bytes_written st) + unat (bytes_written sub) < 18446744073709551616"
    using le sub(8) unat_u64_lt [of "max_size st"] by linarith
  then have sum: "unat (bytes_written st + bytes_written sub)
      = unat (bytes_written st) + unat (bytes_written sub)" by (rule unat_plus_no_overflow_u64)
  let ?st' = "st\<lparr>bytes_written := bytes_written st + bytes_written sub, ostate := ostate sub,
               oerrmsg := e\<rparr>"
  have lim: "limit ?st' = limit st" using sum sub le st by (simp add: limit_def)
  have "p + unat sz \<le> limit st" using le st by (simp add: limit_def)
  then have "drop (limit st) m' = drop (limit st) m"
    using sub(4) by (metis drop_drop le_add_diff_inverse2)
  then show "stays st ?st'" using sum sub st lim by (simp add: stays_def)
  show "tame ?st'"
    using t sum sub le st by (auto simp: tame_def bufsink.into_def word_le_nat_alt)
qed

(*BEGIN*)

lemma keeps_seq:
  assumes f: "keeps f" and g: "keeps g"
  shows "keeps (\<lambda>st. fseq (f st) g)"
  unfolding keeps_def
proof (intro allI impI)
  fix st ok st'
  assume t: "tame st" and r: "fseq (f st) g = Some (ok, st')"
  then obtain ok1 st1 where 1: "f st = Some (ok1, st1)"
    and 2: "if ok1 then g st1 = Some (ok, st') else st' = st1"
    by (auto simp: fseq_def split: option.splits if_splits)
  from keepsD [OF f t 1] keepsD [OF g, of st1 ok st'] 2 stays_trans show "tame st' \<and> stays st st'"
    by (auto split: if_splits)
qed

lemma keeps_oerr: "keeps (\<lambda>st. Some (oerr st msg))"
  by (auto simp: keeps_def oerr_def stays_oerrmsg)

lemma keeps_varint: "keeps (\<lambda>st. Some (pb_encode_varint st v))"
  unfolding pb_encode_varint_def varint_bytes_eq Let_def
  by (rule keeps_write) (use varint_list_le_10 [of v] in simp)

lemma tame_oerr: "tame st \<Longrightarrow> oerr st msg = (ok, st') \<Longrightarrow> tame st' \<and> stays st st'"
  by (auto simp: oerr_def stays_oerrmsg)

lemma keeps_submessage:
  assumes small: "sizes_small m env" and f: "keeps (\<lambda>st. pb_encode m env n st fds src)"
  shows "keeps (\<lambda>st. pb_encode_submessage (pb_encode m env n) st fds src)"
  unfolding keeps_def
proof (intro allI impI)
  fix st ok st'
  assume t: "tame st" and r: "pb_encode_submessage (pb_encode m env n) st fds src = Some (ok, st')"
  from r obtain ok0 sub where
    sz: "pb_encode m env n (PB_OSTREAM_SIZING (ostate st)) fds src = Some (ok0, sub)"
    by (auto simp: pb_encode_submessage_def split: option.splits)
  show "tame st' \<and> stays st st'"
  proof (cases ok0)
    case False
    with r sz t show ?thesis by (auto simp: pb_encode_submessage_def stays_oerrmsg)
  next
    case True
    let ?z = "bytes_written sub"
    have z: "unat ?z < 9223372036854775808" using small sz True unfolding sizes_small_def by (simp only: True)
    let ?K = "\<lambda>st.
     if ocallback st = None then Some (pb_write st [] ?z)
     else if max_size st < bytes_written st + ?z then Some (oerr st ''stream full'')
     else
       (case pb_encode m env n \<lparr>ocallback = ocallback st, ostate = ostate st, max_size = ?z,
                  bytes_written = 0, oerrmsg = None\<rparr> fds src of
          None \<Rightarrow> None
        | Some (status, sub) \<Rightarrow>
            (let st' = st\<lparr>bytes_written := bytes_written st + bytes_written sub,
                          ostate := ostate sub, oerrmsg := oerrmsg sub\<rparr> in
             if bytes_written sub \<noteq> ?z
             then Some (oerr st' ''submsg size changed'')
             else Some (status, st')))"
    have "keeps ?K"
      unfolding keeps_def
    proof (intro allI impI)
      fix st ok st'
      assume t: "tame st" and r: "?K st = Some (ok, st')"
      have cb: "ocallback st \<noteq> None" using t by (simp add: tame_def bufsink.into_def)
      show "tame st' \<and> stays st st'"
      proof (cases "max_size st < bytes_written st + ?z")
        case True
        with r cb show ?thesis using tame_oerr [OF t, of "''stream full''" ok st'] by simp
      next
        case False
        note b = substream_tame [OF t False z]
        from r cb False obtain status sub' where
          e: "pb_encode m env n \<lparr>ocallback = ocallback st, ostate = ostate st, max_size = ?z,
                  bytes_written = 0, oerrmsg = None\<rparr> fds src = Some (status, sub')"
          by (auto split: option.splits)
        from keepsD [OF f b(1) e] have s: "tame sub'" "stays \<lparr>ocallback = ocallback st,
            ostate = ostate st, max_size = ?z, bytes_written = 0, oerrmsg = None\<rparr> sub'"
          by simp_all
        from r cb False e show ?thesis
          using substream_stays [OF t b(2) s(2,1)]
          by (auto simp: Let_def oerr_def split: if_splits option.splits)
      qed
    qed
    from keeps_seq [OF keeps_varint this]
    have "keeps (\<lambda>st. fseq (Some (pb_encode_varint st ?z)) ?K)" .
    moreover have "fseq (Some (pb_encode_varint st ?z)) ?K = Some (ok, st')"
      using r sz True unfolding pb_encode_submessage_def by (simp add: Let_def)
    ultimately show ?thesis using t unfolding keeps_def by blast
  qed
qed

lemma keeps_items:
  assumes "\<And>p. keeps (\<lambda>st. f st p)"
  shows "keeps (enc_items f dsize n p)"
proof (induction n arbitrary: p)
  case 0
  show ?case by (simp add: keeps_def stays_refl)
next
  case (Suc n)
  have "enc_items f dsize (Suc n) p = (\<lambda>st. fseq (f st p) (enc_items f dsize n (p + ucast dsize)))"
    by (rule ext) simp
  then show ?case using keeps_seq [OF assms Suc] by simp
qed

lemma keeps_packed:
  assumes f: "\<And>p. keeps (\<lambda>st. pb_encoder m enc st field p)"
  shows "keeps (encode_packed m enc field pdata count)"
proof -
  let ?items = "enc_items (\<lambda>s p. pb_encoder m enc s field p) (data_size field) (unat count) pdata"
  have "keeps (\<lambda>st. if ocallback st = None then Some (pb_write st [] z) else ?items st)" for z
    unfolding keeps_def
  proof (intro allI impI)
    fix st ok st'
    assume t: "tame st"
      and r: "(if ocallback st = None then Some (pb_write st [] z) else ?items st) = Some (ok, st')"
    then have "?items st = Some (ok, st')" by (simp add: tame_def bufsink.into_def)
    from keepsD [OF keeps_items t this] f show "tame st' \<and> stays st st'" by blast
  qed
  note k = keeps_seq [OF keeps_varint this]
  show ?thesis
    unfolding keeps_def
  proof (intro allI impI)
    fix st ok st'
    assume t: "tame st" and r: "encode_packed m enc field pdata count st = Some (ok, st')"
    consider "st' = st"
      | z where "fseq (Some (pb_encode_varint st z))
          (\<lambda>st. if ocallback st = None then Some (pb_write st [] z) else ?items st) = Some (ok, st')"
      using r by (auto simp: encode_packed_def split: option.splits)
    then show "tame st' \<and> stays st st'"
      using t keepsD [OF k t] by cases (auto simp: stays_refl)
  qed
qed

lemma keeps_closed:
  assumes small: "sizes_small m env" and cb: "callbacks_are keeps m env"
  shows "enc_closed m env keeps (\<lambda>_. True)"
proof unfold_locales
  show "keeps (\<lambda>st. None)" by (simp add: keeps_def)
  show "keeps (\<lambda>st. Some (True, st))" by (simp add: keeps_def stays_refl)
  show "keeps f \<Longrightarrow> keeps (on_failure f msg)" for f msg
    unfolding keeps_def on_failure_def
    by (auto simp: oerr_def stays_oerrmsg split: option.splits)
      (metis oerr_def stays_oerrmsg stays_trans)+
qed (use assms in \<open>simp_all add: callbacks_are_def keeps_oerr keeps_write keeps_seq keeps_packed
    keeps_submessage\<close>)

end
