(* ===== verification/Pb_Messages.thy ===== *)
theory Pb_Messages
  imports Pb_Encode_Size
begin

text \<open>
  The properties of whole encoded messages and of the field iterator: the computed size is the
  size written, a sized message fits a buffer of that size, an encoder never leaves its buffer,
  the search of the iterator, and the default check of proto3 fields. The sample message of the
  witnesses has a required \<open>bool\<close> (tag 1) and a required submessage (tag 2) of one \<open>bool\<close>.
\<close>

definition bool_field :: pb_field where
  "bool_field =
     \<lparr>ftag = 1, ftype = 0x00, data_offset = 0, size_offset = 0, data_size = 1, array_size = 0,
      fptr = 0\<rparr>"

definition sample_fields :: "addr \<Rightarrow> pb_field list" where
  "sample_fields a =
     (if a = 1 then [bool_field, PB_LAST_FIELD]
      else if a = 2 then
        [bool_field,
         \<lparr>ftag = 2, ftype = 0x08, data_offset = 0, size_offset = 0, data_size = 1, array_size = 0,
          fptr = 1\<rparr>, PB_LAST_FIELD]
      else [])"

definition sample_env :: "'s pb_enc_env" where
  "sample_env = no_callbacks sample_fields"

definition sample_mem :: mem where
  "sample_mem a = (if a = 0x1000 \<or> a = 0x1001 then 1 else 0)"

section \<open>Sizes\<close>

text \<open>
  C5: the size \<open>pb_get_encoded_size\<close> computes is the number of bytes every successful
  \<open>pb_encode\<close> of the message adds, to any stream, when that holds of the user's callbacks.
\<close>

theorem encoded_size_exact:
  assumes cb: "callbacks_are steady m env"
    and size: "pb_get_encoded_size m env n s fds src = Some (Some z)"
    and enc: "pb_encode m env n st fds src = Some (True, st')"
  shows "bytes_written st' = bytes_written st + z"
proof -
  from enc_closed.Q_encode [OF steady_closed [OF cb]]
  obtain k where k: "adds (\<lambda>st. pb_encode m env n st fds src) k"
    unfolding steady_def by blast
  from size obtain sub where "pb_encode m env n (PB_OSTREAM_SIZING s) fds src = Some (True, sub)"
    and "z = bytes_written sub"
    by (auto simp: pb_get_encoded_size_def split: option.splits if_splits)
  with addsD [OF k this(1)] addsD [OF k enc] show ?thesis by simp
qed

lemma sample_size:
  "pb_get_encoded_size sample_mem sample_env 2 ([], 0 :: nat) 2 0x1000 = Some (Some 6)"
  by code_simp

lemma sample_encode:
  "map_option (\<lambda>r. (fst r, fst (ostate (snd r)), bytes_written (snd r)))
     (pb_encode sample_mem sample_env 2
        (pb_ostream_from_buffer (replicate 8 0) 7) 2 0x1000)
   = Some (True, [8, 1, 18, 2, 8, 1, 0, 0], 6)"
  by code_simp

theorem encoded_size_exact_witness:
  "\<exists>st'. pb_encode sample_mem sample_env 2 (pb_ostream_from_buffer (replicate 8 0) 7) 2 0x1000
      = Some (True, st') \<and> bytes_written st' = 0 + 6"
proof -
  have cb: "callbacks_are steady sample_mem (sample_env :: obuf pb_enc_env)"
    unfolding sample_env_def by (rule no_callbacks_are) (simp add: steady_def adds_def)
  from sample_encode obtain st' where
    e: "pb_encode sample_mem sample_env 2 (pb_ostream_from_buffer (replicate 8 0) 7) 2 0x1000
      = Some (True, st')" by auto
  from encoded_size_exact [OF cb sample_size e] e show ?thesis by simp
qed

text \<open>
  C3: a message that can be sized is one byte string, and the encoder writes exactly it,
  without failing, to every buffer that has room for it; the computed size is its length
  (modulo \<open>2^64\<close>).
\<close>

theorem sized_message_fits:
  assumes cb: "callbacks_are writes m env"
    and size: "pb_get_encoded_size m env n s fds src = Some (Some z)"
  shows "\<exists>bs. z = word_of_nat (length bs)
    \<and> (\<forall>buf k. length bs \<le> unat k \<longrightarrow> unat k \<le> length buf \<longrightarrow>
         (\<exists>st'. pb_encode m env n (pb_ostream_from_buffer buf k) fds src = Some (True, st')
            \<and> buf_out (ostate st') = bs \<and> bytes_written st' = z))"
proof -
  let ?f = "\<lambda>st. pb_encode m env n st fds src"
  from size obtain sub where sub: "?f (PB_OSTREAM_SIZING s) = Some (True, sub)"
    and z: "z = bytes_written sub"
    by (auto simp: pb_get_encoded_size_def split: option.splits if_splits)
  have "writes ?f" by (rule enc_closed.Q_encode [OF writes_closed [OF cb]])
  moreover have "\<not> unsizable ?f" using sub unfolding unsizable_def by (metis sizing_simps(1))
  ultimately obtain bs where o: "outputs ?f bs" by (auto simp: writes_def)
  have zl: "z = word_of_nat (length bs)"
    using outputs_sizing [OF o, of "PB_OSTREAM_SIZING s"] sub z by simp
  have "\<exists>st'. ?f (pb_ostream_from_buffer buf k) = Some (True, st') \<and> buf_out (ostate st') = bs
      \<and> bytes_written st' = z" if k: "length bs \<le> unat k" "unat k \<le> length buf" for buf k
  proof -
    have "into_ok (pb_ostream_from_buffer buf k)" "bufsink.fits (pb_ostream_from_buffer buf k) bs"
      using k ostream_from_buffer_into [OF k(2)] by (simp_all add: into_ok_def bufsink.fits_def)
    from outputs_buffer [OF o this] obtain st' where
      "?f (pb_ostream_from_buffer buf k) = Some (True, st')"
      and a: "bufsink.appends (pb_ostream_from_buffer buf k) bs st'" by blast
    moreover from a have "unat (bytes_written st') = length bs" "buf_out (ostate st') = bs"
      by (simp_all add: bufsink.appends_def)
    moreover from this(1) have "bytes_written st' = z" unfolding zl by (rule word_of_nat_if_unat)
    ultimately show ?thesis by blast
  qed
  with zl show ?thesis by blast
qed

theorem sized_message_fits_witness:
  "\<exists>bs. (6 :: u64) = word_of_nat (length bs)
    \<and> (\<forall>buf k. length bs \<le> unat k \<longrightarrow> unat k \<le> length buf \<longrightarrow>
         (\<exists>st'. pb_encode sample_mem sample_env 2 (pb_ostream_from_buffer buf k) 2 0x1000
            = Some (True, st') \<and> buf_out (ostate st') = bs \<and> bytes_written st' = 6))"
proof -
  have cb: "callbacks_are writes sample_mem sample_env"
    unfolding sample_env_def by (rule no_callbacks_are) (simp add: writes_def unsizable_def)
  from sized_message_fits [OF cb sample_size] show ?thesis .
qed

section \<open>Safety of the buffer\<close>

text \<open>
  C4: an encoder on a memory buffer, whether it succeeds or not, keeps the length of the
  memory, writes nothing at or after the limit it was given, and stands where its count of
  bytes says, inside the limit. The code adds a submessage's size to the count unchecked, so
  sizes are assumed less than half the range of \<open>size_t\<close>; callbacks are assumed to keep to the
  same rule.
\<close>

theorem encode_stays_in_buffer:
  assumes small: "sizes_small m env" and cb: "callbacks_are keeps m env"
    and k: "unat k \<le> length buf" "unat k < 2 ^ 63"
    and enc: "pb_encode m env n (pb_ostream_from_buffer buf k) fds src = Some (ok, st')"
  shows "length (fst (ostate st')) = length buf
    \<and> drop (unat k) (fst (ostate st')) = drop (unat k) buf
    \<and> snd (ostate st') = unat (bytes_written st') \<and> bytes_written st' \<le> k"
proof -
  let ?st = "pb_ostream_from_buffer buf k"
  have t: "tame ?st" using k by (simp add: tame_def ostream_from_buffer_into)
  from keepsD [OF enc_closed.Q_encode [OF keeps_closed [OF small cb]] t enc]
  have "tame st'" "stays ?st st'" by simp_all
  then show ?thesis by (simp add: stays_def limit_def tame_def bufsink.into_def)
qed

lemmas size_unfold = pb_encode_body_def pb_field_iter_begin_def field_nth_def nth_or_def
  bool_field_def PB_LAST_FIELD_def Let_def enc_fields.simps iter_field_def PB_LTYPE_def PB_ATYPE_def
  PB_HTYPE_def encode_field_def encode_basic_field_def implicit_has_def pb_encode_tag_for_field_def
  wiretype_of_ltype_def pb_encode_tag_def pb_encode_varint_def fseq_def pb_encoder_def pb_enc_bool_def
  pb_field_iter_next_def oerr_def

lemma small_varints: "varint_bytes 8 = [8]" "varint_bytes 1 = [1]" "varint_bytes 0 = [0]" "varint_bytes 18 = [18]"
  "varint_bytes 2 = [2]"
  by code_simp+

lemma sample_fields_at: "fields_at sample_env a = sample_fields a"
  by (simp add: sample_env_def no_callbacks_def)

lemma inner_size:
  assumes "pb_encode m (sample_env :: 's pb_enc_env) n (PB_OSTREAM_SIZING s) 1 src = Some (True, st')"
  shows "bytes_written st' = 2"
proof (cases n)
  case (Suc k)
  show ?thesis
    using assms
    by (simp add: Suc sample_fields_at sample_fields_def size_unfold small_varints split: if_splits) auto
qed (use assms in simp)

lemma submessage_sizing:
  assumes "pb_encode_submessage (pb_encode m (sample_env :: 's pb_enc_env) k)
      (PB_OSTREAM_SIZING s\<lparr>bytes_written := n\<rparr>) 1 p = Some (True, st')"
  shows "st' = PB_OSTREAM_SIZING s\<lparr>bytes_written := n + 3\<rparr>"
proof -
  obtain sub where sub: "pb_encode m (sample_env :: 's pb_enc_env) k (PB_OSTREAM_SIZING s) 1 p = Some (True, sub)"
    using assms by (auto simp: pb_encode_submessage_def split: option.splits prod.splits if_splits)
  have "bytes_written sub = 2" by (rule inner_size [OF sub])
  then show ?thesis
    using assms sub
    by (simp add: pb_encode_submessage_def pb_encode_varint_def small_varints fseq_def Let_def add.commute [of n])
qed

lemma outer_size:
  assumes "pb_encode m (sample_env :: 's pb_enc_env) n (PB_OSTREAM_SIZING s) 2 src = Some (True, st')"
  shows "bytes_written st' = 6"
proof (cases n)
  case (Suc k)
  show ?thesis
    using assms
    by (simp add: Suc sample_fields_at sample_fields_def size_unfold small_varints pb_enc_submessage_def
        split: if_splits)
      (auto simp: small_varints pb_field_iter_next_def size_unfold split: option.splits prod.splits if_splits dest!: submessage_sizing)
qed (use assms in simp)

lemma other_size:
  assumes "pb_encode m (sample_env :: 's pb_enc_env) n (PB_OSTREAM_SIZING s) fds src = Some (True, st')" "fds \<noteq> 1" "fds \<noteq> 2"
  shows "bytes_written st' = 0"
  using assms by (cases n) (auto simp: sample_fields_at sample_fields_def size_unfold)

lemma sample_sizes_small: "sizes_small m (sample_env :: 's pb_enc_env)"
  unfolding sizes_small_def
proof (intro allI impI)
  fix n fds src and s :: 's and st'
  assume "pb_encode m (sample_env :: 's pb_enc_env) n (PB_OSTREAM_SIZING s) fds src = Some (True, st')"
  then show "unat (bytes_written st') < 9223372036854775808"
    using inner_size [of m n s src st'] outer_size [of m n s src st'] other_size [of m n s fds src st']
    by (cases "fds = 1"; cases "fds = 2") simp_all
qed

text \<open>The message of a \<open>bool\<close> and a submessage takes six bytes; the limit cuts the submessage off.\<close>

theorem encode_stays_in_buffer_witness:
  "\<exists>st'. pb_encode sample_mem sample_env 2 (pb_ostream_from_buffer (replicate 8 9) 5) 2 0x1000 = Some (False, st')
    \<and> length (fst (ostate st')) = 8 \<and> drop 5 (fst (ostate st')) = [9, 9, 9]"
proof -
  have cb: "callbacks_are keeps sample_mem sample_env"
    unfolding sample_env_def by (rule no_callbacks_are) (rule keeps_oerr)
  have "map_option fst (pb_encode sample_mem sample_env 2 (pb_ostream_from_buffer (replicate 8 9) 5) 2 0x1000)
      = Some False" by code_simp
  moreover have nines: "replicate 3 (9 :: u8) = [9, 9, 9]" by code_simp
  ultimately obtain st' where
    e: "pb_encode sample_mem sample_env 2 (pb_ostream_from_buffer (replicate 8 9) 5) 2 0x1000 = Some (False, st')"
    by auto
  from encode_stays_in_buffer [OF sample_sizes_small cb _ _ e] e show ?thesis by (simp add: nines)
qed

(*BEGIN*)
section \<open>The field iterator\<close>

text \<open>
  C27: on a well-formed descriptor array, from every position an iterator can have,
  \<open>pb_field_iter_find\<close> ends; it succeeds exactly when some entry has the tag and is no
  extension range, standing then on such an entry with the pointers a walk from the start
  gives it, and a failing search leaves the iterator as it was.
\<close>

theorem iter_find_correct:
  assumes wf: "wf_fields fs" and s: "s < nfields fs"
  shows "\<exists>found it. pb_field_iter_find (iter_at fs d s) tag = Some (found, it)
    \<and> (found \<longleftrightarrow> (\<exists>i < nfields fs. field_matches tag (field_nth fs i)))
    \<and> (if found then \<exists>i < nfields fs. it = iter_at fs d i \<and> field_matches tag (iter_field it)
       else it = iter_at fs d s)"
proof -
  let ?n = "nfields fs"
  let ?hit = "\<lambda>j. field_matches tag (field_nth fs ((s + j) mod ?n))"
  consider (hit) j where "j < ?n" "?hit j"
      "pb_field_iter_find (iter_at fs d s) tag = Some (True, iter_at fs d ((s + j) mod ?n))"
    | (miss) "\<forall>j < ?n. \<not> ?hit j"
      "pb_field_iter_find (iter_at fs d s) tag = Some (False, iter_at fs d s)"
    using pb_field_iter_find_at [OF wf s, of tag d] by blast
  then show ?thesis
  proof cases
    case hit
    have "(s + j) mod ?n < ?n" using s by simp
    moreover from this have "iter_field (iter_at fs d ((s + j) mod ?n)) = field_nth fs ((s + j) mod ?n)"
      by (rule iter_at_field [OF wf])
    ultimately have "\<exists>i < ?n. iter_at fs d ((s + j) mod ?n) = iter_at fs d i
        \<and> field_matches tag (iter_field (iter_at fs d ((s + j) mod ?n)))"
      and "\<exists>i < ?n. field_matches tag (field_nth fs i)"
      using hit(2) by auto
    with hit(3) show ?thesis
      by (intro exI [of _ True] exI [of _ "iter_at fs d ((s + j) mod ?n)"]) simp
  next
    case miss
    from miss(1) have "\<forall>i < ?n. \<not> field_matches tag (field_nth fs i)"
      using cyclic_all_iff [OF s, of "\<lambda>i. \<not> field_matches tag (field_nth fs i)"] by blast
    with miss(2) show ?thesis by auto
  qed
qed

theorem iter_find_correct_witness:
  "\<exists>found it. pb_field_iter_find (iter_at (sample_fields 2) 0x1000 0) 2 = Some (found, it)
    \<and> found \<and> it = iter_at (sample_fields 2) 0x1000 1"
proof -
  have wf: "wf_fields (sample_fields 2)" and n: "nfields (sample_fields 2) = 2" by code_simp+
  have i: "\<not> field_matches 2 (field_nth (sample_fields 2) 0)"
    "field_matches 2 (field_nth (sample_fields 2) 1)" by code_simp+
  have s: "0 < nfields (sample_fields 2)" using n by simp
  from iter_find_correct [OF wf s, of "0x1000" "2"] obtain found it where
    f: "pb_field_iter_find (iter_at (sample_fields 2) 0x1000 0) 2 = Some (found, it)"
    "found \<longleftrightarrow> (\<exists>i < 2. field_matches 2 (field_nth (sample_fields 2) i))"
    "found \<longrightarrow> (\<exists>i < 2. it = iter_at (sample_fields 2) 0x1000 i \<and> field_matches 2 (iter_field it))"
    unfolding n by (auto split: if_splits)
  have found: "found" using f(2) i(2) by (metis one_less_numeral_iff semiring_norm(76))
  with f(3) obtain k where k: "k < 2" "it = iter_at (sample_fields 2) 0x1000 k"
    "field_matches 2 (iter_field it)" by auto
  have "k \<noteq> 0" using k(2,3) i(1) iter_at_field [OF wf s, where d = "0x1000"] by (cases k) auto
  with k(1) have "k = 1" by simp
  with f(1) found k(2) show ?thesis by blast
qed

section \<open>The default check of proto3 fields\<close>

text \<open>
  An optional proto3 submessage, allocated in place, whose one field is a \<open>bool\<close> behind a
  pointer (\<open>PB_ATYPE_POINTER\<close>, \<open>data_size = sizeof(bool)\<close>).
\<close>

definition pointer_fields :: "addr \<Rightarrow> pb_field list" where
  "pointer_fields a =
     (if a = 1 then
        [\<lparr>ftag = 1, ftype = 0x90, data_offset = 0, size_offset = 0, data_size = 1, array_size = 0,
          fptr = 0\<rparr>, PB_LAST_FIELD]
      else if a = 2 then
        [\<lparr>ftag = 2, ftype = 0x18, data_offset = 0, size_offset = 0, data_size = 8, array_size = 0,
          fptr = 1\<rparr>, PB_LAST_FIELD]
      else [])"

definition pointer_mem :: "u8 \<Rightarrow> mem" where
  "pointer_mem lo a =
     (if a = 0x1000 then lo else if a = 0x1001 then 0x21 else if a = 0x2100 OR ucast lo then 1 else 0)"

text \<open>
  The default check compares a pointer to a packable value only in its \<open>data_size\<close> lowest
  bytes. With the pointer \<open>0x2100\<close> to a \<open>true\<close> in it, the message encodes to two bytes, and is
  yet taken for a message of defaults and left out as a submessage; at \<open>0x2101\<close> it is not.
\<close>

theorem proto3_pointer_default_truncated:
  "rd64 (pointer_mem 0x00) 0x1000 = 0x2100 \<and> rd64 (pointer_mem 0x01) 0x1000 = 0x2101
   \<and> pb_get_encoded_size (pointer_mem 0x00) (no_callbacks pointer_fields) 3 () 1 0x1000 = Some (Some 2)
   \<and> pb_get_encoded_size (pointer_mem 0x00) (no_callbacks pointer_fields) 3 () 2 0x1000 = Some (Some 0)
   \<and> pb_get_encoded_size (pointer_mem 0x01) (no_callbacks pointer_fields) 3 () 2 0x1000 = Some (Some 4)"
  by (intro conjI; code_simp)

end
