(* ===== verification/Pb_Decode.thy ===== *)
theory Pb_Decode
  imports Pb_Wire
begin

text \<open>
  The decoder of nanopb (Pods/nanopb/pb_decode.c) that fills message structures: the field
  decoders, static, pointer and callback fields, extensions, defaults, the loop of
  \<open>pb_decode_noinit\<close>, and releasing.

  The structures are in the flat memory of a \<open>world\<close>, beside the state of the allocator.
  \<open>pb_realloc\<close> and \<open>pb_free\<close>, the user's callbacks, the descriptor arrays at the descriptor
  pointers, and the address of the local variable \<open>fixed_count_size\<close> in each frame of
  \<open>pb_decode_noinit\<close> are fields of an environment. A result \<open>None\<close> is a recursion deeper than the
  fuel, a loop that does not end, or a call through a null entry of \<open>PB_DECODERS\<close>.
\<close>

section \<open>World and environment\<close>

record 'h world =
  wmem :: mem
  wheap :: 'h

record ('s, 'h) pb_dec_env =
  dfields_at :: "addr \<Rightarrow> pb_field list"
  cb_decode :: "addr \<Rightarrow> 's pb_istream \<Rightarrow> pb_field \<Rightarrow> addr \<Rightarrow> 'h world \<Rightarrow> bool \<times> 's pb_istream \<times> 'h world"
  ext_decode :: "addr \<Rightarrow> 's pb_istream \<Rightarrow> addr \<Rightarrow> u32 \<Rightarrow> u32 \<Rightarrow> 'h world \<Rightarrow> bool \<times> 's pb_istream \<times> 'h world"
  pb_realloc :: "addr \<Rightarrow> u64 \<Rightarrow> 'h world \<Rightarrow> addr \<times> 'h world"
  pb_free :: "addr \<Rightarrow> 'h world \<Rightarrow> 'h world"
  frame_slot :: "nat \<Rightarrow> addr"

type_synonym ('s, 'h) dec_result = "(bool \<times> 's pb_istream \<times> 'h world) option"

text \<open>The recursive calls: \<open>True\<close> for \<open>pb_decode\<close>, \<open>False\<close> for \<open>pb_decode_noinit\<close>.\<close>

type_synonym ('s, 'h) dec_call =
  "bool \<Rightarrow> 's pb_istream \<Rightarrow> addr \<Rightarrow> addr \<Rightarrow> 'h world \<Rightarrow> ('s, 'h) dec_result"

definition put8 :: "addr \<Rightarrow> u8 \<Rightarrow> 'h world \<Rightarrow> 'h world" where
  "put8 a v w = w\<lparr>wmem := wr8 (wmem w) a v\<rparr>"

definition put32 :: "addr \<Rightarrow> u32 \<Rightarrow> 'h world \<Rightarrow> 'h world" where
  "put32 a v w = w\<lparr>wmem := wr32 (wmem w) a v\<rparr>"

definition put64 :: "addr \<Rightarrow> u64 \<Rightarrow> 'h world \<Rightarrow> 'h world" where
  "put64 a v w = w\<lparr>wmem := wr64 (wmem w) a v\<rparr>"

definition put_bytes :: "addr \<Rightarrow> bytes \<Rightarrow> 'h world \<Rightarrow> 'h world" where
  "put_bytes a bs w = w\<lparr>wmem := mem_write (wmem w) a bs\<rparr>"

definition mem_zero :: "addr \<Rightarrow> u32 \<Rightarrow> 'h world \<Rightarrow> 'h world" where
  "mem_zero a n w = put_bytes a (replicate (unat n) 0) w"

text \<open>\<open>pb_read\<close> into memory: what it has read is stored, also when it fails.\<close>

definition read_into ::
  "'s pb_istream \<Rightarrow> addr \<Rightarrow> u64 \<Rightarrow> 'h world \<Rightarrow> bool \<times> 's pb_istream \<times> 'h world" where
  "read_into st p count w =
     (case pb_read st (p \<noteq> 0) count of
        (ok, bs, st') \<Rightarrow> (ok, st', if p \<noteq> 0 then put_bytes p bs w else w))"

section \<open>Field decoders\<close>

definition pb_dec_bool ::
  "'s pb_istream \<Rightarrow> addr \<Rightarrow> 'h world \<Rightarrow> bool \<times> 's pb_istream \<times> 'h world" where
  "pb_dec_bool st dest w =
     (case pb_decode_varint32 st of
        (None, st') \<Rightarrow> (False, st', w)
      | (Some value, st') \<Rightarrow> (True, st', put8 dest (if value \<noteq> 0 then 1 else 0) w))"

text \<open>
  Storing an integer of the size of the field: the value read back from the destination, and
  the new world.
\<close>

definition store_signed :: "u32 \<Rightarrow> addr \<Rightarrow> u64 \<Rightarrow> 'h world \<Rightarrow> (u64 \<times> 'h world) option" where
  "store_signed sz dest v w =
     (if sz = 8 then Some (v, put64 dest v w)
      else if sz = 4 then Some (scast (ucast v :: u32), put32 dest (ucast v) w)
      else if sz = 2
      then Some (scast (ucast v :: u16), w\<lparr>wmem := wr16 (wmem w) dest (ucast v)\<rparr>)
      else if sz = 1 then Some (scast (ucast v :: u8), put8 dest (ucast v) w)
      else None)"

definition store_unsigned :: "u32 \<Rightarrow> addr \<Rightarrow> u64 \<Rightarrow> 'h world \<Rightarrow> (u64 \<times> 'h world) option" where
  "store_unsigned sz dest v w =
     (if sz = 8 then Some (v, put64 dest v w)
      else if sz = 4 then Some (ucast (ucast v :: u32), put32 dest (ucast v) w)
      else if sz = 2
      then Some (ucast (ucast v :: u16), w\<lparr>wmem := wr16 (wmem w) dest (ucast v)\<rparr>)
      else if sz = 1 then Some (ucast (ucast v :: u8), put8 dest (ucast v) w)
      else None)"

definition finish_store ::
  "(u64 \<times> 'h world) option \<Rightarrow> u64 \<Rightarrow> 's pb_istream \<Rightarrow> 'h world \<Rightarrow> bool \<times> 's pb_istream \<times> 'h world" where
  "finish_store r v st w =
     (case r of
        None \<Rightarrow> (False, ierr st ''invalid data_size'', w)
      | Some (clamped, w') \<Rightarrow>
          if clamped \<noteq> v then (False, ierr st ''integer too large'', w') else (True, st, w'))"

definition pb_dec_varint ::
  "'s pb_istream \<Rightarrow> pb_field \<Rightarrow> addr \<Rightarrow> 'h world \<Rightarrow> bool \<times> 's pb_istream \<times> 'h world" where
  "pb_dec_varint st field dest w =
     (case pb_decode_varint st of
        (None, st') \<Rightarrow> (False, st', w)
      | (Some value, st') \<Rightarrow>
          (let svalue = (if data_size field = 8 then value else scast (ucast value :: u32))
           in finish_store (store_signed (data_size field) dest svalue w) svalue st' w))"

definition pb_dec_uvarint ::
  "'s pb_istream \<Rightarrow> pb_field \<Rightarrow> addr \<Rightarrow> 'h world \<Rightarrow> bool \<times> 's pb_istream \<times> 'h world" where
  "pb_dec_uvarint st field dest w =
     (case pb_decode_varint st of
        (None, st') \<Rightarrow> (False, st', w)
      | (Some value, st') \<Rightarrow>
          finish_store (store_unsigned (data_size field) dest value w) value st' w)"

definition pb_dec_svarint ::
  "'s pb_istream \<Rightarrow> pb_field \<Rightarrow> addr \<Rightarrow> 'h world \<Rightarrow> bool \<times> 's pb_istream \<times> 'h world" where
  "pb_dec_svarint st field dest w =
     (case pb_decode_svarint st of
        (None, st') \<Rightarrow> (False, st', w)
      | (Some value, st') \<Rightarrow>
          finish_store (store_signed (data_size field) dest value w) value st' w)"

definition pb_dec_fixed32 ::
  "'s pb_istream \<Rightarrow> addr \<Rightarrow> 'h world \<Rightarrow> bool \<times> 's pb_istream \<times> 'h world" where
  "pb_dec_fixed32 st dest w =
     (case pb_decode_fixed32 st of
        (None, st') \<Rightarrow> (False, st', w)
      | (Some v, st') \<Rightarrow> (True, st', put32 dest v w))"

definition pb_dec_fixed64 ::
  "'s pb_istream \<Rightarrow> addr \<Rightarrow> 'h world \<Rightarrow> bool \<times> 's pb_istream \<times> 'h world" where
  "pb_dec_fixed64 st dest w =
     (case pb_decode_fixed64 st of
        (None, st') \<Rightarrow> (False, st', w)
      | (Some v, st') \<Rightarrow> (True, st', put64 dest v w))"

text \<open>
  \<open>allocate_field\<close>: the pointer at \<open>pData\<close> is resized to \<open>array_size\<close> items of \<open>data_size\<close>; the
  product is guarded against overflow, by a division when a factor is \<open>2^32\<close> or more.
\<close>

definition allocate_field ::
  "('s, 'h) pb_dec_env \<Rightarrow> 's pb_istream \<Rightarrow> addr \<Rightarrow> u64 \<Rightarrow> u64 \<Rightarrow> 'h world
     \<Rightarrow> bool \<times> 's pb_istream \<times> 'h world" where
  "allocate_field env st p dsize asize w =
     (if dsize = 0 \<or> asize = 0 then (False, ierr st ''invalid size'', w)
      else if (0x100000000 \<le> dsize \<or> 0x100000000 \<le> asize) \<and> (- 1) div asize < dsize
      then (False, ierr st ''size too large'', w)
      else
        (case pb_realloc env (rd64 (wmem w) p) (asize * dsize) w of
           (q, w') \<Rightarrow>
             if q = 0 then (False, ierr st ''realloc failed'', w')
             else (True, st, put64 p q w')))"

definition pb_dec_bytes ::
  "('s, 'h) pb_dec_env \<Rightarrow> 's pb_istream \<Rightarrow> pb_field \<Rightarrow> addr \<Rightarrow> 'h world
     \<Rightarrow> bool \<times> 's pb_istream \<times> 'h world" where
  "pb_dec_bytes env st field dest w =
     (case pb_decode_varint32 st of
        (None, st1) \<Rightarrow> (False, st1, w)
      | (Some sz, st1) \<Rightarrow>
          (let alloc_size = PB_BYTES_ARRAY_T_ALLOCSIZE (ucast sz);
               store = (\<lambda>bdest st w. read_into st (bdest + 4) (ucast sz) (put32 bdest sz w)) in
           if alloc_size < ucast sz then (False, ierr st1 ''size too large'', w)
           else if PB_ATYPE (ftype field) = PB_ATYPE_POINTER then
             (case allocate_field env st1 dest alloc_size 1 w of
                (ok, st2, w') \<Rightarrow>
                  if \<not> ok then (False, st2, w') else store (rd64 (wmem w') dest) st2 w')
           else if ucast (data_size field) < alloc_size
           then (False, ierr st1 ''bytes overflow'', w)
           else store dest st1 w))"

text \<open>The sum \<open>size + 1\<close> is of type \<open>uint32_t\<close>.\<close>

definition pb_dec_string ::
  "('s, 'h) pb_dec_env \<Rightarrow> 's pb_istream \<Rightarrow> pb_field \<Rightarrow> addr \<Rightarrow> 'h world
     \<Rightarrow> bool \<times> 's pb_istream \<times> 'h world" where
  "pb_dec_string env st field dest w =
     (case pb_decode_varint32 st of
        (None, st1) \<Rightarrow> (False, st1, w)
      | (Some sz, st1) \<Rightarrow>
          (let alloc_size = ucast (sz + 1) :: u64;
               store = (\<lambda>d st w.
                 case read_into st d (ucast sz) w of
                   (status, st', w') \<Rightarrow> (status, st', put8 (d + ucast sz) 0 w')) in
           if alloc_size < ucast sz then (False, ierr st1 ''size too large'', w)
           else if PB_ATYPE (ftype field) = PB_ATYPE_POINTER then
             (case allocate_field env st1 dest alloc_size 1 w of
                (ok, st2, w') \<Rightarrow>
                  if \<not> ok then (False, st2, w') else store (rd64 (wmem w') dest) st2 w')
           else if ucast (data_size field) < alloc_size
           then (False, ierr st1 ''string overflow'', w)
           else store dest st1 w))"

definition pb_dec_submessage ::
  "('s, 'h) dec_call \<Rightarrow> 's pb_istream \<Rightarrow> pb_field \<Rightarrow> addr \<Rightarrow> 'h world \<Rightarrow> ('s, 'h) dec_result" where
  "pb_dec_submessage dec st field dest w =
     (case pb_make_string_substream st of
        (None, st1) \<Rightarrow> Some (False, st1, w)
      | (Some sub, st1) \<Rightarrow>
          if fptr field = 0 then Some (False, ierr st1 ''invalid field descriptor'', w)
          else
            (case dec (PB_HTYPE (ftype field) = PB_HTYPE_REPEATED) sub (fptr field) dest w of
               None \<Rightarrow> None
             | Some (status, sub', w') \<Rightarrow>
                 (case pb_close_string_substream st1 sub' of
                    (ok, st2) \<Rightarrow> Some (if \<not> ok then False else status, st2, w'))))"

definition pb_dec_fixed_length_bytes ::
  "'s pb_istream \<Rightarrow> pb_field \<Rightarrow> addr \<Rightarrow> 'h world \<Rightarrow> bool \<times> 's pb_istream \<times> 'h world" where
  "pb_dec_fixed_length_bytes st field dest w =
     (case pb_decode_varint32 st of
        (None, st1) \<Rightarrow> (False, st1, w)
      | (Some sz, st1) \<Rightarrow>
          if sz = 0 then (True, st1, mem_zero dest (data_size field) w)
          else if sz \<noteq> data_size field
          then (False, ierr st1 ''incorrect fixed length bytes size'', w)
          else read_into st1 dest (ucast (data_size field)) w)"

text \<open>The table \<open>PB_DECODERS\<close>.\<close>

definition pb_decoder ::
  "('s, 'h) pb_dec_env \<Rightarrow> ('s, 'h) dec_call \<Rightarrow> 's pb_istream \<Rightarrow> pb_field \<Rightarrow> addr \<Rightarrow> 'h world
     \<Rightarrow> ('s, 'h) dec_result" where
  "pb_decoder env dec st field dest w =
     (let lt = PB_LTYPE (ftype field) in
      if lt = PB_LTYPE_BOOL then Some (pb_dec_bool st dest w)
      else if lt = PB_LTYPE_VARINT then Some (pb_dec_varint st field dest w)
      else if lt = PB_LTYPE_UVARINT then Some (pb_dec_uvarint st field dest w)
      else if lt = PB_LTYPE_SVARINT then Some (pb_dec_svarint st field dest w)
      else if lt = PB_LTYPE_FIXED32 then Some (pb_dec_fixed32 st dest w)
      else if lt = PB_LTYPE_FIXED64 then Some (pb_dec_fixed64 st dest w)
      else if lt = PB_LTYPE_BYTES then Some (pb_dec_bytes env st field dest w)
      else if lt = PB_LTYPE_STRING then Some (pb_dec_string env st field dest w)
      else if lt = PB_LTYPE_SUBMESSAGE then pb_dec_submessage dec st field dest w
      else if lt = PB_LTYPE_FIXED_LENGTH_BYTES
      then Some (pb_dec_fixed_length_bytes st field dest w)
      else None)"

(*BEGIN*)
section \<open>Iterators over extensions\<close>

text \<open>The fake iterator of an extension: its data is \<open>dest\<close>, its size the flag \<open>found\<close>.\<close>

definition iter_from_extension ::
  "('s, 'h) pb_dec_env \<Rightarrow> mem \<Rightarrow> addr \<Rightarrow> pb_field_iter" where
  "iter_from_extension env m e =
     (let fds = dfields_at env (exttype_arg m (ext_type m e));
          it = snd (pb_field_iter_begin fds (ext_dest m e))
      in it\<lparr>pData := (if PB_ATYPE (ftype (field_nth fds 0)) = PB_ATYPE_POINTER then e + 8
                     else ext_dest m e),
            pSize := e + 24\<rparr>)"

section \<open>Defaults\<close>

text \<open>The list of extensions at a pointer, walked by \<open>f\<close>; the next pointer is read after it.\<close>

fun walk_extensions :: "(addr \<Rightarrow> 'h world \<Rightarrow> 'h world option) \<Rightarrow> nat \<Rightarrow> addr \<Rightarrow> 'h world \<Rightarrow> 'h world option" where
  "walk_extensions f 0 e w = None"
| "walk_extensions f (Suc k) e w =
     (if e = 0 then Some w
      else
        (case f e w of
           None \<Rightarrow> None
         | Some w' \<Rightarrow> walk_extensions f k (ext_next (wmem w') e) w'))"

text \<open>A do-while over the fields of a structure that changes the world.\<close>

function iter_fold :: "(pb_field_iter \<Rightarrow> 'h world \<Rightarrow> 'h world option) \<Rightarrow> pb_field_iter \<Rightarrow> 'h world \<Rightarrow> 'h world option" where
  "iter_fold f it w =
     (case f it w of
        None \<Rightarrow> None
      | Some w' \<Rightarrow>
          (case pb_field_iter_next it of
             (go, it') \<Rightarrow> if go then iter_fold f it' w' else Some w'))"
  by pat_completeness auto
termination
  by (relation "measure (\<lambda>(f, it, w). length (istart it) - ipos it)")
    (auto dest: iter_next_bound [OF sym])

declare iter_fold.simps [simp del]

text \<open>One field; \<open>rec\<close> is the recursive call for extensions, \<open>msg\<close> that for submessages.\<close>

definition set_default_body ::
  "('s, 'h) pb_dec_env \<Rightarrow> nat \<Rightarrow> (pb_field_iter \<Rightarrow> 'h world \<Rightarrow> 'h world option)
     \<Rightarrow> (addr \<Rightarrow> addr \<Rightarrow> 'h world \<Rightarrow> 'h world option) \<Rightarrow> pb_field_iter \<Rightarrow> 'h world \<Rightarrow> 'h world option" where
  "set_default_body env n rec msg it w =
     (let field = iter_field it; ty = ftype field in
      if PB_LTYPE ty = PB_LTYPE_EXTENSION then
        walk_extensions
          (\<lambda>e w. let w' = put8 (e + 24) 0 w in rec (iter_from_extension env (wmem w') e) w')
          n (rd64 (wmem w) (pData it)) w
      else if PB_ATYPE ty = PB_ATYPE_STATIC then
        (let counted = (PB_HTYPE ty = PB_HTYPE_REPEATED \<or> PB_HTYPE ty = PB_HTYPE_ONEOF);
             flagged = (PB_HTYPE ty = PB_HTYPE_OPTIONAL \<and> pSize it \<noteq> pData it);
             w1 = (if flagged then put8 (pSize it) 0 w
                   else if counted then put32 (pSize it) 0 w else w) in
         if \<not> flagged \<and> counted then Some w1
         else if PB_LTYPE ty = PB_LTYPE_SUBMESSAGE then msg (fptr field) (pData it) w1
         else if fptr field \<noteq> 0
         then Some (put_bytes (pData it) (mem_read (wmem w1) (fptr field) (unat (data_size field))) w1)
         else Some (mem_zero (pData it) (data_size field) w1))
      else if PB_ATYPE ty = PB_ATYPE_POINTER then
        (let w1 = put64 (pData it) 0 w in
         Some (if PB_HTYPE ty = PB_HTYPE_REPEATED \<or> PB_HTYPE ty = PB_HTYPE_ONEOF
               then put32 (pSize it) 0 w1 else w1))
      else Some w)"

definition set_defaults_body ::
  "('s, 'h) pb_dec_env \<Rightarrow> (pb_field_iter \<Rightarrow> 'h world \<Rightarrow> 'h world option) \<Rightarrow> addr \<Rightarrow> addr
     \<Rightarrow> 'h world \<Rightarrow> 'h world option" where
  "set_defaults_body env f fds dest w =
     (case pb_field_iter_begin (dfields_at env fds) dest of
        (nonempty, it) \<Rightarrow> if \<not> nonempty then Some w else iter_fold f it w)"

fun pb_field_set_to_default ::
  "('s, 'h) pb_dec_env \<Rightarrow> nat \<Rightarrow> pb_field_iter \<Rightarrow> 'h world \<Rightarrow> 'h world option" where
  "pb_field_set_to_default env 0 it w = None"
| "pb_field_set_to_default env (Suc n) it w =
     set_default_body env n (pb_field_set_to_default env n)
       (set_defaults_body env (pb_field_set_to_default env n)) it w"

definition pb_message_set_to_defaults ::
  "('s, 'h) pb_dec_env \<Rightarrow> nat \<Rightarrow> addr \<Rightarrow> addr \<Rightarrow> 'h world \<Rightarrow> 'h world option" where
  "pb_message_set_to_defaults env n fds dest w =
     set_defaults_body env (pb_field_set_to_default env n) fds dest w"

section \<open>Releasing\<close>

fun release_items ::
  "(addr \<Rightarrow> 'h world \<Rightarrow> 'h world option) \<Rightarrow> u32 \<Rightarrow> nat \<Rightarrow> addr \<Rightarrow> 'h world \<Rightarrow> 'h world option" where
  "release_items f dsize 0 p w = Some w"
| "release_items f dsize (Suc n) p w =
     (case f p w of
        None \<Rightarrow> None
      | Some w' \<Rightarrow> release_items f dsize n (p + ucast dsize) w')"

fun free_entries :: "('s, 'h) pb_dec_env \<Rightarrow> nat \<Rightarrow> addr \<Rightarrow> 'h world \<Rightarrow> 'h world" where
  "free_entries env 0 p w = w"
| "free_entries env (Suc n) p w =
     free_entries env n (p + 8) (put64 p 0 (pb_free env (rd64 (wmem w) p) w))"

text \<open>How many submessages a field holds, a corrupted count capped by the size of the array.\<close>

definition release_count :: "pb_field_iter \<Rightarrow> mem \<Rightarrow> u32" where
  "release_count it m =
     (let field = iter_field it; ty = ftype field in
      if PB_HTYPE ty = PB_HTYPE_REPEATED then
        (let count = (if PB_ATYPE ty = PB_ATYPE_STATIC \<and> pSize it = pData it
                      then array_size field else rd32 m (pSize it)) in
         if PB_ATYPE ty = PB_ATYPE_STATIC \<and> array_size field < count
         then array_size field else count)
      else 1)"

definition release_contents ::
  "('s, 'h) pb_dec_env \<Rightarrow> nat \<Rightarrow> (pb_field_iter \<Rightarrow> 'h world \<Rightarrow> 'h world option)
     \<Rightarrow> (addr \<Rightarrow> addr \<Rightarrow> 'h world \<Rightarrow> 'h world option) \<Rightarrow> pb_field_iter \<Rightarrow> 'h world \<Rightarrow> 'h world option" where
  "release_contents env n rec msg it w =
     (let field = iter_field it; ty = ftype field in
      if PB_LTYPE ty = PB_LTYPE_EXTENSION then
        walk_extensions (\<lambda>e w. rec (iter_from_extension env (wmem w) e) w) n
          (rd64 (wmem w) (pData it)) w
      else if PB_LTYPE ty = PB_LTYPE_SUBMESSAGE \<and> PB_ATYPE ty \<noteq> PB_ATYPE_CALLBACK then
        (let item = (if PB_ATYPE ty = PB_ATYPE_POINTER then rd64 (wmem w) (pData it) else pData it) in
         if item \<noteq> 0
         then release_items (msg (fptr field)) (data_size field)
                (unat (release_count it (wmem w))) item w
         else Some w)
      else Some w)"

definition release_pointer ::
  "('s, 'h) pb_dec_env \<Rightarrow> pb_field_iter \<Rightarrow> 'h world \<Rightarrow> 'h world" where
  "release_pointer env it w =
     (let ty = ftype (iter_field it);
          w1 = (if PB_HTYPE ty = PB_HTYPE_REPEATED
                   \<and> (PB_LTYPE ty = PB_LTYPE_STRING \<or> PB_LTYPE ty = PB_LTYPE_BYTES)
                then free_entries env (unat (rd32 (wmem w) (pSize it))) (rd64 (wmem w) (pData it)) w
                else w);
          w2 = (if PB_HTYPE ty = PB_HTYPE_REPEATED then put32 (pSize it) 0 w1 else w1)
      in put64 (pData it) 0 (pb_free env (rd64 (wmem w2) (pData it)) w2))"

definition release_body ::
  "('s, 'h) pb_dec_env \<Rightarrow> nat \<Rightarrow> (pb_field_iter \<Rightarrow> 'h world \<Rightarrow> 'h world option)
     \<Rightarrow> (addr \<Rightarrow> addr \<Rightarrow> 'h world \<Rightarrow> 'h world option) \<Rightarrow> pb_field_iter \<Rightarrow> 'h world \<Rightarrow> 'h world option" where
  "release_body env n rec msg it w =
     (let ty = ftype (iter_field it) in
      if PB_HTYPE ty = PB_HTYPE_ONEOF \<and> rd32 (wmem w) (pSize it) \<noteq> ftag (iter_field it) then Some w
      else
        (case release_contents env n rec msg it w of
           None \<Rightarrow> None
         | Some w' \<Rightarrow>
             Some (if PB_ATYPE ty = PB_ATYPE_POINTER then release_pointer env it w' else w')))"

definition pb_release_body ::
  "('s, 'h) pb_dec_env \<Rightarrow> (pb_field_iter \<Rightarrow> 'h world \<Rightarrow> 'h world option) \<Rightarrow> addr \<Rightarrow> addr
     \<Rightarrow> 'h world \<Rightarrow> 'h world option" where
  "pb_release_body env f fds dest w =
     (if dest = 0 then Some w
      else
        (case pb_field_iter_begin (dfields_at env fds) dest of
           (nonempty, it) \<Rightarrow> if \<not> nonempty then Some w else iter_fold f it w))"

fun pb_release_single_field ::
  "('s, 'h) pb_dec_env \<Rightarrow> nat \<Rightarrow> pb_field_iter \<Rightarrow> 'h world \<Rightarrow> 'h world option" where
  "pb_release_single_field env 0 it w = None"
| "pb_release_single_field env (Suc n) it w =
     release_body env n (pb_release_single_field env n)
       (pb_release_body env (pb_release_single_field env n)) it w"

definition pb_release ::
  "('s, 'h) pb_dec_env \<Rightarrow> nat \<Rightarrow> addr \<Rightarrow> addr \<Rightarrow> 'h world \<Rightarrow> 'h world option" where
  "pb_release env n fds dest w = pb_release_body env (pb_release_single_field env n) fds dest w"

text \<open>\<open>None\<close> for the result of \<open>pb_field_iter_find\<close> is a search that does not end.\<close>

definition pb_release_union_field ::
  "('s, 'h) pb_dec_env \<Rightarrow> nat \<Rightarrow> 's pb_istream \<Rightarrow> pb_field_iter \<Rightarrow> 'h world
     \<Rightarrow> (bool \<times> 's pb_istream \<times> pb_field_iter \<times> 'h world) option" where
  "pb_release_union_field env n st it w =
     (let old_tag = rd32 (wmem w) (pSize it); new_tag = ftag (iter_field it) in
      if old_tag = 0 \<or> old_tag = new_tag then Some (True, st, it, w)
      else
        (case pb_field_iter_find it old_tag of
           None \<Rightarrow> None
         | Some (found, it1) \<Rightarrow>
             if \<not> found then Some (False, ierr st ''invalid union tag'', it1, w)
             else
               (case pb_release_single_field env n it1 w of
                  None \<Rightarrow> None
                | Some w' \<Rightarrow>
                    (case pb_field_iter_find it1 new_tag of
                       None \<Rightarrow> None
                     | Some (found2, it2) \<Rightarrow>
                         if \<not> found2 then Some (False, ierr st ''iterator error'', it2, w')
                         else Some (True, st, it2, w')))))"

(*BEGIN*)
section \<open>Decoding a single field\<close>

text \<open>The address of an item; the product of the item size and the index is 32 bits wide.\<close>

definition item_addr :: "addr \<Rightarrow> pb_field \<Rightarrow> u32 \<Rightarrow> addr" where
  "item_addr base field i = base + ucast (data_size field * i)"

definition iter_count :: "pb_field_iter \<Rightarrow> 'h world \<Rightarrow> u32" where
  "iter_count it w = rd32 (wmem w) (pSize it)"

text \<open>The loop over a packed array: \<open>f\<close> decodes one item at an address.\<close>

partial_function (option) dec_packed_loop ::
  "('s pb_istream \<Rightarrow> addr \<Rightarrow> 'h world \<Rightarrow> ('s, 'h) dec_result) \<Rightarrow> pb_field_iter
     \<Rightarrow> 's pb_istream \<Rightarrow> 'h world \<Rightarrow> ('s, 'h) dec_result" where
  "dec_packed_loop f it sub w =
     (if 0 < bytes_left sub \<and> iter_count it w < array_size (iter_field it) then
        (case f sub (item_addr (pData it) (iter_field it) (iter_count it w)) w of
           None \<Rightarrow> None
         | Some (ok, sub', w') \<Rightarrow>
             if \<not> ok then Some (False, sub', w')
             else dec_packed_loop f it sub' (put32 (pSize it) (iter_count it w' + 1) w'))
      else Some (True, sub, w))"

declare dec_packed_loop.simps [code]

text \<open>Closing the substream of a packed array and returning the status of its loop.\<close>

definition close_packed ::
  "'s pb_istream \<Rightarrow> bool \<Rightarrow> 's pb_istream \<Rightarrow> 'h world \<Rightarrow> bool \<times> 's pb_istream \<times> 'h world" where
  "close_packed st status sub w =
     (case pb_close_string_substream st sub of
        (ok, st') \<Rightarrow> (if \<not> ok then False else status, st', w))"

definition decode_static_field ::
  "('s, 'h) pb_dec_env \<Rightarrow> nat \<Rightarrow> ('s, 'h) dec_call \<Rightarrow> 's pb_istream \<Rightarrow> u32 \<Rightarrow> pb_field_iter \<Rightarrow> 'h world
     \<Rightarrow> ('s, 'h) dec_result" where
  "decode_static_field env n dec st wire_type it w =
     (let field = iter_field it; ty = ftype field; ht = PB_HTYPE ty;
          func = (\<lambda>st p w. pb_decoder env dec st field p w) in
      if ht = PB_HTYPE_REQUIRED then func st (pData it) w
      else if ht = PB_HTYPE_OPTIONAL then
        func st (pData it) (if pSize it \<noteq> pData it then put8 (pSize it) 1 w else w)
      else if ht = PB_HTYPE_REPEATED then
        (if wire_type = PB_WT_STRING \<and> PB_LTYPE ty \<le> PB_LTYPE_LAST_PACKABLE then
           (case pb_make_string_substream st of
              (None, st1) \<Rightarrow> Some (False, st1, w)
            | (Some sub, st1) \<Rightarrow>
                (case dec_packed_loop func it sub w of
                   None \<Rightarrow> None
                 | Some (status, sub', w') \<Rightarrow>
                     if bytes_left sub' \<noteq> 0 then Some (False, ierr st1 ''array overflow'', w')
                     else Some (close_packed st1 status sub' w')))
         else
           (let count = iter_count it w; w' = put32 (pSize it) (count + 1) w in
            if array_size field \<le> count then Some (False, ierr st ''array overflow'', w')
            else func st (item_addr (pData it) field count) w'))
      else if ht = PB_HTYPE_ONEOF then
        (let w1 = put32 (pSize it) (ftag field) w in
         if PB_LTYPE ty = PB_LTYPE_SUBMESSAGE then
           (case pb_message_set_to_defaults env n (fptr field) (pData it)
                   (mem_zero (pData it) (data_size field) w1) of
              None \<Rightarrow> None
            | Some w2 \<Rightarrow> func st (pData it) w2)
         else func st (pData it) w1)
      else Some (False, ierr st ''invalid field type'', w))"

definition initialize_pointer_field ::
  "('s, 'h) pb_dec_env \<Rightarrow> nat \<Rightarrow> addr \<Rightarrow> pb_field_iter \<Rightarrow> 'h world \<Rightarrow> 'h world option" where
  "initialize_pointer_field env n p it w =
     (let field = iter_field it; lt = PB_LTYPE (ftype field) in
      if lt = PB_LTYPE_STRING \<or> lt = PB_LTYPE_BYTES then Some (put64 p 0 w)
      else if lt = PB_LTYPE_SUBMESSAGE
      then pb_message_set_to_defaults env n (fptr field) p (mem_zero p (data_size field) w)
      else Some w)"

text \<open>
  The loop over a packed array behind a pointer. \<open>alloc\<close> is the number of items there is room
  for; the third component of the result is the error it sets on the outer stream.
\<close>

definition grow_by :: "u64 \<Rightarrow> u64 \<Rightarrow> u32 \<Rightarrow> u64" where
  "grow_by left alloc dsize =
     (let remain = (left - 1) div ucast dsize + 1 in
      if remain < ucast PB_SIZE_MAX - alloc then alloc + remain else alloc + 1)"

definition ptr_packed_room ::
  "('s, 'h) pb_dec_env \<Rightarrow> pb_field_iter \<Rightarrow> u64 \<Rightarrow> 's pb_istream \<Rightarrow> 'h world
     \<Rightarrow> u64 \<times> bool \<times> 's pb_istream \<times> 'h world" where
  "ptr_packed_room env it alloc sub w =
     (if alloc < ucast (iter_count it w) + 1 then
        (let alloc' = grow_by (bytes_left sub) alloc (data_size (iter_field it))
         in (alloc', allocate_field env sub (pData it) (ucast (data_size (iter_field it))) alloc' w))
      else (alloc, True, sub, w))"

definition ptr_item ::
  "('s, 'h) pb_dec_env \<Rightarrow> nat \<Rightarrow> ('s pb_istream \<Rightarrow> addr \<Rightarrow> 'h world \<Rightarrow> ('s, 'h) dec_result)
     \<Rightarrow> pb_field_iter \<Rightarrow> addr \<Rightarrow> 's pb_istream \<Rightarrow> 'h world \<Rightarrow> ('s, 'h) dec_result" where
  "ptr_item env n f it p sub w =
     (case initialize_pointer_field env n p it w of
        None \<Rightarrow> None
      | Some w' \<Rightarrow> f sub p w')"

partial_function (option) ptr_packed_loop ::
  "('s, 'h) pb_dec_env \<Rightarrow> nat \<Rightarrow> ('s pb_istream \<Rightarrow> addr \<Rightarrow> 'h world \<Rightarrow> ('s, 'h) dec_result)
     \<Rightarrow> pb_field_iter \<Rightarrow> u64 \<Rightarrow> 's pb_istream \<Rightarrow> 'h world
     \<Rightarrow> (bool \<times> 's pb_istream \<times> string option \<times> 'h world) option" where
  "ptr_packed_loop env n f it alloc sub w =
     (if bytes_left sub = 0 then Some (True, sub, None, w)
      else if iter_count it w = PB_SIZE_MAX
      then Some (False, sub, Some ''too many array entries'', w)
      else
        (case ptr_packed_room env it alloc sub w of
           (alloc', ok, sub1, w1) \<Rightarrow>
             if \<not> ok then Some (False, sub1, None, w1)
             else
               (case ptr_item env n f it
                       (item_addr (rd64 (wmem w1) (pData it)) (iter_field it) (iter_count it w1)) sub1 w1 of
                  None \<Rightarrow> None
                | Some (ok, sub2, w2) \<Rightarrow>
                    if \<not> ok then Some (False, sub2, None, w2)
                    else ptr_packed_loop env n f it alloc' sub2
                           (put32 (pSize it) (iter_count it w2 + 1) w2))))"

declare ptr_packed_loop.simps [code]

definition decode_pointer_field ::
  "('s, 'h) pb_dec_env \<Rightarrow> nat \<Rightarrow> ('s, 'h) dec_call \<Rightarrow> 's pb_istream \<Rightarrow> u32 \<Rightarrow> pb_field_iter \<Rightarrow> 'h world
     \<Rightarrow> ('s, 'h) dec_result" where
  "decode_pointer_field env n dec st wire_type it w =
     (let field = iter_field it; ty = ftype field; ht = PB_HTYPE ty; lt = PB_LTYPE ty;
          func = (\<lambda>st p w. pb_decoder env dec st field p w) in
      if ht = PB_HTYPE_REQUIRED \<or> ht = PB_HTYPE_OPTIONAL \<or> ht = PB_HTYPE_ONEOF then
        (case (if lt = PB_LTYPE_SUBMESSAGE \<and> rd64 (wmem w) (pData it) \<noteq> 0
               then pb_release_single_field env n it w else Some w) of
           None \<Rightarrow> None
         | Some w1 \<Rightarrow>
             (let w2 = (if ht = PB_HTYPE_ONEOF then put32 (pSize it) (ftag field) w1 else w1) in
              if lt = PB_LTYPE_STRING \<or> lt = PB_LTYPE_BYTES then func st (pData it) w2
              else
                (case allocate_field env st (pData it) (ucast (data_size field)) 1 w2 of
                   (ok, st1, w3) \<Rightarrow>
                     if \<not> ok then Some (False, st1, w3)
                     else ptr_item env n (\<lambda>st p w. func st (rd64 (wmem w) (pData it)) w) it
                            (rd64 (wmem w3) (pData it)) st1 w3)))
      else if ht = PB_HTYPE_REPEATED then
        (if wire_type = PB_WT_STRING \<and> lt \<le> PB_LTYPE_LAST_PACKABLE then
           (case pb_make_string_substream st of
              (None, st1) \<Rightarrow> Some (False, st1, w)
            | (Some sub, st1) \<Rightarrow>
                (case ptr_packed_loop env n func it (ucast (iter_count it w)) sub w of
                   None \<Rightarrow> None
                 | Some (status, sub', msg, w') \<Rightarrow>
                     Some (close_packed
                       (case msg of None \<Rightarrow> st1 | Some e \<Rightarrow> st1\<lparr>ierrmsg := Some e\<rparr>)
                       status sub' w')))
         else if iter_count it w = PB_SIZE_MAX
         then Some (False, ierr st ''too many array entries'', w)
         else
           (case allocate_field env st (pData it) (ucast (data_size field))
                   (ucast (iter_count it w + 1)) w of
              (ok, st1, w1) \<Rightarrow>
                if \<not> ok then Some (False, st1, w1)
                else
                  (let p = item_addr (rd64 (wmem w1) (pData it)) field (iter_count it w1) in
                   ptr_item env n func it p st1 (put32 (pSize it) (iter_count it w1 + 1) w1))))
      else Some (False, ierr st ''invalid field type'', w))"

text \<open>The callback of a length-delimited field is called until its substream is used up.\<close>

partial_function (option) callback_loop ::
  "('s pb_istream \<Rightarrow> 'h world \<Rightarrow> bool \<times> 's pb_istream \<times> 'h world) \<Rightarrow> 's pb_istream \<Rightarrow> 'h world
     \<Rightarrow> ('s, 'h) dec_result" where
  "callback_loop f sub w =
     (case f sub w of
        (ok, sub', w') \<Rightarrow>
          if \<not> ok then Some (False, sub', w')
          else if bytes_left sub' \<noteq> 0 then callback_loop f sub' w'
          else Some (True, sub', w'))"

declare callback_loop.simps [code]

definition decode_callback_field ::
  "('s, 'h) pb_dec_env \<Rightarrow> 's pb_istream \<Rightarrow> u32 \<Rightarrow> pb_field_iter \<Rightarrow> 'h world \<Rightarrow> ('s, 'h) dec_result" where
  "decode_callback_field env st wire_type it w =
     (let call = (\<lambda>sub w. cb_decode env (rd64 (wmem w) (pData it)) sub (iter_field it) (pData it + 8) w) in
      if pData it = 0 \<or> rd64 (wmem w) (pData it) = 0 then
        (case pb_skip_field st wire_type of (ok, st') \<Rightarrow> Some (ok, st', w))
      else if wire_type = PB_WT_STRING then
        (case pb_make_string_substream st of
           (None, st1) \<Rightarrow> Some (False, st1, w)
         | (Some sub, st1) \<Rightarrow>
             (case callback_loop call sub w of
                None \<Rightarrow> None
              | Some (ok, sub', w') \<Rightarrow>
                  if \<not> ok then Some (False, ierr st1 ''callback failed'', w')
                  else Some (close_packed st1 True sub' w')))
      else
        (case read_raw_value st wire_type 10 of
           (ok, buffer, st1) \<Rightarrow>
             if \<not> ok then Some (False, st1, w)
             else
               (case call (pb_istream_from_buffer buffer (word_of_nat (length buffer))) w of
                  (ok, sub', w') \<Rightarrow> Some (ok, st1, w'))))"

text \<open>\<open>decode_field\<close> also returns the iterator, which a union may move.\<close>

definition decode_field ::
  "('s, 'h) pb_dec_env \<Rightarrow> nat \<Rightarrow> ('s, 'h) dec_call \<Rightarrow> 's pb_istream \<Rightarrow> u32 \<Rightarrow> pb_field_iter \<Rightarrow> 'h world
     \<Rightarrow> (bool \<times> 's pb_istream \<times> pb_field_iter \<times> 'h world) option" where
  "decode_field env n dec st wire_type it w =
     (case (if PB_HTYPE (ftype (iter_field it)) = PB_HTYPE_ONEOF
            then pb_release_union_field env n st it w else Some (True, st, it, w)) of
        None \<Rightarrow> None
      | Some (ok, st1, it1, w1) \<Rightarrow>
          if \<not> ok then Some (False, st1, it1, w1)
          else
            (let at = PB_ATYPE (ftype (iter_field it1)) in
             case (if at = PB_ATYPE_STATIC then decode_static_field env n dec st1 wire_type it1 w1
                   else if at = PB_ATYPE_POINTER
                   then decode_pointer_field env n dec st1 wire_type it1 w1
                   else if at = PB_ATYPE_CALLBACK
                   then decode_callback_field env st1 wire_type it1 w1
                   else Some (False, ierr st1 ''invalid field type'', w1)) of
               None \<Rightarrow> None
             | Some (ok, st2, w2) \<Rightarrow> Some (ok, st2, it1, w2)))"

(*BEGIN*)
section \<open>Extensions\<close>

definition default_extension_decoder ::
  "('s, 'h) pb_dec_env \<Rightarrow> nat \<Rightarrow> ('s, 'h) dec_call \<Rightarrow> 's pb_istream \<Rightarrow> addr \<Rightarrow> u32 \<Rightarrow> u32 \<Rightarrow> 'h world
     \<Rightarrow> ('s, 'h) dec_result" where
  "default_extension_decoder env n dec st e tag wire_type w =
     (let field = field_nth (dfields_at env (exttype_arg (wmem w) (ext_type (wmem w) e))) 0 in
      if ftag field \<noteq> tag then Some (True, st, w)
      else
        (case decode_field env n dec st wire_type (iter_from_extension env (wmem w) e)
                (put8 (e + 24) 1 w) of
           None \<Rightarrow> None
         | Some (ok, st', it', w') \<Rightarrow> Some (ok, st', w')))"

fun decode_extensions ::
  "('s, 'h) pb_dec_env \<Rightarrow> nat \<Rightarrow> ('s, 'h) dec_call \<Rightarrow> nat \<Rightarrow> 's pb_istream \<Rightarrow> u64 \<Rightarrow> addr \<Rightarrow> u32 \<Rightarrow> u32
     \<Rightarrow> 'h world \<Rightarrow> ('s, 'h) dec_result" where
  "decode_extensions env n dec 0 st pos e tag wire_type w = None"
| "decode_extensions env n dec (Suc k) st pos e tag wire_type w =
     (if e = 0 \<or> pos \<noteq> bytes_left st then Some (True, st, w)
      else
        (case (let fp = exttype_decode (wmem w) (ext_type (wmem w) e) in
               if fp \<noteq> 0 then Some (ext_decode env fp st e tag wire_type w)
               else default_extension_decoder env n dec st e tag wire_type w) of
           None \<Rightarrow> None
         | Some (status, st', w') \<Rightarrow>
             if \<not> status then Some (False, st', w')
             else decode_extensions env n dec k st' pos (ext_next (wmem w') e) tag wire_type w'))"

definition decode_extension ::
  "('s, 'h) pb_dec_env \<Rightarrow> nat \<Rightarrow> ('s, 'h) dec_call \<Rightarrow> 's pb_istream \<Rightarrow> u32 \<Rightarrow> u32 \<Rightarrow> pb_field_iter
     \<Rightarrow> 'h world \<Rightarrow> ('s, 'h) dec_result" where
  "decode_extension env n dec st tag wire_type it w =
     decode_extensions env n dec n st (bytes_left st) (rd64 (wmem w) (pData it)) tag wire_type w"

partial_function (option) find_extension_loop ::
  "nat \<Rightarrow> pb_field_iter \<Rightarrow> (bool \<times> pb_field_iter) option" where
  "find_extension_loop start it =
     (if PB_LTYPE (ftype (iter_field it)) = PB_LTYPE_EXTENSION then Some (True, it)
      else
        (let it' = snd (pb_field_iter_next it) in
         if ipos it' \<noteq> start then find_extension_loop start it' else Some (False, it')))"

declare find_extension_loop.simps [code]

definition find_extension_field :: "pb_field_iter \<Rightarrow> (bool \<times> pb_field_iter) option" where
  "find_extension_field it = find_extension_loop (ipos it) it"

section \<open>The message loop\<close>

text \<open>
  The local variables of \<open>pb_decode_noinit\<close> (\<open>PB_MAX_REQUIRED_FIELDS\<close> is 64), beside its stream
  and the world. \<open>fixed_count_size\<close> is in memory, at the frame slot, since the iterator is made
  to point at it.
\<close>

record ('s, 'h) dec_state =
  ds_stream :: "'s pb_istream"
  ds_world :: "'h world"
  ds_iter :: pb_field_iter
  fields_seen :: "u32 list"
  extension_range_start :: u32
  fixed_count_field :: "nat option"

text \<open>How an iteration ends: with \<open>continue\<close> or the end of the body, \<open>break\<close>, or \<open>return\<close>.\<close>

datatype ('s, 'h) dec_outcome =
    DecContinue "('s, 'h) dec_state"
  | DecBreak "('s, 'h) dec_state"
  | DecReturn bool "'s pb_istream" "'h world"

definition ret_error :: "string \<Rightarrow> ('s, 'h) dec_state \<Rightarrow> ('s, 'h) dec_outcome" where
  "ret_error msg s = DecReturn False (ierr (ds_stream s) msg) (ds_world s)"

definition dec_skip :: "u32 \<Rightarrow> ('s, 'h) dec_state \<Rightarrow> ('s, 'h) dec_outcome" where
  "dec_skip wire_type s =
     (case pb_skip_field (ds_stream s) wire_type of
        (ok, st') \<Rightarrow>
          if \<not> ok then DecReturn False st' (ds_world s) else DecContinue (s\<lparr>ds_stream := st'\<rparr>))"

text \<open>A tag no entry has: the extensions, when the tag is in their range, or skipping.\<close>

definition dec_unknown ::
  "('s, 'h) pb_dec_env \<Rightarrow> nat \<Rightarrow> ('s, 'h) dec_call \<Rightarrow> u32 \<Rightarrow> u32 \<Rightarrow> ('s, 'h) dec_state
     \<Rightarrow> ('s, 'h) dec_outcome option" where
  "dec_unknown env n dec tag wire_type s =
     (if extension_range_start s \<le> tag then
        (case find_extension_field (ds_iter s) of
           None \<Rightarrow> None
         | Some (found, it) \<Rightarrow>
             (let s1 = s\<lparr>ds_iter := it,
                         extension_range_start := (if \<not> found then - 1 else ftag (iter_field it))\<rparr> in
              if extension_range_start s1 \<le> tag then
                (case decode_extension env n dec (ds_stream s1) tag wire_type it (ds_world s1) of
                   None \<Rightarrow> None
                 | Some (ok, st', w') \<Rightarrow>
                     (let s2 = s1\<lparr>ds_stream := st', ds_world := w'\<rparr> in
                      if \<not> ok then Some (DecReturn False st' w')
                      else if bytes_left (ds_stream s) \<noteq> bytes_left st' then Some (DecContinue s2)
                      else Some (dec_skip wire_type s2)))
              else Some (dec_skip wire_type s1)))
      else Some (dec_skip wire_type s))"

definition fixed_count_wrong :: "addr \<Rightarrow> ('s, 'h) dec_state \<Rightarrow> bool" where
  "fixed_count_wrong slot s =
     (case fixed_count_field s of
        None \<Rightarrow> False
      | Some k \<Rightarrow>
          rd32 (wmem (ds_world s)) slot \<noteq> array_size (field_nth (istart (ds_iter s)) k))"

text \<open>A fixed-count field has no counter in the structure: the iterator gets the local one.\<close>

definition dec_fixed_count ::
  "addr \<Rightarrow> ('s, 'h) dec_state \<Rightarrow> ('s, 'h) dec_state option" where
  "dec_fixed_count slot s =
     (let it = ds_iter s in
      if PB_HTYPE (ftype (iter_field it)) = PB_HTYPE_REPEATED \<and> pSize it = pData it then
        (if fixed_count_field s \<noteq> Some (ipos it) then
           (if fixed_count_wrong slot s then None
            else Some (s\<lparr>fixed_count_field := Some (ipos it), ds_world := put32 slot 0 (ds_world s),
                         ds_iter := it\<lparr>pSize := slot\<rparr>\<rparr>))
         else Some (s\<lparr>ds_iter := it\<lparr>pSize := slot\<rparr>\<rparr>))
      else Some s)"

definition mark_seen :: "u32 \<Rightarrow> u32 list \<Rightarrow> u32 list" where
  "mark_seen i seen =
     (let k = unat (drop_bit 5 i) in seen[k := (seen ! k) OR push_bit (unat (i AND 31)) 1])"

definition dec_mark_required :: "('s, 'h) dec_state \<Rightarrow> ('s, 'h) dec_state" where
  "dec_mark_required s =
     (let it = ds_iter s in
      if PB_HTYPE (ftype (iter_field it)) = PB_HTYPE_REQUIRED \<and> required_field_index it < 64
      then s\<lparr>fields_seen := mark_seen (required_field_index it) (fields_seen s)\<rparr> else s)"

definition dec_known ::
  "('s, 'h) pb_dec_env \<Rightarrow> nat \<Rightarrow> ('s, 'h) dec_call \<Rightarrow> u32 \<Rightarrow> ('s, 'h) dec_state
     \<Rightarrow> ('s, 'h) dec_outcome option" where
  "dec_known env n dec wire_type s =
     (case dec_fixed_count (frame_slot env n) s of
        None \<Rightarrow> Some (ret_error ''wrong size for fixed count field'' s)
      | Some s1 \<Rightarrow>
          (let s2 = dec_mark_required s1 in
           case decode_field env n dec (ds_stream s2) wire_type (ds_iter s2) (ds_world s2) of
             None \<Rightarrow> None
           | Some (ok, st', it', w') \<Rightarrow>
               Some (if \<not> ok then DecReturn False st' w'
                     else DecContinue (s2\<lparr>ds_stream := st', ds_iter := it', ds_world := w'\<rparr>))))"

text \<open>One iteration of the loop.\<close>

definition dec_step ::
  "('s, 'h) pb_dec_env \<Rightarrow> nat \<Rightarrow> ('s, 'h) dec_call \<Rightarrow> ('s, 'h) dec_state
     \<Rightarrow> ('s, 'h) dec_outcome option" where
  "dec_step env n dec s =
     (case pb_decode_tag (ds_stream s) of
        (None, eof, st') \<Rightarrow>
          Some (if eof then DecBreak (s\<lparr>ds_stream := st'\<rparr>) else DecReturn False st' (ds_world s))
      | (Some (wire_type, tag), eof, st') \<Rightarrow>
          (case pb_field_iter_find (ds_iter s) tag of
             None \<Rightarrow> None
           | Some (found, it) \<Rightarrow>
               (let s1 = s\<lparr>ds_stream := st', ds_iter := it\<rparr> in
                if found then dec_known env n dec wire_type s1
                else dec_unknown env n dec tag wire_type s1)))"

partial_function (option) dec_loop ::
  "('s, 'h) pb_dec_env \<Rightarrow> nat \<Rightarrow> ('s, 'h) dec_call \<Rightarrow> ('s, 'h) dec_state
     \<Rightarrow> ('s, 'h) dec_outcome option" where
  "dec_loop env n dec s =
     (if bytes_left (ds_stream s) = 0 then Some (DecBreak s)
      else
        (case dec_step env n dec s of
           None \<Rightarrow> None
         | Some r \<Rightarrow> (case r of DecContinue s' \<Rightarrow> dec_loop env n dec s' | DecBreak s' \<Rightarrow> Some r
                       | DecReturn ok st w \<Rightarrow> Some r)))"

declare dec_loop.simps [code]

text \<open>Seeking to the end of the array: the last index, the last type, the iterator wrapped.\<close>

function seek_last :: "pb_field_iter \<Rightarrow> u32 \<times> u8 \<times> pb_field_iter" where
  "seek_last it =
     (case pb_field_iter_next it of
        (go, it') \<Rightarrow>
          if go then seek_last it' else (required_field_index it, ftype (iter_field it), it'))"
  by pat_completeness auto
termination
  by (relation "measure (\<lambda>it. length (istart it) - ipos it)")
    (auto dest: iter_next_bound [OF sym])

declare seek_last.simps [simp del]

definition required_count :: "pb_field_iter \<Rightarrow> u32" where
  "required_count it =
     (case seek_last it of
        (count, last_type, it') \<Rightarrow>
          (let count = (if PB_HTYPE last_type = PB_HTYPE_REQUIRED \<and> ftag (iter_field it') \<noteq> 0
                        then count + 1 else count)
           in if 64 < count then 64 else count))"

text \<open>The whole words, and the remaining bits, of the bit map of required fields.\<close>

definition required_seen :: "u32 \<Rightarrow> u32 list \<Rightarrow> bool" where
  "required_seen count seen =
     ((\<forall>i \<in> set [0..<unat (drop_bit 5 count)]. seen ! i = - 1)
      \<and> (count AND 31 \<noteq> 0
         \<longrightarrow> seen ! unat (drop_bit 5 count) = drop_bit (32 - unat (count AND 31)) (- 1)))"

definition dec_finish ::
  "addr \<Rightarrow> ('s, 'h) dec_state \<Rightarrow> bool \<times> 's pb_istream \<times> 'h world" where
  "dec_finish slot s =
     (if fixed_count_wrong slot s
      then (False, ierr (ds_stream s) ''wrong size for fixed count field'', ds_world s)
      else if 0 < required_count (ds_iter s)
              \<and> \<not> required_seen (required_count (ds_iter s)) (fields_seen s)
      then (False, ierr (ds_stream s) ''missing required field'', ds_world s)
      else (True, ds_stream s, ds_world s))"

definition dec_init ::
  "('s, 'h) pb_dec_env \<Rightarrow> nat \<Rightarrow> 's pb_istream \<Rightarrow> addr \<Rightarrow> addr \<Rightarrow> 'h world \<Rightarrow> ('s, 'h) dec_state" where
  "dec_init env n st fds dest w =
     \<lparr>ds_stream = st, ds_world = put32 (frame_slot env n) 0 w,
      ds_iter = snd (pb_field_iter_begin (dfields_at env fds) dest),
      fields_seen = [0, 0], extension_range_start = 0, fixed_count_field = None\<rparr>"

definition noinit_body ::
  "('s, 'h) pb_dec_env \<Rightarrow> nat \<Rightarrow> ('s, 'h) dec_call \<Rightarrow> 's pb_istream \<Rightarrow> addr \<Rightarrow> addr \<Rightarrow> 'h world
     \<Rightarrow> ('s, 'h) dec_result" where
  "noinit_body env n dec st fds dest w =
     (case dec_loop env n dec (dec_init env n st fds dest w) of
        None \<Rightarrow> None
      | Some (DecContinue s) \<Rightarrow> None
      | Some (DecBreak s) \<Rightarrow> Some (dec_finish (frame_slot env n) s)
      | Some (DecReturn ok st' w') \<Rightarrow> Some (ok, st', w'))"

definition decode_body ::
  "('s, 'h) pb_dec_env \<Rightarrow> nat \<Rightarrow> ('s, 'h) dec_call \<Rightarrow> 's pb_istream \<Rightarrow> addr \<Rightarrow> addr \<Rightarrow> 'h world
     \<Rightarrow> ('s, 'h) dec_result" where
  "decode_body env n dec st fds dest w =
     (case pb_message_set_to_defaults env n fds dest w of
        None \<Rightarrow> None
      | Some w1 \<Rightarrow>
          (case noinit_body env n dec st fds dest w1 of
             None \<Rightarrow> None
           | Some (status, st', w2) \<Rightarrow>
               if \<not> status then map_option (\<lambda>w3. (False, st', w3)) (pb_release env n fds dest w2)
               else Some (True, st', w2)))"

fun pb_decode_call :: "('s, 'h) pb_dec_env \<Rightarrow> nat \<Rightarrow> ('s, 'h) dec_call" where
  "pb_decode_call env 0 init st fds dest w = None"
| "pb_decode_call env (Suc n) init st fds dest w =
     (if init then decode_body env n (pb_decode_call env n) st fds dest w
      else noinit_body env n (pb_decode_call env n) st fds dest w)"

definition pb_decode ::
  "('s, 'h) pb_dec_env \<Rightarrow> nat \<Rightarrow> 's pb_istream \<Rightarrow> addr \<Rightarrow> addr \<Rightarrow> 'h world \<Rightarrow> ('s, 'h) dec_result" where
  "pb_decode env n = pb_decode_call env n True"

definition pb_decode_noinit ::
  "('s, 'h) pb_dec_env \<Rightarrow> nat \<Rightarrow> 's pb_istream \<Rightarrow> addr \<Rightarrow> addr \<Rightarrow> 'h world \<Rightarrow> ('s, 'h) dec_result" where
  "pb_decode_noinit env n = pb_decode_call env n False"

definition decode_delimited ::
  "('s pb_istream \<Rightarrow> ('s, 'h) dec_result) \<Rightarrow> 's pb_istream \<Rightarrow> 'h world \<Rightarrow> ('s, 'h) dec_result" where
  "decode_delimited f st w =
     (case pb_make_string_substream st of
        (None, st1) \<Rightarrow> Some (False, st1, w)
      | (Some sub, st1) \<Rightarrow>
          (case f sub of
             None \<Rightarrow> None
           | Some (status, sub', w') \<Rightarrow>
               (case pb_close_string_substream st1 sub' of
                  (ok, st2) \<Rightarrow> Some (if \<not> ok then False else status, st2, w'))))"

definition pb_decode_delimited_noinit ::
  "('s, 'h) pb_dec_env \<Rightarrow> nat \<Rightarrow> 's pb_istream \<Rightarrow> addr \<Rightarrow> addr \<Rightarrow> 'h world \<Rightarrow> ('s, 'h) dec_result" where
  "pb_decode_delimited_noinit env n st fds dest w =
     decode_delimited (\<lambda>sub. pb_decode_noinit env n sub fds dest w) st w"

definition pb_decode_delimited ::
  "('s, 'h) pb_dec_env \<Rightarrow> nat \<Rightarrow> 's pb_istream \<Rightarrow> addr \<Rightarrow> addr \<Rightarrow> 'h world \<Rightarrow> ('s, 'h) dec_result" where
  "pb_decode_delimited env n st fds dest w =
     decode_delimited (\<lambda>sub. pb_decode env n sub fds dest w) st w"

definition pb_decode_nullterminated ::
  "('s, 'h) pb_dec_env \<Rightarrow> nat \<Rightarrow> 's pb_istream \<Rightarrow> addr \<Rightarrow> addr \<Rightarrow> 'h world \<Rightarrow> ('s, 'h) dec_result" where
  "pb_decode_nullterminated env n = pb_decode env n"

definition pb_decode_bool ::
  "'s pb_istream \<Rightarrow> addr \<Rightarrow> 'h world \<Rightarrow> bool \<times> 's pb_istream \<times> 'h world" where
  "pb_decode_bool st dest w = pb_dec_bool st dest w"

end
