(* ===== verification/Pb_Decode_Props.thy ===== *)
theory Pb_Decode_Props
  imports Pb_Decode Pb_Roundtrip
begin

text \<open>
  Properties of the decoder of structures: the check of required fields, allocation, the memory a
  field decoder may touch, integers at the width of their field, and the tag 0 of an empty
  message.
\<close>

section \<open>The bit map of required fields\<close>

lemma u32_div_mod_32:
  "unat (drop_bit 5 (i :: u32)) = unat i div 32" "unat (i AND 31) = unat i mod 32"
proof -
  show "unat (drop_bit 5 i) = unat i div 32" by (simp add: drop_bit_eq_div unat_div)
  have "i AND 31 = take_bit 5 i" by (simp add: take_bit_eq_mask mask_eq_exp_minus_1)
  then show "unat (i AND 31) = unat i mod 32" by (simp add: take_bit_eq_mod unat_mod)
qed

text \<open>Bit \<open>k\<close> of the two-word map.\<close>

definition seen_bit :: "u32 list \<Rightarrow> nat \<Rightarrow> bool" where
  "seen_bit seen k = bit (seen ! (k div 32)) (k mod 32)"

lemma mark_seen_bit:
  assumes "length seen = 2" "unat i < 64" "k < 64"
  shows "seen_bit (mark_seen i seen) k \<longleftrightarrow> seen_bit seen k \<or> k = unat i"
proof -
  have "unat i div 32 < 2" "k div 32 < 2" using assms by auto
  moreover have "k = unat i \<longleftrightarrow> k div 32 = unat i div 32 \<and> k mod 32 = unat i mod 32"
    by (metis div_mult_mod_eq)
  ultimately show ?thesis
    using assms(1)
    by (auto simp: seen_bit_def mark_seen_def Let_def u32_div_mod_32 nth_list_update bit_simps
        bit_push_bit_iff simp del: push_bit_of_1)
qed

lemma all_ones_iff: "(w :: u32) = - 1 \<longleftrightarrow> (\<forall>k < 32. bit w k)"
  by (auto simp: bit_eq_iff bit_simps intro!: bit_word_eqI)

lemma low_ones_iff: "(w :: u32) = drop_bit (32 - r) (- 1) \<longleftrightarrow> (\<forall>k < 32. bit w k \<longleftrightarrow> k < r)" if "r < 32" for r
  using that by (auto simp: bit_eq_iff bit_simps intro!: bit_word_eqI dest: bit_imp_le_length)


lemma fold_mark_seen:
  assumes "\<forall>i \<in> set xs. unat (i :: u32) < 64" "length seen = 2"
  shows "length (fold mark_seen xs seen) = 2
    \<and> (\<forall>k < 64. seen_bit (fold mark_seen xs seen) k \<longleftrightarrow> seen_bit seen k \<or> k \<in> unat ` set xs)"
  using assms
proof (induction xs arbitrary: seen)
  case Nil
  then show ?case by simp
next
  case (Cons i xs)
  have l: "length (mark_seen i seen) = 2" using Cons.prems by (simp add: mark_seen_def Let_def)
  from Cons.IH [OF _ l] Cons.prems mark_seen_bit [of seen i] show ?case by auto
qed

text \<open>The comparisons with whole and partial masks say that exactly the first bits are set.\<close>

lemma required_seen_iff:
  assumes l: "length seen = 2" and c: "unat count \<le> 64"
    and none: "\<forall>k < 64. seen_bit seen k \<longrightarrow> k < unat count"
  shows "required_seen count seen \<longleftrightarrow> (\<forall>k < unat count. seen_bit seen k)"
proof -
  let ?n = "unat count"
  have nz: "count AND 31 \<noteq> 0 \<longleftrightarrow> ?n mod 32 \<noteq> 0"
    by (metis u32_div_mod_32(2) unat_0 unat_eq_0)
  have words: "seen ! i = - 1 \<longleftrightarrow> (\<forall>k < 32. seen_bit seen (32 * i + k))" for i
    unfolding all_ones_iff by (auto simp: seen_bit_def)
  have part: "seen ! (?n div 32) = drop_bit (32 - ?n mod 32) (- 1)
      \<longleftrightarrow> (\<forall>k < 32. seen_bit seen (32 * (?n div 32) + k) \<longleftrightarrow> k < ?n mod 32)"
    by (subst low_ones_iff) (auto simp: seen_bit_def)
  have lim: "\<not> seen_bit seen (32 * (?n div 32) + k)" if "k < 32" "?n mod 32 \<le> k" "?n mod 32 \<noteq> 0" for k
  proof -
    have "32 * (?n div 32) + ?n mod 32 = ?n" by simp
    moreover from this that c have "?n div 32 < 2" by linarith
    ultimately have "?n \<le> 32 * (?n div 32) + k" "32 * (?n div 32) + k < 64" using that by linarith+
    with none show ?thesis by fastforce
  qed
  have split: "k < ?n \<longleftrightarrow> (\<exists>i < ?n div 32. \<exists>j < 32. k = 32 * i + j)
      \<or> (\<exists>j < ?n mod 32. k = 32 * (?n div 32) + j)" for k
  proof
    assume k: "k < ?n"
    have e: "k = 32 * (k div 32) + k mod 32" by simp
    show "(\<exists>i < ?n div 32. \<exists>j < 32. k = 32 * i + j)
      \<or> (\<exists>j < ?n mod 32. k = 32 * (?n div 32) + j)"
    proof (cases "k div 32 < ?n div 32")
      case True
      then show ?thesis using e by (metis mod_less_divisor zero_less_numeral)
    next
      case False
      with k have "k div 32 = ?n div 32" by (metis div_le_mono le_antisym less_imp_le not_less)
      with e k have "k mod 32 < ?n mod 32" "k = 32 * (?n div 32) + k mod 32"
        by (metis add_less_cancel_left mult_div_mod_eq, metis)
      then show ?thesis by blast
    qed
  next
    assume "(\<exists>i < ?n div 32. \<exists>j < 32. k = 32 * i + j)
      \<or> (\<exists>j < ?n mod 32. k = 32 * (?n div 32) + j)"
    moreover have "32 * (?n div 32) + ?n mod 32 = ?n" by simp
    ultimately show "k < ?n" by (elim disjE exE conjE) linarith+
  qed
  have "required_seen count seen \<longleftrightarrow>
      (\<forall>i < ?n div 32. \<forall>j < 32. seen_bit seen (32 * i + j))
      \<and> (?n mod 32 \<noteq> 0 \<longrightarrow> (\<forall>k < 32. seen_bit seen (32 * (?n div 32) + k) \<longleftrightarrow> k < ?n mod 32))"
    unfolding required_seen_def nz u32_div_mod_32 part by (auto simp: words)
  moreover have "(?n mod 32 \<noteq> 0 \<longrightarrow> (\<forall>k < 32. seen_bit seen (32 * (?n div 32) + k) \<longleftrightarrow> k < ?n mod 32))
      \<longleftrightarrow> (\<forall>k < ?n mod 32. seen_bit seen (32 * (?n div 32) + k))"
  proof (cases "?n mod 32 = 0")
    case False
    have "k < 32" if "k < ?n mod 32" for k using that by (rule less_trans) simp
    with False lim show ?thesis by (metis not_less)
  qed simp
  moreover have "(\<forall>k < ?n. seen_bit seen k) \<longleftrightarrow> (\<forall>i < ?n div 32. \<forall>j < 32. seen_bit seen (32 * i + j))
      \<and> (\<forall>k < ?n mod 32. seen_bit seen (32 * (?n div 32) + k))"
    unfolding split by blast
  ultimately show ?thesis by simp
qed


text \<open>
  The bit map of required fields says what it is meant to: starting from an empty map and
  marking the indices of the fields that were seen, the check of \<open>pb_decode_noinit\<close> passes
  exactly when every one of the \<open>count\<close> required fields is among them.
\<close>

theorem required_fields_checked:
  assumes c: "unat count \<le> 64" and xs: "\<forall>i \<in> set xs. unat i < unat count"
  shows "required_seen count (fold mark_seen xs [0, 0]) \<longleftrightarrow> {0..<unat count} \<subseteq> unat ` set xs"
proof -
  let ?s = "fold mark_seen xs [0, 0]"
  have zero: "\<not> seen_bit [0, 0] k" if "k < 64" for k
    using that by (cases "k div 32") (auto simp: seen_bit_def nth_Cons')
  have b: "\<forall>i \<in> set xs. unat i < 64" using xs c by fastforce
  have f: "length ?s = 2" "\<forall>k < 64. seen_bit ?s k \<longleftrightarrow> k \<in> unat ` set xs"
    using fold_mark_seen [OF b, of "[0, 0]"] zero by auto
  have "\<forall>k < 64. seen_bit ?s k \<longrightarrow> k < unat count" using f(2) xs by auto
  from required_seen_iff [OF f(1) c this] f(2) c show ?thesis by fastforce
qed

theorem required_fields_checked_witness:
  "required_seen 2 (fold mark_seen [1, 0] [0, 0]) \<and> \<not> required_seen 2 (fold mark_seen [1] [0, 0])"
proof
  show "required_seen 2 (fold mark_seen [1, 0] [0, 0])"
    by (subst required_fields_checked) auto
  show "\<not> required_seen 2 (fold mark_seen [1] [0, 0])"
    by (subst required_fields_checked) (auto dest!: subsetD [of _ _ 0])
qed

section \<open>Allocation\<close>

text \<open>
  C28: \<open>allocate_field\<close> succeeds only after asking the allocator for exactly the number of bytes
  of the array, without overflow, for the pointer it found, and then stores the pointer it got,
  which is not null; when it fails after asking, the old pointer is still in place.
\<close>

theorem allocate_field_exact:
  assumes a: "allocate_field env st p dsize asize w = (ok, st', w')"
  shows "if ok
    then unat dsize * unat asize < 2 ^ 64 \<and> 0 < unat dsize * unat asize
      \<and> (\<exists>q w1. pb_realloc env (rd64 (wmem w) p) (word_of_nat (unat dsize * unat asize)) w = (q, w1)
           \<and> q \<noteq> 0 \<and> w' = put64 p q w1 \<and> rd64 (wmem w') p = q)
    else ierrmsg st' \<noteq> None
      \<and> (w' = w \<or> pb_realloc env (rd64 (wmem w) p) (word_of_nat (unat dsize * unat asize)) w = (0, w'))"
proof -
  have nz: "0 < unat dsize * unat asize" if "dsize \<noteq> 0" "asize \<noteq> 0"
    using that by (simp add: unat_gt_0)
  have small: "unat dsize * unat asize < 2 ^ 64"
    if "\<not> ((0x100000000 \<le> dsize \<or> 0x100000000 \<le> asize) \<and> (- 1) div asize < dsize)" "asize \<noteq> 0"
  proof (cases "0x100000000 \<le> dsize \<or> 0x100000000 \<le> asize")
    case True
    with that have "dsize \<le> (- 1) div asize" by auto
    then have "unat dsize \<le> unat (- 1 :: u64) div unat asize"
      by (simp add: word_le_nat_alt unat_div)
    then have "unat dsize * unat asize \<le> unat (- 1 :: u64)"
      by (metis div_times_less_eq_dividend le_trans mult_le_mono1)
    moreover have "unat (- 1 :: u64) < 2 ^ 64" using unat_u64_lt [of "- 1"] by simp
    ultimately show ?thesis by linarith
  next
    case False
    then have "unat dsize < 2 ^ 32" "unat asize < 2 ^ 32" by (simp_all add: word_le_nat_alt)
    then have "unat dsize * unat asize < 2 ^ 32 * 2 ^ 32" by (intro mult_strict_mono) simp_all
    then show ?thesis by simp
  qed
  show ?thesis
    using a small nz
    by (auto simp: allocate_field_def mult.commute [of dsize asize] put64_def mem_simps ierr_def
        split: if_splits prod.splits option.splits)
qed


text \<open>An allocator that gives every request the address \<open>0x5000\<close>, and never frees.\<close>

definition plain_env :: "(addr \<Rightarrow> pb_field list) \<Rightarrow> (unit, unit) pb_dec_env" where
  "plain_env fds =
     \<lparr>dfields_at = fds, cb_decode = (\<lambda>fp st f a w. (False, st, w)),
      ext_decode = (\<lambda>fp st e t wt w. (False, st, w)), pb_realloc = (\<lambda>p n w. (0x5000, w)),
      pb_free = (\<lambda>p w. w), frame_slot = (\<lambda>n. 0x9000 + 16 * word_of_nat n)\<rparr>"

definition sevens :: "unit world" where
  "sevens = \<lparr>wmem = (\<lambda>_. 7), wheap = ()\<rparr>"

theorem allocate_field_exact_witness:
  "\<exists>st' w'. allocate_field (plain_env (\<lambda>_. [])) (pb_istream_from_buffer [] 0) 0x1000 24 3 sevens
      = (True, st', w') \<and> rd64 (wmem w') 0x1000 = 0x5000"
proof -
  have "fst (allocate_field (plain_env (\<lambda>_. [])) (pb_istream_from_buffer [] 0) 0x1000 24 3 sevens)"
    by code_simp
  then obtain st' w' where
    r: "allocate_field (plain_env (\<lambda>_. [])) (pb_istream_from_buffer [] 0) 0x1000 24 3 sevens
      = (True, st', w')"
    by (metis (full_types) prod.exhaust_sel)
  from allocate_field_exact [OF r] have "rd64 (wmem w') 0x1000 = 0x5000"
    by (auto simp: plain_env_def)
  with r show ?thesis by blast
qed

section \<open>The tag zero of an empty message\<close>

text \<open>
  Decoding the field number 0 into an empty message type succeeds and writes a byte into the
  structure: the search matches the terminator of the descriptor array, which is then decoded as
  a required \<open>bool\<close>.
\<close>

theorem empty_message_tag_zero:
  "map_option (\<lambda>r. (fst r, bytes_left (fst (snd r)), wmem (snd (snd r)) 0x1000))
     (pb_decode (plain_env (\<lambda>_. [PB_LAST_FIELD])) 3 (pb_istream_from_buffer [1, 5] 2) 2 0x1000 sevens)
   = Some (True, 0, 1)"
  by code_simp

(*BEGIN*)
section \<open>Where a field decoder writes\<close>

text \<open>\<open>only_in w w' a n\<close>: the memories differ at most in the \<open>n\<close> bytes from \<open>a\<close>.\<close>

definition only_in :: "'h world \<Rightarrow> 'h world \<Rightarrow> addr \<Rightarrow> nat \<Rightarrow> bool" where
  "only_in w w' a n \<longleftrightarrow> (\<forall>x. n \<le> unat (x - a) \<longrightarrow> wmem w' x = wmem w x)"

lemma only_in_refl [simp]: "only_in w w a n"
  by (simp add: only_in_def)

lemma only_in_trans: "only_in w w1 a n \<Longrightarrow> only_in w1 w2 a n \<Longrightarrow> only_in w w2 a n"
  by (simp add: only_in_def)

lemma only_in_mem_write:
  assumes "unat k + length bs \<le> n"
  shows "only_in w (w\<lparr>wmem := mem_write (wmem w) (a + k) bs\<rparr>) a n"
  unfolding only_in_def
proof (intro allI impI)
  fix x :: addr
  assume x: "n \<le> unat (x - a)"
  with assms have "k \<le> x - a" by (simp add: word_le_nat_alt)
  then have "unat (x - (a + k)) = unat (x - a) - unat k"
    by (metis diff_diff_eq unat_sub)
  with assms x have "\<not> unat (x - (a + k)) < length bs" by linarith
  then show "wmem (w\<lparr>wmem := mem_write (wmem w) (a + k) bs\<rparr>) x = wmem w x"
    by (simp add: mem_write_at)
qed

lemmas only_in_write_0 = only_in_mem_write [where k = 0, simplified]

lemma only_in_put:
  "1 \<le> n \<Longrightarrow> only_in w (put8 a b w) a n"
  "4 \<le> n \<Longrightarrow> only_in w (put32 a v w) a n"
  "8 \<le> n \<Longrightarrow> only_in w (put64 a u w) a n"
  "2 \<le> n \<Longrightarrow> only_in w (w\<lparr>wmem := wr16 (wmem w) a h\<rparr>) a n"
  "length bs \<le> n \<Longrightarrow> only_in w (put_bytes a bs w) a n"
  by (simp_all add: put8_def put32_def put64_def put_bytes_def wr8_def wr16_def wr32_def wr64_def
      only_in_write_0)

lemma buf_read_kept: "call_read st n = (ok, bs, st') \<Longrightarrow> is_buf_read (isource st) \<Longrightarrow>
    ok \<and> length bs = unat n \<and> is_buf_read (isource st')"
  by (cases "isource st") (auto simp: call_read_def)

lemma is_buf_ierr [simp]: "is_buf_read (isource (ierr st msg)) = is_buf_read (isource st)"
  by (simp add: ierr_def)

lemma readbyte_kept:
  "pb_readbyte st = (r, st') \<Longrightarrow> is_buf_read (isource st) \<Longrightarrow> is_buf_read (isource st')"
  by (auto simp: pb_readbyte_def split: if_splits prod.splits dest!: buf_read_kept)

lemma varint32_loop_kept:
  "varint32_loop st b r = (x, st') \<Longrightarrow> is_buf_read (isource st) \<Longrightarrow> is_buf_read (isource st')"
proof (induction st b r arbitrary: x st' rule: varint32_loop.induct)
  case (1 st b r)
  obtain ob st1 where rb: "pb_readbyte st = (ob, st1)" by (cases "pb_readbyte st")
  have k: "is_buf_read (isource st1)" by (rule readbyte_kept [OF rb "1.prems"(2)])
  show ?case
  proof (cases ob)
    case None
    with "1.prems"(1) rb k show ?thesis by (simp add: varint32_loop.simps [of st b r])
  next
    case (Some byte)
    with "1.prems"(1) rb k "1.IH" [OF rb [symmetric] Some] show ?thesis
      by (auto simp: varint32_loop.simps [of st b r] split: option.splits if_splits)
  qed
qed

lemma varint32_kept:
  "pb_decode_varint32 st = (r, st') \<Longrightarrow> is_buf_read (isource st) \<Longrightarrow> is_buf_read (isource st')"
  by (auto simp: pb_decode_varint32_def pb_decode_varint32_eof_def split: prod.splits option.splits if_splits
      dest!: readbyte_kept varint32_loop_kept)

lemma read_length:
  "pb_read st nn n = (ok, bs, st') \<Longrightarrow> is_buf_read (isource st) \<Longrightarrow> length bs \<le> unat n"
  by (auto simp: pb_read_def pb_read_direct_def split: if_splits prod.splits dest!: buf_read_kept)

lemma read_into_only:
  assumes r: "read_into st (a + k) n w = (ok, st', w')" and b: "is_buf_read (isource st)"
    and l: "unat k + unat n \<le> m"
  shows "only_in w w' a m"
proof -
  obtain ok1 bs st1 where p: "pb_read st (a + k \<noteq> 0) n = (ok1, bs, st1)"
    by (cases "pb_read st (a + k \<noteq> 0) n")
  have "length bs \<le> unat n" by (rule read_length [OF p b])
  then have "only_in w (put_bytes (a + k) bs w) a m"
    unfolding put_bytes_def using l by (intro only_in_mem_write) linarith
  with r p show ?thesis by (auto simp: read_into_def split: if_splits)
qed

text \<open>The size of the values that are stored whatever \<open>data_size\<close> says.\<close>

definition fixed_width :: "u8 \<Rightarrow> nat" where
  "fixed_width lt =
     (if lt = PB_LTYPE_BOOL then 1 else if lt = PB_LTYPE_FIXED32 then 4
      else if lt = PB_LTYPE_FIXED64 then 8 else 0)"

lemma store_only:
  "store_signed sz a v w = Some (c, w') \<Longrightarrow> only_in w w' a (unat sz)"
  "store_unsigned sz a v w = Some (c, w') \<Longrightarrow> only_in w w' a (unat sz)"
  by (auto simp: store_signed_def store_unsigned_def only_in_put split: if_splits)

lemma finish_store_only:
  "finish_store (store_signed sz a v w) v st w = (ok, st', w') \<Longrightarrow> only_in w w' a (unat sz)"
  "finish_store (store_unsigned sz a v w) v st w = (ok, st', w') \<Longrightarrow> only_in w w' a (unat sz)"
  by (auto simp: finish_store_def store_only split: option.splits if_splits)

lemma integer_decoders_only:
  "pb_dec_varint st field a w = (ok, st', w') \<Longrightarrow> only_in w w' a (unat (data_size field))"
  "pb_dec_uvarint st field a w = (ok, st', w') \<Longrightarrow> only_in w w' a (unat (data_size field))"
  "pb_dec_svarint st field a w = (ok, st', w') \<Longrightarrow> only_in w w' a (unat (data_size field))"
  by (auto simp: pb_dec_varint_def pb_dec_uvarint_def pb_dec_svarint_def Let_def finish_store_only
      split: prod.splits option.splits)

lemma scalar_decoders_only:
  "pb_dec_bool st a w = (ok, st', w') \<Longrightarrow> 1 \<le> n \<Longrightarrow> only_in w w' a n"
  "pb_dec_fixed32 st a w = (ok, st', w') \<Longrightarrow> 4 \<le> n \<Longrightarrow> only_in w w' a n"
  "pb_dec_fixed64 st a w = (ok, st', w') \<Longrightarrow> 8 \<le> n \<Longrightarrow> only_in w w' a n"
  by (auto simp: pb_dec_bool_def pb_dec_fixed32_def pb_dec_fixed64_def only_in_put
      split: prod.splits option.splits)

lemma fixed_length_only:
  assumes r: "pb_dec_fixed_length_bytes st field a w = (ok, st', w')"
    and b: "is_buf_read (isource st)"
  shows "only_in w w' a (unat (data_size field))"
proof -
  obtain v st1 where v: "pb_decode_varint32 st = (v, st1)" by (cases "pb_decode_varint32 st")
  have b1: "is_buf_read (isource st1)" by (rule varint32_kept [OF v b])
  from r v show ?thesis
    using read_into_only [where k = 0, OF _ b1, of a "ucast (data_size field)" w ok st' w']
    by (auto simp: pb_dec_fixed_length_bytes_def mem_zero_def only_in_put unat_ucast_u32_u64
        split: option.splits if_splits)
qed

lemma static_bytes_only:
  assumes r: "pb_dec_bytes env st field a w = (ok, st', w')" and b: "is_buf_read (isource st)"
    and s: "PB_ATYPE (ftype field) = PB_ATYPE_STATIC"
  shows "only_in w w' a (unat (data_size field))"
proof -
  obtain v st1 where v: "pb_decode_varint32 st = (v, st1)" by (cases "pb_decode_varint32 st")
  have b1: "is_buf_read (isource st1)" by (rule varint32_kept [OF v b])
  show ?thesis
  proof (cases v)
    case None
    with r v show ?thesis by (simp add: pb_dec_bytes_def)
  next
    case (Some sz)
    have al: "unat (PB_BYTES_ARRAY_T_ALLOCSIZE (ucast sz)) = unat sz + 4"
      using unat_u32_lt [of sz]
      by (simp add: PB_BYTES_ARRAY_T_ALLOCSIZE_def unat_plus_no_overflow_u64 unat_ucast_u32_u64)
    show ?thesis
    proof (cases "ucast (data_size field) < PB_BYTES_ARRAY_T_ALLOCSIZE (ucast sz)")
      case True
      with r v Some s show ?thesis by (auto simp: pb_dec_bytes_def Let_def split: if_splits)
    next
      case False
      then have room: "unat sz + 4 \<le> unat (data_size field)"
        by (simp add: word_less_nat_alt al unat_ucast_u32_u64)
      have "\<not> PB_BYTES_ARRAY_T_ALLOCSIZE (ucast sz) < ucast sz"
        by (simp add: word_less_nat_alt al unat_ucast_u32_u64)
      with r v Some s False have
        "read_into st1 (a + 4) (ucast sz) (put32 a sz w) = (ok, st', w')"
        by (simp add: pb_dec_bytes_def Let_def)
      from read_into_only [OF this b1, of "unat (data_size field)"] room
      have "only_in (put32 a sz w) w' a (unat (data_size field))"
        by (simp add: unat_ucast_u32_u64)
      moreover have "only_in w (put32 a sz w) a (unat (data_size field))"
        using room by (intro only_in_put) simp
      ultimately show ?thesis by (rule only_in_trans [rotated])
    qed
  qed
qed

(*BEGIN*)

lemma static_string_only:
  assumes r: "pb_dec_string env st field a w = (ok, st', w')" and b: "is_buf_read (isource st)"
    and s: "PB_ATYPE (ftype field) = PB_ATYPE_STATIC"
  shows "only_in w w' a (unat (data_size field))"
proof -
  obtain v st1 where v: "pb_decode_varint32 st = (v, st1)" by (cases "pb_decode_varint32 st")
  have b1: "is_buf_read (isource st1)" by (rule varint32_kept [OF v b])
  show ?thesis
  proof (cases v)
    case None
    with r v show ?thesis by (simp add: pb_dec_string_def)
  next
    case (Some sz)
    show ?thesis
    proof (cases "(ucast (sz + 1) :: u64) < ucast sz \<or> ucast (data_size field) < (ucast (sz + 1) :: u64)")
      case True
      with r v Some s show ?thesis by (auto simp: pb_dec_string_def Let_def split: if_splits)
    next
      case False
      then have nw: "unat sz \<le> unat (sz + 1)" and room: "unat (sz + 1) \<le> unat (data_size field)"
        by (simp_all add: word_less_nat_alt unat_ucast_u32_u64)
      have s1: "unat (sz + 1) = unat sz + 1"
      proof (cases "unat sz + 1 < 4294967296")
        case False
        then have "unat sz = 4294967295" using unat_u32_lt [of sz] by simp
        then have "unat (sz + 1) = 0" by (simp add: unat_word_ariths)
        with nw \<open>unat sz = 4294967295\<close> show ?thesis by simp
      qed (simp add: unat_word_ariths)
      obtain ok1 st2 w1 where ri: "read_into st1 a (ucast sz) w = (ok1, st2, w1)"
        by (cases "read_into st1 a (ucast sz) w")
      from r v Some s False ri have w': "w' = put8 (a + ucast sz) 0 w1"
        by (auto simp: pb_dec_string_def Let_def)
      have "only_in w w1 a (unat (data_size field))"
        using read_into_only [where k = 0 and a = a, OF _ b1, of "ucast sz" w ok1 st2 w1] ri room s1
        by (simp add: unat_ucast_u32_u64)
      moreover have "only_in w1 w' a (unat (data_size field))"
        unfolding w' put8_def wr8_def using room s1
        by (intro only_in_mem_write) (simp add: unat_ucast_u32_u64)
      ultimately show ?thesis by (rule only_in_trans)
    qed
  qed
qed

text \<open>
  Decoding a statically allocated scalar, string or bytes field from a memory buffer,
  whatever the buffer holds and whether it succeeds or not, changes no byte of memory outside
  the \<open>data_size\<close> bytes of the field.
\<close>

theorem static_field_in_bounds:
  assumes s: "PB_ATYPE (ftype field) = PB_ATYPE_STATIC"
    and lt: "PB_LTYPE (ftype field) \<noteq> PB_LTYPE_SUBMESSAGE"
    and sz: "fixed_width (PB_LTYPE (ftype field)) \<le> unat (data_size field)"
    and b: "is_buf_read (isource st)"
    and r: "pb_decoder env dec st field a w = Some (ok, st', w')"
    and x: "unat (data_size field) \<le> unat (x - a)"
  shows "wmem w' x = wmem w x"
proof -
  have "only_in w w' a (unat (data_size field))"
    using r lt s sz b
    by (auto simp: pb_decoder_def Let_def fixed_width_def integer_decoders_only scalar_decoders_only
        fixed_length_only static_bytes_only static_string_only split: if_splits)
  with x show ?thesis by (simp add: only_in_def)
qed

definition short_string_field :: pb_field where
  "short_string_field =
     \<lparr>ftag = 1, ftype = 0x07, data_offset = 0, size_offset = 0, data_size = 4, array_size = 0,
      fptr = 0\<rparr>"

theorem static_field_in_bounds_witness:
  "\<exists>st' w'. pb_decoder (plain_env (\<lambda>_. [])) (\<lambda>i st f d w. None)
        (pb_istream_from_buffer [3, 65, 66, 67] 4) short_string_field 0x1000 sevens
      = Some (True, st', w') \<and> wmem w' 0x1003 = 0 \<and> wmem w' 0x1004 = 7"
proof -
  let ?r = "pb_decoder (plain_env (\<lambda>_. [])) (\<lambda>i st f d w. None)
        (pb_istream_from_buffer [3, 65, 66, 67] 4) short_string_field 0x1000 sevens"
  have "map_option (\<lambda>r. (fst r, wmem (snd (snd r)) 0x1003)) ?r = Some (True, 0)" by code_simp
  then obtain st' w' where r: "?r = Some (True, st', w')" "wmem w' 0x1003 = 0" by auto
  have "wmem w' 0x1004 = wmem sevens 0x1004"
  proof (rule static_field_in_bounds [OF _ _ _ _ r(1)])
    show "PB_ATYPE (ftype short_string_field) = PB_ATYPE_STATIC"
      "PB_LTYPE (ftype short_string_field) \<noteq> PB_LTYPE_SUBMESSAGE"
      "fixed_width (PB_LTYPE (ftype short_string_field)) \<le> unat (data_size short_string_field)"
      by code_simp+
    show "is_buf_read (isource (pb_istream_from_buffer [3, 65, 66, 67] 4))"
      by (simp add: pb_istream_from_buffer_def)
    show "unat (data_size short_string_field) \<le> unat (0x1004 - 0x1000 :: addr)"
      by (simp add: short_string_field_def)
  qed
  with r show ?thesis by (auto simp: sevens_def)
qed

section \<open>Integer fields\<close>

lemma scast_ucast_back:
  "ucast (scast (x :: u8) :: u64) = x" "ucast (scast (y :: u16) :: u64) = y"
  "ucast (scast (z :: u32) :: u64) = z"
  by (rule bit_word_eqI; auto simp: bit_simps)+

lemma ucast_ucast_back:
  "ucast (ucast (x :: u8) :: u64) = x" "ucast (ucast (y :: u16) :: u64) = y"
  "ucast (ucast (z :: u32) :: u64) = z"
  by (rule bit_word_eqI; auto simp: bit_simps)+

lemma narrow_signed:
  "scast (ucast (scast (x :: u8) :: u64) :: u32) = (scast x :: u64)"
  "scast (ucast (scast (y :: u16) :: u64) :: u32) = (scast y :: u64)"
  by (rule bit_word_eqI; simp add: bit_simps; simp add: min_def)+

lemma rd_bytes:
  "le_bytes 2 (rd16 m a) = mem_read m a 2" "le_bytes 4 (rd32 m a) = mem_read m a 4"
  "le_bytes 8 (rd64 m a) = mem_read m a 8"
  using le_bytes_le_word [of "mem_read m a 2", where 'a = 16]
    le_bytes_le_word [of "mem_read m a 4", where 'a = 32]
    le_bytes_le_word [of "mem_read m a 8", where 'a = 64]
  by (simp_all add: rd16_def rd32_def rd64_def)

lemma mem_read_1: "mem_read m a 1 = [rd8 m a]"
  by (simp add: mem_read_def rd8_def)

lemma store_signed_load:
  assumes "load_signed m sz src = Some v"
  shows "\<exists>w'. store_signed sz dest v w = Some (v, w')
    \<and> mem_read (wmem w') dest (unat sz) = mem_read m src (unat sz)"
  using assms mem_read_write_same [of "[rd8 m src]" "wmem w" dest]
  by (auto simp: load_signed_def store_signed_def put8_def put32_def put64_def wr8_def wr16_def
      wr32_def wr64_def scast_ucast_back mem_simps rd_bytes mem_read_1 simp flip: One_nat_def
      split: if_splits)

lemma store_unsigned_load:
  assumes "load_unsigned m sz src = Some v"
  shows "\<exists>w'. store_unsigned sz dest v w = Some (v, w')
    \<and> mem_read (wmem w') dest (unat sz) = mem_read m src (unat sz)"
  using assms mem_read_write_same [of "[rd8 m src]" "wmem w" dest]
  by (auto simp: load_unsigned_def store_unsigned_def put8_def put32_def put64_def wr8_def wr16_def
      wr32_def wr64_def ucast_ucast_back mem_simps rd_bytes mem_read_1 simp flip: One_nat_def
      split: if_splits)

lemma load_signed_narrow:
  "load_signed m sz src = Some v \<Longrightarrow> sz \<noteq> 8 \<Longrightarrow> scast (ucast v :: u32) = v"
  by (auto simp: load_signed_def narrow_signed scast_ucast_back split: if_splits)


text \<open>The integer encoders write the code of one value, read from the field.\<close>

definition int_code :: "u8 \<Rightarrow> u64 \<Rightarrow> u64" where
  "int_code lt v = (if lt = PB_LTYPE_SVARINT then zigzag v else v)"

definition int_load :: "u8 \<Rightarrow> mem \<Rightarrow> u32 \<Rightarrow> addr \<Rightarrow> u64 option" where
  "int_load lt m sz p = (if lt = PB_LTYPE_UVARINT then load_unsigned m sz p else load_signed m sz p)"

definition int_ltype :: "u8 \<Rightarrow> bool" where
  "int_ltype lt \<longleftrightarrow> lt = PB_LTYPE_VARINT \<or> lt = PB_LTYPE_UVARINT \<or> lt = PB_LTYPE_SVARINT"

lemma int_encoder:
  assumes lt: "int_ltype (PB_LTYPE (ftype field))"
    and e: "pb_encoder m enc st field src = Some (True, st')"
  obtains v where "int_load (PB_LTYPE (ftype field)) m (data_size field) src = Some v"
    and "pb_encode_varint st (int_code (PB_LTYPE (ftype field)) v) = (True, st')"
  using lt e
  by (auto simp: int_ltype_def pb_encoder_def pb_enc_varint_def pb_enc_uvarint_def pb_enc_svarint_def
      pb_encode_svarint_def int_load_def int_code_def oerr_def split: option.splits)

lemma int_decoder:
  assumes lt: "int_ltype (PB_LTYPE (ftype field))"
    and d: "pb_decode_varint st = (Some (int_code (PB_LTYPE (ftype field)) v), st')"
    and l: "int_load (PB_LTYPE (ftype field)) m (data_size field) src = Some v"
  shows "\<exists>w'. pb_decoder env dec st field dest w = Some (True, st', w')
    \<and> mem_read (wmem w') dest (unat (data_size field)) = mem_read m src (unat (data_size field))"
proof -
  consider "PB_LTYPE (ftype field) = PB_LTYPE_VARINT" | "PB_LTYPE (ftype field) = PB_LTYPE_UVARINT"
    | "PB_LTYPE (ftype field) = PB_LTYPE_SVARINT"
    using lt by (auto simp: int_ltype_def)
  then show ?thesis
  proof cases
    case 1
    with d l store_signed_load [of m "data_size field" src v dest w] show ?thesis
      by (auto simp: pb_decoder_def pb_dec_varint_def int_code_def int_load_def finish_store_def
          Let_def load_signed_narrow)
  next
    case 2
    with d l store_unsigned_load [of m "data_size field" src v dest w] show ?thesis
      by (auto simp: pb_decoder_def pb_dec_uvarint_def int_code_def int_load_def finish_store_def)
  next
    case 3
    with d l store_signed_load [of m "data_size field" src v dest w] show ?thesis
      by (auto simp: pb_decoder_def pb_dec_svarint_def pb_decode_svarint_def int_code_def
          int_load_def finish_store_def unzigzag_zigzag)
  qed
qed

text \<open>
  An integer field of any width (one, two, four or eight bytes) and any of the three codes
  (\<open>VARINT\<close>, \<open>UVARINT\<close>, \<open>SVARINT\<close>) that an encoder has written to a buffer is decoded, by the
  decoder of the same descriptor, to the same bytes in memory, and uses up the buffer.
\<close>

theorem integer_field_roundtrip:
  assumes lt: "int_ltype (PB_LTYPE (ftype field))" and n: "unat n \<le> length buf"
    and e: "pb_encoder m enc (pb_ostream_from_buffer buf n) field src = Some (True, st)"
  shows "\<exists>st' w'. pb_decoder env dec (written_stream st :: 's pb_istream) field dest w = Some (True, st', w')
    \<and> bytes_left st' = 0
    \<and> mem_read (wmem w') dest (unat (data_size field)) = mem_read m src (unat (data_size field))"
proof -
  obtain v where v: "int_load (PB_LTYPE (ftype field)) m (data_size field) src = Some v"
    and c: "pb_encode_varint (pb_ostream_from_buffer buf n) (int_code (PB_LTYPE (ftype field)) v) = (True, st)"
    by (rule int_encoder [OF lt e])
  note w = written_stream_rest [OF n bufsink.emits_varint c, where 's = 's]
  obtain st' where
    d: "pb_decode_varint (written_stream st :: 's pb_istream) = (Some (int_code (PB_LTYPE (ftype field)) v), st')"
    and r: "bufsrc.reads (written_stream st) (length (varint_list (int_code (PB_LTYPE (ftype field)) v))) st'"
    using bufsrc.decode_varint_reads [OF w(1), of "int_code (PB_LTYPE (ftype field)) v" "[]"] w(2)
    by auto
  from int_decoder [OF lt d v] reads_all_left [OF w r] show ?thesis by blast
qed

definition int16_field :: pb_field where
  "int16_field =
     \<lparr>ftag = 1, ftype = 0x03, data_offset = 0, size_offset = 0, data_size = 2, array_size = 0,
      fptr = 0\<rparr>"

theorem integer_field_roundtrip_witness:
  "\<exists>st st' w'. pb_encoder (\<lambda>a. if a = 0x1000 then 0xFE else 0xFF) (\<lambda>st f p. None)
        (pb_ostream_from_buffer [0] 1) int16_field 0x1000 = Some (True, st)
    \<and> pb_decoder (plain_env (\<lambda>_. [])) (\<lambda>i st f d w. None) (written_stream st) int16_field 0x2000 sevens
        = Some (True, st', w')
    \<and> mem_read (wmem w') 0x2000 2 = [0xFE, 0xFF]"
proof -
  let ?m = "(\<lambda>a. if a = 0x1000 then 0xFE else 0xFF) :: mem"
  have "map_option fst (pb_encoder ?m (\<lambda>st f p. None) (pb_ostream_from_buffer [0] 1) int16_field 0x1000)
      = Some True" by code_simp
  then obtain st where
    e: "pb_encoder ?m (\<lambda>st f p. None) (pb_ostream_from_buffer [0] 1) int16_field 0x1000 = Some (True, st)"
    by auto
  have "int_ltype (PB_LTYPE (ftype int16_field))" by code_simp
  moreover have "unat (data_size int16_field) = 2" "mem_read ?m 0x1000 2 = [0xFE, 0xFF]"
    by (simp add: int16_field_def) code_simp
  ultimately show ?thesis
    using integer_field_roundtrip [OF _ _ e, of "plain_env (\<lambda>_. [])" "\<lambda>i st f d w. None" "0x2000" sevens] e
    by (metis One_nat_def length_Cons list.size(3) order_refl unat_1)
qed

end
