(* ===== verification/Pb_Decode_Safe.thy ===== *)
theory Pb_Decode_Safe
  imports Pb_Decode_Props
begin

text \<open>
  Whole messages under the decoder of nanopb: for a message type whose submessages do not recur,
  \<open>pb_decode\<close> returns on every input, and when the type has only static fields it writes nowhere
  but in the structure and in its own local counters.
\<close>

section \<open>Reading a memory buffer\<close>

text \<open>
  What every function of the decoder does to a stream on a memory buffer, whether it succeeds
  or not: it is still one, and has no more bytes left.
\<close>

definition reads_on :: "'s pb_istream \<Rightarrow> 's pb_istream \<Rightarrow> bool" where
  "reads_on st st' \<longleftrightarrow>
     (is_buf_read (isource st) \<longrightarrow> is_buf_read (isource st') \<and> unat (bytes_left st') \<le> unat (bytes_left st))"

named_theorems reads "reads_on for the functions that read"

lemma reads_on_refl [simp]: "reads_on st st"
  by (simp add: reads_on_def)

lemma reads_on_trans: "reads_on st st1 \<Longrightarrow> reads_on st1 st2 \<Longrightarrow> reads_on st st2"
  by (auto simp: reads_on_def)

lemma reads_on_ierr [simp]:
  "reads_on st (ierr st' msg) \<longleftrightarrow> reads_on st st'" "reads_on (ierr st msg) st' \<longleftrightarrow> reads_on st st'"
  "bytes_left (ierr st msg) = bytes_left st"
  by (simp_all add: reads_on_def ierr_def)

lemma reads_on_errmsg [simp]: "reads_on st (st'\<lparr>ierrmsg := m\<rparr>) \<longleftrightarrow> reads_on st st'"
  by (simp add: reads_on_def)

lemma left_minus: "n \<le> b \<Longrightarrow> unat (b - n) \<le> unat b" "\<not> b < n \<Longrightarrow> unat (b - n) \<le> unat b"
  "b \<noteq> 0 \<Longrightarrow> unat (b - 1) \<le> unat b" for n b :: u64
proof -
  show le: "n \<le> b \<Longrightarrow> unat (b - n) \<le> unat b" for n by (simp add: unat_sub)
  then show "\<not> b < n \<Longrightarrow> unat (b - n) \<le> unat b" by simp
  show "b \<noteq> 0 \<Longrightarrow> unat (b - 1) \<le> unat b" by (rule le) (simp add: word_le_nat_alt Suc_le_eq unat_gt_0)
qed

lemma reads_readbyte [reads]: "pb_readbyte st = (r, st') \<Longrightarrow> reads_on st st'"
  by (auto simp: pb_readbyte_def reads_on_def call_read_def left_minus
      split: if_splits prod.splits pb_isource.splits rd_result.splits)

lemma reads_direct: "pb_read_direct st n = (ok, bs, st') \<Longrightarrow> reads_on st st'"
  by (auto simp: pb_read_direct_def reads_on_def call_read_def left_minus
      split: if_splits prod.splits pb_isource.splits rd_result.splits)

lemma reads_read [reads]: "pb_read st nn n = (ok, bs, st') \<Longrightarrow> reads_on st st'"
  using reads_direct [of st n ok bs st'] by (auto simp: pb_read_def reads_on_def split: if_splits)

lemma reads_varint32_loop: "varint32_loop st b r = (x, st') \<Longrightarrow> reads_on st st'"
proof (induction st b r arbitrary: x st' rule: varint32_loop.induct)
  case (1 st b r)
  obtain ob st1 where rb: "pb_readbyte st = (ob, st1)" by (cases "pb_readbyte st")
  note k = reads_readbyte [OF rb]
  show ?case
  proof (cases ob)
    case None
    with "1.prems" rb k show ?thesis by (simp add: varint32_loop.simps [of st b r])
  next
    case (Some byte)
    with "1.prems" rb k "1.IH" [OF rb [symmetric] Some] show ?thesis
      by (auto simp: varint32_loop.simps [of st b r] split: option.splits if_splits intro: reads_on_trans)
  qed
qed

lemma reads_varint32_eof [reads]: "pb_decode_varint32_eof st = (r, eof, st') \<Longrightarrow> reads_on st st'"
  by (auto simp: pb_decode_varint32_eof_def split: prod.splits option.splits if_splits
      dest!: reads_readbyte reads_varint32_loop intro: reads_on_trans)

lemma reads_varint32 [reads]: "pb_decode_varint32 st = (r, st') \<Longrightarrow> reads_on st st'"
  by (auto simp: pb_decode_varint32_def split: prod.splits dest: reads)

lemma reads_varint_loop: "varint_loop st b r = (x, st') \<Longrightarrow> reads_on st st'"
proof (induction st b r arbitrary: x st' rule: varint_loop.induct)
  case (1 st b r)
  obtain ob st1 where rb: "pb_readbyte st = (ob, st1)" by (cases "pb_readbyte st")
  note k = reads_readbyte [OF rb]
  show ?case
  proof (cases "ob = None \<or> 64 \<le> b")
    case True
    with "1.prems" rb k show ?thesis by (auto simp: varint_loop.simps [of st b r] split: if_splits)
  next
    case False
    then obtain byte where "ob = Some byte" "\<not> 64 \<le> b" by auto
    with "1.prems" rb k "1.IH" [OF _ rb [symmetric], of byte] show ?thesis
      by (auto simp: varint_loop.simps [of st b r] Let_def split: if_splits intro: reads_on_trans)
  qed
qed

lemma reads_varint [reads]: "pb_decode_varint st = (r, st') \<Longrightarrow> reads_on st st'"
  by (auto simp: pb_decode_varint_def dest: reads_varint_loop)

lemma reads_svarint [reads]: "pb_decode_svarint st = (r, st') \<Longrightarrow> reads_on st st'"
  by (auto simp: pb_decode_svarint_def split: prod.splits dest: reads)

lemma reads_fixed [reads]:
  "pb_decode_fixed32 st = (r32, st') \<Longrightarrow> reads_on st st'"
  "pb_decode_fixed64 st = (r64, st') \<Longrightarrow> reads_on st st'"
  by (auto simp: pb_decode_fixed32_def pb_decode_fixed64_def split: prod.splits if_splits dest: reads)

lemma reads_tag [reads]: "pb_decode_tag st = (r, eof, st') \<Longrightarrow> reads_on st st'"
  by (auto simp: pb_decode_tag_def split: prod.splits option.splits if_splits dest: reads)

lemma reads_skip_varint: "pb_skip_varint st = (ok, st') \<Longrightarrow> reads_on st st'"
proof (induction st arbitrary: ok st' rule: pb_skip_varint.induct)
  case (1 st)
  obtain ok1 bs st1 where r: "pb_read st True 1 = (ok1, bs, st1)" by (cases "pb_read st True 1")
  note k = reads_read [OF r]
  show ?case using "1.prems" r k "1.IH" [OF r [symmetric] refl]
    by (auto simp: pb_skip_varint.simps [of st] split: if_splits intro: reads_on_trans)
qed

lemma reads_skip [reads]: "pb_skip_field st wt = (ok, st') \<Longrightarrow> reads_on st st'"
  by (auto simp: pb_skip_field_def pb_skip_string_def split: prod.splits option.splits if_splits
      dest!: reads_skip_varint reads intro: reads_on_trans)

lemma reads_raw_varint: "raw_varint st mx n buf = (ok, bs, st') \<Longrightarrow> reads_on st st'"
proof (induction st mx n buf arbitrary: ok bs st' rule: raw_varint.induct)
  case (1 st mx n buf)
  obtain ok1 bs1 st1 where r: "pb_read st True 1 = (ok1, bs1, st1)" by (cases "pb_read st True 1")
  note k = reads_read [OF r]
  show ?case using "1.prems" r k "1.IH" [OF _ r [symmetric] refl]
    by (auto simp: raw_varint.simps [of st mx n buf] split: if_splits intro: reads_on_trans)
qed

lemma reads_raw [reads]: "read_raw_value st wt mx = (ok, bs, st') \<Longrightarrow> reads_on st st'"
  by (auto simp: read_raw_value_def split: if_splits dest: reads_raw_varint reads)

lemma reads_make_substream:
  assumes "pb_make_string_substream st = (sub, st')"
  shows "reads_on st st' \<and> (\<forall>s. sub = Some s \<longrightarrow> reads_on st s)"
proof -
  obtain r st1 where v: "pb_decode_varint32 st = (r, st1)" by fastforce
  from reads_varint32 [OF v] assms v show ?thesis
    by (cases r) (auto simp: pb_make_string_substream_def reads_on_def unat_sub word_le_nat_alt
        word_less_nat_alt split: if_splits)
qed

lemma reads_close_substream:
  assumes "pb_close_string_substream st sub = (ok, st')" "reads_on s0 sub" "reads_on s0 st"
  shows "reads_on s0 st'"
  using assms
  by (auto simp: pb_close_string_substream_def reads_on_def split: prod.splits if_splits dest!: reads)

lemma reads_into [reads]: "read_into st p n w = (ok, st', w') \<Longrightarrow> reads_on st st'"
  by (auto simp: read_into_def split: prod.splits dest: reads)

text \<open>What cannot succeed without using up a byte.\<close>

lemma varint_progress:
  assumes "pb_decode_varint st = (Some v, st')" "is_buf_read (isource st)"
  shows "unat (bytes_left st') < unat (bytes_left st)"
proof -
  obtain ob st1 where rb: "pb_readbyte st = (ob, st1)" by (cases "pb_readbyte st")
  with assms(1) obtain b where b: "ob = Some b"
    by (cases ob) (simp_all add: pb_decode_varint_def varint_loop.simps [of st 0 0])
  have l: "unat (bytes_left st1) < unat (bytes_left st)" using pb_readbyte_left rb b by blast
  have "reads_on st1 st'" using assms(1) rb b
    by (auto simp: pb_decode_varint_def varint_loop.simps [of st 0 0] Let_def split: if_splits
        dest: reads_varint_loop)
  with l reads_readbyte [OF rb] assms(2) show ?thesis by (auto simp: reads_on_def)
qed

lemma varint32_eof_progress:
  assumes "pb_decode_varint32_eof st = (Some v, eof, st')" "is_buf_read (isource st)"
  shows "unat (bytes_left st') < unat (bytes_left st)"
proof -
  obtain ob st1 where rb: "pb_readbyte st = (ob, st1)" by (cases "pb_readbyte st")
  with assms(1) obtain b where b: "ob = Some b"
    by (cases ob) (simp_all add: pb_decode_varint32_eof_def)
  have l: "unat (bytes_left st1) < unat (bytes_left st)" using pb_readbyte_left rb b by blast
  have "reads_on st1 st'" using assms(1) rb b
    by (auto simp: pb_decode_varint32_eof_def split: if_splits option.splits prod.splits
        dest: reads_varint32_loop)
  with l reads_readbyte [OF rb] assms(2) show ?thesis by (auto simp: reads_on_def)
qed

lemma tag_progress:
  "pb_decode_tag st = (Some wt, eof, st') \<Longrightarrow> is_buf_read (isource st) \<Longrightarrow>
    unat (bytes_left st') < unat (bytes_left st)"
  by (auto simp: pb_decode_tag_def split: prod.splits option.splits if_splits dest: varint32_eof_progress)

lemma read_progress:
  assumes "pb_read st True n = (True, bs, st')" "0 < n"
  shows "unat (bytes_left st') < unat (bytes_left st)"
proof -
  from pb_read_True_left [OF assms(1)] have "n \<le> bytes_left st" "bytes_left st' = bytes_left st - n" by auto
  with assms(2) show ?thesis by (simp add: unat_sub word_le_nat_alt word_less_nat_alt)
qed

lemma fixed_progress:
  "pb_decode_fixed32 st = (Some v, st') \<Longrightarrow> unat (bytes_left st') < unat (bytes_left st)"
  "pb_decode_fixed64 st = (Some u, st') \<Longrightarrow> unat (bytes_left st') < unat (bytes_left st)"
  by (auto simp: pb_decode_fixed32_def pb_decode_fixed64_def split: prod.splits if_splits dest: read_progress)

section \<open>Regions of memory\<close>

definition span :: "addr \<Rightarrow> nat \<Rightarrow> addr set" where
  "span a n = {x. unat (x - a) < n}"

lemma span_mono: "m \<le> n \<Longrightarrow> span a m \<subseteq> span a n"
  by (auto simp: span_def)

lemma span_inside:
  assumes "unat k + m \<le> n" "n \<le> 18446744073709551616"
  shows "span (a + k) m \<subseteq> span a n"
proof
  fix x :: addr
  assume "x \<in> span (a + k) m"
  then have "unat k + unat (x - (a + k)) < n" using assms(1) by (simp add: span_def)
  moreover from this assms(2) have "unat (k + (x - (a + k))) = unat k + unat (x - (a + k))"
    by (intro unat_plus_no_overflow_u64) simp
  moreover have "k + (x - (a + k)) = x - a" by simp
  ultimately show "x \<in> span a n" by (simp add: span_def)
qed

text \<open>
  The world has changed in the region only. The theorems on termination alone are those with
  the flag \<open>free\<close>, under which any change is allowed.
\<close>

definition within :: "bool \<Rightarrow> addr set \<Rightarrow> 'h world \<Rightarrow> 'h world \<Rightarrow> bool" where
  "within free A w w' \<longleftrightarrow> free \<or> (\<forall>x. x \<notin> A \<longrightarrow> wmem w' x = wmem w x)"

lemma within_refl [simp]: "within b A w w"
  by (simp add: within_def)

lemma within_free [simp]: "within True A w w'"
  by (simp add: within_def)

lemma within_trans: "within b A w w1 \<Longrightarrow> within b A w1 w2 \<Longrightarrow> within b A w w2"
  by (auto simp: within_def)

lemma within_mono: "within b A w w' \<Longrightarrow> A \<subseteq> B \<Longrightarrow> within b B w w'"
  by (auto simp: within_def)

lemma within_only_in: "only_in w w' a n \<Longrightarrow> span a n \<subseteq> A \<Longrightarrow> within b A w w'"
  unfolding within_def only_in_def span_def by (metis (mono_tags) mem_Collect_eq not_less subsetD)

lemma within_put:
  "b \<or> span a 1 \<subseteq> A \<Longrightarrow> within b A w (put8 a v8 w)"
  "b \<or> span a 4 \<subseteq> A \<Longrightarrow> within b A w (put32 a v32 w)"
  "b \<or> span a 8 \<subseteq> A \<Longrightarrow> within b A w (put64 a v64 w)"
  "b \<or> span a (length bs) \<subseteq> A \<Longrightarrow> within b A w (put_bytes a bs w)"
  "b \<or> span a (unat n) \<subseteq> A \<Longrightarrow> within b A w (mem_zero a n w)"
  by (cases b; auto simp: mem_zero_def intro!: within_only_in only_in_put)+

text \<open>A call returns, reads on, and writes in the region.\<close>

definition returns :: "bool \<Rightarrow> addr set \<Rightarrow> 's pb_istream \<Rightarrow> 'h world \<Rightarrow> ('s, 'h) dec_result \<Rightarrow> bool" where
  "returns free A st w r \<longleftrightarrow> (\<exists>ok st' w'. r = Some (ok, st', w') \<and> reads_on st st' \<and> within free A w w')"

lemma returns_Some [simp]: "returns b A st w (Some (ok, st', w')) \<longleftrightarrow> reads_on st st' \<and> within b A w w'"
  by (simp add: returns_def)

lemma returns_trans: "returns b A st1 w1 r \<Longrightarrow> reads_on st st1 \<Longrightarrow> within b A w w1 \<Longrightarrow> returns b A st w r"
  unfolding returns_def by (blast intro: reads_on_trans within_trans)

lemma returns_mono: "returns b A st w r \<Longrightarrow> A \<subseteq> B \<Longrightarrow> returns b B st w r"
  unfolding returns_def by (blast intro: within_mono)

lemma returnsE:
  assumes "returns b A st w r"
  obtains ok st' w' where "r = Some (ok, st', w')" "reads_on st st'" "within b A w w'"
  using assms by (auto simp: returns_def)

section \<open>Fields\<close>

text \<open>The entries of \<open>PB_DECODERS\<close> that are not null.\<close>

definition valid_ltype :: "u8 \<Rightarrow> bool" where
  "valid_ltype lt \<longleftrightarrow> lt \<in> {PB_LTYPE_BOOL, PB_LTYPE_VARINT, PB_LTYPE_UVARINT, PB_LTYPE_SVARINT,
    PB_LTYPE_FIXED32, PB_LTYPE_FIXED64, PB_LTYPE_BYTES, PB_LTYPE_STRING, PB_LTYPE_SUBMESSAGE,
    PB_LTYPE_FIXED_LENGTH_BYTES}"

definition item_size :: "pb_field \<Rightarrow> nat" where
  "item_size f = max (fixed_width (PB_LTYPE (ftype f))) (unat (data_size f))"

text \<open>What the decoder of an item may write, when it is static.\<close>

lemma static_field_only:
  assumes "PB_ATYPE (ftype f) = PB_ATYPE_STATIC" "PB_LTYPE (ftype f) \<noteq> PB_LTYPE_SUBMESSAGE"
    and "is_buf_read (isource st)" "pb_decoder env dec st f a w = Some (ok, st', w')"
  shows "only_in w w' a (item_size f)"
proof -
  have mono: "only_in w w' a (unat (data_size f)) \<Longrightarrow> only_in w w' a (item_size f)"
    by (auto simp: only_in_def item_size_def)
  show ?thesis
    using assms
    by (auto simp: pb_decoder_def Let_def split: if_splits
        intro: mono integer_decoders_only fixed_length_only static_bytes_only static_string_only)
      (auto simp: item_size_def fixed_width_def intro: scalar_decoders_only)
qed

lemma reads_finish_store: "finish_store r v st w = (ok, st', w') \<Longrightarrow> reads_on st st'"
  by (auto simp: finish_store_def split: option.splits if_splits)

lemma reads_allocate: "allocate_field env st p m n w = (ok, st', w') \<Longrightarrow> reads_on st st'"
  by (auto simp: allocate_field_def split: option.splits if_splits prod.splits)

lemma scalar_decoder_returns:
  assumes "valid_ltype (PB_LTYPE (ftype f))" "PB_LTYPE (ftype f) \<noteq> PB_LTYPE_SUBMESSAGE"
  shows "\<exists>ok st' w'. pb_decoder env dec st f p w = Some (ok, st', w') \<and> reads_on st st'"
proof -
  obtain r where r: "pb_decoder env dec st f p w = Some r"
    using assms by (cases "pb_decoder env dec st f p w") (auto simp: pb_decoder_def valid_ltype_def Let_def split: if_splits)
  obtain ok st' w' where e: "r = (ok, st', w')" by (cases r)
  have "reads_on st st'"
    using r [unfolded e] assms
    by (auto simp: pb_decoder_def valid_ltype_def Let_def pb_dec_bool_def pb_dec_varint_def pb_dec_uvarint_def
        pb_dec_svarint_def pb_dec_fixed32_def pb_dec_fixed64_def pb_dec_bytes_def pb_dec_string_def
        pb_dec_fixed_length_bytes_def split: if_splits prod.splits option.splits
        dest!: reads reads_finish_store reads_allocate intro: reads_on_trans)
  with r e show ?thesis by blast
qed

lemma decoder_returns:
  assumes v: "valid_ltype (PB_LTYPE (ftype f))" and s: "b \<or> PB_ATYPE (ftype f) = PB_ATYPE_STATIC"
    and buf: "is_buf_read (isource st)"
    and sub: "\<And>st w i. PB_LTYPE (ftype f) = PB_LTYPE_SUBMESSAGE \<Longrightarrow> is_buf_read (isource st) \<Longrightarrow>
      returns b A st w (dec i st (fptr f) p w)"
    and a: "b \<or> span p (item_size f) \<subseteq> A"
  shows "returns b A st w (pb_decoder env dec st f p w)"
proof (cases "PB_LTYPE (ftype f) = PB_LTYPE_SUBMESSAGE")
  case False
  from scalar_decoder_returns [OF v this] obtain ok st' w' where
    r: "pb_decoder env dec st f p w = Some (ok, st', w')" "reads_on st st'" by blast
  have "within b A w w'"
    using s a static_field_only [OF _ False buf r(1)] by (cases b) (auto intro: within_only_in)
  with r show ?thesis by simp
next
  case True
  obtain so st1 where m: "pb_make_string_substream st = (so, st1)" by fastforce
  note rd = reads_make_substream [OF m]
  have d: "pb_decoder env dec st f p w = pb_dec_submessage dec st f p w"
    using True by (simp add: pb_decoder_def)
  show ?thesis
  proof (cases so)
    case None
    then show ?thesis unfolding d using m rd by (simp add: pb_dec_submessage_def)
  next
    case (Some s)
    then have "is_buf_read (isource s)" using rd buf by (simp add: reads_on_def)
    from sub [OF True this, of w "PB_HTYPE (ftype f) = PB_HTYPE_REPEATED"] obtain ok s' w' where
      r: "dec (PB_HTYPE (ftype f) = PB_HTYPE_REPEATED) s (fptr f) p w = Some (ok, s', w')"
      "reads_on s s'" "within b A w w'" by (rule returnsE)
    obtain ok2 st2 where c: "pb_close_string_substream st1 s' = (ok2, st2)" by fastforce
    have "reads_on st st2"
      using reads_close_substream [OF c, of st] rd Some r(2) by (auto intro: reads_on_trans)
    then show ?thesis unfolding d using m rd Some r c by (simp add: pb_dec_submessage_def)
  qed
qed

text \<open>A packable item uses up a byte.\<close>

lemma decoder_progress:
  assumes "valid_ltype (PB_LTYPE (ftype f))" "PB_LTYPE (ftype f) \<le> PB_LTYPE_LAST_PACKABLE"
    and "is_buf_read (isource st)" "pb_decoder env dec st f p w = Some (True, st', w')"
  shows "unat (bytes_left st') < unat (bytes_left st)"
  using assms
  by (auto simp: pb_decoder_def valid_ltype_def Let_def pb_dec_bool_def pb_dec_varint_def pb_dec_uvarint_def
      pb_dec_svarint_def pb_dec_fixed32_def pb_dec_fixed64_def pb_decode_svarint_def pb_decode_varint32_def
      finish_store_def split: if_splits prod.splits option.splits
      dest: varint_progress varint32_eof_progress fixed_progress)

section \<open>Message types\<close>

text \<open>
  The entry \<open>f\<close>, whose data and size are at the offsets \<open>d\<close> and \<open>s\<close>, is static and inside a
  structure of \<open>sz\<close> bytes.
\<close>

definition field_inside :: "pb_field \<Rightarrow> addr \<Rightarrow> addr \<Rightarrow> nat \<Rightarrow> bool" where
  "field_inside f d s sz \<longleftrightarrow>
     PB_ATYPE (ftype f) = PB_ATYPE_STATIC
     \<and> (if PB_HTYPE (ftype f) = PB_HTYPE_REPEATED
        then fixed_width (PB_LTYPE (ftype f)) \<le> unat (data_size f)
          \<and> uint (data_size f) * uint (array_size f) < 4294967296
          \<and> unat d + unat (data_size f) * unat (array_size f) \<le> sz \<and> unat s + 4 \<le> sz
        else unat d + item_size f \<le> sz
          \<and> (PB_HTYPE (ftype f) = PB_HTYPE_OPTIONAL \<longrightarrow> s = d \<or> unat s + 1 \<le> sz)
          \<and> (PB_HTYPE (ftype f) = PB_HTYPE_ONEOF \<longrightarrow> unat s + 4 \<le> sz))"

definition sub_type :: "pb_field \<Rightarrow> bool" where
  "sub_type f \<longleftrightarrow> PB_LTYPE (ftype f) = PB_LTYPE_SUBMESSAGE \<and> PB_ATYPE (ftype f) \<noteq> PB_ATYPE_CALLBACK"

text \<open>The positions an iterator can have: the terminator only counts in an empty array.\<close>

definition positions :: "pb_field list \<Rightarrow> nat" where
  "positions fs = max 1 (nfields fs)"

text \<open>
  A type of messages with submessages of at most \<open>k\<close> levels: every entry has a decoder. When \<open>free\<close>
  does not hold, every entry is static and inside its structure of \<open>sz\<close> bytes.
\<close>

fun msg_type :: "bool \<Rightarrow> (addr \<Rightarrow> pb_field list) \<Rightarrow> nat \<Rightarrow> addr \<Rightarrow> nat \<Rightarrow> bool" where
  "msg_type free fa 0 fds sz = False"
| "msg_type free fa (Suc k) fds sz =
     (let fs = fa fds in
      wf_fields fs \<and> (free \<or> int sz < 9223372036854775808)
      \<and> (\<forall>i \<in> set [0..<positions fs].
           let f = field_nth fs i in
           valid_ltype (PB_LTYPE (ftype f))
           \<and> (sub_type f \<longrightarrow> msg_type free fa k (fptr f) (unat (data_size f)))
           \<and> (free \<or> field_inside f (pData (iter_at fs 0 i)) (pSize (iter_at fs 0 i)) sz)))"

lemma msg_typeD:
  assumes "msg_type b fa (Suc k) fds sz"
  shows "wf_fields (fa fds)" "b \<or> sz < 9223372036854775808"
    "i < positions (fa fds) \<Longrightarrow> valid_ltype (PB_LTYPE (ftype (field_nth (fa fds) i)))"
    "i < positions (fa fds) \<Longrightarrow> sub_type (field_nth (fa fds) i) \<Longrightarrow>
      msg_type b fa k (fptr (field_nth (fa fds) i)) (unat (data_size (field_nth (fa fds) i)))"
    "i < positions (fa fds) \<Longrightarrow> b \<or> field_inside (field_nth (fa fds) i)
      (pData (iter_at (fa fds) 0 i)) (pSize (iter_at (fa fds) 0 i)) sz"
  using assms by (auto simp: Let_def)

lemma iter_at_offset:
  "pData (iter_at fs d i) = d + pData (iter_at fs 0 i) \<and> pSize (iter_at fs d i) = d + pSize (iter_at fs 0 i)
    \<and> ipos (iter_at fs d i) = ipos (iter_at fs 0 i)"
  by (induction i) (auto simp: pb_field_iter_begin_def pb_field_iter_next_def iter_field_def Let_def)

lemma iter_at_position:
  assumes "wf_fields fs" "i < positions fs"
  shows "ipos (iter_at fs d i) = i" "iter_field (iter_at fs d i) = field_nth fs i"
proof -
  show "ipos (iter_at fs d i) = i"
    using assms iter_at_pos by (cases "nfields fs = 0") (auto simp: positions_def)
  then show "iter_field (iter_at fs d i) = field_nth fs i" by (simp add: iter_field_def)
qed

lemma uint_product: "uint (a :: u32) * uint (b :: u32) < 4294967296 \<longleftrightarrow> unat a * unat b < 4294967296"
proof -
  have "uint a * uint b = int (unat a * unat b)" by simp
  then show ?thesis by linarith
qed

text \<open>Where an entry is in a structure at \<open>dest\<close>.\<close>

lemma inside_data:
  assumes "field_inside f d s sz" "PB_HTYPE (ftype f) \<noteq> PB_HTYPE_REPEATED" "sz < 9223372036854775808"
  shows "span (dest + d) (item_size f) \<subseteq> span dest sz" "span (dest + d) (unat (data_size f)) \<subseteq> span dest sz"
proof -
  show i: "span (dest + d) (item_size f) \<subseteq> span dest sz"
    using assms by (intro span_inside) (auto simp: field_inside_def)
  then show "span (dest + d) (unat (data_size f)) \<subseteq> span dest sz"
    using span_mono [of "unat (data_size f)" "item_size f" "dest + d"] by (simp add: item_size_def)
qed

lemma inside_size:
  assumes "field_inside f d s sz" "sz < 9223372036854775808"
  shows "PB_HTYPE (ftype f) = PB_HTYPE_REPEATED \<or> PB_HTYPE (ftype f) = PB_HTYPE_ONEOF \<Longrightarrow>
      span (dest + s) 4 \<subseteq> span dest sz"
    "PB_HTYPE (ftype f) = PB_HTYPE_OPTIONAL \<Longrightarrow> s \<noteq> d \<Longrightarrow> span (dest + s) 1 \<subseteq> span dest sz"
proof -
  have i: "unat s + n \<le> sz \<Longrightarrow> span (dest + s) n \<subseteq> span dest sz" for n
    using assms(2) by (intro span_inside) simp_all
  show "PB_HTYPE (ftype f) = PB_HTYPE_REPEATED \<or> PB_HTYPE (ftype f) = PB_HTYPE_ONEOF \<Longrightarrow>
      span (dest + s) 4 \<subseteq> span dest sz"
    using assms(1) by (intro i) (auto simp: field_inside_def split: if_splits)
  show "PB_HTYPE (ftype f) = PB_HTYPE_OPTIONAL \<Longrightarrow> s \<noteq> d \<Longrightarrow> span (dest + s) 1 \<subseteq> span dest sz"
    using assms(1) by (intro i) (auto simp: field_inside_def split: if_splits)
qed

lemma inside_item:
  assumes "field_inside f d s sz" "PB_HTYPE (ftype f) = PB_HTYPE_REPEATED" "sz < 9223372036854775808"
    and "c < array_size f"
  shows "span (item_addr (dest + d) f c) (item_size f) \<subseteq> span dest sz"
proof -
  let ?n = "unat (data_size f)"
  have i: "item_size f = ?n" "unat d + ?n * unat (array_size f) \<le> sz" "?n * unat (array_size f) < 4294967296"
    using assms(1,2) by (auto simp: field_inside_def item_size_def uint_product)
  have "?n * Suc (unat c) \<le> ?n * unat (array_size f)"
    using assms(4) by (intro mult_le_mono2) (simp add: word_less_nat_alt Suc_le_eq)
  then have le: "?n * unat c + ?n \<le> ?n * unat (array_size f)" by simp
  have "unat (data_size f * c) = ?n * unat c"
    using le i(3) by (simp add: unat_mult_lem [THEN iffD1])
  then have u: "unat (ucast (data_size f * c) :: u64) = ?n * unat c" by (simp add: unat_ucast_u32_u64)
  have "unat (d + ucast (data_size f * c)) = unat d + ?n * unat c"
    using i(2) le assms(3) by (subst unat_plus_no_overflow_u64) (simp_all add: u)
  then have "span (dest + (d + ucast (data_size f * c))) ?n \<subseteq> span dest sz"
    using i(2) le assms(3) by (intro span_inside) simp_all
  then show ?thesis by (simp add: item_addr_def i(1) add.assoc)
qed

section \<open>Iterators\<close>

text \<open>
  The iterators of the message loop: at one of the positions, and for an array of a fixed count
  the size may be the counter \<open>slot\<close>.
\<close>

definition good_iter :: "pb_field list \<Rightarrow> addr \<Rightarrow> addr \<Rightarrow> pb_field_iter \<Rightarrow> bool" where
  "good_iter fs dest slot it \<longleftrightarrow> (\<exists>i < positions fs. it = iter_at fs dest i
     \<or> PB_HTYPE (ftype (field_nth fs i)) = PB_HTYPE_REPEATED \<and> it = (iter_at fs dest i)\<lparr>pSize := slot\<rparr>)"

lemma good_iterE:
  assumes "good_iter fs dest slot it" "wf_fields fs"
  obtains i where "i < positions fs" "istart it = fs" "ipos it = i" "iter_field it = field_nth fs i"
    "pData it = dest + pData (iter_at fs 0 i)"
    "pSize it = dest + pSize (iter_at fs 0 i) \<or> PB_HTYPE (ftype (field_nth fs i)) = PB_HTYPE_REPEATED \<and> pSize it = slot"
proof -
  obtain i where i: "i < positions fs" "it = iter_at fs dest i \<or> PB_HTYPE (ftype (field_nth fs i)) = PB_HTYPE_REPEATED
      \<and> it = (iter_at fs dest i)\<lparr>pSize := slot\<rparr>"
    using assms(1) by (auto simp: good_iter_def)
  then show thesis
    using iter_at_position [OF assms(2) i(1), of dest] iter_at_offset [of fs dest i] that [of i]
    by (auto simp: iter_field_def)
qed

lemma good_iter_at: "i < positions fs \<Longrightarrow> good_iter fs dest slot (iter_at fs dest i)"
  by (auto simp: good_iter_def)

lemma iter_next_ignores_size:
  "PB_HTYPE (ftype (iter_field it)) = PB_HTYPE_REPEATED \<Longrightarrow> ftag (iter_field it) \<noteq> 0 \<Longrightarrow>
    pb_field_iter_next (it\<lparr>pSize := p\<rparr>) = pb_field_iter_next it"
  by (simp add: pb_field_iter_next_def iter_field_def Let_def)

lemma find_good_at:
  assumes wf: "wf_fields fs" and i: "i < positions fs"
  shows "\<exists>found it'. pb_field_iter_find (iter_at fs d i) tag = Some (found, it') \<and> good_iter fs d slot it'"
proof (cases "nfields fs = 0")
  case False
  then have "i < nfields fs" using i by (simp add: positions_def)
  from pb_field_iter_find_at [OF wf this, of tag d] show ?thesis
    using False i by (auto simp: positions_def intro!: good_iter_at)
next
  case True
  then have i0: "i = 0" using i by (simp add: positions_def)
  let ?it = "iter_at fs d 0"
  have t: "ftag (iter_field ?it) = 0" "ipos ?it = 0"
    using True wf_fields_tag [OF wf, of 0] iter_at_position [OF wf, of 0 d] by (simp_all add: positions_def)
  then have "pb_field_iter_next ?it = (False, ?it)" by (simp add: pb_field_iter_next_def)
  then have "\<exists>found. pb_field_iter_find ?it tag = Some (found, ?it)"
    using t unfolding pb_field_iter_find_def iter_find_loop.simps [of "ipos ?it" tag ?it] Let_def
    by (auto simp del: iter_at.simps)
  then show ?thesis using good_iter_at [of 0 fs d slot] i0 by (auto simp: positions_def simp del: iter_at.simps)
qed

lemma find_good:
  assumes wf: "wf_fields fs" and g: "good_iter fs d slot it"
  shows "\<exists>found it'. pb_field_iter_find it tag = Some (found, it') \<and> good_iter fs d slot it'"
proof -
  from g obtain i where i: "i < positions fs" and e: "it = iter_at fs d i
      \<or> PB_HTYPE (ftype (field_nth fs i)) = PB_HTYPE_REPEATED \<and> it = (iter_at fs d i)\<lparr>pSize := slot\<rparr>"
    by (auto simp: good_iter_def)
  let ?it = "iter_at fs d i"
  note p = iter_at_position [OF wf i, of d]
  from e show ?thesis
  proof
    assume "it = ?it"
    then show ?thesis using find_good_at [OF wf i] by simp
  next
    assume h: "PB_HTYPE (ftype (field_nth fs i)) = PB_HTYPE_REPEATED \<and> it = ?it\<lparr>pSize := slot\<rparr>"
    then have f: "iter_field it = iter_field ?it" "ipos it = ipos ?it" by (simp_all add: iter_field_def)
    show ?thesis
    proof (cases "ftag (iter_field it) = tag \<and> PB_LTYPE (ftype (iter_field it)) \<noteq> PB_LTYPE_EXTENSION")
      case True
      then have "pb_field_iter_find it tag = Some (True, it)"
        by (simp add: pb_field_iter_find_def iter_find_loop.simps [of _ tag it])
      then show ?thesis using g by blast
    next
      case False
      have "pb_field_iter_find it tag = pb_field_iter_find ?it tag \<or> ftag (iter_field ?it) = 0"
        using False f h p iter_next_ignores_size [of ?it slot]
        unfolding pb_field_iter_find_def iter_find_loop.simps [of _ tag it] iter_find_loop.simps [of _ tag ?it]
        by (auto simp: Let_def)
      moreover have "pb_field_iter_find it tag = Some (False, it)" if "ftag (iter_field ?it) = 0"
        using that f False by (simp add: pb_field_iter_find_def iter_find_loop.simps [of _ tag it] pb_field_iter_next_def Let_def)
      ultimately show ?thesis using find_good_at [OF wf i] g by auto
    qed
  qed
qed

text \<open>There is no entry of extensions.\<close>

lemma no_extension: "valid_ltype lt \<Longrightarrow> lt \<noteq> PB_LTYPE_EXTENSION"
  by (auto simp: valid_ltype_def)

lemma find_extension_at:
  assumes wf: "wf_fields fs" and s: "s < nfields fs"
    and v: "\<And>i. i < positions fs \<Longrightarrow> valid_ltype (PB_LTYPE (ftype (field_nth fs i)))"
    and k: "k < nfields fs"
  shows "find_extension_loop s (iter_at fs d ((s + k) mod nfields fs)) = Some (False, iter_at fs d s)"
  using k
proof (induction "nfields fs - k" arbitrary: k)
  case 0
  then show ?case by simp
next
  case (Suc m)
  let ?n = "nfields fs" and ?p = "(s + k) mod nfields fs"
  let ?q = "(s + Suc k) mod nfields fs"
  have p: "?p < ?n" "?q < ?n" using s by simp_all
  have "Suc ?p mod ?n = ?q" by (simp add: mod_Suc_eq)
  then have nxt: "snd (pb_field_iter_next (iter_at fs d ?p)) = iter_at fs d ?q"
    using iter_next_at [OF wf p(1)] by simp
  have "PB_LTYPE (ftype (iter_field (iter_at fs d ?p))) \<noteq> PB_LTYPE_EXTENSION"
    using v [of ?p] p(1) iter_at_field [OF wf p(1)] no_extension by (simp add: positions_def)
  then have unf: "find_extension_loop s (iter_at fs d ?p) =
      (if ?q \<noteq> s then find_extension_loop s (iter_at fs d ?q) else Some (False, iter_at fs d ?q))"
    unfolding find_extension_loop.simps [of s "iter_at fs d ?p"] nxt Let_def iter_at_pos [OF wf p(2)]
    by (simp only: if_False)
  show ?case
  proof (cases "Suc k = ?n")
    case True
    then have "?q = s" using s by simp
    with unf show ?thesis by simp
  next
    case False
    then have k': "Suc k < ?n" using Suc.prems by simp
    have "?q \<noteq> s"
    proof (cases "s + Suc k < ?n")
      case True
      then show ?thesis by simp
    next
      case False
      with s k' have "?q = s + Suc k - ?n" by (simp add: mod_if)
      with False s k' show ?thesis by simp
    qed
    moreover have "m = ?n - Suc k" using Suc.hyps(2) by simp
    ultimately show ?thesis using Suc.hyps(1) [OF _ k'] unf by simp
  qed
qed

section \<open>Defaults\<close>

definition changes :: "bool \<Rightarrow> addr set \<Rightarrow> 'h world \<Rightarrow> 'h world option \<Rightarrow> bool" where
  "changes free A w r \<longleftrightarrow> (\<exists>w'. r = Some w' \<and> within free A w w')"

lemma changes_Some [simp]: "changes b A w (Some w') \<longleftrightarrow> within b A w w'"
  by (simp add: changes_def)

lemma changes_trans: "changes b A w1 r \<Longrightarrow> within b A w w1 \<Longrightarrow> changes b A w r"
  unfolding changes_def by (blast intro: within_trans)

lemma changes_mono: "changes b A w r \<Longrightarrow> A \<subseteq> B \<Longrightarrow> changes b B w r"
  unfolding changes_def by (blast intro: within_mono)

lemma changesE:
  assumes "changes b A w r"
  obtains w' where "r = Some w'" "within b A w w'"
  using assms by (auto simp: changes_def)

lemma iter_fold_changes:
  assumes wf: "wf_fields fs"
    and f: "\<And>i w. i < positions fs \<Longrightarrow> changes b A w (f (iter_at fs d i) w)"
  shows "i < positions fs \<Longrightarrow> changes b A w (iter_fold f (iter_at fs d i) w)"
proof (induction "positions fs - i" arbitrary: i w)
  case 0
  then show ?case by simp
next
  case (Suc m)
  from f [OF Suc.prems] obtain w1 where w1: "f (iter_at fs d i) w = Some w1" "within b A w w1"
    by (rule changesE)
  show ?case
  proof (cases "Suc i < nfields fs")
    case True
    then have "pb_field_iter_next (iter_at fs d i) = (True, iter_at fs d (Suc i))"
      by (rule iter_next_advances [OF wf])
    moreover have "changes b A w1 (iter_fold f (iter_at fs d (Suc i)) w1)"
      using Suc.hyps(2) True by (intro Suc.hyps(1)) (auto simp: positions_def)
    ultimately show ?thesis using w1
      by (simp add: iter_fold.simps [of f "iter_at fs d i"] changes_trans del: iter_at.simps)
  next
    case False
    have "\<not> fst (pb_field_iter_next (iter_at fs d i))"
      using False iter_at_position [OF wf Suc.prems] wf_fields_tag [OF wf] by (simp add: iter_next_True)
    then have "iter_fold f (iter_at fs d i) w = Some w1"
      using w1(1) by (cases "pb_field_iter_next (iter_at fs d i)")
        (simp add: iter_fold.simps [of f "iter_at fs d i"] del: iter_at.simps)
    then show ?thesis using w1(2) by simp
  qed
qed

text \<open>The entry and the place of an iterator, in the region \<open>A\<close>.\<close>

definition field_in :: "bool \<Rightarrow> addr set \<Rightarrow> pb_field \<Rightarrow> addr \<Rightarrow> addr \<Rightarrow> bool" where
  "field_in free A f d s \<longleftrightarrow> valid_ltype (PB_LTYPE (ftype f))
     \<and> (free \<or> PB_ATYPE (ftype f) = PB_ATYPE_STATIC
         \<and> (if PB_HTYPE (ftype f) = PB_HTYPE_REPEATED
            then \<forall>c < array_size f. span (item_addr d f c) (item_size f) \<subseteq> A
            else span d (item_size f) \<subseteq> A \<and> span d (unat (data_size f)) \<subseteq> A)
         \<and> (PB_HTYPE (ftype f) = PB_HTYPE_REPEATED \<or> PB_HTYPE (ftype f) = PB_HTYPE_ONEOF \<longrightarrow> span s 4 \<subseteq> A)
         \<and> (PB_HTYPE (ftype f) = PB_HTYPE_OPTIONAL \<longrightarrow> s \<noteq> d \<longrightarrow> span s 1 \<subseteq> A))"

lemma field_in_mono: "field_in b A f d s \<Longrightarrow> b \<or> A \<subseteq> B \<Longrightarrow> field_in b B f d s"
  by (cases b) (auto simp: field_in_def split: if_splits)

lemma field_in_counter:
  "field_in b A f d s \<Longrightarrow> PB_HTYPE (ftype f) = PB_HTYPE_REPEATED \<Longrightarrow> b \<or> span slot 4 \<subseteq> A \<Longrightarrow> field_in b A f d slot"
  by (cases b) (simp_all add: field_in_def)

lemma msg_type_field_in:
  assumes "msg_type b fa (Suc k) fds sz" "i < positions (fa fds)"
  shows "field_in b (span dest sz) (field_nth (fa fds) i) (dest + pData (iter_at (fa fds) 0 i))
    (dest + pSize (iter_at (fa fds) 0 i))"
proof -
  note t = msg_typeD [OF assms(1)]
  let ?f = "field_nth (fa fds) i" and ?it = "iter_at (fa fds) 0 i"
  have v: "valid_ltype (PB_LTYPE (ftype ?f))" using t(3) assms(2) by blast
  show ?thesis
  proof (cases b)
    case True
    with v show ?thesis by (simp add: field_in_def)
  next
    case False
    then have i: "field_inside ?f (pData ?it) (pSize ?it) sz" and sz: "sz < 9223372036854775808"
      using t(2) t(5) [OF assms(2)] by simp_all
    have "PB_ATYPE (ftype ?f) = PB_ATYPE_STATIC" using i by (simp add: field_inside_def)
    then show ?thesis
      using v inside_data [OF i _ sz, of dest] inside_item [OF i _ sz, of _ dest] inside_size [OF i sz, of dest]
      by (auto simp: field_in_def)
  qed
qed

lemma default_field:
  assumes f: "field_in b A (iter_field it) (pData it) (pSize it)"
    and msg: "sub_type (iter_field it) \<Longrightarrow> PB_HTYPE (ftype (iter_field it)) \<noteq> PB_HTYPE_REPEATED \<Longrightarrow>
      (\<And>w. changes b A w (msg (fptr (iter_field it)) (pData it) w))"
  shows "changes b A w (set_default_body env n rec msg it w)"
proof -
  let ?f = "iter_field it"
  have v: "PB_LTYPE (ftype ?f) \<noteq> PB_LTYPE_EXTENSION" using f by (auto simp: field_in_def no_extension)
  consider (stat) "PB_ATYPE (ftype ?f) = PB_ATYPE_STATIC" | (ptr) "PB_ATYPE (ftype ?f) = PB_ATYPE_POINTER"
    | (neither) "PB_ATYPE (ftype ?f) \<noteq> PB_ATYPE_STATIC" "PB_ATYPE (ftype ?f) \<noteq> PB_ATYPE_POINTER" by blast
  then show ?thesis
  proof cases
    case stat
    define counted where "counted = (PB_HTYPE (ftype ?f) = PB_HTYPE_REPEATED \<or> PB_HTYPE (ftype ?f) = PB_HTYPE_ONEOF)"
    define flagged where "flagged = (PB_HTYPE (ftype ?f) = PB_HTYPE_OPTIONAL \<and> pSize it \<noteq> pData it)"
    define w1 where "w1 = (if flagged then put8 (pSize it) 0 w else if counted then put32 (pSize it) 0 w else w)"
    have w1: "within b A w w1"
      using f by (auto simp: w1_def field_in_def flagged_def counted_def intro!: within_put)
    have d: "changes b A w1 (Some (put_bytes (pData it) (mem_read (wmem w1) (fptr ?f) (unat (data_size ?f))) w1))"
      "changes b A w1 (Some (mem_zero (pData it) (data_size ?f) w1))" if "\<not> counted"
      using f that by (auto simp: field_in_def counted_def intro!: within_put)
    have m: "changes b A w1 (msg (fptr ?f) (pData it) w1)"
      if "\<not> counted" "PB_LTYPE (ftype ?f) = PB_LTYPE_SUBMESSAGE"
      using that stat by (intro msg) (simp_all add: sub_type_def counted_def)
    have "set_default_body env n rec msg it w = (if \<not> flagged \<and> counted then Some w1
       else if PB_LTYPE (ftype ?f) = PB_LTYPE_SUBMESSAGE then msg (fptr ?f) (pData it) w1
       else if fptr ?f \<noteq> 0 then Some (put_bytes (pData it) (mem_read (wmem w1) (fptr ?f) (unat (data_size ?f))) w1)
       else Some (mem_zero (pData it) (data_size ?f) w1))"
      using v stat unfolding set_default_body_def Let_def counted_def [symmetric] flagged_def [symmetric]
        w1_def [symmetric] by simp
    moreover have "counted \<Longrightarrow> \<not> flagged" by (auto simp: counted_def flagged_def)
    moreover have "changes b A w1 r \<Longrightarrow> changes b A w r" for r by (rule changes_trans [OF _ w1])
    ultimately show ?thesis using w1 m d by (cases counted) (auto simp del: changes_Some, simp)
  next
    case ptr
    then have b using f by (auto simp: field_in_def)
    then show ?thesis using v ptr by (simp add: set_default_body_def Let_def)
  next
    case neither
    then show ?thesis using v by (simp add: set_default_body_def Let_def)
  qed
qed

lemma recursive_calls:
  "pb_field_set_to_default env (Suc m) it w = set_default_body env m (pb_field_set_to_default env m)
    (pb_message_set_to_defaults env m) it w"
  "pb_release_single_field env (Suc m) it w = release_body env m (pb_release_single_field env m)
    (pb_release env m) it w"
  by (simp_all add: pb_message_set_to_defaults_def [abs_def] pb_release_def [abs_def])

lemma sub_span:
  assumes "field_in b A f d s" "sub_type f" "PB_HTYPE (ftype f) \<noteq> PB_HTYPE_REPEATED"
  shows "b \<or> span d (unat (data_size f)) \<subseteq> A"
  using assms by (auto simp: field_in_def)

lemma changes_sub:
  assumes "changes b (span d n) w r" "b \<or> span d n \<subseteq> A"
  shows "changes b A w r"
  using assms by (cases b) (auto simp: changes_def within_def)

lemma defaults_changes:
  assumes "msg_type b (dfields_at env) k fds sz" "k \<le> n"
  shows "changes b (span dest sz) w (pb_message_set_to_defaults env n fds dest w)"
  using assms
proof (induction k arbitrary: n fds sz dest w)
  case 0
  then show ?case by simp
next
  case (Suc k)
  then obtain m where m: "n = Suc m" "k \<le> m" by (cases n) auto
  let ?fs = "dfields_at env fds"
  note t = msg_typeD [OF Suc.prems(1)]
  have "changes b (span dest sz) w (pb_field_set_to_default env n (iter_at ?fs dest i) w)"
    if i: "i < positions ?fs" for i w
  proof -
    let ?it = "iter_at ?fs dest i"
    have it: "iter_field ?it = field_nth ?fs i" "pData ?it = dest + pData (iter_at ?fs 0 i)"
      "pSize ?it = dest + pSize (iter_at ?fs 0 i)"
      using iter_at_position [OF t(1) i, of dest] iter_at_offset [of ?fs dest i] by simp_all
    note f = msg_type_field_in [OF Suc.prems(1) i, of dest, folded it]
    have "changes b (span dest sz) w (pb_message_set_to_defaults env m (fptr (iter_field ?it)) (pData ?it) w)"
      if s: "sub_type (iter_field ?it)" "PB_HTYPE (ftype (iter_field ?it)) \<noteq> PB_HTYPE_REPEATED" for w
      using Suc.IH [OF _ m(2)] t(4) [OF i] s sub_span [OF f s] unfolding it(1) by (blast intro: changes_sub)
    from default_field [where msg = "pb_message_set_to_defaults env m" and env = env and n = m
        and rec = "pb_field_set_to_default env m" and w = w, OF f this]
    show ?thesis unfolding m(1) recursive_calls .
  qed
  from iter_fold_changes [where f = "pb_field_set_to_default env n" and i = 0 and w = w, OF t(1) this] show ?case
    by (auto simp: pb_message_set_to_defaults_def set_defaults_body_def positions_def split: prod.splits)
qed

section \<open>Releasing\<close>

lemma release_items_changes:
  assumes "\<And>p w. changes b A w (f p w)"
  shows "changes b A w (release_items f dsize n p w)"
proof (induction n arbitrary: p w)
  case (Suc n)
  from assms [of w p] obtain w1 where "f p w = Some w1" "within b A w w1" by (rule changesE)
  then show ?case using Suc.IH [of w1 "p + ucast dsize"] by (auto intro: changes_trans)
qed simp

lemma release_field:
  assumes v: "valid_ltype (PB_LTYPE (ftype (iter_field it)))"
    and s: "b \<or> PB_ATYPE (ftype (iter_field it)) = PB_ATYPE_STATIC"
    and msg: "\<And>p w. sub_type (iter_field it) \<Longrightarrow> changes b {} w (msg (fptr (iter_field it)) p w)"
  shows "changes b {} w (release_body env n rec msg it w)"
proof -
  let ?f = "iter_field it"
  have "changes b {} w (release_contents env n rec msg it w)"
    using no_extension [OF v] msg
    by (auto simp: release_contents_def Let_def sub_type_def intro!: release_items_changes)
  then obtain w1 where w1: "release_contents env n rec msg it w = Some w1" "within b {} w w1"
    by (rule changesE)
  show ?thesis
    using w1 s by (cases b) (auto simp: release_body_def Let_def)
qed

lemma release_changes:
  assumes "msg_type b (dfields_at env) k fds sz" "k \<le> n"
  shows "changes b {} w (pb_release env n fds dest w)"
  using assms
proof (induction k arbitrary: n fds sz dest w)
  case 0
  then show ?case by simp
next
  case (Suc k)
  then obtain m where m: "n = Suc m" "k \<le> m" by (cases n) auto
  let ?fs = "dfields_at env fds"
  note t = msg_typeD [OF Suc.prems(1)]
  have "changes b {} w (pb_release_single_field env n (iter_at ?fs dest i) w)"
    if i: "i < positions ?fs" for i w
  proof -
    let ?it = "iter_at ?fs dest i"
    have it: "iter_field ?it = field_nth ?fs i" by (rule iter_at_position [OF t(1) i])
    have s: "b \<or> PB_ATYPE (ftype (iter_field ?it)) = PB_ATYPE_STATIC"
      using t(5) [OF i] unfolding it by (auto simp: field_inside_def)
    have "changes b {} w (pb_release env m (fptr (iter_field ?it)) p w)" if "sub_type (iter_field ?it)" for p w
      using Suc.IH [OF _ m(2)] t(4) [OF i] that unfolding it by blast
    from release_field [where msg = "pb_release env m" and env = env and n = m
        and rec = "pb_release_single_field env m" and w = w, OF _ s this] t(3) [OF i]
    show ?thesis unfolding m(1) it recursive_calls by simp
  qed
  from iter_fold_changes [where f = "pb_release_single_field env n" and i = 0 and w = w, OF t(1) this] show ?case
    by (auto simp: pb_release_def pb_release_body_def positions_def split: prod.splits)
qed

text \<open>Releasing the field an iterator of the loop stands on.\<close>

lemma release_single_changes:
  assumes t: "msg_type b (dfields_at env) k fds sz" and n: "k \<le> n"
    and g: "good_iter (dfields_at env fds) dest slot it"
  shows "changes b {} w (pb_release_single_field env n it w)"
proof -
  obtain j where j: "k = Suc j" using t by (cases k) auto
  then obtain m where m: "n = Suc m" "j \<le> m" using n by (cases n) auto
  note t = msg_typeD [OF t [unfolded j]]
  obtain i where i: "i < positions (dfields_at env fds)" "iter_field it = field_nth (dfields_at env fds) i"
    using good_iterE [OF g t(1)] by metis
  have s: "b \<or> PB_ATYPE (ftype (iter_field it)) = PB_ATYPE_STATIC"
    using t(5) [OF i(1)] unfolding i(2) by (auto simp: field_inside_def)
  have "changes b {} w (pb_release env m (fptr (iter_field it)) p w)" if "sub_type (iter_field it)" for p w
    using release_changes [OF _ m(2)] t(4) [OF i(1)] that unfolding i(2) by blast
  from release_field [where msg = "pb_release env m" and env = env and n = m
      and rec = "pb_release_single_field env m" and w = w, OF _ s this] t(3) [OF i(1)]
  show ?thesis unfolding m(1) i(2) recursive_calls by simp
qed

section \<open>Decoding a field\<close>

lemma returns_sub: "returns b B st w r \<Longrightarrow> b \<or> B \<subseteq> A \<Longrightarrow> returns b A st w r"
  by (cases b) (auto simp: returns_def intro: within_mono)

lemma returns_True: "returns True A st w r \<longleftrightarrow> (\<exists>ok st' w'. r = Some (ok, st', w') \<and> reads_on st st')"
  by (simp add: returns_def)

lemma is_buf_reads: "reads_on st st' \<Longrightarrow> is_buf_read (isource st) \<Longrightarrow> is_buf_read (isource st')"
  by (simp add: reads_on_def)

text \<open>
  What a field relies on: the calls for its submessages and their defaults stay in the
  submessage and in \<open>S\<close>.
\<close>

definition sub_calls :: "bool \<Rightarrow> addr set \<Rightarrow> ('s, 'h) pb_dec_env \<Rightarrow> nat \<Rightarrow> ('s, 'h) dec_call \<Rightarrow> pb_field \<Rightarrow> bool" where
  "sub_calls free S env n dec f \<longleftrightarrow> (sub_type f \<longrightarrow>
     (\<forall>i st p w. is_buf_read (isource st) \<longrightarrow>
        returns free (span p (unat (data_size f)) \<union> S) st w (dec i st (fptr f) p w))
     \<and> (\<forall>p w. changes free (span p (unat (data_size f))) w (pb_message_set_to_defaults env n (fptr f) p w)))"

lemma item_returns:
  fixes st :: "'s pb_istream" and w :: "'h world"
  assumes f: "field_in b A f d s" and c: "PB_ATYPE (ftype f) \<noteq> PB_ATYPE_CALLBACK"
    and sub: "sub_calls b S env n dec f" and S: "b \<or> S \<subseteq> A"
    and buf: "is_buf_read (isource st)" and p: "b \<or> span p (item_size f) \<subseteq> A"
  shows "returns b A st w (pb_decoder env dec st f p w)"
proof (rule decoder_returns [OF _ _ buf _ p])
  show "valid_ltype (PB_LTYPE (ftype f))" "b \<or> PB_ATYPE (ftype f) = PB_ATYPE_STATIC"
    using f by (auto simp: field_in_def)
  fix st1 :: "'s pb_istream" and w1 :: "'h world" and i
  assume "PB_LTYPE (ftype f) = PB_LTYPE_SUBMESSAGE" "is_buf_read (isource st1)"
  then have r: "returns b (span p (unat (data_size f)) \<union> S) st1 w1 (dec i st1 (fptr f) p w1)"
    using sub c by (simp add: sub_calls_def sub_type_def)
  have "span p (unat (data_size f)) \<subseteq> span p (item_size f)" by (rule span_mono) (simp add: item_size_def)
  then show "returns b A st1 w1 (dec i st1 (fptr f) p w1)"
    using p S by (intro returns_sub [OF r]) auto
qed

lemma packed_loop_returns:
  assumes item: "\<And>st w c. is_buf_read (isource st) \<Longrightarrow> c < array_size (iter_field it) \<Longrightarrow>
      returns b A st w (f st (item_addr (pData it) (iter_field it) c) w)"
    and prog: "\<And>st p w st' w'. is_buf_read (isource st) \<Longrightarrow> f st p w = Some (True, st', w') \<Longrightarrow>
      unat (bytes_left st') < unat (bytes_left st)"
    and s: "b \<or> span (pSize it) 4 \<subseteq> A"
  shows "is_buf_read (isource sub) \<Longrightarrow> returns b A sub w (dec_packed_loop f it sub w)"
proof (induction "unat (bytes_left sub)" arbitrary: sub w rule: less_induct)
  case less
  show ?case
  proof (cases "0 < bytes_left sub \<and> iter_count it w < array_size (iter_field it)")
    case False
    then show ?thesis by (subst dec_packed_loop.simps) (simp only: if_False returns_Some reads_on_refl within_refl)
  next
    case True
    let ?p = "item_addr (pData it) (iter_field it) (iter_count it w)"
    from item [OF less.prems conjunct2 [OF True], of w] obtain ok st1 w1 where
      r: "f sub ?p w = Some (ok, st1, w1)" "reads_on sub st1" "within b A w w1" by (rule returnsE)
    show ?thesis
    proof (cases ok)
      case False
      with True r show ?thesis by (subst dec_packed_loop.simps) simp
    next
      case ok: True
      let ?w2 = "put32 (pSize it) (iter_count it w1 + 1) w1"
      have "unat (bytes_left st1) < unat (bytes_left sub)" using prog [OF less.prems] r(1) ok by simp
      then have "returns b A st1 ?w2 (dec_packed_loop f it st1 ?w2)"
        by (rule less.hyps) (rule is_buf_reads [OF r(2) less.prems])
      moreover have "within b A w ?w2" by (rule within_trans [OF r(3) within_put(2) [OF s]])
      ultimately have "returns b A sub w (dec_packed_loop f it st1 ?w2)"
        using r(2) by (blast intro: returns_trans)
      then show ?thesis using True r(1) ok by (subst dec_packed_loop.simps) simp
    qed
  qed
qed

lemma close_packed_reads:
  assumes "close_packed st status sub w = (ok, st', w')" "reads_on s0 sub" "reads_on s0 st"
  shows "reads_on s0 st' \<and> w' = w"
  using assms reads_close_substream [of st sub _ _ s0] by (auto simp: close_packed_def split: prod.splits)

lemma static_field_returns:
  assumes f: "field_in b A (iter_field it) (pData it) (pSize it)"
    and at: "PB_ATYPE (ftype (iter_field it)) = PB_ATYPE_STATIC"
    and sub: "sub_calls b S env n dec (iter_field it)" and S: "b \<or> S \<subseteq> A"
    and buf: "is_buf_read (isource st)"
  shows "returns b A st w (decode_static_field env n dec st wt it w)"
proof -
  let ?f = "iter_field it"
  let ?ht = "PB_HTYPE (ftype ?f)"
  let ?dec = "\<lambda>st p w. pb_decoder env dec st ?f p w"
  have c: "PB_ATYPE (ftype ?f) \<noteq> PB_ATYPE_CALLBACK" using at by simp
  note item = item_returns [OF f c sub S]
  have one: "returns b A st w (?dec st (pData it) w1)" if "?ht \<noteq> PB_HTYPE_REPEATED" "within b A w w1" for w1
    using f that item [OF buf, of "pData it" w1] by (auto simp: field_in_def intro: returns_trans)
  have sz: "b \<or> span (pSize it) 4 \<subseteq> A" if "?ht = PB_HTYPE_REPEATED \<or> ?ht = PB_HTYPE_ONEOF"
    using f that by (auto simp: field_in_def)
  have arr: "b \<or> span (item_addr (pData it) ?f c) (item_size ?f) \<subseteq> A"
    if "?ht = PB_HTYPE_REPEATED" "c < array_size ?f" for c
    using f that by (auto simp: field_in_def)
  consider (req) "?ht = PB_HTYPE_REQUIRED" | (opt) "?ht = PB_HTYPE_OPTIONAL"
    | (packed) "?ht = PB_HTYPE_REPEATED" "wt = PB_WT_STRING" "PB_LTYPE (ftype ?f) \<le> PB_LTYPE_LAST_PACKABLE"
    | (rep) "?ht = PB_HTYPE_REPEATED" "\<not> (wt = PB_WT_STRING \<and> PB_LTYPE (ftype ?f) \<le> PB_LTYPE_LAST_PACKABLE)"
    | (oneof) "?ht = PB_HTYPE_ONEOF"
    | (other) "?ht \<notin> {PB_HTYPE_REQUIRED, PB_HTYPE_OPTIONAL, PB_HTYPE_REPEATED, PB_HTYPE_ONEOF}" by blast
  then show ?thesis
  proof cases
    case req
    then show ?thesis using one [of w] by (simp add: decode_static_field_def)
  next
    case opt
    have "within b A w (if pSize it \<noteq> pData it then put8 (pSize it) 1 w else w)"
      using f opt by (auto simp: field_in_def intro!: within_put)
    with opt one show ?thesis by (simp add: decode_static_field_def Let_def)
  next
    case packed
    obtain so st1 where m: "pb_make_string_substream st = (so, st1)" by fastforce
    note rd = reads_make_substream [OF m]
    show ?thesis
    proof (cases so)
      case None
      with packed m rd show ?thesis by (simp add: decode_static_field_def)
    next
      case (Some s)
      have "is_buf_read (isource s)" using rd Some buf by (auto intro: is_buf_reads)
      moreover have v: "valid_ltype (PB_LTYPE (ftype ?f))" using f by (simp add: field_in_def)
      ultimately have "returns b A s w (dec_packed_loop ?dec it s w)"
        using item arr [OF packed(1)] decoder_progress [OF v packed(3)] sz packed(1)
        by (intro packed_loop_returns) auto
      then obtain ok s' w' where r: "dec_packed_loop ?dec it s w = Some (ok, s', w')"
        "reads_on s s'" "within b A w w'" by (rule returnsE)
      obtain ok2 st2 w2 where cl: "close_packed st1 ok s' w' = (ok2, st2, w2)" by (cases "close_packed st1 ok s' w'")
      have "reads_on st st2 \<and> w2 = w'"
        using close_packed_reads [OF cl] rd Some r(2) by (blast intro: reads_on_trans)
      with packed m rd Some r cl show ?thesis by (simp add: decode_static_field_def Let_def)
    qed
  next
    case rep
    let ?w1 = "put32 (pSize it) (iter_count it w + 1) w"
    have w1: "within b A w ?w1" using sz rep(1) by (intro within_put(2)) simp
    show ?thesis
    proof (cases "array_size ?f \<le> iter_count it w")
      case True
      with rep w1 show ?thesis by (auto simp: decode_static_field_def Let_def)
    next
      case False
      have "returns b A st w (?dec st (item_addr (pData it) ?f (iter_count it w)) ?w1)"
        by (rule returns_trans [OF item [OF buf arr [OF rep(1)]] reads_on_refl w1]) (use False in simp)
      with False rep show ?thesis by (auto simp: decode_static_field_def Let_def)
    qed
  next
    case oneof
    let ?w1 = "put32 (pSize it) (ftag ?f) w"
    have w1: "within b A w ?w1" using sz oneof by (intro within_put(2)) simp
    show ?thesis
    proof (cases "PB_LTYPE (ftype ?f) = PB_LTYPE_SUBMESSAGE")
      case False
      have "returns b A st w (?dec st (pData it) ?w1)" using oneof w1 by (intro one) simp_all
      with False oneof show ?thesis by (simp add: decode_static_field_def Let_def)
    next
      case True
      then have st: "sub_type ?f" using at by (simp add: sub_type_def)
      have d: "b \<or> span (pData it) (unat (data_size ?f)) \<subseteq> A" using sub_span [OF f st] oneof by simp
      let ?w2 = "mem_zero (pData it) (data_size ?f) ?w1"
      have w2: "within b A w ?w2" by (rule within_trans [OF w1 within_put(5) [OF d]])
      have "changes b (span (pData it) (unat (data_size ?f))) ?w2
          (pb_message_set_to_defaults env n (fptr ?f) (pData it) ?w2)"
        using sub st unfolding sub_calls_def by blast
      from changes_trans [OF changes_sub [OF this d] w2] obtain w3 where
        "pb_message_set_to_defaults env n (fptr ?f) (pData it) ?w2 = Some w3" "within b A w w3" by (rule changesE)
      moreover from this(2) have "returns b A st w (?dec st (pData it) w3)" using oneof by (intro one) simp_all
      ultimately show ?thesis using oneof True by (simp add: decode_static_field_def Let_def)
    qed
  next
    case other
    then show ?thesis by (simp add: decode_static_field_def Let_def)
  qed
qed

text \<open>Fields behind pointers, where any change of the world is allowed.\<close>

lemma ptr_item_returns:
  assumes sub: "sub_calls True S env n dec (iter_field it)"
    and at: "PB_ATYPE (ftype (iter_field it)) = PB_ATYPE_POINTER"
    and f: "\<And>w. returns True A st w (f st p w)"
  shows "returns True A st w (ptr_item env n f it p st w)"
proof -
  have "\<exists>w1. initialize_pointer_field env n p it w = Some w1"
    using sub at by (auto simp: initialize_pointer_field_def Let_def sub_calls_def sub_type_def changes_def)
  then show ?thesis using f by (auto simp: ptr_item_def returns_True)
qed

lemma ptr_packed_loop_returns:
  assumes sub: "sub_calls True S env n dec (iter_field it)"
    and at: "PB_ATYPE (ftype (iter_field it)) = PB_ATYPE_POINTER"
    and item: "\<And>st p w. is_buf_read (isource st) \<Longrightarrow> returns True A st w (f st p w)"
    and prog: "\<And>st p w st' w'. is_buf_read (isource st) \<Longrightarrow> f st p w = Some (True, st', w') \<Longrightarrow>
      unat (bytes_left st') < unat (bytes_left st)"
  shows "is_buf_read (isource s) \<Longrightarrow>
    \<exists>ok s' msg w'. ptr_packed_loop env n f it alloc s w = Some (ok, s', msg, w') \<and> reads_on s s'"
proof (induction "unat (bytes_left s)" arbitrary: s w alloc rule: less_induct)
  case less
  show ?case
  proof (cases "bytes_left s = 0 \<or> iter_count it w = PB_SIZE_MAX")
    case True
    then show ?thesis by (subst ptr_packed_loop.simps) auto
  next
    case False
    obtain alloc1 ok1 s1 w1 where room: "ptr_packed_room env it alloc s w = (alloc1, ok1, s1, w1)"
      by (cases "ptr_packed_room env it alloc s w")
    then have s1: "reads_on s s1" "ok1 \<Longrightarrow> s1 = s"
      by (auto simp: ptr_packed_room_def Let_def allocate_field_def split: if_splits prod.splits)
    let ?p = "item_addr (rd64 (wmem w1) (pData it)) (iter_field it) (iter_count it w1)"
    show ?thesis
    proof (cases ok1)
      case False
      with \<open>\<not> (bytes_left s = 0 \<or> _)\<close> room s1 show ?thesis by (subst ptr_packed_loop.simps) auto
    next
      case True
      note eq = ptr_packed_loop.simps [of env n f it alloc s w, unfolded room]
      from ptr_item_returns [where f = f and p = ?p and w = w1, OF sub at item [OF less.prems]] obtain ok2 s2 w2 where
        r: "ptr_item env n f it ?p s w1 = Some (ok2, s2, w2)" "reads_on s s2"
        unfolding returns_True by blast
      show ?thesis
      proof (cases ok2)
        case f2: False
        with False True s1 r show ?thesis unfolding eq by auto
      next
        case ok: True
        obtain w3 where "f s ?p w3 = Some (True, s2, w2)"
          using r(1) ok by (auto simp: ptr_item_def split: option.splits)
        from less.hyps [OF prog [OF less.prems this] is_buf_reads [OF r(2) less.prems],
            of alloc1 "put32 (pSize it) (iter_count it w2 + 1) w2"]
        show ?thesis using False True s1 r ok unfolding eq by (auto intro: reads_on_trans)
      qed
    qed
  qed
qed

lemma pointer_field_returns:
  assumes f: "field_in True A (iter_field it) (pData it) (pSize it)"
    and at: "PB_ATYPE (ftype (iter_field it)) = PB_ATYPE_POINTER"
    and sub: "sub_calls True S env n dec (iter_field it)"
    and rel: "\<And>w. changes True {} w (pb_release_single_field env n it w)"
    and buf: "is_buf_read (isource st)"
  shows "returns True A st w (decode_pointer_field env n dec st wt it w)"
proof -
  let ?f = "iter_field it"
  let ?ht = "PB_HTYPE (ftype ?f)"
  let ?dec = "\<lambda>st p w. pb_decoder env dec st ?f p w"
  have c: "PB_ATYPE (ftype ?f) \<noteq> PB_ATYPE_CALLBACK" using at by simp
  have item: "returns True A st w (?dec st p w)" if "is_buf_read (isource st)" for st p w
    using item_returns [OF f c sub _ that] by simp
  have alloc: "reads_on st st1 \<and> (ok \<longrightarrow> st1 = st)"
    if "allocate_field env st p m k w = (ok, st1, w1)" for p m k w ok st1 w1
    using that by (auto simp: allocate_field_def split: if_splits prod.splits)
  consider (one) "?ht = PB_HTYPE_REQUIRED \<or> ?ht = PB_HTYPE_OPTIONAL \<or> ?ht = PB_HTYPE_ONEOF"
    | (packed) "?ht = PB_HTYPE_REPEATED" "wt = PB_WT_STRING" "PB_LTYPE (ftype ?f) \<le> PB_LTYPE_LAST_PACKABLE"
    | (rep) "?ht = PB_HTYPE_REPEATED" "\<not> (wt = PB_WT_STRING \<and> PB_LTYPE (ftype ?f) \<le> PB_LTYPE_LAST_PACKABLE)"
    | (other) "?ht \<notin> {PB_HTYPE_REQUIRED, PB_HTYPE_OPTIONAL, PB_HTYPE_REPEATED, PB_HTYPE_ONEOF}" by blast
  then show ?thesis
  proof cases
    case one
    obtain w1 where w1: "(if PB_LTYPE (ftype ?f) = PB_LTYPE_SUBMESSAGE \<and> rd64 (wmem w) (pData it) \<noteq> 0
        then pb_release_single_field env n it w else Some w) = Some w1"
      using rel [of w] that
      by (cases "PB_LTYPE (ftype ?f) = PB_LTYPE_SUBMESSAGE \<and> rd64 (wmem w) (pData it) \<noteq> 0")
        (auto simp: changes_def)
    define w2 where "w2 = (if ?ht = PB_HTYPE_ONEOF then put32 (pSize it) (ftag ?f) w1 else w1)"
    note eq = decode_pointer_field_def [of env n dec st wt it w, unfolded Let_def w1 option.case, folded w2_def]
    show ?thesis
    proof (cases "PB_LTYPE (ftype ?f) = PB_LTYPE_STRING \<or> PB_LTYPE (ftype ?f) = PB_LTYPE_BYTES")
      case True
      with one item [OF buf, of w2 "pData it"] show ?thesis unfolding eq by (auto simp: returns_True)
    next
      case False
      obtain ok st1 w3 where a: "allocate_field env st (pData it) (ucast (data_size ?f)) 1 w2 = (ok, st1, w3)"
        by (cases "allocate_field env st (pData it) (ucast (data_size ?f)) 1 w2")
      have "returns True A st w3 (ptr_item env n (\<lambda>st p w. ?dec st (rd64 (wmem w) (pData it)) w) it
          (rd64 (wmem w3) (pData it)) st w3)"
        by (rule ptr_item_returns [OF sub at]) (rule item [OF buf])
      then show ?thesis using one False alloc [OF a] unfolding eq a
        by (cases ok) (auto simp: returns_True)
    qed
  next
    case packed
    obtain so st1 where m: "pb_make_string_substream st = (so, st1)" by fastforce
    note rd = reads_make_substream [OF m]
    show ?thesis
    proof (cases so)
      case None
      with packed m rd show ?thesis by (simp add: decode_pointer_field_def)
    next
      case (Some s)
      have bs: "is_buf_read (isource s)" using rd Some buf by (auto intro: is_buf_reads)
      have v: "valid_ltype (PB_LTYPE (ftype ?f))" using f by (simp add: field_in_def)
      have "\<exists>ok s' msg w'. ptr_packed_loop env n ?dec it (ucast (iter_count it w)) s w = Some (ok, s', msg, w')
          \<and> reads_on s s'"
        by (rule ptr_packed_loop_returns [OF sub at item _ bs], assumption)
          (rule decoder_progress [OF v packed(3)])
      then obtain ok s' msg w' where
        r: "ptr_packed_loop env n ?dec it (ucast (iter_count it w)) s w = Some (ok, s', msg, w')" "reads_on s s'"
        by blast
      let ?st1 = "case msg of None \<Rightarrow> st1 | Some e \<Rightarrow> st1\<lparr>ierrmsg := Some e\<rparr>"
      obtain ok2 st2 w2 where cl: "close_packed ?st1 ok s' w' = (ok2, st2, w2)" by (cases "close_packed ?st1 ok s' w'")
      have "reads_on st ?st1" using rd by (simp split: option.split)
      then have "reads_on st st2"
        using close_packed_reads [OF cl] rd Some r(2) by (blast intro: reads_on_trans)
      with packed m rd Some r cl show ?thesis by (simp add: decode_pointer_field_def Let_def)
    qed
  next
    case rep
    obtain ok st1 w1 where a: "allocate_field env st (pData it) (ucast (data_size ?f)) (ucast (iter_count it w + 1)) w
        = (ok, st1, w1)"
      by (cases "allocate_field env st (pData it) (ucast (data_size ?f)) (ucast (iter_count it w + 1)) w")
    have "returns True A st w2 (ptr_item env n ?dec it p st w2)" for p w2
      by (rule ptr_item_returns [OF sub at]) (rule item [OF buf])
    then show ?thesis using rep alloc [OF a] a
      by (cases ok) (auto simp: decode_pointer_field_def Let_def returns_True)
  next
    case other
    then show ?thesis by (simp add: decode_pointer_field_def Let_def)
  qed
qed

text \<open>
  What a callback of the application must do for the loop over its field to end: when it
  succeeds it has used up some of what was left.
\<close>

definition callbacks_read :: "('s, 'h) pb_dec_env \<Rightarrow> bool" where
  "callbacks_read env \<longleftrightarrow> (\<forall>fp st f a w ok st' w'. is_buf_read (isource st) \<longrightarrow>
     cb_decode env fp st f a w = (ok, st', w') \<longrightarrow> reads_on st st'
     \<and> (ok \<and> bytes_left st \<noteq> 0 \<longrightarrow> unat (bytes_left st') < unat (bytes_left st)))"

lemma callback_loop_returns:
  assumes f: "\<And>st w ok st' w'. is_buf_read (isource st) \<Longrightarrow> f st w = (ok, st', w') \<Longrightarrow> reads_on st st'
      \<and> (ok \<and> bytes_left st \<noteq> 0 \<longrightarrow> unat (bytes_left st') < unat (bytes_left st))"
  shows "is_buf_read (isource sub) \<Longrightarrow> returns True A sub w (callback_loop f sub w)"
proof (induction "unat (bytes_left sub)" arbitrary: sub w rule: less_induct)
  case less
  obtain ok s1 w1 where r: "f sub w = (ok, s1, w1)" by (cases "f sub w")
  note s1 = f [OF less.prems r]
  show ?case
  proof (cases "ok \<and> bytes_left s1 \<noteq> 0")
    case False
    then show ?thesis using r s1 by (subst callback_loop.simps) auto
  next
    case True
    moreover from this s1 less.prems have "bytes_left sub \<noteq> 0" by (auto simp: reads_on_def unat_eq_0)
    ultimately have lt: "unat (bytes_left s1) < unat (bytes_left sub)" using s1 by simp
    from less.hyps [OF this is_buf_reads [OF conjunct1 [OF s1] less.prems], of w1] True r s1
    show ?thesis by (subst callback_loop.simps) (auto simp: returns_True intro: reads_on_trans)
  qed
qed

lemma callback_field_returns:
  assumes cb: "callbacks_read env" and buf: "is_buf_read (isource st)"
  shows "returns True A st w (decode_callback_field env st wt it w)"
proof -
  let ?call = "\<lambda>sub w. cb_decode env (rd64 (wmem w) (pData it)) sub (iter_field it) (pData it + 8) w"
  consider (skip) "pData it = 0 \<or> rd64 (wmem w) (pData it) = 0"
    | (string) "\<not> (pData it = 0 \<or> rd64 (wmem w) (pData it) = 0)" "wt = PB_WT_STRING"
    | (raw) "\<not> (pData it = 0 \<or> rd64 (wmem w) (pData it) = 0)" "wt \<noteq> PB_WT_STRING" by blast
  then show ?thesis
  proof cases
    case skip
    then show ?thesis by (cases "pb_skip_field st wt") (auto simp: decode_callback_field_def dest: reads)
  next
    case string
    obtain so st1 where m: "pb_make_string_substream st = (so, st1)" by fastforce
    note rd = reads_make_substream [OF m]
    show ?thesis
    proof (cases so)
      case None
      with string m rd show ?thesis by (simp add: decode_callback_field_def)
    next
      case (Some s)
      then have "is_buf_read (isource s)" using rd buf by (auto intro: is_buf_reads)
      then have "returns True A s w (callback_loop ?call s w)"
        using cb by (intro callback_loop_returns) (unfold callbacks_read_def, blast)
      then obtain ok s' w' where r: "callback_loop ?call s w = Some (ok, s', w')" "reads_on s s'" by (rule returnsE)
      obtain ok2 st2 w2 where cl: "close_packed st1 True s' w' = (ok2, st2, w2)" by (cases "close_packed st1 True s' w'")
      have "reads_on st st2"
        using close_packed_reads [OF cl] rd Some r(2) by (blast intro: reads_on_trans)
      with string m rd Some r cl show ?thesis by (simp add: decode_callback_field_def)
    qed
  next
    case raw
    obtain ok bs st1 where v: "read_raw_value st wt 10 = (ok, bs, st1)" by (cases "read_raw_value st wt 10")
    with raw reads_raw [OF v] show ?thesis
      by (auto simp: decode_callback_field_def split: prod.split)
  qed
qed

section \<open>The message loop\<close>

text \<open>
  The frame of a call of \<open>pb_decode_noinit\<close>: it writes in \<open>A\<close>, which holds the structure, the
  counter of the frame and what the calls for submessages write beside their structures.
\<close>

definition msg_frame :: "bool \<Rightarrow> ('s, 'h) pb_dec_env \<Rightarrow> nat \<Rightarrow> ('s, 'h) dec_call \<Rightarrow> addr \<Rightarrow> nat \<Rightarrow> addr
    \<Rightarrow> addr set \<Rightarrow> addr set \<Rightarrow> bool" where
  "msg_frame free env n dec fds sz dest S A \<longleftrightarrow>
     (\<exists>k \<le> n. msg_type free (dfields_at env) k fds sz)
     \<and> (free \<longrightarrow> callbacks_read env)
     \<and> (free \<or> span dest sz \<union> span (frame_slot env n) 4 \<union> S \<subseteq> A)
     \<and> (\<forall>i < positions (dfields_at env fds). sub_calls free S env n dec (field_nth (dfields_at env fds) i))"

abbreviation (input) at_field :: "('s, 'h) pb_dec_env \<Rightarrow> nat \<Rightarrow> addr \<Rightarrow> addr \<Rightarrow> pb_field_iter \<Rightarrow> bool" where
  "at_field env n fds dest it \<equiv> good_iter (dfields_at env fds) dest (frame_slot env n) it"

lemma msg_frameD:
  assumes "msg_frame b env n dec fds sz dest S A"
  shows "wf_fields (dfields_at env fds)" "b \<Longrightarrow> callbacks_read env" "b \<or> span (frame_slot env n) 4 \<subseteq> A"
    "b \<or> S \<subseteq> A" "i < positions (dfields_at env fds) \<Longrightarrow> valid_ltype (PB_LTYPE (ftype (field_nth (dfields_at env fds) i)))"
proof -
  obtain k where k: "msg_type b (dfields_at env) k fds sz" using assms by (auto simp: msg_frame_def)
  then obtain j where "k = Suc j" by (cases k) auto
  with k show "wf_fields (dfields_at env fds)"
    "i < positions (dfields_at env fds) \<Longrightarrow> valid_ltype (PB_LTYPE (ftype (field_nth (dfields_at env fds) i)))"
    using msg_typeD by blast+
  show "b \<Longrightarrow> callbacks_read env" "b \<or> span (frame_slot env n) 4 \<subseteq> A" "b \<or> S \<subseteq> A"
    using assms by (auto simp: msg_frame_def)
qed

lemma at_field_in:
  assumes m: "msg_frame b env n dec fds sz dest S A" and g: "at_field env n fds dest it"
  shows "field_in b A (iter_field it) (pData it) (pSize it) \<and> sub_calls b S env n dec (iter_field it)"
proof -
  let ?fs = "dfields_at env fds"
  from good_iterE [OF g msg_frameD(1) [OF m]] obtain i where
    i: "i < positions ?fs" "iter_field it = field_nth ?fs i" "pData it = dest + pData (iter_at ?fs 0 i)"
    "pSize it = dest + pSize (iter_at ?fs 0 i)
      \<or> PB_HTYPE (ftype (field_nth ?fs i)) = PB_HTYPE_REPEATED \<and> pSize it = frame_slot env n" by metis
  obtain k where "msg_type b (dfields_at env) k fds sz" using m by (auto simp: msg_frame_def)
  then obtain j where "msg_type b (dfields_at env) (Suc j) fds sz" by (cases k) (simp_all del: msg_type.simps(2))
  from msg_type_field_in [where fds = fds and fa = "dfields_at env", OF this i(1), of dest]
  have "field_in b (span dest sz) (iter_field it) (pData it) (dest + pSize (iter_at ?fs 0 i))"
    unfolding i(2,3) .
  moreover have "b \<or> span dest sz \<subseteq> A" using m by (auto simp: msg_frame_def)
  ultimately have f: "field_in b A (iter_field it) (pData it) (dest + pSize (iter_at ?fs 0 i))"
    by (rule field_in_mono)
  moreover have "sub_calls b S env n dec (iter_field it)" using m i(1,2) by (simp add: msg_frame_def)
  ultimately show ?thesis using i(2,4) field_in_counter [OF f _ msg_frameD(3) [OF m]] by auto
qed

lemma release_union_returns:
  assumes m: "msg_frame b env n dec fds sz dest S A" and g: "at_field env n fds dest it"
  shows "\<exists>ok st' it' w'. pb_release_union_field env n st it w = Some (ok, st', it', w')
    \<and> reads_on st st' \<and> at_field env n fds dest it' \<and> within b A w w'"
proof -
  let ?old = "rd32 (wmem w) (pSize it)" and ?new = "ftag (iter_field it)"
  note wf = msg_frameD(1) [OF m]
  obtain k where k: "k \<le> n" "msg_type b (dfields_at env) k fds sz" using m by (auto simp: msg_frame_def)
  obtain f1 it1 where f1: "pb_field_iter_find it ?old = Some (f1, it1)" "at_field env n fds dest it1"
    using find_good [OF wf g] by blast
  obtain w1 where w1: "pb_release_single_field env n it1 w = Some w1" "within b {} w w1"
    using release_single_changes [OF k(2,1) f1(2)] by (rule changesE)
  obtain f2 it2 where f2: "pb_field_iter_find it1 ?new = Some (f2, it2)" "at_field env n fds dest it2"
    using find_good [OF wf f1(2)] by blast
  have "within b A w w1" by (rule within_mono [OF w1(2)]) simp
  then show ?thesis using g f1 w1(1) f2 by (auto simp: pb_release_union_field_def Let_def)
qed

lemma decode_field_returns:
  assumes m: "msg_frame b env n dec fds sz dest S A" and g: "at_field env n fds dest it"
    and buf: "is_buf_read (isource st)"
  shows "\<exists>ok st' it' w'. decode_field env n dec st wt it w = Some (ok, st', it', w')
    \<and> reads_on st st' \<and> at_field env n fds dest it' \<and> within b A w w'"
proof -
  obtain ok1 st1 it1 w1 where u: "(if PB_HTYPE (ftype (iter_field it)) = PB_HTYPE_ONEOF
      then pb_release_union_field env n st it w else Some (True, st, it, w)) = Some (ok1, st1, it1, w1)"
    "reads_on st st1" "at_field env n fds dest it1" "within b A w w1"
    using release_union_returns [OF m g, of st w] g that
    by (cases "PB_HTYPE (ftype (iter_field it)) = PB_HTYPE_ONEOF") auto
  show ?thesis
  proof (cases ok1)
    case False
    with u show ?thesis by (auto simp: decode_field_def)
  next
    case True
    let ?at = "PB_ATYPE (ftype (iter_field it1))"
    let ?r = "if ?at = PB_ATYPE_STATIC then decode_static_field env n dec st1 wt it1 w1
       else if ?at = PB_ATYPE_POINTER then decode_pointer_field env n dec st1 wt it1 w1
       else if ?at = PB_ATYPE_CALLBACK then decode_callback_field env st1 wt it1 w1
       else Some (False, ierr st1 ''invalid field type'', w1)"
    note f = conjunct1 [OF at_field_in [OF m u(3)]] and sub = conjunct2 [OF at_field_in [OF m u(3)]]
    have buf1: "is_buf_read (isource st1)" by (rule is_buf_reads [OF u(2) buf])
    obtain k where k: "k \<le> n" "msg_type b (dfields_at env) k fds sz" using m by (auto simp: msg_frame_def)
    have b: "b" if "?at \<noteq> PB_ATYPE_STATIC" using f that by (auto simp: field_in_def)
    consider "?at = PB_ATYPE_STATIC" | "?at = PB_ATYPE_POINTER" | "?at = PB_ATYPE_CALLBACK"
      | "?at \<notin> {PB_ATYPE_STATIC, PB_ATYPE_POINTER, PB_ATYPE_CALLBACK}" by blast
    then have "returns b A st1 w1 ?r"
    proof cases
      case 1
      with static_field_returns [OF f 1 sub msg_frameD(4) [OF m] buf1] show ?thesis by simp
    next
      case 2
      then have bt: "b = True" using b by simp
      have "returns True A st1 w1 (decode_pointer_field env n dec st1 wt it1 w1)"
        using f sub release_single_changes [OF k(2,1) u(3)] unfolding bt
        by (intro pointer_field_returns [OF _ 2 _ _ buf1]) assumption+
      with 2 bt show ?thesis by simp
    next
      case 3
      then have bt: "b = True" using b by simp
      with 3 callback_field_returns [OF msg_frameD(2) [OF m] buf1] show ?thesis by simp
    next
      case 4
      then show ?thesis by simp
    qed
    from returns_trans [OF this u(2,4)] obtain ok st2 w2 where "?r = Some (ok, st2, w2)" "reads_on st st2"
      "within b A w w2" by (rule returnsE)
    then show ?thesis using u True by (simp add: decode_field_def Let_def)
  qed
qed

text \<open>How an iteration leaves its state.\<close>

fun outcome_good :: "bool \<Rightarrow> ('s, 'h) pb_dec_env \<Rightarrow> nat \<Rightarrow> addr \<Rightarrow> addr \<Rightarrow> addr set \<Rightarrow> ('s, 'h) dec_state
    \<Rightarrow> ('s, 'h) dec_outcome \<Rightarrow> bool" where
  "outcome_good free env n fds dest A s (DecContinue s') \<longleftrightarrow> reads_on (ds_stream s) (ds_stream s')
     \<and> at_field env n fds dest (ds_iter s') \<and> within free A (ds_world s) (ds_world s')"
| "outcome_good free env n fds dest A s (DecBreak s') \<longleftrightarrow> reads_on (ds_stream s) (ds_stream s')
     \<and> within free A (ds_world s) (ds_world s')"
| "outcome_good free env n fds dest A s (DecReturn ok st w) \<longleftrightarrow> reads_on (ds_stream s) st
     \<and> within free A (ds_world s) w"

lemma skip_good:
  "at_field env n fds dest (ds_iter s) \<Longrightarrow> outcome_good b env n fds dest A s (dec_skip wt s)"
  by (cases "pb_skip_field (ds_stream s) wt") (auto simp: dec_skip_def dest: reads)

lemma outcome_good_cong:
  "ds_stream s1 = ds_stream s \<Longrightarrow> ds_world s1 = ds_world s \<Longrightarrow>
    outcome_good b env n fds dest A s1 r \<longleftrightarrow> outcome_good b env n fds dest A s r"
  by (cases r) simp_all

lemma find_extension_good:
  assumes m: "msg_frame b env n dec fds sz dest S A" and g: "at_field env n fds dest it"
  shows "\<exists>it'. find_extension_field it = Some (False, it') \<and> at_field env n fds dest it'"
proof -
  let ?fs = "dfields_at env fds"
  note wf = msg_frameD(1) [OF m] and v = msg_frameD(5) [OF m]
  obtain i where i: "i < positions ?fs" and e: "it = iter_at ?fs dest i
      \<or> PB_HTYPE (ftype (field_nth ?fs i)) = PB_HTYPE_REPEATED \<and> it = (iter_at ?fs dest i)\<lparr>pSize := frame_slot env n\<rparr>"
    using g by (auto simp: good_iter_def)
  have f: "iter_field it = field_nth ?fs i" "ipos it = i" using e iter_at_position [OF wf i, of dest] by (auto simp: iter_field_def)
  have x: "PB_LTYPE (ftype (iter_field it)) \<noteq> PB_LTYPE_EXTENSION" using v [OF i] no_extension f(1) by simp
  show ?thesis
  proof (cases "ftag (iter_field it) = 0")
    case True
    then have "find_extension_field it = Some (False, it)"
      using x by (simp add: find_extension_field_def find_extension_loop.simps [of _ it] pb_field_iter_next_def Let_def)
    with g show ?thesis by blast
  next
    case False
    then have lt: "i < nfields ?fs" using wf_fields_tag [OF wf, of i] f(1) by simp
    have p: "iter_field (iter_at ?fs dest i) = field_nth ?fs i" by (rule iter_at_position [OF wf i])
    have "pb_field_iter_next it = pb_field_iter_next (iter_at ?fs dest i)"
      using e iter_next_ignores_size [of "iter_at ?fs dest i" "frame_slot env n"] False f(1) p by auto
    then have "find_extension_field it = find_extension_loop i (iter_at ?fs dest i)"
      using f x p unfolding find_extension_field_def find_extension_loop.simps [of _ it]
        find_extension_loop.simps [of _ "iter_at ?fs dest i"] by (simp add: Let_def)
    moreover have "find_extension_loop i (iter_at ?fs dest i) = Some (False, iter_at ?fs dest i)"
      using find_extension_at [OF wf lt v, of 0 dest] lt by simp
    ultimately show ?thesis using good_iter_at [OF i] by metis
  qed
qed

lemma unknown_good:
  assumes m: "msg_frame b env n dec fds sz dest S A" and g: "at_field env n fds dest (ds_iter s)"
    and t: "tag \<noteq> - 1"
  shows "\<exists>r. dec_unknown env n dec tag wt s = Some r \<and> outcome_good b env n fds dest A s r"
proof (cases "extension_range_start s \<le> tag")
  case False
  then show ?thesis using skip_good [OF g] by (simp add: dec_unknown_def)
next
  case True
  obtain it' where it': "find_extension_field (ds_iter s) = Some (False, it')" "at_field env n fds dest it'"
    using find_extension_good [OF m g] by blast
  let ?s1 = "s\<lparr>ds_iter := it', extension_range_start := - 1\<rparr>"
  have "\<not> - 1 \<le> tag" using t by (metis word_order.extremum_unique)
  then have "dec_unknown env n dec tag wt s = Some (dec_skip wt ?s1)"
    using True it'(1) by (simp add: dec_unknown_def Let_def)
  moreover have "outcome_good b env n fds dest A ?s1 (dec_skip wt ?s1)" by (rule skip_good) (simp add: it'(2))
  ultimately show ?thesis using outcome_good_cong [of ?s1 s] by simp
qed

lemma known_good:
  assumes m: "msg_frame b env n dec fds sz dest S A" and g: "at_field env n fds dest (ds_iter s)"
    and buf: "is_buf_read (isource (ds_stream s))"
  shows "\<exists>r. dec_known env n dec wt s = Some r \<and> outcome_good b env n fds dest A s r"
proof (cases "dec_fixed_count (frame_slot env n) s")
  case None
  then show ?thesis by (simp add: dec_known_def ret_error_def)
next
  case (Some s1)
  let ?it = "ds_iter s" and ?slot = "frame_slot env n"
  have s1: "ds_stream s1 = ds_stream s"
    "ds_world s1 = ds_world s \<or> ds_world s1 = put32 ?slot 0 (ds_world s)"
    "ds_iter s1 = ?it \<or> PB_HTYPE (ftype (iter_field ?it)) = PB_HTYPE_REPEATED \<and> ds_iter s1 = ?it\<lparr>pSize := ?slot\<rparr>"
    using Some by (auto simp: dec_fixed_count_def Let_def split: if_splits)
  have g1: "at_field env n fds dest (ds_iter s1)"
    using s1(3) g iter_at_position(2) [OF msg_frameD(1) [OF m], of _ dest]
    unfolding good_iter_def by (auto simp: iter_field_def)
  have w1: "within b A (ds_world s) (ds_world s1)"
    using s1(2) msg_frameD(3) [OF m] by (auto intro: within_put)
  let ?s2 = "dec_mark_required s1"
  have s2: "ds_stream ?s2 = ds_stream s" "ds_world ?s2 = ds_world s1" "ds_iter ?s2 = ds_iter s1"
    using s1(1) by (simp_all add: dec_mark_required_def Let_def)
  from decode_field_returns [OF m g1 buf, of wt "ds_world s1"] obtain ok st' it' w' where
    r: "decode_field env n dec (ds_stream s) wt (ds_iter s1) (ds_world s1) = Some (ok, st', it', w')"
    "reads_on (ds_stream s) st'" "at_field env n fds dest it'" "within b A (ds_world s1) w'" by blast
  then show ?thesis using Some within_trans [OF w1 r(4)] by (simp add: dec_known_def Let_def s2)
qed

lemma short_tag: "drop_bit 3 temp \<noteq> (- 1 :: u32)"
proof
  assume "drop_bit 3 temp = (- 1 :: u32)"
  then have "bit (drop_bit 3 temp) 31" by simp
  then show False by (auto simp: bit_simps dest: bit_imp_le_length)
qed

lemma step_good:
  assumes m: "msg_frame b env n dec fds sz dest S A" and g: "at_field env n fds dest (ds_iter s)"
    and buf: "is_buf_read (isource (ds_stream s))"
  shows "\<exists>r. dec_step env n dec s = Some r \<and> outcome_good b env n fds dest A s r
    \<and> (\<forall>s'. r = DecContinue s' \<longrightarrow> unat (bytes_left (ds_stream s')) < unat (bytes_left (ds_stream s)))"
proof -
  obtain wt eof st1 where t: "pb_decode_tag (ds_stream s) = (wt, eof, st1)" by (cases "pb_decode_tag (ds_stream s)")
  note rd = reads_tag [OF t]
  show ?thesis
  proof (cases wt)
    case None
    with t rd show ?thesis by (simp add: dec_step_def)
  next
    case (Some wtag)
    then obtain wire tag where wtag: "wt = Some (wire, tag)" by (cases wtag) simp
    note lt = tag_progress [OF t [unfolded wtag] buf]
    have nt: "tag \<noteq> - 1"
      using t wtag by (auto simp: pb_decode_tag_def short_tag split: prod.splits option.splits if_splits)
    obtain found it' where f: "pb_field_iter_find (ds_iter s) tag = Some (found, it')" "at_field env n fds dest it'"
      using find_good [OF msg_frameD(1) [OF m] g] by blast
    let ?s1 = "s\<lparr>ds_stream := st1, ds_iter := it'\<rparr>"
    have g1: "at_field env n fds dest (ds_iter ?s1)" using f(2) by simp
    have buf1: "is_buf_read (isource (ds_stream ?s1))" using is_buf_reads [OF rd buf] by simp
    have "\<exists>r. (if found then dec_known env n dec wire ?s1 else dec_unknown env n dec tag wire ?s1) = Some r
        \<and> outcome_good b env n fds dest A ?s1 r"
      using known_good [OF m g1 buf1] unknown_good [OF m g1 nt] by (cases found) simp_all
    then obtain r where r: "(if found then dec_known env n dec wire ?s1 else dec_unknown env n dec tag wire ?s1) = Some r"
      "outcome_good b env n fds dest A ?s1 r" by blast
    have "outcome_good b env n fds dest A s r" using r(2) rd by (cases r) (auto intro: reads_on_trans)
    moreover have "unat (bytes_left (ds_stream s')) < unat (bytes_left (ds_stream s))" if "r = DecContinue s'" for s'
      using r(2) that lt is_buf_reads [OF rd buf] by (auto simp: reads_on_def)
    ultimately show ?thesis using t wtag f(1) r(1) by (simp add: dec_step_def Let_def)
  qed
qed

lemma loop_good:
  assumes m: "msg_frame b env n dec fds sz dest S A"
  shows "at_field env n fds dest (ds_iter s) \<Longrightarrow> is_buf_read (isource (ds_stream s)) \<Longrightarrow>
    \<exists>r. dec_loop env n dec s = Some r \<and> outcome_good b env n fds dest A s r \<and> (\<forall>s'. r \<noteq> DecContinue s')"
proof (induction "unat (bytes_left (ds_stream s))" arbitrary: s rule: less_induct)
  case less
  show ?case
  proof (cases "bytes_left (ds_stream s) = 0")
    case True
    then show ?thesis by (subst dec_loop.simps) simp
  next
    case False
    obtain r where r: "dec_step env n dec s = Some r" "outcome_good b env n fds dest A s r"
      "\<And>s'. r = DecContinue s' \<Longrightarrow> unat (bytes_left (ds_stream s')) < unat (bytes_left (ds_stream s))"
      using step_good [OF m less.prems] by blast
    show ?thesis
    proof (cases r)
      case (DecContinue s')
      then have s': "reads_on (ds_stream s) (ds_stream s')" "at_field env n fds dest (ds_iter s')"
        "within b A (ds_world s) (ds_world s')" using r(2) by simp_all
      from less.hyps [OF r(3) [OF DecContinue] s'(2) is_buf_reads [OF s'(1) less.prems(2)]] obtain r2 where
        r2: "dec_loop env n dec s' = Some r2" "outcome_good b env n fds dest A s' r2" "\<forall>s'. r2 \<noteq> DecContinue s'" by blast
      have "outcome_good b env n fds dest A s r2"
        using r2(2,3) reads_on_trans [OF s'(1)] within_trans [OF s'(3)] by (cases r2) simp_all
      then show ?thesis using False r(1) DecContinue r2(1,3) by (subst dec_loop.simps) simp
    qed (use False r in \<open>subst dec_loop.simps; simp\<close>)+
  qed
qed

section \<open>Whole messages\<close>

text \<open>The counters of the frames below a fuel.\<close>

definition counters :: "('s, 'h) pb_dec_env \<Rightarrow> nat \<Rightarrow> addr set" where
  "counters env n = (\<Union>k < n. span (frame_slot env k) 4)"

lemma counters_Suc: "counters env (Suc n) = span (frame_slot env n) 4 \<union> counters env n"
  by (auto simp: counters_def less_Suc_eq)

lemma noinit_returns:
  assumes m: "msg_frame b env n dec fds sz dest S A" and buf: "is_buf_read (isource st)"
  shows "returns b A st w (noinit_body env n dec st fds dest w)"
proof -
  let ?s = "dec_init env n st fds dest w"
  have s: "at_field env n fds dest (ds_iter ?s)" "ds_stream ?s = st"
    using good_iter_at [of 0 "dfields_at env fds" dest "frame_slot env n"]
    by (simp_all add: dec_init_def positions_def)
  have w: "within b A w (ds_world ?s)" using msg_frameD(3) [OF m] by (auto simp: dec_init_def intro: within_put)
  obtain r where r: "dec_loop env n dec ?s = Some r" "outcome_good b env n fds dest A ?s r"
    "\<forall>s'. r \<noteq> DecContinue s'"
    using loop_good [OF m s(1)] buf s(2) by metis
  show ?thesis
    using r s(2) within_trans [OF w] by (cases r) (auto simp: noinit_body_def dec_finish_def)
qed

lemma call_returns:
  assumes "b \<longrightarrow> callbacks_read env"
  shows "msg_type b (dfields_at env) k fds sz \<Longrightarrow> k < n \<Longrightarrow> is_buf_read (isource st) \<Longrightarrow>
    returns b (span dest sz \<union> counters env n) st w (pb_decode_call env n i st fds dest w)"
proof (induction k arbitrary: n fds sz i st dest w)
  case 0
  then show ?case by simp
next
  case (Suc k)
  then obtain m where m: "n = Suc m" "Suc k \<le> m" by (cases n) auto
  let ?A = "span dest sz \<union> counters env n" and ?fs = "dfields_at env fds"
  note t = msg_typeD [OF Suc.prems(1)]
  have "sub_calls b (counters env m) env m (pb_decode_call env m) (field_nth ?fs j)" if "j < positions ?fs" for j
    using Suc.IH [OF t(4) [OF that]] defaults_changes [OF t(4) [OF that]] m(2) by (simp add: sub_calls_def)
  then have f: "msg_frame b env m (pb_decode_call env m) fds sz dest (counters env m) ?A"
    using Suc.prems(1) m assms by (auto simp: msg_frame_def counters_Suc simp del: msg_type.simps)
  note noinit = noinit_returns [OF f Suc.prems(3)]
  show ?case
  proof (cases i)
    case False
    then show ?thesis using noinit m(1) by simp
  next
    case True
    obtain w1 where w1: "pb_message_set_to_defaults env m fds dest w = Some w1" "within b (span dest sz) w w1"
      using defaults_changes [OF Suc.prems(1) m(2)] by (rule changesE)
    have w1A: "within b ?A w w1" by (rule within_mono [OF w1(2)]) simp
    obtain ok st2 w2 where r: "noinit_body env m (pb_decode_call env m) st fds dest w1 = Some (ok, st2, w2)"
      "reads_on st st2" "within b ?A w1 w2" using noinit by (rule returnsE)
    obtain w3 where w3: "pb_release env m fds dest w2 = Some w3" "within b {} w2 w3"
      using release_changes [OF Suc.prems(1) m(2)] by (rule changesE)
    have w2A: "within b ?A w w2" by (rule within_trans [OF w1A r(3)])
    have "within b ?A w w3" by (rule within_trans [OF w2A within_mono [OF w3(2)]]) simp
    then show ?thesis using True m(1) w1(1) r(1,2) w3(1) w2A by (simp add: decode_body_def)
  qed
qed

text \<open>
  C6: decoding never leaves the structure. For a message type whose entries are static and lie
  inside their structure, submessages included, \<open>pb_decode\<close> returns on a buffer of arbitrary bytes,
  and whether it succeeds or fails every byte it has changed is in the \<open>sz\<close> bytes of the
  structure, or in the local counter \<open>fixed_count_size\<close> of one of its frames.
\<close>

theorem decode_stays_in_structure:
  assumes "msg_type False (dfields_at env) k fds sz" "k < n"
  shows "\<exists>ok st' w'. pb_decode env n (pb_istream_from_buffer buf bufsize) fds dest w = Some (ok, st', w')
    \<and> (\<forall>x. wmem w' x \<noteq> wmem w x \<longrightarrow> unat (x - dest) < sz \<or> (\<exists>j < n. unat (x - frame_slot env j) < 4))"
proof -
  let ?st = "pb_istream_from_buffer buf bufsize"
  have "returns False (span dest sz \<union> counters env n) ?st w (pb_decode_call env n True ?st fds dest w)"
    by (rule call_returns [OF _ assms]) (simp_all add: pb_istream_from_buffer_def)
  then obtain ok st' w' where r: "pb_decode env n ?st fds dest w = Some (ok, st', w')"
    and x: "within False (span dest sz \<union> counters env n) w w'"
    by (auto simp: returns_def pb_decode_def)
  from x have "\<forall>x. wmem w' x \<noteq> wmem w x \<longrightarrow> unat (x - dest) < sz \<or> (\<exists>j < n. unat (x - frame_slot env j) < 4)"
    unfolding within_def span_def counters_def by blast
  with r show ?thesis by blast
qed

text \<open>
  A message of a name of up to seven characters, an optional submessage of up to three numbers,
  and a required number.
\<close>

definition sample_types :: "addr \<Rightarrow> pb_field list" where
  "sample_types p =
     (if p = 1 then
        [\<lparr>ftag = 1, ftype = 0x17, data_offset = 1, size_offset = 0xFFFFFFFF, data_size = 8, array_size = 0, fptr = 0\<rparr>,
         \<lparr>ftag = 2, ftype = 0x18, data_offset = 3, size_offset = 0xFFFFFFFF, data_size = 16, array_size = 0, fptr = 2\<rparr>,
         \<lparr>ftag = 3, ftype = 0x01, data_offset = 0, size_offset = 0, data_size = 4, array_size = 0, fptr = 0\<rparr>,
         PB_LAST_FIELD]
      else
        [\<lparr>ftag = 1, ftype = 0x24, data_offset = 4, size_offset = 0xFFFFFFFC, data_size = 4, array_size = 3, fptr = 0\<rparr>,
         PB_LAST_FIELD])"

theorem decode_stays_in_structure_witness:
  "\<exists>ok st' w'. pb_decode (plain_env sample_types) 3
      (pb_istream_from_buffer [0x12, 20, 0x0a, 16, 1, 2, 3, 4, 5, 6, 7, 8, 9, 10, 11, 12, 13, 14, 15, 16, 17, 18] 22)
      1 0x1000 sevens = Some (ok, st', w') \<and> wmem w' 0x1020 = 7"
proof -
  have "msg_type False (dfields_at (plain_env sample_types)) 2 1 32" by code_simp
  from decode_stays_in_structure [OF this, of 3
      "[0x12, 20, 0x0a, 16, 1, 2, 3, 4, 5, 6, 7, 8, 9, 10, 11, 12, 13, 14, 15, 16, 17, 18]" 22 "0x1000" sevens]
  obtain ok st' w' where r: "pb_decode (plain_env sample_types) 3
      (pb_istream_from_buffer [0x12, 20, 0x0a, 16, 1, 2, 3, 4, 5, 6, 7, 8, 9, 10, 11, 12, 13, 14, 15, 16, 17, 18] 22)
      1 0x1000 sevens = Some (ok, st', w')"
    and x: "\<And>x. wmem w' x \<noteq> 7 \<Longrightarrow> unat (x - 0x1000) < 32 \<or> (\<exists>j < 3. unat (x - frame_slot (plain_env sample_types) j) < 4)"
    by (auto simp: sevens_def)
  have "\<not> unat (0x1020 - frame_slot (plain_env sample_types) j) < 4" if "j < 3" for j
  proof -
    from that consider "j = 0" | "j = 1" | "j = 2" by linarith
    then show ?thesis by cases (simp_all add: plain_env_def)
  qed
  with x [of "0x1020"] r show ?thesis by auto
qed

text \<open>
  What the hypothesis on callbacks of the next property leaves out: \<open>decode_callback_field\<close> calls
  the callback of a length-delimited field until its substream is used up, so that one which succeeds
  without reading, to ignore the field, is called for ever.
\<close>

lemma callback_loop_stuck:
  assumes "\<And>w. \<exists>w'. f sub w = (True, sub, w')" "bytes_left sub \<noteq> 0"
  shows "callback_loop f sub w = None"
proof (rule ccontr)
  assume "callback_loop f sub w \<noteq> None"
  then obtain y where "callback_loop f sub w = Some y" by blast
  moreover have "g = f \<longrightarrow> s \<noteq> sub" if "callback_loop g s v = Some y" for g s v y
  proof (rule callback_loop.raw_induct [OF _ that])
    fix loop g s v y
    assume IH: "\<And>g s v y. loop g s v = Some y \<Longrightarrow> g = f \<longrightarrow> s \<noteq> sub"
      and e: "(case g s v of (ok, sub', w') \<Rightarrow> if \<not> ok then Some (False, sub', w')
          else if bytes_left sub' \<noteq> 0 then loop g sub' w' else Some (True, sub', w')) = Some y"
    show "g = f \<longrightarrow> s \<noteq> sub"
    proof (intro impI notI)
      assume "g = f" "s = sub"
      moreover obtain v' where "f sub v = (True, sub, v')" using assms(1) by blast
      ultimately have "loop f sub v' = Some y" using e assms(2) by simp
      from IH [OF this] show False by simp
    qed
  qed
  ultimately show False by blast
qed

theorem idle_callback_never_returns:
  assumes "\<And>fp st f a w. \<exists>w'. cb_decode env fp st f a w = (True, st, w')"
    and "pData it \<noteq> 0" "rd64 (wmem w) (pData it) \<noteq> 0"
    and "pb_make_string_substream st = (Some sub, st1)" "bytes_left sub \<noteq> 0"
  shows "decode_callback_field env st PB_WT_STRING it w = None"
  using assms callback_loop_stuck
    [of "\<lambda>sub w. cb_decode env (rd64 (wmem w) (pData it)) sub (iter_field it) (pData it + 8) w" sub w]
  by (simp add: decode_callback_field_def)

text \<open>
  C7: \<open>pb_decode\<close> and \<open>pb_decode_noinit\<close> return on every buffer, for every message type with static,
  pointer and callback fields whose submessages nest to a bounded depth, provided that every
  callback that succeeds while input is left uses up some of it; one that does not is called for
  ever, as just shown. One unit of fuel for each level of submessages, and one, are enough. The
  stream has no more bytes left than before.
\<close>

theorem decode_returns:
  assumes "msg_type True (dfields_at env) k fds sz" "k < n" "callbacks_read env"
    and "is_buf_read (isource st)"
  shows "(\<exists>ok st' w'. pb_decode env n st fds dest w = Some (ok, st', w')
      \<and> is_buf_read (isource st') \<and> unat (bytes_left st') \<le> unat (bytes_left st))
    \<and> (\<exists>ok st' w'. pb_decode_noinit env n st fds dest w = Some (ok, st', w')
      \<and> is_buf_read (isource st') \<and> unat (bytes_left st') \<le> unat (bytes_left st))"
  using call_returns [where b = True and n = n and st = st and dest = dest and w = w, OF _ assms(1,2,4)] assms(3,4)
  by (auto simp: returns_def pb_decode_def pb_decode_noinit_def reads_on_def)

text \<open>A message of a string behind a pointer, a packed array behind a pointer, and a callback.\<close>

definition pointer_types :: "addr \<Rightarrow> pb_field list" where
  "pointer_types p =
     [\<lparr>ftag = 1, ftype = 0x97, data_offset = 0, size_offset = 0, data_size = 1, array_size = 0, fptr = 0\<rparr>,
      \<lparr>ftag = 2, ftype = 0xA1, data_offset = 8, size_offset = 0xFFFFFFF8, data_size = 4, array_size = 0, fptr = 0\<rparr>,
      \<lparr>ftag = 3, ftype = 0x56, data_offset = 0, size_offset = 0, data_size = 16, array_size = 0, fptr = 0\<rparr>,
      PB_LAST_FIELD]"

text \<open>A callback that takes the bytes of its field one by one.\<close>

definition byte_env :: "(addr \<Rightarrow> pb_field list) \<Rightarrow> (unit, unit) pb_dec_env" where
  "byte_env fds = (plain_env fds)\<lparr>cb_decode := (\<lambda>fp st f a w. case pb_readbyte st of (b, st') \<Rightarrow> (b \<noteq> None, st', w))\<rparr>"

lemma byte_env_reads: "callbacks_read (byte_env fds)"
  unfolding callbacks_read_def
proof (intro allI impI)
  fix fp :: u64 and st :: "unit pb_istream" and f :: pb_field and a :: u64 and w :: "unit world" and ok st' w'
  assume b: "is_buf_read (isource st)" and "cb_decode (byte_env fds) fp st f a w = (ok, st', w')"
  then obtain r where r: "pb_readbyte st = (r, st')" "ok = (r \<noteq> None)"
    by (auto simp: byte_env_def split: prod.splits)
  then have "ok \<longrightarrow> unat (bytes_left st') < unat (bytes_left st)"
    using b by (auto simp: pb_readbyte_def call_read_def left_minus unat_minus_one unat_gt_0
        split: if_splits prod.splits pb_isource.splits rd_result.splits)
  then show "reads_on st st' \<and> (ok \<and> bytes_left st \<noteq> 0 \<longrightarrow> unat (bytes_left st') < unat (bytes_left st))"
    using reads_readbyte [OF r(1)] by blast
qed

theorem decode_returns_witness:
  "\<exists>st' w'. pb_decode (byte_env pointer_types) 2
      (pb_istream_from_buffer [0x1a, 2, 65, 66] 4) 1 0x1000 sevens
    = Some (True, st', w') \<and> unat (bytes_left st') \<le> 4"
proof -
  have "msg_type True (dfields_at (byte_env pointer_types)) 1 1 0" by code_simp
  moreover have "map_option fst (pb_decode (byte_env pointer_types) 2
      (pb_istream_from_buffer [0x1a, 2, 65, 66] 4) 1 0x1000 sevens) = Some True"
    by code_simp
  ultimately show ?thesis
    using decode_returns [OF _ _ byte_env_reads, of pointer_types 1 1 0 2
        "pb_istream_from_buffer [0x1a, 2, 65, 66] 4" "0x1000" sevens]
    by (auto simp: pb_istream_from_buffer_def)
qed

section \<open>The default of an array of a fixed count\<close>

text \<open>
  An array of a fixed count has no count in the structure, and the size pointer of its iterator
  is its data pointer; \<open>pb_field_set_to_default\<close> stores a \<open>pb_size_t\<close> of zero there. For an array
  shorter than four bytes this runs over its end: decoding an empty input into a structure of
  two \<open>bool\<close>s succeeds, and clears the two bytes behind the structure.
\<close>

definition two_flags :: "addr \<Rightarrow> pb_field list" where
  "two_flags p =
     [\<lparr>ftag = 1, ftype = 0x20, data_offset = 0, size_offset = 0, data_size = 1, array_size = 2, fptr = 0\<rparr>,
      PB_LAST_FIELD]"

theorem fixed_count_default_overruns:
  "map_option (\<lambda>(ok, st, w). (ok, mem_read (wmem w) 0x1000 5))
     (pb_decode (plain_env two_flags) 2 (pb_istream_from_buffer [] 0) 1 0x1000 sevens)
   = Some (True, [0, 0, 0, 0, 7])"
  by code_simp

end
