(* ===== verification/Pb_Value.thy ===== *)
theory Pb_Value
  imports Pb_Messages Pb_Decode_Safe
begin

text \<open>
  The message that a structure in memory stands for, as an abstract value, and its wire format:
  the specification that the encoder (\<open>Pb_Wire_Encode\<close>) and the decoder (\<open>Pb_Wire_Decode\<close>) of
  nanopb are proved to implement.
\<close>

section \<open>Values\<close>

datatype val = Scalar u64 | Text bytes | Message "val list list"

text \<open>
  A message is the list of its fields in the order of the descriptors, a field the list of its
  items: one for a required field, at most one for an optional one. A field of proto3, which has
  no flag, is absent when its value is the default one.
\<close>

fun zero_val :: "val \<Rightarrow> bool" where
  "zero_val (Scalar x) \<longleftrightarrow> x = 0"
| "zero_val (Text bs) \<longleftrightarrow> bs = []"
| "zero_val (Message vss) \<longleftrightarrow> (\<forall>vs \<in> set vss. vs = [])"

definition is_sub :: "pb_field \<Rightarrow> bool" where
  "is_sub f \<longleftrightarrow> PB_LTYPE (ftype f) = PB_LTYPE_SUBMESSAGE"

text \<open>The value of an item at \<open>p\<close>; the length of a bytes field is cut to its room.\<close>

definition item_view :: "(addr \<Rightarrow> addr \<Rightarrow> val list list) \<Rightarrow> pb_field \<Rightarrow> mem \<Rightarrow> addr \<Rightarrow> val" where
  "item_view sub f m p =
     (let lt = PB_LTYPE (ftype f); n = unat (data_size f) in
      if lt = PB_LTYPE_BOOL then Scalar (if rd8 m p \<noteq> 0 then 1 else 0)
      else if int_ltype lt
      then Scalar (case int_load lt m (data_size f) p of None \<Rightarrow> 0 | Some x \<Rightarrow> x)
      else if lt = PB_LTYPE_FIXED32 then Scalar (ucast (rd32 m p))
      else if lt = PB_LTYPE_FIXED64 then Scalar (rd64 m p)
      else if lt = PB_LTYPE_BYTES then Text (mem_read m (p + 4) (min (unat (rd32 m p)) (n - 4)))
      else if lt = PB_LTYPE_STRING then Text (takeWhile (\<lambda>b. b \<noteq> 0) (mem_read m p n))
      else if lt = PB_LTYPE_SUBMESSAGE then Message (sub (fptr f) p)
      else Text (mem_read m p n))"

definition field_view ::
  "(addr \<Rightarrow> addr \<Rightarrow> val list list) \<Rightarrow> pb_field \<Rightarrow> mem \<Rightarrow> addr \<Rightarrow> addr \<Rightarrow> val list" where
  "field_view sub f m d s =
     (if PB_HTYPE (ftype f) = PB_HTYPE_REPEATED
      then map (\<lambda>i. item_view sub f m (item_addr d f (word_of_nat i)))
             [0..<min (unat (rd32 m s)) (unat (array_size f))]
      else
        (let v = item_view sub f m d in
         if PB_HTYPE (ftype f) = PB_HTYPE_OPTIONAL
            \<and> (if size_offset f \<noteq> 0 then rd8 m s = 0 else zero_val v)
         then [] else [v]))"

fun msg_view :: "(addr \<Rightarrow> pb_field list) \<Rightarrow> nat \<Rightarrow> addr \<Rightarrow> mem \<Rightarrow> addr \<Rightarrow> val list list" where
  "msg_view fa 0 fds m a = []"
| "msg_view fa (Suc k) fds m a =
     map (\<lambda>i. field_view (\<lambda>g p. msg_view fa k g m p) (field_nth (fa fds) i) m
                (a + pData (iter_at (fa fds) 0 i)) (a + pSize (iter_at (fa fds) 0 i)))
       [0..<nfields (fa fds)]"

section \<open>The wire format\<close>

definition tag_wire :: "u32 \<Rightarrow> pb_field \<Rightarrow> bytes" where
  "tag_wire wire_type f = varint_list (push_bit 3 (ucast (ftag f)) OR ucast wire_type)"

definition delimited :: "bytes \<Rightarrow> bytes" where
  "delimited bs = varint_list (word_of_nat (length bs)) @ bs"

fun item_wire :: "(addr \<Rightarrow> val list list \<Rightarrow> bytes) \<Rightarrow> pb_field \<Rightarrow> val \<Rightarrow> bytes" where
  "item_wire sub f (Scalar x) =
     (if PB_LTYPE (ftype f) = PB_LTYPE_FIXED32 then le_bytes 4 x
      else if PB_LTYPE (ftype f) = PB_LTYPE_FIXED64 then le_bytes 8 x
      else varint_list (int_code (PB_LTYPE (ftype f)) x))"
| "item_wire sub f (Text bs) = delimited bs"
| "item_wire sub f (Message vss) = delimited (sub (fptr f) vss)"

text \<open>Arrays of numbers are packed.\<close>

definition packed_field :: "pb_field \<Rightarrow> bool" where
  "packed_field f \<longleftrightarrow> PB_HTYPE (ftype f) = PB_HTYPE_REPEATED \<and> PB_LTYPE (ftype f) \<le> PB_LTYPE_LAST_PACKABLE"

definition item_tag :: "pb_field \<Rightarrow> u32" where
  "item_tag f = (case wiretype_of_ltype (PB_LTYPE (ftype f)) of None \<Rightarrow> 0 | Some wt \<Rightarrow> wt)"

definition field_wire :: "(addr \<Rightarrow> val list list \<Rightarrow> bytes) \<Rightarrow> pb_field \<Rightarrow> val list \<Rightarrow> bytes" where
  "field_wire sub f vs =
     (if packed_field f
      then (if vs = [] then []
            else tag_wire PB_WT_STRING f @ delimited (concat (map (item_wire sub f) vs)))
      else concat (map (\<lambda>v. tag_wire (item_tag f) f @ item_wire sub f v) vs))"

fun msg_wire :: "(addr \<Rightarrow> pb_field list) \<Rightarrow> nat \<Rightarrow> addr \<Rightarrow> val list list \<Rightarrow> bytes" where
  "msg_wire fa 0 fds vss = []"
| "msg_wire fa (Suc k) fds vss =
     concat (map (\<lambda>i. field_wire (msg_wire fa k) (field_nth (fa fds) i) (nth_or [] vss i))
       [0..<nfields (fa fds)])"

section \<open>The types and the structures it is for\<close>

definition data_width :: "pb_field \<Rightarrow> nat" where
  "data_width f = (if PB_HTYPE (ftype f) = PB_HTYPE_REPEATED
     then unat (data_size f) * unat (array_size f) else item_size f)"

definition size_width :: "pb_field \<Rightarrow> nat" where
  "size_width f = (if PB_HTYPE (ftype f) = PB_HTYPE_REPEATED then 4
     else if PB_HTYPE (ftype f) = PB_HTYPE_OPTIONAL \<and> size_offset f \<noteq> 0 then 1 else 0)"

definition footprint :: "pb_field \<Rightarrow> addr \<Rightarrow> addr \<Rightarrow> addr set" where
  "footprint f d s = span d (data_width f) \<union> span s (size_width f)"

definition apart :: "addr \<Rightarrow> nat \<Rightarrow> addr \<Rightarrow> nat \<Rightarrow> bool" where
  "apart a n b l \<longleftrightarrow> n = 0 \<or> l = 0 \<or> uint a + int n \<le> uint b \<or> uint b + int l \<le> uint a"

definition fields_apart :: "pb_field \<Rightarrow> addr \<Rightarrow> addr \<Rightarrow> pb_field \<Rightarrow> addr \<Rightarrow> addr \<Rightarrow> bool" where
  "fields_apart f d s g d' s' \<longleftrightarrow>
     apart d (data_width f) d' (data_width g) \<and> apart d (data_width f) s' (size_width g)
     \<and> apart s (size_width f) d' (data_width g) \<and> apart s (size_width f) s' (size_width g)"

text \<open>
  A plain entry: required, optional or an array with a counter, of the width its decoder stores,
  and without a default value of its own when it has no flag.
\<close>

definition plain_field :: "pb_field \<Rightarrow> bool" where
  "plain_field f \<longleftrightarrow>
     (let lt = PB_LTYPE (ftype f); ht = PB_HTYPE (ftype f); n = data_size f in
      ht \<in> {PB_HTYPE_REQUIRED, PB_HTYPE_OPTIONAL, PB_HTYPE_REPEATED}
      \<and> (ht = PB_HTYPE_REPEATED \<longrightarrow> size_offset f \<noteq> 0)
      \<and> (lt = PB_LTYPE_BOOL \<longrightarrow> n = 1) \<and> (lt = PB_LTYPE_FIXED32 \<longrightarrow> n = 4)
      \<and> (lt = PB_LTYPE_FIXED64 \<longrightarrow> n = 8) \<and> (int_ltype lt \<longrightarrow> n \<in> {1, 2, 4, 8})
      \<and> (lt = PB_LTYPE_BYTES \<longrightarrow> 4 \<le> n) \<and> (lt = PB_LTYPE_STRING \<longrightarrow> 1 \<le> n)
      \<and> (is_sub f \<longrightarrow> fptr f \<noteq> 0)
      \<and> (ht = PB_HTYPE_OPTIONAL \<and> size_offset f = 0 \<and> \<not> is_sub f \<longrightarrow> fptr f = 0)
      \<and> 0 < ftag f \<and> ftag f < 0x20000000)"

text \<open>The tags differ, and no two fields share memory.\<close>

fun plain_type :: "(addr \<Rightarrow> pb_field list) \<Rightarrow> nat \<Rightarrow> addr \<Rightarrow> bool" where
  "plain_type fa 0 fds = False"
| "plain_type fa (Suc k) fds =
     (let fs = fa fds in
      nfields fs \<le> 64
      \<and> (\<forall>i \<in> set [0..<nfields fs].
           let f = field_nth fs i; d = pData (iter_at fs 0 i); s = pSize (iter_at fs 0 i) in
           plain_field f \<and> (is_sub f \<longrightarrow> plain_type fa k (fptr f))
           \<and> apart d (data_width f) s (size_width f)
           \<and> (\<forall>j \<in> set [0..<i]. let g = field_nth fs j in
                ftag f \<noteq> ftag g
                \<and> fields_apart f d s g (pData (iter_at fs 0 j)) (pSize (iter_at fs 0 j)))))"

definition valid_item :: "(addr \<Rightarrow> addr \<Rightarrow> bool) \<Rightarrow> pb_field \<Rightarrow> mem \<Rightarrow> addr \<Rightarrow> bool" where
  "valid_item sub f m p \<longleftrightarrow>
     (PB_LTYPE (ftype f) = PB_LTYPE_BYTES \<longrightarrow> uint (rd32 m p) + 4 \<le> uint (data_size f))
     \<and> (PB_LTYPE (ftype f) = PB_LTYPE_STRING \<longrightarrow> 0 \<in> set (mem_read m p (unat (data_size f))))
     \<and> (is_sub f \<longrightarrow> sub (fptr f) p)"

definition valid_field :: "(addr \<Rightarrow> addr \<Rightarrow> bool) \<Rightarrow> pb_field \<Rightarrow> mem \<Rightarrow> addr \<Rightarrow> addr \<Rightarrow> bool" where
  "valid_field sub f m d s \<longleftrightarrow>
     (if PB_HTYPE (ftype f) = PB_HTYPE_REPEATED
      then rd32 m s \<le> array_size f
        \<and> (\<forall>i \<in> set [0..<unat (rd32 m s)]. valid_item sub f m (item_addr d f (word_of_nat i)))
      else PB_HTYPE (ftype f) = PB_HTYPE_OPTIONAL \<and> size_offset f \<noteq> 0 \<and> rd8 m s = 0
        \<or> valid_item sub f m d)"

text \<open>Counts are within the arrays, bytes within their room, and strings have their final zero.\<close>

fun valid_msg :: "(addr \<Rightarrow> pb_field list) \<Rightarrow> nat \<Rightarrow> addr \<Rightarrow> mem \<Rightarrow> addr \<Rightarrow> bool" where
  "valid_msg fa 0 fds m a = False"
| "valid_msg fa (Suc k) fds m a =
     (\<forall>i \<in> set [0..<nfields (fa fds)].
        valid_field (\<lambda>g p. valid_msg fa k g m p) (field_nth (fa fds) i) m
          (a + pData (iter_at (fa fds) 0 i)) (a + pSize (iter_at (fa fds) 0 i)))"

text \<open>A structure that is not at the null pointer and does not reach the end of the address space.\<close>

definition placed :: "addr \<Rightarrow> nat \<Rightarrow> bool" where
  "placed a sz \<longleftrightarrow> a \<noteq> 0 \<and> uint a + int sz < 18446744073709551616"


section \<open>Bytes in memory\<close>

text \<open>The memories agree on a region.\<close>

definition agree :: "addr set \<Rightarrow> mem \<Rightarrow> mem \<Rightarrow> bool" where
  "agree A m m' \<longleftrightarrow> (\<forall>x \<in> A. m' x = m x)"

lemma agree_mono: "agree A m m' \<Longrightarrow> B \<subseteq> A \<Longrightarrow> agree B m m'"
  by (auto simp: agree_def)

lemma agree_trans: "agree A m m1 \<Longrightarrow> agree A m1 m2 \<Longrightarrow> agree A m m2"
  by (simp add: agree_def)

lemma within_agree: "within False B w w' \<Longrightarrow> A \<inter> B = {} \<Longrightarrow> agree A (wmem w) (wmem w')"
  by (auto simp: within_def agree_def)

lemma mem_read_cong:
  assumes "agree (span p n) m m'" "j + l \<le> n" "n \<le> 18446744073709551616"
  shows "mem_read m' (p + word_of_nat j) l = mem_read m (p + word_of_nat j) l"
proof -
  have "p + word_of_nat j + word_of_nat i \<in> span p n" if "i < l" for i
  proof -
    have "unat (word_of_nat (j + i) :: u64) = j + i" using that assms(2,3) by (simp del: of_nat_add)
    then show ?thesis using that assms(2) by (simp add: span_def add.assoc)
  qed
  with assms(1) show ?thesis by (auto simp: mem_read_def agree_def)
qed

lemmas mem_read_cong_0 = mem_read_cong [where j = 0, simplified]

lemma take_mem_read: "l \<le> n \<Longrightarrow> take l (mem_read m p n) = mem_read m p l"
  by (simp add: mem_read_def take_map)

lemma mem_read_Suc: "mem_read m p (Suc n) = rd8 m p # mem_read m (p + 1) n"
  by (simp add: mem_read_def rd8_def upt_conv_Cons map_Suc_upt [symmetric] add.assoc o_def del: upt_Suc)

lemma mem_read_Nil [simp]: "mem_read m p n = [] \<longleftrightarrow> n = 0"
  by (simp add: mem_read_def)

lemma le_bytes_4_ucast: "le_bytes 4 (ucast (w :: u32) :: u64) = le_bytes 4 w"
  by (simp add: le_bytes_4, intro conjI; rule bit_word_eqI; auto simp: bit_simps)

lemma rd_cong:
  assumes "agree (span p n) m m'" "n \<le> 18446744073709551616"
  shows "1 \<le> n \<Longrightarrow> rd8 m' p = rd8 m p" "2 \<le> n \<Longrightarrow> rd16 m' p = rd16 m p"
    "4 \<le> n \<Longrightarrow> rd32 m' p = rd32 m p" "8 \<le> n \<Longrightarrow> rd64 m' p = rd64 m p"
proof -
  show "1 \<le> n \<Longrightarrow> rd8 m' p = rd8 m p" using mem_read_cong_0 [of p n m m' 1] assms by (simp add: mem_read_1 flip: One_nat_def)
qed (use mem_read_cong_0 [OF assms(1)] assms(2) in \<open>simp_all add: rd16_def rd32_def rd64_def\<close>)

section \<open>Plain types\<close>

lemma plain_typeD:
  assumes "plain_type fa (Suc k) fds"
  shows "nfields (fa fds) \<le> 64"
    "i < nfields (fa fds) \<Longrightarrow> plain_field (field_nth (fa fds) i)"
    "i < nfields (fa fds) \<Longrightarrow> is_sub (field_nth (fa fds) i) \<Longrightarrow> plain_type fa k (fptr (field_nth (fa fds) i))"
    "i < nfields (fa fds) \<Longrightarrow> apart (pData (iter_at (fa fds) 0 i)) (data_width (field_nth (fa fds) i))
       (pSize (iter_at (fa fds) 0 i)) (size_width (field_nth (fa fds) i))"
    "i < nfields (fa fds) \<Longrightarrow> j < i \<Longrightarrow> ftag (field_nth (fa fds) i) \<noteq> ftag (field_nth (fa fds) j)
      \<and> fields_apart (field_nth (fa fds) i) (pData (iter_at (fa fds) 0 i)) (pSize (iter_at (fa fds) 0 i))
          (field_nth (fa fds) j) (pData (iter_at (fa fds) 0 j)) (pSize (iter_at (fa fds) 0 j))"
  using assms by (auto simp: Let_def)

lemma plain_fieldD:
  assumes "plain_field f"
  shows "PB_HTYPE (ftype f) = PB_HTYPE_REQUIRED \<or> PB_HTYPE (ftype f) = PB_HTYPE_OPTIONAL
      \<or> PB_HTYPE (ftype f) = PB_HTYPE_REPEATED"
    "PB_HTYPE (ftype f) = PB_HTYPE_REPEATED \<Longrightarrow> size_offset f \<noteq> 0"
    "PB_LTYPE (ftype f) = PB_LTYPE_BOOL \<Longrightarrow> data_size f = 1"
    "PB_LTYPE (ftype f) = PB_LTYPE_FIXED32 \<Longrightarrow> data_size f = 4"
    "PB_LTYPE (ftype f) = PB_LTYPE_FIXED64 \<Longrightarrow> data_size f = 8"
    "int_ltype (PB_LTYPE (ftype f)) \<Longrightarrow> data_size f \<in> {1, 2, 4, 8}"
    "PB_LTYPE (ftype f) = PB_LTYPE_BYTES \<Longrightarrow> 4 \<le> unat (data_size f)"
    "PB_LTYPE (ftype f) = PB_LTYPE_STRING \<Longrightarrow> 0 < unat (data_size f)"
    "is_sub f \<Longrightarrow> fptr f \<noteq> 0"
    "PB_HTYPE (ftype f) = PB_HTYPE_OPTIONAL \<Longrightarrow> size_offset f = 0 \<Longrightarrow> \<not> is_sub f \<Longrightarrow> fptr f = 0"
    "0 < ftag f" "unat (ftag f) < 2 ^ 29"
  using assms by (auto simp: plain_field_def Let_def word_le_nat_alt word_less_nat_alt)

lemma plain_item_size: "plain_field f \<Longrightarrow> item_size f = unat (data_size f)"
  by (auto simp: item_size_def fixed_width_def dest: plain_fieldD)

lemma int_load_plain: "sz \<in> {1, 2, 4, 8} \<Longrightarrow> \<exists>x. int_load lt m sz p = Some x"
  by (auto simp: int_load_def load_signed_def load_unsigned_def)

section \<open>Views depend on their region only\<close>

lemma load_cong:
  assumes "agree (span p n) m m'" "n = unat sz" "n \<le> 18446744073709551616"
  shows "int_load lt m' sz p = int_load lt m sz p"
  using rd_cong [OF assms(1,3)] assms(2)
  by (auto simp: int_load_def load_signed_def load_unsigned_def)

lemma item_view_cong:
  assumes f: "plain_field f" and a: "agree (span p (unat (data_size f))) m m'"
    and sub: "is_sub f \<Longrightarrow> sub' (fptr f) p = sub (fptr f) p"
  shows "item_view sub' f m' p = item_view sub f m p"
proof -
  have n: "unat (data_size f) \<le> 18446744073709551616" using unat_u32_lt [of "data_size f"] by simp
  note rd = rd_cong [OF a n] and ld = load_cong [OF a refl n] and bs = mem_read_cong_0 [OF a _ n]
  have bt: "mem_read m' (p + 4) (min l (unat (data_size f) - 4)) = mem_read m (p + 4) (min l (unat (data_size f) - 4))"
    if "4 \<le> unat (data_size f)" for l
    using mem_read_cong [OF a _ n, of 4] that by simp
  show ?thesis
    using rd ld bs bt sub plain_fieldD(3-8) [OF f]
    by (simp add: item_view_def Let_def is_sub_def)
qed

section \<open>The place of a field\<close>

lemma span_offset:
  assumes "x \<in> span (D + a) n" "unat a + n \<le> 18446744073709551616"
  shows "unat a \<le> unat (x - D) \<and> unat (x - D) < unat a + n"
proof -
  have i: "unat (x - (D + a)) < n" using assms(1) by (simp add: span_def)
  then have "unat (a + (x - (D + a))) = unat a + unat (x - (D + a))"
    using assms(2) by (intro unat_plus_no_overflow_u64) simp
  moreover have "a + (x - (D + a)) = x - D" by simp
  ultimately show ?thesis using i by simp
qed

lemma apart_iff: "apart a n b l \<longleftrightarrow> n = 0 \<or> l = 0 \<or> unat a + n \<le> unat b \<or> unat b + l \<le> unat a"
  unfolding apart_def uint_nat of_nat_add [symmetric] of_nat_le_iff ..

lemma apart_spans:
  assumes "apart a n b l" "unat a + n \<le> 18446744073709551616" "unat b + l \<le> 18446744073709551616"
  shows "span (D + a) n \<inter> span (D + b) l = {}"
proof (rule ccontr)
  assume "span (D + a) n \<inter> span (D + b) l \<noteq> {}"
  then obtain x where x: "x \<in> span (D + a) n" "x \<in> span (D + b) l" by blast
  then have "n \<noteq> 0" "l \<noteq> 0" by (auto simp: span_def)
  then have "unat a + n \<le> unat b \<or> unat b + l \<le> unat a"
    using assms(1) by (simp add: apart_iff)
  with span_offset [OF x(1) assms(2)] span_offset [OF x(2) assms(3)] show False by linarith
qed

definition wire_field :: "pb_field \<Rightarrow> bool" where
  "wire_field f \<longleftrightarrow> plain_field f \<and> PB_ATYPE (ftype f) = PB_ATYPE_STATIC \<and> valid_ltype (PB_LTYPE (ftype f))
     \<and> (PB_HTYPE (ftype f) = PB_HTYPE_REPEATED \<longrightarrow> unat (data_size f) * unat (array_size f) < 4294967296)"

lemma data_width_small: "wire_field f \<Longrightarrow> data_width f < 4294967296"
  using unat_u32_lt [of "data_size f"] by (auto simp: data_width_def wire_field_def plain_item_size)

lemma item_offset:
  assumes "wire_field f" "PB_HTYPE (ftype f) = PB_HTYPE_REPEATED" "i < unat (array_size f)"
  obtains k where "\<And>d. item_addr d f (word_of_nat i) = d + k" "unat k = unat (data_size f) * i"
    "unat k + unat (data_size f) \<le> data_width f"
proof (rule that)
  let ?n = "unat (data_size f)" and ?k = "ucast (data_size f * word_of_nat i) :: u64"
  have "?n * Suc i \<le> ?n * unat (array_size f)" using assms(3) by (intro mult_le_mono2) simp
  then have le: "?n * i + ?n \<le> data_width f" using assms(2) by (simp add: data_width_def)
  then have lt: "?n * i < 4294967296" using data_width_small [OF assms(1)] by simp
  have "i < 4294967296" using assms(3) unat_u32_lt [of "array_size f"] by simp
  then have "unat (data_size f * word_of_nat i) = ?n * i"
    using lt by (simp add: unat_mult_lem [THEN iffD1])
  then show u: "unat ?k = ?n * i" using unat_ucast_u32_u64 [of "data_size f * word_of_nat i"] by simp
  show "item_addr d f (word_of_nat i) = d + ?k" for d by (simp add: item_addr_def)
  show "unat ?k + ?n \<le> data_width f" using le u by simp
qed

lemma item_span:
  assumes f: "wire_field f" and r: "PB_HTYPE (ftype f) = PB_HTYPE_REPEATED" and i: "i < unat (array_size f)"
  shows "span (item_addr d f (word_of_nat i)) (unat (data_size f)) \<subseteq> span d (data_width f)"
    "j < i \<Longrightarrow> span (item_addr d f (word_of_nat i)) (unat (data_size f))
      \<inter> span (item_addr d f (word_of_nat j)) (unat (data_size f)) = {}"
proof -
  obtain k where k: "item_addr d f (word_of_nat i) = d + k" "unat k = unat (data_size f) * i"
    "unat k + unat (data_size f) \<le> data_width f" using item_offset [OF f r i] by metis
  note w = data_width_small [OF f]
  show "span (item_addr d f (word_of_nat i)) (unat (data_size f)) \<subseteq> span d (data_width f)"
    unfolding k(1) using k(3) w by (intro span_inside) simp_all
  assume j: "j < i"
  then have "j < unat (array_size f)" using i by simp
  then obtain l where l: "item_addr d f (word_of_nat j) = d + l" "unat l = unat (data_size f) * j"
    "unat l + unat (data_size f) \<le> data_width f" using item_offset [OF f r] by metis
  have "unat (data_size f) * Suc j \<le> unat (data_size f) * i" using j by (intro mult_le_mono2) simp
  then have "apart k (unat (data_size f)) l (unat (data_size f))" unfolding apart_iff by (simp add: k(2) l(2))
  then show "span (item_addr d f (word_of_nat i)) (unat (data_size f))
      \<inter> span (item_addr d f (word_of_nat j)) (unat (data_size f)) = {}"
    unfolding k(1) l(1) using k(3) l(3) w by (intro apart_spans) simp_all
qed

lemma data_span:
  "wire_field f \<Longrightarrow> PB_HTYPE (ftype f) \<noteq> PB_HTYPE_REPEATED \<Longrightarrow> data_width f = unat (data_size f)"
  by (simp add: data_width_def wire_field_def plain_item_size)

lemma field_view_cong:
  assumes f: "wire_field f" and a: "agree (footprint f d s) m m'"
    and sub: "\<And>p. is_sub f \<Longrightarrow> span p (unat (data_size f)) \<subseteq> footprint f d s \<Longrightarrow> sub' (fptr f) p = sub (fptr f) p"
  shows "field_view sub' f m' d s = field_view sub f m d s"
proof -
  have pf: "plain_field f" using f by (simp add: wire_field_def)
  have item: "item_view sub' f m' p = item_view sub f m p" if "span p (unat (data_size f)) \<subseteq> span d (data_width f)" for p
  proof (rule item_view_cong [OF pf])
    have p: "span p (unat (data_size f)) \<subseteq> footprint f d s" using that by (auto simp: footprint_def)
    show "agree (span p (unat (data_size f))) m m'" by (rule agree_mono [OF a p])
    show "is_sub f \<Longrightarrow> sub' (fptr f) p = sub (fptr f) p" by (rule sub [OF _ p])
  qed
  have sz: "agree (span s (size_width f)) m m'" by (rule agree_mono [OF a]) (simp add: footprint_def)
  show ?thesis
  proof (cases "PB_HTYPE (ftype f) = PB_HTYPE_REPEATED")
    case True
    have "rd32 m' s = rd32 m s" by (rule rd_cong(3) [OF sz]) (simp_all add: size_width_def True)
    then show ?thesis using True item item_span(1) [OF f True] by (simp add: field_view_def)
  next
    case False
    have "rd8 m' s = rd8 m s" if "PB_HTYPE (ftype f) = PB_HTYPE_OPTIONAL" "size_offset f \<noteq> 0"
      by (rule rd_cong(1) [OF sz]) (use that in \<open>simp_all add: size_width_def\<close>)
    moreover have "item_view sub' f m' d = item_view sub f m d"
      by (rule item) (simp add: data_span [OF f False])
    ultimately show ?thesis using False by (auto simp: field_view_def Let_def)
  qed
qed

lemma placed_inside:
  assumes "placed a sz" "unat b + n \<le> sz"
  shows "placed (a + b) n"
proof -
  have a: "a \<noteq> 0" "unat a + sz < 18446744073709551616"
    using assms(1) unfolding placed_def uint_nat by linarith+
  then have u: "unat (a + b) = unat a + unat b" using assms(2) by (intro unat_plus_no_overflow_u64) simp
  have "0 < unat a" using a(1) by (simp add: unat_gt_0)
  then have "a + b \<noteq> 0" using u by (metis add_gr_0 less_irrefl unat_0)
  then show ?thesis using u a(2) assms(2) unfolding placed_def uint_nat by linarith
qed

text \<open>What the two conditions on a type say of its entries, for a structure at \<open>a\<close>.\<close>

definition wire_type :: "(addr \<Rightarrow> pb_field list) \<Rightarrow> nat \<Rightarrow> addr \<Rightarrow> nat \<Rightarrow> bool" where
  "wire_type fa k fds sz \<longleftrightarrow> msg_type False fa k fds sz \<and> plain_type fa k fds"

abbreviation (input) data_at :: "(addr \<Rightarrow> pb_field list) \<Rightarrow> addr \<Rightarrow> addr \<Rightarrow> nat \<Rightarrow> addr" where
  "data_at fa fds a i \<equiv> a + pData (iter_at (fa fds) 0 i)"

abbreviation (input) size_at :: "(addr \<Rightarrow> pb_field list) \<Rightarrow> addr \<Rightarrow> addr \<Rightarrow> nat \<Rightarrow> addr" where
  "size_at fa fds a i \<equiv> a + pSize (iter_at (fa fds) 0 i)"

abbreviation (input) entry :: "(addr \<Rightarrow> pb_field list) \<Rightarrow> addr \<Rightarrow> nat \<Rightarrow> pb_field" where
  "entry fa fds i \<equiv> field_nth (fa fds) i"

lemma scast_eq_0: "(scast (x :: u32) :: u64) = 0 \<longleftrightarrow> x = 0"
  using scast_ucast_back(3) [of x] by auto

text \<open>The size of an entry is at its size offset from its data.\<close>

lemma iter_size:
  "wf_fields fs \<Longrightarrow> i < nfields fs \<Longrightarrow> PB_HTYPE (ftype (field_nth fs i)) \<noteq> PB_HTYPE_ONEOF \<Longrightarrow>
    pSize (iter_at fs a i) = pData (iter_at fs a i) + scast (size_offset (field_nth fs i))"
  by (cases i)
    (auto simp: pb_field_iter_begin_def pb_field_iter_next_def Let_def iter_at_pos wf_fields_tag iter_field_def)

lemma iter_size_apart:
  "size_offset (field_nth fs i) \<noteq> 0 \<Longrightarrow> wf_fields fs \<Longrightarrow> i < nfields fs \<Longrightarrow>
    PB_HTYPE (ftype (field_nth fs i)) \<noteq> PB_HTYPE_ONEOF \<Longrightarrow> pSize (iter_at fs a i) \<noteq> pData (iter_at fs a i)"
  using iter_size [of fs i a] by (simp add: scast_eq_0)

lemma optional_apart:
  "msg_type False fa (Suc k) fds sz \<Longrightarrow> i < nfields (fa fds) \<Longrightarrow>
    PB_HTYPE (ftype (entry fa fds i)) = PB_HTYPE_OPTIONAL \<Longrightarrow> size_offset (entry fa fds i) \<noteq> 0 \<Longrightarrow>
    pSize (iter_at (fa fds) 0 i) \<noteq> pData (iter_at (fa fds) 0 i)"
  using iter_size_apart msg_typeD(1) by force

lemma wire_typeD:
  assumes t: "wire_type fa (Suc k) fds sz" and i: "i < nfields (fa fds)"
  shows "wire_field (entry fa fds i)"
    "is_sub (entry fa fds i) \<Longrightarrow> wire_type fa k (fptr (entry fa fds i)) (unat (data_size (entry fa fds i)))"
    "footprint (entry fa fds i) (data_at fa fds a i) (size_at fa fds a i) \<subseteq> span a sz"
    "span (data_at fa fds a i) (data_width (entry fa fds i))
      \<inter> span (size_at fa fds a i) (size_width (entry fa fds i)) = {}"
    "placed a sz \<Longrightarrow> placed (data_at fa fds a i) (data_width (entry fa fds i))"
    "j < nfields (fa fds) \<Longrightarrow> j \<noteq> i \<Longrightarrow> ftag (entry fa fds j) \<noteq> ftag (entry fa fds i)"
    "j < nfields (fa fds) \<Longrightarrow> j \<noteq> i \<Longrightarrow> footprint (entry fa fds j) (data_at fa fds a j) (size_at fa fds a j)
      \<inter> footprint (entry fa fds i) (data_at fa fds a i) (size_at fa fds a i) = {}"
proof -
  have m: "msg_type False fa (Suc k) fds sz" and p: "plain_type fa (Suc k) fds"
    using t by (simp_all only: wire_type_def)
  have pos: "i < positions (fa fds)" if "i < nfields (fa fds)" for i using that by (simp add: positions_def)
  have sz: "sz < 9223372036854775808" using msg_typeD(2) [OF m] by simp
  have ins: "field_inside (entry fa fds i) (pData (iter_at (fa fds) 0 i)) (pSize (iter_at (fa fds) 0 i)) sz"
    if "i < nfields (fa fds)" for i using msg_typeD(5) [OF m pos [OF that]] by simp
  have wf: "wire_field (entry fa fds i)" if "i < nfields (fa fds)" for i
    using msg_typeD(3) [OF m pos [OF that]] plain_typeD(2) [OF p that] ins [OF that]
    by (auto simp: wire_field_def field_inside_def uint_product)
  have off: "unat (pData (iter_at (fa fds) 0 i)) + data_width (entry fa fds i) \<le> sz"
    "size_width (entry fa fds i) = 0 \<or> unat (pSize (iter_at (fa fds) 0 i)) + size_width (entry fa fds i) \<le> sz"
    if "i < nfields (fa fds)" for i
    using ins [OF that] optional_apart [OF m that] by (auto simp: field_inside_def data_width_def size_width_def split: if_splits)
  have sub: "n = 0 \<or> unat b + n \<le> sz \<Longrightarrow> span (a + b) n \<subseteq> span a sz" for b n
    using span_inside [of b n sz a] sz by (cases "n = 0") (auto simp: span_def)
  show "wire_field (entry fa fds i)" by (rule wf [OF i])
  show "is_sub (entry fa fds i) \<Longrightarrow> wire_type fa k (fptr (entry fa fds i)) (unat (data_size (entry fa fds i)))"
    using msg_typeD(4) [OF m pos [OF i]] plain_typeD(3) [OF p i] wf [OF i]
    by (simp add: wire_type_def sub_type_def is_sub_def wire_field_def)
  show "footprint (entry fa fds i) (data_at fa fds a i) (size_at fa fds a i) \<subseteq> span a sz"
    using sub off [OF i] by (simp add: footprint_def)
  have ap: "apart b n c l \<Longrightarrow> n = 0 \<or> unat b + n \<le> sz \<Longrightarrow> l = 0 \<or> unat c + l \<le> sz \<Longrightarrow>
      span (a + b) n \<inter> span (a + c) l = {}" for b n c l
    using apart_spans [of b n c l a] sz by (cases "n = 0 \<or> l = 0") (auto simp: span_def)
  show "span (data_at fa fds a i) (data_width (entry fa fds i))
      \<inter> span (size_at fa fds a i) (size_width (entry fa fds i)) = {}"
    using off [OF i] by (intro ap [OF plain_typeD(4) [OF p i]]) simp_all
  show "placed a sz \<Longrightarrow> placed (data_at fa fds a i) (data_width (entry fa fds i))"
    by (rule placed_inside [OF _ off(1) [OF i]])
  assume j: "j < nfields (fa fds)" "j \<noteq> i"
  then consider "j < i" | "i < j" by linarith
  then show "ftag (entry fa fds j) \<noteq> ftag (entry fa fds i)"
    using plain_typeD(5) [OF p i] plain_typeD(5) [OF p j(1)] by cases fastforce+
  have "fields_apart (entry fa fds i) (pData (iter_at (fa fds) 0 i)) (pSize (iter_at (fa fds) 0 i))
      (entry fa fds j) (pData (iter_at (fa fds) 0 j)) (pSize (iter_at (fa fds) 0 j))"
    using plain_typeD(5) [OF p i, of j] plain_typeD(5) [OF p j(1), of i] j(2)
    by (cases "j < i") (auto simp: fields_apart_def apart_def)
  then show "footprint (entry fa fds j) (data_at fa fds a j) (size_at fa fds a j)
      \<inter> footprint (entry fa fds i) (data_at fa fds a i) (size_at fa fds a i) = {}"
    using ap off [OF i] off [OF j(1)] by (fastforce simp: footprint_def fields_apart_def)
qed

lemma msg_view_cong:
  "wire_type fa k fds sz \<Longrightarrow> agree (span a sz) m m' \<Longrightarrow> msg_view fa k fds m' a = msg_view fa k fds m a"
proof (induction k arbitrary: fds sz a)
  case 0
  then show ?case by simp
next
  case (Suc k)
  have "field_view (\<lambda>g p. msg_view fa k g m' p) (entry fa fds i) m' (data_at fa fds a i) (size_at fa fds a i)
      = field_view (\<lambda>g p. msg_view fa k g m p) (entry fa fds i) m (data_at fa fds a i) (size_at fa fds a i)"
    if i: "i < nfields (fa fds)" for i
  proof (rule field_view_cong)
    note t = wire_typeD [OF Suc.prems(1) i]
    show "wire_field (entry fa fds i)" by (rule t)
    show a: "agree (footprint (entry fa fds i) (data_at fa fds a i) (size_at fa fds a i)) m m'"
      by (rule agree_mono [OF Suc.prems(2) t(3)])
    show "msg_view fa k (fptr (entry fa fds i)) m' p = msg_view fa k (fptr (entry fa fds i)) m p"
      if "is_sub (entry fa fds i)" "span p (unat (data_size (entry fa fds i)))
        \<subseteq> footprint (entry fa fds i) (data_at fa fds a i) (size_at fa fds a i)" for p
      by (rule Suc.IH [OF t(2) [OF that(1)] agree_mono [OF a that(2)]])
  qed
  then show ?case by simp
qed

section \<open>Default values\<close>

lemma le_bytes_0: "le_bytes n 0 = replicate n 0"
  by (induction n) simp_all

lemma rd_zero:
  "rd8 m p = 0 \<longleftrightarrow> (\<forall>b \<in> set (mem_read m p 1). b = 0)"
  "rd16 m p = 0 \<longleftrightarrow> (\<forall>b \<in> set (mem_read m p 2). b = 0)"
  "rd32 m p = 0 \<longleftrightarrow> (\<forall>b \<in> set (mem_read m p 4). b = 0)"
  "rd64 m p = 0 \<longleftrightarrow> (\<forall>b \<in> set (mem_read m p 8). b = 0)"
proof -
  have z: "(\<forall>b \<in> set bs. b = 0) \<longleftrightarrow> bs = replicate n 0" if "length bs = n" for bs :: bytes and n
    using that by (metis in_set_replicate replicate_eqI)
  show "rd8 m p = 0 \<longleftrightarrow> (\<forall>b \<in> set (mem_read m p 1). b = 0)"
    by (simp only: mem_read_1) simp
  show "rd16 m p = 0 \<longleftrightarrow> (\<forall>b \<in> set (mem_read m p 2). b = 0)"
    using rd_bytes(1) [of m p] le_word_le_bytes [of 2 "0 :: u16"]
    by (auto simp: z [of _ 2] rd16_def le_bytes_0 simp del: le_bytes.simps)
  show "rd32 m p = 0 \<longleftrightarrow> (\<forall>b \<in> set (mem_read m p 4). b = 0)"
    using rd_bytes(2) [of m p] le_word_le_bytes [of 4 "0 :: u32"]
    by (auto simp: z [of _ 4] rd32_def le_bytes_0 simp del: le_bytes.simps)
  show "rd64 m p = 0 \<longleftrightarrow> (\<forall>b \<in> set (mem_read m p 8). b = 0)"
    using rd_bytes(3) [of m p] le_word_le_bytes [of 8 "0 :: u64"]
    by (auto simp: z [of _ 8] rd64_def le_bytes_0 simp del: le_bytes.simps)
qed

lemma cast_zero:
  "(scast (x :: u8) :: u64) = 0 \<longleftrightarrow> x = 0" "(scast (y :: u16) :: u64) = 0 \<longleftrightarrow> y = 0"
  "(ucast x :: u64) = 0 \<longleftrightarrow> x = 0" "(ucast y :: u64) = 0 \<longleftrightarrow> y = 0" "(ucast (z :: u32) :: u64) = 0 \<longleftrightarrow> z = 0"
  using scast_ucast_back(1) [of x] scast_ucast_back(2) [of y] ucast_ucast_back(1) [of x]
    ucast_ucast_back(2) [of y] ucast_ucast_back(3) [of z] by auto

lemma int_zero:
  "int_load lt m sz p = Some x \<Longrightarrow> x = 0 \<longleftrightarrow> (\<forall>b \<in> set (mem_read m p (unat sz)). b = 0)"
  by (auto simp: int_load_def load_signed_def load_unsigned_def cast_zero scast_eq_0 rd_zero simp flip: One_nat_def
      split: if_splits)

text \<open>The comparison of a leaf with zeros in memory.\<close>

definition leaf_zero :: "pb_field \<Rightarrow> mem \<Rightarrow> addr \<Rightarrow> bool" where
  "leaf_zero f m d \<longleftrightarrow>
     (if PB_LTYPE (ftype f) = PB_LTYPE_BYTES then rd32 m d = 0
      else if PB_LTYPE (ftype f) = PB_LTYPE_STRING then rd8 m d = 0
      else if PB_LTYPE (ftype f) = PB_LTYPE_FIXED_LENGTH_BYTES then data_size f = 0
      else \<forall>b \<in> set (mem_read m d (unat (data_size f))). b = 0)"

lemma leaf_zero_view:
  assumes f: "wire_field f" and l: "\<not> is_sub f" and v: "valid_item V f m d"
  shows "leaf_zero f m d \<longleftrightarrow> zero_val (item_view sub f m d)"
proof -
  let ?lt = "PB_LTYPE (ftype f)" and ?n = "unat (data_size f)"
  have pf: "plain_field f" and vl: "valid_ltype ?lt" using f by (simp_all add: wire_field_def)
  note d = plain_fieldD [OF pf]
  consider (bool) "?lt = PB_LTYPE_BOOL" | (int) "int_ltype ?lt" | (f32) "?lt = PB_LTYPE_FIXED32"
    | (f64) "?lt = PB_LTYPE_FIXED64" | (bytes) "?lt = PB_LTYPE_BYTES" | (string) "?lt = PB_LTYPE_STRING"
    | (len) "?lt = PB_LTYPE_FIXED_LENGTH_BYTES"
    using vl l by (auto simp: valid_ltype_def int_ltype_def is_sub_def)
  then show ?thesis
  proof cases
    case int
    then obtain x where "int_load ?lt m (data_size f) d = Some x" using int_load_plain [OF d(6)] by blast
    then show ?thesis using int int_zero by (auto simp: leaf_zero_def item_view_def int_ltype_def)
  next
    case bytes
    have "unat (rd32 m d) + 4 \<le> ?n" using v bytes unfolding valid_item_def uint_nat by linarith
    then have "min (unat (rd32 m d)) (?n - 4) = unat (rd32 m d)" by simp
    then have "zero_val (item_view sub f m d) \<longleftrightarrow> unat (rd32 m d) = 0"
      using bytes by (simp add: item_view_def int_ltype_def Let_def)
    then show ?thesis using bytes by (simp add: leaf_zero_def unat_eq_0)
  next
    case string
    then obtain k where "?n = Suc k" using d(8) by (cases ?n) auto
    with string show ?thesis by (simp add: leaf_zero_def item_view_def int_ltype_def mem_read_Suc)
  next
    case len
    have "zero_val (item_view sub f m d) \<longleftrightarrow> length (mem_read m d ?n) = 0"
      using len by (simp add: item_view_def int_ltype_def)
    then show ?thesis using len by (simp add: leaf_zero_def unat_eq_0)
  qed (use d(3-5) in \<open>simp_all add: leaf_zero_def item_view_def int_ltype_def rd_zero cast_zero flip: One_nat_def\<close>)
qed

end
