(* ===== verification/Pb_Wire_Encode.thy ===== *)
theory Pb_Wire_Encode
  imports Pb_Value
begin

text \<open>The encoder of nanopb implements the wire format of the messages in memory.\<close>

section \<open>Items\<close>

lemma outputs_string:
  assumes "length buf = unat n"
  shows "outputs (\<lambda>st. Some (pb_encode_string st buf n)) (varint_list n @ buf)"
proof -
  have "Some (pb_encode_string st buf n) = fseq (Some (pb_encode_varint st n)) (\<lambda>st. Some (pb_write st buf n))" for st :: "obuf pb_ostream"
    by (auto simp: pb_encode_string_def fseq_def oseq_def split: prod.splits)
  then show ?thesis using outputs_seq [OF outputs_varint outputs_write [OF assms]] by simp
qed

lemma outputs_delimited:
  "length buf = unat n \<Longrightarrow> outputs (\<lambda>st. Some (pb_encode_string st buf n)) (delimited buf)"
  using outputs_string [of buf n] by (simp add: delimited_def)

lemma strnlen_loop_takeWhile:
  "sz \<le> mx \<Longrightarrow> unat (strnlen_loop m p mx sz)
    = unat sz + length (takeWhile (\<lambda>b. b \<noteq> 0) (mem_read m p (unat mx - unat sz)))"
proof (induction m p mx sz rule: strnlen_loop.induct)
  case (1 m p mx sz)
  show ?case
  proof (cases "sz < mx")
    case False
    with 1 have "unat mx - unat sz = 0" by (simp add: word_less_nat_alt)
    with False show ?thesis by (subst strnlen_loop.simps) (simp add: mem_read_def)
  next
    case True
    then have lt: "unat sz < unat mx" by (simp add: word_less_nat_alt)
    then have s1: "unat (sz + 1) = Suc (unat sz)" using unat_u64_lt [of mx] by (simp add: unat_word_ariths)
    have "unat mx - unat sz = Suc (unat mx - unat (sz + 1))" using lt s1 by simp
    then have r: "mem_read m p (unat mx - unat sz) = rd8 m p # mem_read m (p + 1) (unat mx - unat (sz + 1))"
      by (simp add: mem_read_def rd8_def upt_conv_Cons map_Suc_upt [symmetric] add.assoc o_def del: upt_Suc)
    show ?thesis
    proof (cases "rd8 m p = 0")
      case True
      then show ?thesis using r by (simp add: strnlen_loop.simps [of m p mx sz])
    next
      case nz: False
      have "sz + 1 \<le> mx" using lt s1 by (simp add: word_le_nat_alt)
      with "1.IH" True nz r s1 show ?thesis by (simp add: strnlen_loop.simps [of m p mx sz])
    qed
  qed
qed

lemma enc_item:
  assumes f: "wire_field f" and v: "valid_item V f m p" and p: "p \<noteq> 0"
    and sub: "is_sub f \<Longrightarrow> outputs (\<lambda>st. enc st (fptr f) p) (subw (fptr f) (sub (fptr f) p))"
  shows "outputs (\<lambda>st. pb_encoder m enc st f p) (item_wire subw f (item_view sub f m p))"
proof -
  let ?lt = "PB_LTYPE (ftype f)" and ?n = "unat (data_size f)"
  have pf: "plain_field f" and st: "PB_ATYPE (ftype f) = PB_ATYPE_STATIC" and vl: "valid_ltype ?lt"
    using f by (simp_all add: wire_field_def)
  note d = plain_fieldD [OF pf]
  consider (bool) "?lt = PB_LTYPE_BOOL" | (int) "int_ltype ?lt" | (f32) "?lt = PB_LTYPE_FIXED32"
    | (f64) "?lt = PB_LTYPE_FIXED64" | (bytes) "?lt = PB_LTYPE_BYTES" | (string) "?lt = PB_LTYPE_STRING"
    | (sub) "?lt = PB_LTYPE_SUBMESSAGE" | (len) "?lt = PB_LTYPE_FIXED_LENGTH_BYTES"
    using vl by (auto simp: valid_ltype_def int_ltype_def)
  then show ?thesis
  proof cases
    case bool
    then show ?thesis
      by (simp add: pb_encoder_def pb_enc_bool_def safe_read_bool_def item_view_def int_code_def outputs_varint)
  next
    case int
    then obtain x where x: "int_load ?lt m (data_size f) p = Some x"
      using int_load_plain [OF d(6)] by blast
    then have "pb_encoder m enc st f p = Some (pb_encode_varint st (int_code ?lt x))" for st
      using int by (auto simp: int_ltype_def pb_encoder_def pb_enc_varint_def pb_enc_uvarint_def pb_enc_svarint_def
          pb_encode_svarint_def int_load_def int_code_def)
    moreover have "item_wire subw f (item_view sub f m p) = varint_list (int_code ?lt x)"
      using int x by (auto simp: item_view_def int_ltype_def)
    ultimately show ?thesis by (simp add: outputs_varint)
  next
    case f32
    then show ?thesis
      by (simp add: pb_encoder_def pb_enc_fixed32_def encode_fixed32_bytes item_view_def int_ltype_def outputs_write
          le_bytes_4_ucast)
  next
    case f64
    then show ?thesis
      by (simp add: pb_encoder_def pb_enc_fixed64_def encode_fixed64_bytes item_view_def int_ltype_def outputs_write)
  next
    case bytes
    let ?sz = "ucast (rd32 m p) :: u64"
    have u: "unat ?sz = unat (rd32 m p)" by (rule unat_ucast_u32_u64)
    have le: "unat (rd32 m p) + 4 \<le> ?n"
      using v bytes unfolding valid_item_def uint_nat by linarith
    have "unat (PB_BYTES_ARRAY_T_ALLOCSIZE ?sz) = unat (rd32 m p) + 4"
      unfolding PB_BYTES_ARRAY_T_ALLOCSIZE_def using u unat_u32_lt [of "rd32 m p"]
      by (simp add: unat_plus_no_overflow_u64)
    then have "\<not> PB_BYTES_ARRAY_T_ALLOCSIZE ?sz < ?sz" "\<not> ucast (data_size f) < PB_BYTES_ARRAY_T_ALLOCSIZE ?sz"
      using le by (simp_all add: word_less_nat_alt u unat_ucast_u32_u64)
    then have "pb_encoder m enc st f p = Some (pb_encode_string st (mem_read m (p + 4) (unat ?sz)) ?sz)" for st
      using bytes p by (simp add: pb_encoder_def pb_enc_bytes_def Let_def)
    moreover have "item_view sub f m p = Text (mem_read m (p + 4) (unat ?sz))"
      using bytes u le min_absorb1 [of "unat (rd32 m p)" "?n - 4"] by (simp add: item_view_def int_ltype_def Let_def)
    ultimately show ?thesis by (simp add: outputs_delimited)
  next
    case string
    let ?s = "takeWhile (\<lambda>b. b \<noteq> 0) (mem_read m p ?n)"
    let ?sz = "strnlen_loop m p (ucast (data_size f)) 0"
    have u: "unat ?sz = length ?s"
      using strnlen_loop_takeWhile [of 0 "ucast (data_size f)" m p] by (simp add: unat_ucast_u32_u64)
    have "length ?s \<le> ?n" using length_takeWhile_le [of _ "mem_read m p ?n"] by simp
    then have "mem_read m p (unat ?sz) = ?s"
      unfolding u by (metis take_mem_read takeWhile_eq_take)
    then have "pb_encoder m enc st f p = Some (pb_encode_string st ?s ?sz)" for st
      using string p st by (simp add: pb_encoder_def pb_enc_string_def Let_def)
    moreover have "item_view sub f m p = Text ?s" using string by (simp add: item_view_def int_ltype_def)
    ultimately show ?thesis using u by (simp add: outputs_delimited)
  next
    case sub
    then show ?thesis using assms(4) d(9) outputs_submessage
      by (simp add: pb_encoder_def pb_enc_submessage_def item_view_def int_ltype_def is_sub_def delimited_def)
  next
    case len
    then show ?thesis
      by (simp add: pb_encoder_def pb_enc_fixed_length_bytes_def item_view_def int_ltype_def outputs_delimited
          unat_ucast_u32_u64)
  qed
qed

section \<open>Arrays\<close>

lemma outputs_items:
  "(\<And>i. i < n \<Longrightarrow> outputs (\<lambda>st. g st (p + word_of_nat i * ucast dsize)) (c i)) \<Longrightarrow>
    outputs (enc_items g dsize n p) (concat (map c [0..<n]))"
proof (induction n arbitrary: p c)
  case 0
  have "enc_items g dsize 0 p = (\<lambda>st. Some (True, st))" by (rule ext) simp
  then show ?case using outputs_return by simp
next
  case (Suc n)
  have "outputs (enc_items g dsize n (p + ucast dsize)) (concat (map (\<lambda>i. c (Suc i)) [0..<n]))"
    using Suc.prems [of "Suc i" for i] by (intro Suc.IH) (simp add: algebra_simps)
  then have "outputs (\<lambda>st. fseq (g st p) (enc_items g dsize n (p + ucast dsize)))
      (c 0 @ concat (map (\<lambda>i. c (Suc i)) [0..<n]))"
    using outputs_seq [of "\<lambda>st. g st p" "c 0"] Suc.prems [of 0] by simp
  moreover have "enc_items g dsize (Suc n) p = (\<lambda>st. fseq (g st p) (enc_items g dsize n (p + ucast dsize)))"
    by (rule ext) simp
  moreover have "concat (map c [0..<Suc n]) = c 0 @ concat (map (\<lambda>i. c (Suc i)) [0..<n])"
    by (simp add: upt_conv_Cons map_Suc_upt [symmetric] o_def del: upt_Suc)
  ultimately show ?case by simp
qed

lemma item_address:
  assumes "wire_field f" "PB_HTYPE (ftype f) = PB_HTYPE_REPEATED" "i < unat (array_size f)"
  shows "item_addr d f (word_of_nat i) = d + word_of_nat i * ucast (data_size f)"
proof -
  obtain k where k: "\<And>d. item_addr d f (word_of_nat i) = d + k" "unat k = unat (data_size f) * i"
    using item_offset [OF assms] by metis
  from word_of_nat_if_unat [OF k(2)] have "k = word_of_nat (unat (data_size f)) * word_of_nat i" by simp
  then show ?thesis by (simp add: k(1) mult.commute)
qed

lemma outputs_array:
  assumes f: "wire_field f" and r: "PB_HTYPE (ftype f) = PB_HTYPE_REPEATED" and n: "n \<le> unat (array_size f)"
    and c: "\<And>i. i < n \<Longrightarrow> outputs (\<lambda>st. g st (item_addr d f (word_of_nat i))) (c i)"
  shows "outputs (enc_items g (data_size f) n d) (concat (map c [0..<n]))"
  using c item_address [OF f r] n by (intro outputs_items) simp

lemma outputs_packed_delimited:
  assumes o: "outputs (enc_items (\<lambda>s p. pb_encoder m enc s f p) (data_size f) (unat count) d) bs"
    and w: "PB_LTYPE (ftype f) = PB_LTYPE_FIXED32 \<Longrightarrow> length bs = 4 * unat count"
      "PB_LTYPE (ftype f) = PB_LTYPE_FIXED64 \<Longrightarrow> length bs = 8 * unat count"
  shows "outputs (encode_packed m enc f d count) (delimited bs)"
  unfolding delimited_def
proof (rule outputs_packed [OF o])
  fix st :: "obuf pb_ostream"
  show "packed_size m enc st f d count = Some (Some (word_of_nat (length bs)))"
    using outputs_sizing [OF o, of "PB_OSTREAM_SIZING (ostate st)"] w by (auto simp: packed_size_def)
qed

lemma outputs_tag: "outputs (\<lambda>st. Some (pb_encode_tag st wt (ftag f))) (tag_wire wt f)"
  unfolding pb_encode_tag_def tag_wire_def by (rule outputs_varint)

lemma outputs_tag_for_field:
  assumes "valid_ltype (PB_LTYPE (ftype f))"
  shows "outputs (\<lambda>st. Some (pb_encode_tag_for_field st f)) (tag_wire (item_tag f) f)"
proof -
  obtain wt where "wiretype_of_ltype (PB_LTYPE (ftype f)) = Some wt"
    using assms by (auto simp: valid_ltype_def wiretype_of_ltype_def)
  then show ?thesis using outputs_tag by (simp add: pb_encode_tag_for_field_def item_tag_def)
qed

lemma enc_array:
  assumes f: "wire_field f" and r: "PB_HTYPE (ftype f) = PB_HTYPE_REPEATED" and n: "count \<le> array_size f"
    and c: "\<And>i. i < unat count \<Longrightarrow>
      outputs (\<lambda>st. pb_encoder m enc st f (item_addr d f (word_of_nat i))) (item_wire subw f (v i))"
    and w: "PB_LTYPE (ftype f) = PB_LTYPE_FIXED32 \<or> PB_LTYPE (ftype f) = PB_LTYPE_FIXED64 \<Longrightarrow> \<exists>x. \<forall>i. v i = Scalar (x i)"
  shows "outputs (\<lambda>st. encode_array m enc st f d (ucast count)) (field_wire subw f (map v [0..<unat count]))"
proof -
  let ?n = "unat count"
  have at: "PB_ATYPE (ftype f) = PB_ATYPE_STATIC" and vl: "valid_ltype (PB_LTYPE (ftype f))"
    using f by (simp_all add: wire_field_def)
  have u: "unat (ucast count :: u64) = ?n" by (rule unat_ucast_u32_u64)
  have le: "?n \<le> unat (array_size f)" using n by (simp add: word_le_nat_alt)
  have nz: "(ucast count :: u64) = 0 \<longleftrightarrow> ?n = 0" using u by (simp flip: unat_eq_0)
  have room: "\<not> (ucast (array_size f) :: u64) < ucast count"
    using le by (simp add: word_less_nat_alt u unat_ucast_u32_u64)
  consider (none) "?n = 0" | (packed) "?n \<noteq> 0" "PB_LTYPE (ftype f) \<le> PB_LTYPE_LAST_PACKABLE"
    | (items) "?n \<noteq> 0" "\<not> PB_LTYPE (ftype f) \<le> PB_LTYPE_LAST_PACKABLE" by blast
  then show ?thesis
  proof cases
    case none
    then show ?thesis using nz outputs_return by (simp add: encode_array_def field_wire_def)
  next
    case packed
    let ?bs = "concat (map (\<lambda>i. item_wire subw f (v i)) [0..<?n])"
    have o: "outputs (enc_items (\<lambda>s p. pb_encoder m enc s f p) (data_size f) (unat (ucast count :: u64)) d) ?bs"
      unfolding u by (rule outputs_array [where g = "\<lambda>s p. pb_encoder m enc s f p"
        and c = "\<lambda>i. item_wire subw f (v i)", OF f r le c])
    have "length ?bs = 4 * ?n" if l: "PB_LTYPE (ftype f) = PB_LTYPE_FIXED32"
    proof -
      obtain x where "\<forall>i. v i = Scalar (x i)" using w l by blast
      with l have "map (length \<circ> (\<lambda>i. item_wire subw f (v i))) [0..<?n] = map (\<lambda>i. 4) [0..<?n]" by simp
      then show ?thesis by (simp only: length_concat map_map) (simp add: sum_list_triv)
    qed
    moreover have "length ?bs = 8 * ?n" if l: "PB_LTYPE (ftype f) = PB_LTYPE_FIXED64"
    proof -
      obtain x where "\<forall>i. v i = Scalar (x i)" using w l by blast
      with l have "map (length \<circ> (\<lambda>i. item_wire subw f (v i))) [0..<?n] = map (\<lambda>i. 8) [0..<?n]" by simp
      then show ?thesis by (simp only: length_concat map_map) (simp add: sum_list_triv)
    qed
    ultimately have "outputs (encode_packed m enc f d (ucast count)) (delimited ?bs)"
      by (intro outputs_packed_delimited [OF o]) (simp_all only: u)
    from outputs_seq [OF outputs_tag this] show ?thesis
      using packed at room r nz by (simp add: encode_array_def field_wire_def packed_field_def o_def)
  next
    case items
    have "outputs (\<lambda>st. encode_unpacked_item m enc f st (item_addr d f (word_of_nat i)))
        (tag_wire (item_tag f) f @ item_wire subw f (v i))" if "i < ?n" for i
      unfolding encode_unpacked_item_def using at by (auto intro: outputs_seq [OF outputs_tag_for_field [OF vl] c [OF that]])
    from outputs_array [where g = "encode_unpacked_item m enc f" and c = "\<lambda>i. tag_wire (item_tag f) f @ item_wire subw f (v i)", OF f r le this] show ?thesis
      using items at room r nz u by (simp add: encode_array_def field_wire_def packed_field_def o_def)
  qed
qed

section \<open>The default check of proto3\<close>

lemma check_default_view:
  assumes f: "wire_field f" and v: "valid_field V f m d (d + scast (size_offset f))"
    and sub: "is_sub f \<Longrightarrow> valid_item V f m d \<Longrightarrow>
      (case pb_field_iter_begin (fields_at env (fptr f)) d of
         (nonempty, it) \<Rightarrow> if nonempty then iter_all (\<lambda>it. rec (iter_field it) (pData it)) it else Some True)
      = Some (\<forall>vs \<in> set (sub (fptr f) d). vs = [])"
  shows "check_default_body m env rec f d = Some (field_view sub f m d (d + scast (size_offset f)) = [])"
proof -
  let ?s = "d + scast (size_offset f)"
  have pf: "plain_field f" and at: "PB_ATYPE (ftype f) = PB_ATYPE_STATIC" using f by (simp_all add: wire_field_def)
  consider (req) "PB_HTYPE (ftype f) = PB_HTYPE_REQUIRED" | (rep) "PB_HTYPE (ftype f) = PB_HTYPE_REPEATED"
    | (flag) "PB_HTYPE (ftype f) = PB_HTYPE_OPTIONAL" "size_offset f \<noteq> 0"
    | (leaf) "PB_HTYPE (ftype f) = PB_HTYPE_OPTIONAL" "size_offset f = 0" "\<not> is_sub f"
    | (msg) "PB_HTYPE (ftype f) = PB_HTYPE_OPTIONAL" "size_offset f = 0" "is_sub f"
    using plain_fieldD(1) [OF pf] by blast
  then show ?thesis
  proof cases
    case rep
    then have "unat (rd32 m ?s) \<le> unat (array_size f)" using v by (simp add: valid_field_def word_le_nat_alt)
    with rep plain_fieldD(2) [OF pf] show ?thesis
      by (auto simp: check_default_body_def field_view_def Let_def unat_eq_0)
  next
    case leaf
    have "valid_item V f m d" using v leaf by (simp add: valid_field_def)
    from leaf_zero_view [OF f leaf(3) this] leaf at show ?thesis
      by (auto simp: check_default_body_def field_view_def Let_def leaf_zero_def is_sub_def)
  next
    case msg
    then have "valid_item V f m d" using v by (simp add: valid_field_def)
    from sub [OF msg(3) this] msg at show ?thesis
      by (simp add: check_default_body_def field_view_def Let_def is_sub_def item_view_def int_ltype_def)
  qed (simp_all add: check_default_body_def field_view_def Let_def safe_read_bool_def)
qed

lemma iter_all_at:
  assumes wf: "wf_fields fs" and P: "\<And>j. j < nfields fs \<Longrightarrow> P (iter_at fs a j) = Some (Q j)"
  shows "i < nfields fs \<Longrightarrow> iter_all P (iter_at fs a i) = Some (\<forall>j \<in> set [i..<nfields fs]. Q j)"
proof (induction "nfields fs - i" arbitrary: i)
  case 0
  then show ?case by simp
next
  case (Suc n)
  note nx = iter_next_at [OF wf Suc.prems, of a]
  have s: "set [i..<nfields fs] = insert i (set [Suc i..<nfields fs])" using Suc.prems by auto
  show ?case
  proof (cases "Suc i < nfields fs")
    case True
    have "iter_all P (iter_at fs a (Suc i)) = Some (\<forall>j \<in> set [Suc i..<nfields fs]. Q j)"
      using Suc.hyps(2) by (intro Suc.hyps(1) True) simp
    then show ?thesis using True nx P [OF Suc.prems] unfolding s
      by (simp add: iter_all.simps [of P "iter_at fs a i"] del: iter_at.simps split: bool.split)
  next
    case False
    then have "[Suc i..<nfields fs] = []" by simp
    then show ?thesis using False nx P [OF Suc.prems] unfolding s
      by (simp add: iter_all.simps [of P "iter_at fs a i"] del: iter_at.simps split: bool.split)
  qed
qed

lemma check_default_correct:
  assumes "wire_type (fields_at env) k fds sz" "valid_msg (fields_at env) k fds m a" "k \<le> n"
    and "i < nfields (fields_at env fds)"
  shows "pb_check_proto3_default_value m env n (entry (fields_at env) fds i) (data_at (fields_at env) fds a i)
    = Some (nth_or [] (msg_view (fields_at env) k fds m a) i = [])"
  using assms
proof (induction k arbitrary: n fds sz a i)
  case 0
  then show ?case by (simp add: wire_type_def)
next
  case (Suc k)
  let ?fa = "fields_at env"
  let ?f = "entry ?fa fds i" and ?d = "data_at ?fa fds a i"
  obtain n' where n: "n = Suc n'" "k \<le> n'" using Suc.prems(3) by (cases n) auto
  note t = wire_typeD [OF Suc.prems(1,4)]
  have wf: "wf_fields (?fa fds)" using Suc.prems(1) msg_typeD(1) unfolding wire_type_def by blast
  have s: "?d + scast (size_offset ?f) = size_at ?fa fds a i"
    using iter_size [OF wf Suc.prems(4)] t(1) plain_fieldD(1) [of ?f] by (auto simp: wire_field_def)
  have v: "valid_field (\<lambda>g p. valid_msg ?fa k g m p) ?f m ?d (?d + scast (size_offset ?f))"
    using Suc.prems(2,4) unfolding s by simp
  have sub: "(case pb_field_iter_begin (?fa (fptr ?f)) ?d of (nonempty, it) \<Rightarrow>
       if nonempty then iter_all (\<lambda>it. pb_check_proto3_default_value m env n' (iter_field it) (pData it)) it else Some True)
     = Some (\<forall>vs \<in> set (msg_view ?fa k (fptr ?f) m ?d). vs = [])" if b: "is_sub ?f" "valid_item (\<lambda>g p. valid_msg ?fa k g m p) ?f m ?d"
  proof -
    let ?fs = "?fa (fptr ?f)"
    have v': "valid_msg ?fa k (fptr ?f) m ?d" using b by (simp add: valid_item_def)
    obtain k' where k: "k = Suc k'" using v' by (cases k) auto
    have wf': "wf_fields ?fs" using t(2) [OF b(1)] msg_typeD(1) unfolding wire_type_def k by blast
    have "pb_check_proto3_default_value m env n' (iter_field (iter_at ?fs ?d j)) (pData (iter_at ?fs ?d j))
        = Some (nth_or [] (msg_view ?fa k (fptr ?f) m ?d) j = [])" if j: "j < nfields ?fs" for j
      using Suc.IH [OF t(2) [OF b(1)] v' n(2) j] iter_at_field [OF wf' j] iter_at_offset [of ?fs ?d j] by simp
    from iter_all_at [where P = "\<lambda>it. pb_check_proto3_default_value m env n' (iter_field it) (pData it)"
        and Q = "\<lambda>j. nth_or [] (msg_view ?fa k (fptr ?f) m ?d) j = []", OF wf' this, of 0] show ?thesis
      using wf_fields_tag [OF wf', of 0]
      by (cases "nfields ?fs = 0") (auto simp: k nth_or_def pb_field_iter_begin_def Let_def)
  qed
  from check_default_view [where env = env and rec = "pb_check_proto3_default_value m env n'"
      and sub = "\<lambda>g p. msg_view ?fa k g m p", OF t(1) v sub]
  show ?case using Suc.prems(4) by (simp add: n(1) s nth_or_def del: valid_msg.simps)
qed

section \<open>Fields\<close>

lemma enc_field:
  assumes f: "wire_field f" and s: "s = d + scast (size_offset f)" and v: "valid_field V f m d s"
    and pl: "placed d (data_width f)"
    and chk: "PB_HTYPE (ftype f) = PB_HTYPE_OPTIONAL \<Longrightarrow> size_offset f = 0 \<Longrightarrow>
      pb_check_proto3_default_value m env n f d = Some (field_view sub f m d s = [])"
    and item: "\<And>p. is_sub f \<Longrightarrow> V (fptr f) p \<Longrightarrow> placed p (unat (data_size f)) \<Longrightarrow>
      outputs (\<lambda>st. enc st (fptr f) p) (subw (fptr f) (sub (fptr f) p))"
  shows "outputs (\<lambda>st. encode_field m env n enc st f d) (field_wire subw f (field_view sub f m d s))"
proof -
  have pf: "plain_field f" and at: "PB_ATYPE (ftype f) = PB_ATYPE_STATIC" and vl: "valid_ltype (PB_LTYPE (ftype f))"
    using f by (simp_all add: wire_field_def)
  have d: "d \<noteq> 0" using pl by (simp add: placed_def)
  let ?x = "item_view sub f m d"
  have one: "outputs (\<lambda>st. pb_encoder m enc st f p) (item_wire subw f (item_view sub f m p))"
    if "valid_item V f m p" "placed p (unat (data_size f))" for p
    using that by (intro enc_item [OF f]) (auto simp: placed_def valid_item_def intro: item [unfolded placed_def])
  have tagged: "outputs (\<lambda>st. fseq (Some (pb_encode_tag_for_field st f)) (\<lambda>st. pb_encoder m enc st f d))
      (field_wire subw f [?x])" if "valid_item V f m d" "PB_HTYPE (ftype f) \<noteq> PB_HTYPE_REPEATED"
    using outputs_seq [OF outputs_tag_for_field [OF vl] one [OF that(1)]] that(2) pl
    by (simp add: field_wire_def packed_field_def data_span [OF f])
  have none: "outputs (\<lambda>st. Some (True, st)) (field_wire subw f [])"
    using outputs_return by (simp add: field_wire_def)
  consider (req) "PB_HTYPE (ftype f) = PB_HTYPE_REQUIRED" | (rep) "PB_HTYPE (ftype f) = PB_HTYPE_REPEATED"
    | (opt) "PB_HTYPE (ftype f) = PB_HTYPE_OPTIONAL"
    using plain_fieldD(1) [OF pf] by blast
  then show ?thesis
  proof cases
    case req
    then show ?thesis using tagged v at d
      by (simp add: encode_field_def encode_basic_field_def implicit_has_def field_view_def valid_field_def Let_def)
  next
    case opt
    show ?thesis
    proof (cases "size_offset f = 0")
      case True
      then show ?thesis using tagged none chk opt v at
        by (auto simp: encode_field_def encode_basic_field_def implicit_has_def field_view_def valid_field_def Let_def)
    next
      case False
      then show ?thesis using tagged none opt v at s
        by (auto simp: encode_field_def encode_basic_field_def implicit_has_def field_view_def valid_field_def
            safe_read_bool_def Let_def)
    qed
  next
    case rep
    have n: "rd32 m s \<le> array_size f" and vi: "valid_item V f m (item_addr d f (word_of_nat i))"
      if "i < unat (rd32 m s)" for i using v rep that by (simp_all add: valid_field_def)
    then have le: "unat (rd32 m s) \<le> unat (array_size f)" using v rep by (simp add: valid_field_def word_le_nat_alt)
    have "outputs (\<lambda>st. pb_encoder m enc st f (item_addr d f (word_of_nat i)))
        (item_wire subw f (item_view sub f m (item_addr d f (word_of_nat i))))" if i: "i < unat (rd32 m s)" for i
    proof (rule one [OF vi [OF i]])
      have "i < unat (array_size f)" using i le by simp
      then obtain k where "item_addr d f (word_of_nat i) = d + k" "unat k + unat (data_size f) \<le> data_width f"
        using item_offset [OF f rep] by metis
      then show "placed (item_addr d f (word_of_nat i)) (unat (data_size f))" using placed_inside [OF pl] by simp
    qed
    moreover have "\<exists>x. \<forall>i. item_view sub f m (item_addr d f (word_of_nat i)) = Scalar (x i)"
      if "PB_LTYPE (ftype f) = PB_LTYPE_FIXED32 \<or> PB_LTYPE (ftype f) = PB_LTYPE_FIXED64"
      using that by (auto simp: item_view_def int_ltype_def)
    ultimately have "outputs (\<lambda>st. encode_array m enc st f d (ucast (rd32 m s)))
        (field_wire subw f (map (\<lambda>i. item_view sub f m (item_addr d f (word_of_nat i))) [0..<unat (rd32 m s)]))"
      using v rep by (intro enc_array [OF f rep]) (simp_all add: valid_field_def)
    then show ?thesis using rep at s plain_fieldD(2) [OF pf] min_absorb1 [OF le]
      by (simp add: encode_field_def encode_basic_field_def implicit_has_def field_view_def Let_def)
  qed
qed

section \<open>Messages\<close>

lemma enc_fields_at:
  assumes wf: "wf_fields fs" and F: "\<And>j. j < nfields fs \<Longrightarrow> outputs (\<lambda>st. F st (iter_at fs a j)) (c j)"
  shows "i < nfields fs \<Longrightarrow> outputs (enc_fields F (iter_at fs a i)) (concat (map c [i..<nfields fs]))"
proof (induction "nfields fs - i" arbitrary: i)
  case 0
  then show ?case by simp
next
  case (Suc n)
  note nx = iter_next_at [OF wf Suc.prems, of a]
  have s: "concat (map c [i..<nfields fs]) = c i @ concat (map c [Suc i..<nfields fs])"
    using Suc.prems by (simp add: upt_conv_Cons)
  have unf: "enc_fields F (iter_at fs a i) = (\<lambda>st. fseq (F st (iter_at fs a i))
      (if Suc i < nfields fs then enc_fields F (iter_at fs a (Suc i)) else (\<lambda>st. Some (True, st))))"
    using nx by (intro ext) (auto simp: enc_fields.simps [of F "iter_at fs a i"] fseq_def simp del: iter_at.simps
        split: option.split prod.split)
  have "outputs (if Suc i < nfields fs then enc_fields F (iter_at fs a (Suc i)) else (\<lambda>st. Some (True, st)))
      (concat (map c [Suc i..<nfields fs]))"
    using Suc.hyps outputs_return by (auto simp del: iter_at.simps)
  from outputs_seq [OF F [OF Suc.prems] this] show ?case unfolding s unf .
qed

lemma encode_outputs:
  assumes "wire_type (fields_at env) k fds sz" "valid_msg (fields_at env) k fds m a" "placed a sz" "k < n"
  shows "outputs (\<lambda>st. pb_encode m env n st fds a)
    (msg_wire (fields_at env) k fds (msg_view (fields_at env) k fds m a))"
  using assms
proof (induction k arbitrary: n fds sz a)
  case 0
  then show ?case by (simp add: wire_type_def)
next
  case (Suc k)
  let ?fa = "fields_at env" and ?fs = "fields_at env fds"
  obtain n' where n: "n = Suc n'" "k < n'" using Suc.prems(4) by (cases n) auto
  have wf: "wf_fields ?fs" using Suc.prems(1) msg_typeD(1) unfolding wire_type_def by blast
  let ?F = "\<lambda>st it. if PB_LTYPE (ftype (iter_field it)) = PB_LTYPE_EXTENSION
                 then encode_extension_field m env n' (pb_encode m env n') st (pData it)
                 else encode_field m env n' (pb_encode m env n') st (iter_field it) (pData it)"
  let ?c = "\<lambda>i. field_wire (msg_wire ?fa k) (entry ?fa fds i) (nth_or [] (msg_view ?fa (Suc k) fds m a) i)"
  have F: "outputs (\<lambda>st. ?F st (iter_at ?fs a i)) (?c i)" if i: "i < nfields ?fs" for i
  proof -
    let ?f = "entry ?fa fds i" and ?d = "data_at ?fa fds a i" and ?s = "size_at ?fa fds a i"
    note t = wire_typeD [OF Suc.prems(1) i]
    have s: "?s = ?d + scast (size_offset ?f)"
      using iter_size [OF wf i] t(1) plain_fieldD(1) [of ?f] by (auto simp: wire_field_def)
    have v: "valid_field (\<lambda>g p. valid_msg ?fa k g m p) ?f m ?d ?s" using Suc.prems(2) i by simp
    have nv: "nth_or [] (msg_view ?fa (Suc k) fds m a) i = field_view (\<lambda>g p. msg_view ?fa k g m p) ?f m ?d ?s"
      using i by (simp add: nth_or_def)
    have chk: "pb_check_proto3_default_value m env n' ?f ?d
        = Some (field_view (\<lambda>g p. msg_view ?fa k g m p) ?f m ?d ?s = [])"
      using check_default_correct [OF Suc.prems(1,2) _ i, of n'] n(2) unfolding nv by simp
    have sub: "outputs (\<lambda>st. pb_encode m env n' st (fptr ?f) p) (msg_wire ?fa k (fptr ?f) (msg_view ?fa k (fptr ?f) m p))"
      if "is_sub ?f" "valid_msg ?fa k (fptr ?f) m p" "placed p (unat (data_size ?f))" for p
      by (rule Suc.IH [OF t(2) [OF that(1)] that(2,3) n(2)])
    have "outputs (\<lambda>st. encode_field m env n' (pb_encode m env n') st ?f ?d) (?c i)"
      unfolding nv 
      by (rule enc_field [where V = "\<lambda>g p. valid_msg ?fa k g m p" and sub = "\<lambda>g p. msg_view ?fa k g m p"
            and subw = "msg_wire ?fa k" and enc = "pb_encode m env n'", OF t(1) s v t(5) [OF Suc.prems(3)] chk sub])
    moreover have "iter_field (iter_at ?fs a i) = ?f" "pData (iter_at ?fs a i) = ?d"
      using iter_at_field [OF wf i] iter_at_offset [of ?fs a i] by simp_all
    moreover have "PB_LTYPE (ftype ?f) \<noteq> PB_LTYPE_EXTENSION"
      using t(1) by (auto simp: wire_field_def no_extension)
    ultimately show ?thesis by simp
  qed
  show ?case
  proof (cases "nfields ?fs = 0")
    case True
    then have "pb_encode m env n st fds a = Some (True, st)" for st :: "obuf pb_ostream"
      using wf_fields_tag [OF wf, of 0] by (simp add: n(1) pb_encode_body_def pb_field_iter_begin_def Let_def)
    then show ?thesis using True outputs_return by simp
  next
    case False
    then have "pb_encode m env n st fds a = enc_fields ?F (iter_at ?fs a 0) st" for st
      using wf_fields_tag [OF wf, of 0] by (simp add: n(1) pb_encode_body_def pb_field_iter_begin_def Let_def)
    moreover have "outputs (enc_fields ?F (iter_at ?fs a 0)) (concat (map ?c [0..<nfields ?fs]))"
      by (rule enc_fields_at [where F = ?F and c = ?c, OF wf F]) (use False in simp_all)
    ultimately show ?thesis by simp
  qed
qed

section \<open>The encoder\<close>

lemma encoded_size_wire:
  fixes env :: "obuf pb_enc_env"
  assumes "wire_type (fields_at env) k fds sz" "valid_msg (fields_at env) k fds m src" "placed src sz" "k < n"
  shows "pb_get_encoded_size m env n s fds src
    = Some (Some (word_of_nat (length (msg_wire (fields_at env) k fds (msg_view (fields_at env) k fds m src)))))"
  using outputs_sizing [OF encode_outputs [OF assms], of "PB_OSTREAM_SIZING s"] by (auto simp: pb_get_encoded_size_def)

lemma encoded_wire:
  assumes "wire_type (fields_at env) k fds sz" "valid_msg (fields_at env) k fds m src" "placed src sz" "k < n"
    and l: "length (msg_wire (fields_at env) k fds (msg_view (fields_at env) k fds m src)) \<le> unat lim" "unat lim \<le> length buf"
  shows "\<exists>st. pb_encode m env n (pb_ostream_from_buffer buf lim) fds src = Some (True, st)
    \<and> bufsink.appends (pb_ostream_from_buffer buf lim) (msg_wire (fields_at env) k fds (msg_view (fields_at env) k fds m src)) st"
  using outputs_buffer [OF encode_outputs [OF assms(1-4)], of "pb_ostream_from_buffer buf lim"]
    l ostream_from_buffer_into [OF l(2)] by (simp add: into_ok_def bufsink.fits_def)

text \<open>
  C2: the encoder implements the wire format. For a message type with static fields, required,
  optional or repeated, whose submessages nest to a bounded depth, and for a structure whose counts
  and lengths are inside their arrays, \<open>pb_get_encoded_size\<close> returns the length of the wire format of
  the value that the structure stands for, and \<open>pb_encode\<close> writes exactly that to every buffer with
  room for it.
\<close>

theorem encode_refines_wire:
  fixes env :: "obuf pb_enc_env"
  assumes "wire_type (fields_at env) k fds sz" "valid_msg (fields_at env) k fds m src" "placed src sz" "k < n"
    and "wire = msg_wire (fields_at env) k fds (msg_view (fields_at env) k fds m src)"
  shows "pb_get_encoded_size m env n s fds src = Some (Some (word_of_nat (length wire)))
    \<and> (\<forall>buf lim. length wire \<le> unat lim \<longrightarrow> unat lim \<le> length buf \<longrightarrow>
         (\<exists>st. pb_encode m env n (pb_ostream_from_buffer buf lim) fds src = Some (True, st)
            \<and> buf_out (ostate st) = wire \<and> unat (bytes_written st) = length wire))"
  using encoded_size_wire [OF assms(1-4)] encoded_wire [OF assms(1-4)] assms(5) by (fastforce simp: bufsink.appends_def)

text \<open>A structure of the sample type: the name AB, the submessage of the numbers 5 and 6, and 150.\<close>

definition sample_struct :: mem where
  "sample_struct = mem_write (\<lambda>_. 0) 0x1000
     [1, 65, 66, 0, 0, 0, 0, 0, 0, 0, 0, 1, 2, 0, 0, 0, 5, 0, 0, 0, 6, 0, 0, 0, 0, 0, 0, 0, 150, 0, 0, 0]"

definition sample_value :: "val list list" where
  "sample_value = [[Text [65, 66]], [Message [[Scalar 5, Scalar 6]]], [Scalar 150]]"

definition sample_bytes :: bytes where
  "sample_bytes = [0x0a, 2, 65, 66, 0x12, 10, 0x0a, 8, 5, 0, 0, 0, 6, 0, 0, 0, 0x18, 0x96, 1]"

lemma sample_type: "wire_type sample_types 2 1 32"
proof -
  have "msg_type False sample_types 2 1 32" "plain_type sample_types 2 1" by code_simp+
  then show ?thesis by (simp only: wire_type_def)
qed

lemma sample_struct_is:
  "valid_msg sample_types 2 1 sample_struct 0x1000" "msg_view sample_types 2 1 sample_struct 0x1000 = sample_value"
  "msg_wire sample_types 2 1 sample_value = sample_bytes"
  by code_simp+

lemma sample_placed: "placed 0x1000 32" "placed 0x2000 32"
  by (simp_all add: placed_def)

theorem encode_refines_wire_witness:
  "pb_get_encoded_size sample_struct (no_callbacks sample_types) 3 (([], 0) :: obuf) 1 0x1000 = Some (Some 19)
   \<and> (\<exists>st. pb_encode sample_struct (no_callbacks sample_types) 3 (pb_ostream_from_buffer (replicate 20 0) 20) 1 0x1000
       = Some (True, st) \<and> buf_out (ostate st) = sample_bytes)"
proof -
  have f: "fields_at (no_callbacks sample_types) = sample_types" by (simp add: no_callbacks_def)
  have l: "length sample_bytes = 19" by (simp add: sample_bytes_def)
  have k: "(2 :: nat) < 3" by simp
  have e: "sample_bytes = msg_wire sample_types 2 1 (msg_view sample_types 2 1 sample_struct 0x1000)"
    by (simp only: sample_struct_is)
  note r = encode_refines_wire [of "no_callbacks sample_types" 2 1 32 sample_struct "0x1000" 3 sample_bytes "([], 0)",
      unfolded f, OF sample_type sample_struct_is(1) sample_placed(1) k e, unfolded l]
  from conjunct2 [OF r, THEN spec, of "replicate 20 0", THEN spec, of 20] conjunct1 [OF r] show ?thesis by auto
qed

end
