(* ===== verification/Pb_Wire_Decode.thy ===== *)
theory Pb_Wire_Decode
  imports Pb_Value
begin

text \<open>The decoder of nanopb reads the wire format back into a structure of the same value.\<close>

section \<open>Items\<close>

lemma good_is_buf: "bufsrc.good st \<Longrightarrow> is_buf_read (isource st)"
  by (cases "isource st") (simp_all add: bufsrc.good_def)

lemma length_left: "bufsrc.good st \<Longrightarrow> length bs < 2 ^ 32 \<Longrightarrow> unat (word_of_nat (length bs) :: u64) = length bs"
  by simp

lemma delimited_reads:
  assumes g: "bufsrc.good st" and r: "bufsrc.rest st = delimited bs @ ts" and l: "length bs < 4294967296"
  shows "\<exists>st1. pb_decode_varint32 st = (Some (word_of_nat (length bs)), st1)
    \<and> bufsrc.reads st (length (delimited bs) - length bs) st1 \<and> bufsrc.good st1 \<and> bufsrc.rest st1 = bs @ ts"
proof -
  let ?n = "word_of_nat (length bs) :: u64"
  have u: "unat ?n = length bs" using l by simp
  have "unat (ucast ?n :: u32) = length bs" using u l by (simp add: unsigned_ucast_eq take_bit_eq_mod)
  then have "(ucast ?n :: u32) = word_of_nat (length bs)" by (rule word_of_nat_if_unat)
  moreover have "bufsrc.rest st = varint_list ?n @ bs @ ts" using r by (simp add: delimited_def)
  moreover have "unat ?n < 2 ^ 32" using u l by simp
  ultimately obtain st1 where "pb_decode_varint32 st = (Some (word_of_nat (length bs)), st1)"
    "bufsrc.reads st (length (varint_list ?n)) st1"
    using bufsrc.decode_varint32_reads [OF g, of ?n "bs @ ts"] by auto
  then show ?thesis using r by (simp add: bufsrc.reads_def delimited_def)
qed

lemma read_into_reads:
  assumes g: "bufsrc.good st" and r: "bufsrc.rest st = bs @ ts" and l: "length bs = unat count" and p: "p \<noteq> 0"
  shows "\<exists>st'. read_into st p count w = (True, st', put_bytes p bs w) \<and> bufsrc.reads st (length bs) st'"
proof -
  have "count \<le> bytes_left st" using bufsrc.left_of_rest [OF g r] l by (simp add: word_le_nat_alt)
  from bufsrc.read_True_reads [OF g this] show ?thesis using r l p by (auto simp: read_into_def)
qed

lemma put_bytes_at: "wmem (put_bytes a bs w) x = (if unat (x - a) < length bs then bs ! unat (x - a) else wmem w x)"
  by (simp add: put_bytes_def mem_write_at)

lemma put_agree:
  "A \<inter> span a 1 = {} \<Longrightarrow> agree A (wmem w) (wmem (put8 a v8 w))"
  "A \<inter> span a 4 = {} \<Longrightarrow> agree A (wmem w) (wmem (put32 a v32 w))"
  "A \<inter> span a (length bs) = {} \<Longrightarrow> agree A (wmem w) (wmem (put_bytes a bs w))"
  by (rule within_agree [OF within_put(1)] within_agree [OF within_put(2)] within_agree [OF within_put(4)]; auto)+

lemma mem_read_append: "mem_read m a (i + j) = mem_read m a i @ mem_read m (a + word_of_nat i) j"
  by (rule nth_equalityI) (auto simp: mem_read_def nth_append add.assoc simp flip: of_nat_add)

lemma mem_read_put_bytes:
  "length bs \<le> 18446744073709551616 \<Longrightarrow> mem_read (wmem (put_bytes a bs w)) a (length bs) = bs"
  by (simp add: put_bytes_def mem_simps)

lemma int_load_bytes:
  "mem_read m' d (unat sz) = mem_read m p (unat sz) \<Longrightarrow> int_load lt m' sz d = int_load lt m sz p"
  using mem_read_1 [of m' d] mem_read_1 [of m p]
  by (auto simp: int_load_def load_signed_def load_unsigned_def rd16_def rd32_def rd64_def)

lemma placed_plus:
  assumes "placed a n" "unat b \<le> n"
  shows "a + b \<noteq> 0" "a \<noteq> 0"
  using placed_inside [of a n b 0] assms by (simp_all add: placed_def)

lemma word_fits_u32: "length bs < 4294967296 \<Longrightarrow> unat (word_of_nat (length bs) :: u32) = length bs"
  by simp

lemma dec_bytes_reads:
  fixes st :: "'s pb_istream" and w :: "'h world"
  assumes at: "PB_ATYPE (ftype f) = PB_ATYPE_STATIC" and g: "bufsrc.good st"
    and r: "bufsrc.rest st = delimited bs @ ts" and l: "length bs + 4 \<le> unat (data_size f)"
    and d: "placed d (unat (data_size f))"
  shows "\<exists>st' w'. pb_dec_bytes env st f d w = (True, st', w') \<and> bufsrc.reads st (length (delimited bs)) st'
    \<and> rd32 (wmem w') d = word_of_nat (length bs) \<and> mem_read (wmem w') (d + 4) (length bs) = bs"
proof -
  have lt: "length bs < 4294967296" using l unat_u32_lt [of "data_size f"] by simp
  let ?sz = "word_of_nat (length bs) :: u32"
  have u: "unat (ucast ?sz :: u64) = length bs" using lt by (simp add: unat_ucast_u32_u64)
  from delimited_reads [OF g r lt] obtain st1 where
    v: "pb_decode_varint32 st = (Some ?sz, st1)" "bufsrc.reads st (length (delimited bs) - length bs) st1"
    and g1: "bufsrc.good st1" "bufsrc.rest st1 = bs @ ts" by blast
  have al: "unat (PB_BYTES_ARRAY_T_ALLOCSIZE (ucast ?sz)) = length bs + 4"
    unfolding PB_BYTES_ARRAY_T_ALLOCSIZE_def using lt by (subst unat_plus_no_overflow_u64) (simp_all add: u)
  have "\<not> PB_BYTES_ARRAY_T_ALLOCSIZE (ucast ?sz) < ucast ?sz"
    "\<not> ucast (data_size f) < PB_BYTES_ARRAY_T_ALLOCSIZE (ucast ?sz)"
    using l lt by (simp_all add: word_less_nat_alt al unat_ucast_u32_u64)
  moreover have "d + 4 \<noteq> 0" using placed_plus [OF d, of 4] l by simp
  from read_into_reads [OF g1, of "ucast ?sz", OF _ this, of "put32 d ?sz w"] u obtain st' where
    ri: "read_into st1 (d + 4) (ucast ?sz) (put32 d ?sz w) = (True, st', put_bytes (d + 4) bs (put32 d ?sz w))"
    "bufsrc.reads st1 (length bs) st'" by auto
  ultimately have "pb_dec_bytes env st f d w = (True, st', put_bytes (d + 4) bs (put32 d ?sz w))"
    using v at by (simp add: pb_dec_bytes_def Let_def)
  moreover have "bufsrc.reads st (length (delimited bs)) st'"
    using bufsrc.reads_trans [OF v(2) ri(2)] by (simp add: delimited_def)
  moreover have "rd32 (wmem (put_bytes (d + 4) bs (put32 d ?sz w))) d = ?sz"
  proof -
    have "span (d + 0) 4 \<inter> span (d + 4) (length bs) = {}"
      using lt by (intro apart_spans) (simp_all add: apart_iff)
    then have "agree (span d 4) (wmem (put32 d ?sz w)) (wmem (put_bytes (d + 4) bs (put32 d ?sz w)))"
      by (intro put_agree) simp
    from rd_cong(3) [OF this] show ?thesis by (simp add: put32_def mem_simps)
  qed
  moreover have "mem_read (wmem (put_bytes (d + 4) bs (put32 d ?sz w))) (d + 4) (length bs) = bs"
    using lt by (intro mem_read_put_bytes) simp
  ultimately show ?thesis by blast
qed

lemma takeWhile_zero:
  fixes xs :: "bytes"
  assumes "0 \<in> set xs"
  shows "length (takeWhile (\<lambda>b. b \<noteq> 0) xs) < length xs"
proof -
  have "takeWhile (\<lambda>b. b \<noteq> 0) xs \<noteq> xs" using assms by (metis (mono_tags, lifting) takeWhile_eq_all_conv)
  then show ?thesis by (metis (full_types) le_neq_implies_less length_takeWhile_le takeWhile_eq_take take_all_iff linorder_not_le)
qed

lemma dec_string_reads:
  fixes st :: "'s pb_istream" and w :: "'h world"
  assumes at: "PB_ATYPE (ftype f) = PB_ATYPE_STATIC" and g: "bufsrc.good st"
    and r: "bufsrc.rest st = delimited bs @ ts" and l: "length bs < unat (data_size f)"
    and z: "0 \<notin> set bs" and d: "placed d (unat (data_size f))"
  shows "\<exists>st' w'. pb_dec_string env st f d w = (True, st', w') \<and> bufsrc.reads st (length (delimited bs)) st'
    \<and> takeWhile (\<lambda>b. b \<noteq> 0) (mem_read (wmem w') d (unat (data_size f))) = bs"
proof -
  have lt: "Suc (length bs) < 4294967296" using l unat_u32_lt [of "data_size f"] by simp
  let ?sz = "word_of_nat (length bs) :: u32"
  have u: "unat (ucast ?sz :: u64) = length bs" using lt by (simp add: unat_ucast_u32_u64)
  have e: "ucast ?sz = (word_of_nat (length bs) :: u64)" using u by (rule word_of_nat_if_unat)
  have s0: "unat ?sz = length bs" and s1: "unat (?sz + 1) = Suc (length bs)" using lt by (simp_all add: unat_word_ariths)
  from delimited_reads [OF g r] lt obtain st1 where
    v: "pb_decode_varint32 st = (Some ?sz, st1)" "bufsrc.reads st (length (delimited bs) - length bs) st1"
    and g1: "bufsrc.good st1" "bufsrc.rest st1 = bs @ ts" by auto
  let ?w1 = "put_bytes d bs w"
  let ?w2 = "put8 (d + word_of_nat (length bs)) 0 ?w1"
  have "d \<noteq> 0" using d by (simp add: placed_def)
  from read_into_reads [OF g1, of "ucast ?sz", OF _ this, of w] u obtain st' where
    ri: "read_into st1 d (ucast ?sz) w = (True, st', ?w1)" "bufsrc.reads st1 (length bs) st'" by auto
  have "\<not> (ucast (?sz + 1) :: u64) < ucast ?sz" "\<not> ucast (data_size f) < (ucast (?sz + 1) :: u64)"
    unfolding word_less_nat_alt unat_ucast_u32_u64 s0 s1 using l by simp_all
  then have "pb_dec_string env st f d w = (True, st', ?w2)"
    using v at ri by (simp add: pb_dec_string_def Let_def e)
  moreover have "bufsrc.reads st (length (delimited bs)) st'"
    using bufsrc.reads_trans [OF v(2) ri(2)] by (simp add: delimited_def)
  moreover have "takeWhile (\<lambda>b. b \<noteq> 0) (mem_read (wmem ?w2) d (unat (data_size f))) = bs"
  proof -
    obtain k where k: "unat (data_size f) = length bs + Suc k" using l less_imp_Suc_add by fastforce
    have "span (d + 0) (length bs) \<inter> span (d + word_of_nat (length bs)) 1 = {}"
      using lt by (intro apart_spans) (simp_all add: apart_iff)
    then have "agree (span d (length bs)) (wmem ?w1) (wmem ?w2)" by (intro put_agree) simp
    from mem_read_cong_0 [OF this, of "length bs"] have "mem_read (wmem ?w2) d (length bs) = bs"
      using lt by (simp add: mem_read_put_bytes)
    moreover have "rd8 (wmem ?w2) (d + word_of_nat (length bs)) = 0" by (simp add: put8_def mem_simps)
    ultimately have "mem_read (wmem ?w2) d (unat (data_size f))
        = bs @ 0 # mem_read (wmem ?w2) (d + word_of_nat (length bs) + 1) k"
      unfolding k mem_read_append mem_read_Suc by simp
    then show ?thesis using z by (simp add: takeWhile_append2 takeWhile_append)
  qed
  ultimately show ?thesis by blast
qed

lemma dec_fixed_length_reads:
  fixes st :: "'s pb_istream" and w :: "'h world"
  assumes g: "bufsrc.good st" and r: "bufsrc.rest st = delimited bs @ ts" and l: "length bs = unat (data_size f)"
    and d: "d \<noteq> 0"
  shows "\<exists>st' w'. pb_dec_fixed_length_bytes st f d w = (True, st', w') \<and> bufsrc.reads st (length (delimited bs)) st'
    \<and> mem_read (wmem w') d (unat (data_size f)) = bs"
proof -
  have lt: "length bs < 4294967296" using l unat_u32_lt [of "data_size f"] by simp
  have sz: "data_size f = word_of_nat (length bs)" using l by (intro word_of_nat_if_unat) simp
  have u: "unat (ucast (data_size f) :: u64) = length bs" using l by (simp add: unat_ucast_u32_u64)
  from delimited_reads [OF g r lt] obtain st1 where
    v: "pb_decode_varint32 st = (Some (data_size f), st1)" "bufsrc.reads st (length (delimited bs) - length bs) st1"
    and g1: "bufsrc.good st1" "bufsrc.rest st1 = bs @ ts" unfolding sz by blast
  show ?thesis
  proof (cases "data_size f = 0")
    case True
    then have "bs = []" using l by simp
    with True v show ?thesis by (simp add: pb_dec_fixed_length_bytes_def delimited_def mem_read_def)
  next
    case False
    from read_into_reads [OF g1, of "ucast (data_size f)", OF _ d, of w] u obtain st' where
      ri: "read_into st1 d (ucast (data_size f)) w = (True, st', put_bytes d bs w)" "bufsrc.reads st1 (length bs) st'" by auto
    have "bufsrc.reads st (length (delimited bs)) st'"
      using bufsrc.reads_trans [OF v(2) ri(2)] by (simp add: delimited_def)
    moreover have "mem_read (wmem (put_bytes d bs w)) d (unat (data_size f)) = bs"
      using lt mem_read_put_bytes [of bs d w] by (simp add: l [symmetric])
    ultimately show ?thesis using False v ri(1) by (simp add: pb_dec_fixed_length_bytes_def)
  qed
qed

text \<open>
  An item is decoded to the value that was encoded. \<open>S m\<close> are the views of submessages in the memory
  \<open>m\<close>; the recursive call is relied on for them.
\<close>

lemma dec_item_reads:
  fixes st :: "'s pb_istream" and w :: "'h world"
  assumes f: "wire_field f" and v: "valid_item V f m p" and g: "bufsrc.good st"
    and r: "bufsrc.rest st = item_wire subw f (item_view (S m) f m p) @ ts"
    and l: "length (item_wire subw f (item_view (S m) f m p)) < 4294967296"
    and d: "placed d (unat (data_size f))"
    and sub: "\<And>s. is_sub f \<Longrightarrow> V (fptr f) p \<Longrightarrow> bufsrc.good s \<Longrightarrow>
      bufsrc.rest s = subw (fptr f) (S m (fptr f) p) \<Longrightarrow> length (subw (fptr f) (S m (fptr f) p)) < 4294967296 \<Longrightarrow>
      \<exists>s' w'. dec (PB_HTYPE (ftype f) = PB_HTYPE_REPEATED) s (fptr f) d w = Some (True, s', w')
        \<and> bufsrc.reads s (length (subw (fptr f) (S m (fptr f) p))) s' \<and> S (wmem w') (fptr f) d = S m (fptr f) p"
  shows "\<exists>st' w'. pb_decoder env dec st f d w = Some (True, st', w')
    \<and> bufsrc.reads st (length (item_wire subw f (item_view (S m) f m p))) st'
    \<and> item_view (S (wmem w')) f (wmem w') d = item_view (S m) f m p"
proof -
  let ?lt = "PB_LTYPE (ftype f)" and ?n = "unat (data_size f)" and ?x = "item_view (S m) f m p"
  have pf: "plain_field f" and at: "PB_ATYPE (ftype f) = PB_ATYPE_STATIC" and vl: "valid_ltype ?lt"
    using f by (simp_all add: wire_field_def)
  note pd = plain_fieldD [OF pf]
  have d0: "d \<noteq> 0" using d by (simp add: placed_def)
  consider (bool) "?lt = PB_LTYPE_BOOL" | (int) "int_ltype ?lt" | (f32) "?lt = PB_LTYPE_FIXED32"
    | (f64) "?lt = PB_LTYPE_FIXED64" | (bytes) "?lt = PB_LTYPE_BYTES" | (string) "?lt = PB_LTYPE_STRING"
    | (msg) "?lt = PB_LTYPE_SUBMESSAGE" | (len) "?lt = PB_LTYPE_FIXED_LENGTH_BYTES"
    using vl by (auto simp: valid_ltype_def int_ltype_def)
  then show ?thesis
  proof cases
    case bool
    let ?b = "if rd8 m p \<noteq> 0 then 1 else 0 :: u64"
    have "bufsrc.rest st = varint_list ?b @ ts" using r bool by (simp add: item_view_def int_code_def)
    moreover have "unat ?b < 2 ^ 32" by simp
    ultimately obtain st' where "pb_decode_varint32 st = (Some (ucast ?b), st')"
      "bufsrc.reads st (length (varint_list ?b)) st'" using bufsrc.decode_varint32_reads [OF g] by blast
    then show ?thesis using bool
      by (auto simp: pb_decoder_def pb_dec_bool_def item_view_def int_code_def put8_def mem_simps)
  next
    case int
    then obtain x where x: "int_load ?lt m (data_size f) p = Some x" using int_load_plain [OF pd(6)] by blast
    have xv: "?x = Scalar x" using int x by (auto simp: item_view_def int_ltype_def)
    then have xw: "item_wire subw f ?x = varint_list (int_code ?lt x)" using int by (auto simp: int_ltype_def)
    from bufsrc.decode_varint_reads [OF g r [unfolded xw]] obtain st' where
      st': "pb_decode_varint st = (Some (int_code ?lt x), st')" "bufsrc.reads st (length (item_wire subw f ?x)) st'"
      unfolding xw by blast
    from int_decoder [OF int st'(1) x, of env dec d w] obtain w' where
      w': "pb_decoder env dec st f d w = Some (True, st', w')" "mem_read (wmem w') d ?n = mem_read m p ?n" by blast
    have "item_view (S (wmem w')) f (wmem w') d = ?x"
      using int_load_bytes [OF w'(2), of ?lt] x int unfolding xv by (auto simp: item_view_def int_ltype_def)
    then show ?thesis using w'(1) st'(2) by blast
  next
    case f32
    have "bufsrc.rest st = le_bytes 4 (rd32 m p) @ ts" using r f32 by (simp add: item_view_def int_ltype_def le_bytes_4_ucast)
    from bufsrc.decode_fixed32_reads [OF g this] f32 show ?thesis
      by (auto simp: pb_decoder_def pb_dec_fixed32_def item_view_def int_ltype_def put32_def mem_simps)
  next
    case f64
    have "bufsrc.rest st = le_bytes 8 (rd64 m p) @ ts" using r f64 by (simp add: item_view_def int_ltype_def)
    from bufsrc.decode_fixed64_reads [OF g this] f64 show ?thesis
      by (auto simp: pb_decoder_def pb_dec_fixed64_def item_view_def int_ltype_def put64_def mem_simps)
  next
    case bytes
    have le: "unat (rd32 m p) + 4 \<le> ?n" using v bytes unfolding valid_item_def uint_nat by linarith
    have mn: "min (unat (rd32 m p)) (?n - 4) = unat (rd32 m p)" using le by simp
    let ?bs = "mem_read m (p + 4) (unat (rd32 m p))"
    have xv: "?x = Text ?bs" using bytes mn by (simp add: item_view_def int_ltype_def Let_def)
    from dec_bytes_reads [OF at g r [unfolded xv item_wire.simps] _ d, of env w] le obtain st' w' where
      st': "pb_dec_bytes env st f d w = (True, st', w')" "bufsrc.reads st (length (delimited ?bs)) st'"
      "rd32 (wmem w') d = rd32 m p" "mem_read (wmem w') (d + 4) (unat (rd32 m p)) = ?bs" by auto
    then have "item_view (S (wmem w')) f (wmem w') d = ?x"
      unfolding xv using bytes mn by (simp add: item_view_def int_ltype_def Let_def)
    then show ?thesis using st'(1,2) bytes xv by (auto simp: pb_decoder_def)
  next
    case string
    let ?bs = "takeWhile (\<lambda>b. b \<noteq> 0) (mem_read m p ?n)"
    have xv: "?x = Text ?bs" using string by (simp add: item_view_def int_ltype_def)
    have "length ?bs < ?n" using takeWhile_zero [of "mem_read m p ?n"] v string by (simp add: valid_item_def)
    moreover have "0 \<notin> set ?bs" by (auto dest: set_takeWhileD)
    ultimately obtain st' w' where
      st': "pb_dec_string env st f d w = (True, st', w')" "bufsrc.reads st (length (delimited ?bs)) st'"
      "takeWhile (\<lambda>b. b \<noteq> 0) (mem_read (wmem w') d ?n) = ?bs"
      using dec_string_reads [OF at g r [unfolded xv item_wire.simps] _ _ d, of env w] by auto
    then show ?thesis using string xv by (auto simp: pb_decoder_def item_view_def int_ltype_def)
  next
    case len
    let ?bs = "mem_read m p ?n"
    have xv: "?x = Text ?bs" using len by (simp add: item_view_def int_ltype_def)
    from dec_fixed_length_reads [OF g r [unfolded xv item_wire.simps] _ d0, of f w] obtain st' w' where
      st': "pb_dec_fixed_length_bytes st f d w = (True, st', w')" "bufsrc.reads st (length (delimited ?bs)) st'"
      "mem_read (wmem w') d ?n = ?bs" by auto
    then show ?thesis using len xv by (auto simp: pb_decoder_def item_view_def int_ltype_def)
  next
    case msg
    let ?bs = "subw (fptr f) (S m (fptr f) p)" and ?rep = "PB_HTYPE (ftype f) = PB_HTYPE_REPEATED"
    have s: "is_sub f" using msg by (simp add: is_sub_def)
    have V: "V (fptr f) p" using v s by (simp add: valid_item_def)
    have xv: "?x = Message (S m (fptr f) p)" using msg by (simp add: item_view_def int_ltype_def)
    have lb: "length ?bs < 4294967296" using l unfolding xv by (simp add: delimited_def)
    have r': "bufsrc.rest st = varint_list (word_of_nat (length ?bs)) @ ?bs @ ts"
      using r unfolding xv by (simp add: delimited_def)
    have u: "length ?bs = unat (word_of_nat (length ?bs) :: u64)" "unat (word_of_nat (length ?bs) :: u64) < 2 ^ 32"
      using lb by simp_all
    from bufsrc.make_substream_reads [OF g r' u] obtain s1 st1 where
      ms: "pb_make_string_substream st = (Some s1, st1)" "bufsrc.good s1" "bufsrc.rest s1 = ?bs" by blast
    from sub [OF s V ms(2,3) lb] obtain s2 w' where
      c: "dec ?rep s1 (fptr f) d w = Some (True, s2, w')" "bufsrc.reads s1 (length ?bs) s2"
      "S (wmem w') (fptr f) d = S m (fptr f) p" by blast
    from bufsrc.substream_reads [OF g r' u ms(1) c(2)] obtain st2 where
      cl: "pb_close_string_substream st1 s2 = (True, st2)" "bufsrc.reads st (length (delimited ?bs)) st2"
      unfolding delimited_def by blast
    have "pb_decoder env dec st f d w = Some (True, st2, w')"
      using msg pd(9) [OF s] ms(1) c(1) cl(1) by (simp add: pb_decoder_def pb_dec_submessage_def)
    moreover have "item_view (S (wmem w')) f (wmem w') d = ?x"
      unfolding xv using msg c(3) by (simp add: item_view_def int_ltype_def)
    ultimately show ?thesis using cl(2) unfolding xv by auto
  qed
qed

section \<open>Fresh structures\<close>

text \<open>
  A structure with the defaults: the flags and counters are zero, and so are the data of a field
  without a flag, and the structure of a single submessage is fresh itself.
\<close>

definition fresh_field :: "(addr \<Rightarrow> addr \<Rightarrow> bool) \<Rightarrow> pb_field \<Rightarrow> mem \<Rightarrow> addr \<Rightarrow> addr \<Rightarrow> bool" where
  "fresh_field sub f m d s \<longleftrightarrow>
     (if PB_HTYPE (ftype f) = PB_HTYPE_REPEATED then rd32 m s = 0
      else (PB_HTYPE (ftype f) = PB_HTYPE_OPTIONAL \<longrightarrow>
             (if size_offset f \<noteq> 0 then rd8 m s = 0
              else is_sub f \<or> (\<forall>b \<in> set (mem_read m d (unat (data_size f))). b = 0)))
           \<and> (is_sub f \<longrightarrow> sub (fptr f) d))"

fun fresh :: "(addr \<Rightarrow> pb_field list) \<Rightarrow> nat \<Rightarrow> addr \<Rightarrow> mem \<Rightarrow> addr \<Rightarrow> bool" where
  "fresh fa 0 fds m a \<longleftrightarrow> True"
| "fresh fa (Suc k) fds m a \<longleftrightarrow>
     (\<forall>i < nfields (fa fds). fresh_field (\<lambda>g p. fresh fa k g m p) (entry fa fds i) m
        (data_at fa fds a i) (size_at fa fds a i))"

lemma fresh_field_cong:
  assumes f: "wire_field f" and a: "agree (footprint f d s) m m'"
    and sub: "is_sub f \<Longrightarrow> PB_HTYPE (ftype f) \<noteq> PB_HTYPE_REPEATED \<Longrightarrow> agree (span d (unat (data_size f))) m m' \<Longrightarrow>
      sub (fptr f) d \<Longrightarrow> sub' (fptr f) d"
    and h: "fresh_field sub f m d s"
  shows "fresh_field sub' f m' d s"
proof -
  have sz: "agree (span s (size_width f)) m m'" by (rule agree_mono [OF a]) (simp add: footprint_def)
  show ?thesis
  proof (cases "PB_HTYPE (ftype f) = PB_HTYPE_REPEATED")
    case True
    have "rd32 m' s = rd32 m s" by (rule rd_cong(3) [OF sz]) (simp_all add: size_width_def True)
    then show ?thesis using True h by (simp add: fresh_field_def)
  next
    case False
    have dt: "agree (span d (unat (data_size f))) m m'"
      by (rule agree_mono [OF a]) (simp add: footprint_def data_span [OF f False])
    have "rd8 m' s = rd8 m s" if "PB_HTYPE (ftype f) = PB_HTYPE_OPTIONAL" "size_offset f \<noteq> 0"
      by (rule rd_cong(1) [OF sz]) (use that in \<open>simp_all add: size_width_def\<close>)
    moreover have "mem_read m' d (unat (data_size f)) = mem_read m d (unat (data_size f))"
      using mem_read_cong_0 [OF dt] unat_u32_lt [of "data_size f"] by simp
    ultimately show ?thesis using False h sub [OF _ False dt] by (auto simp: fresh_field_def)
  qed
qed

lemma fresh_cong:
  "wire_type fa k fds sz \<Longrightarrow> agree (span a sz) m m' \<Longrightarrow> fresh fa k fds m a \<Longrightarrow> fresh fa k fds m' a"
proof (induction k arbitrary: fds sz a)
  case (Suc k)
  have "fresh_field (\<lambda>g p. fresh fa k g m' p) (entry fa fds i) m' (data_at fa fds a i) (size_at fa fds a i)"
    if i: "i < nfields (fa fds)" for i
  proof (rule fresh_field_cong)
    note t = wire_typeD [OF Suc.prems(1) i]
    show "wire_field (entry fa fds i)" by (rule t)
    show "agree (footprint (entry fa fds i) (data_at fa fds a i) (size_at fa fds a i)) m m'"
      by (rule agree_mono [OF Suc.prems(2) t(3)])
    show "fresh_field (\<lambda>g p. fresh fa k g m p) (entry fa fds i) m (data_at fa fds a i) (size_at fa fds a i)"
      using Suc.prems(3) i by simp
    show "fresh fa k (fptr (entry fa fds i)) m' (data_at fa fds a i)"
      if "is_sub (entry fa fds i)" "agree (span (data_at fa fds a i) (unat (data_size (entry fa fds i)))) m m'"
        "fresh fa k (fptr (entry fa fds i)) m (data_at fa fds a i)"
      by (rule Suc.IH [OF t(2) [OF that(1)] that(2,3)])
  qed
  then show ?case by simp
qed simp

text \<open>A field that is absent in the source is absent in a fresh structure.\<close>

lemma zero_bytes_view:
  assumes f: "wire_field f" and l: "\<not> is_sub f" and z: "\<forall>b \<in> set (mem_read m d (unat (data_size f))). b = 0"
    and n: "PB_LTYPE (ftype f) = PB_LTYPE_FIXED_LENGTH_BYTES \<Longrightarrow> data_size f = 0"
  shows "zero_val (item_view sub f m d)"
proof -
  have pf: "plain_field f" using f by (simp add: wire_field_def)
  note pd = plain_fieldD [OF pf]
  have zs: "\<forall>b \<in> set (mem_read m d k). b = 0" if "k \<le> unat (data_size f)" for k
    using z take_mem_read [OF that, of m d] by (metis in_set_takeD)
  have v: "valid_item (\<lambda>_ _. True) f m d"
  proof -
    have "rd32 m d = 0" if "PB_LTYPE (ftype f) = PB_LTYPE_BYTES"
      using zs [of 4] pd(7) [OF that] by (simp add: rd_zero)
    moreover have "0 \<in> set (mem_read m d (unat (data_size f)))" if "PB_LTYPE (ftype f) = PB_LTYPE_STRING"
      using z pd(8) [OF that] by (metis last_in_set mem_read_Nil less_irrefl)
    moreover have "4 \<le> uint (data_size f)" if "PB_LTYPE (ftype f) = PB_LTYPE_BYTES"
      using pd(7) [OF that] unfolding uint_nat by linarith
    ultimately show ?thesis by (simp add: valid_item_def)
  qed
  have "leaf_zero f m d"
    using z n zs [of 4] zs [of 1] pd(7,8) by (auto simp: leaf_zero_def rd_zero Suc_le_eq simp flip: One_nat_def)
  then show ?thesis using leaf_zero_view [OF f l v] by simp
qed

lemma fresh_field_view:
  assumes f: "wire_field f" and h: "fresh_field F f m' d' s'" and e: "field_view sub f m d s = []"
    and sub: "is_sub f \<Longrightarrow> F (fptr f) d' \<Longrightarrow> \<forall>vs \<in> set (sub (fptr f) d). vs = [] \<Longrightarrow> \<forall>vs \<in> set (sub' (fptr f) d'). vs = []"
  shows "field_view sub' f m' d' s' = []"
proof -
  have pf: "plain_field f" using f by (simp add: wire_field_def)
  consider (req) "PB_HTYPE (ftype f) = PB_HTYPE_REQUIRED" | (rep) "PB_HTYPE (ftype f) = PB_HTYPE_REPEATED"
    | (flag) "PB_HTYPE (ftype f) = PB_HTYPE_OPTIONAL" "size_offset f \<noteq> 0"
    | (leaf) "PB_HTYPE (ftype f) = PB_HTYPE_OPTIONAL" "size_offset f = 0" "\<not> is_sub f"
    | (msg) "PB_HTYPE (ftype f) = PB_HTYPE_OPTIONAL" "size_offset f = 0" "is_sub f"
    using plain_fieldD(1) [OF pf] by blast
  then show ?thesis
  proof cases
    case leaf
    have "data_size f = 0" if "PB_LTYPE (ftype f) = PB_LTYPE_FIXED_LENGTH_BYTES"
      using e leaf that by (auto simp: field_view_def item_view_def int_ltype_def Let_def unat_eq_0 split: if_splits)
    then have "zero_val (item_view sub' f m' d')"
      using zero_bytes_view [OF f leaf(3)] h leaf by (simp add: fresh_field_def)
    then show ?thesis using leaf by (simp add: field_view_def)
  next
    case msg
    have "\<forall>vs \<in> set (sub (fptr f) d). vs = []"
      using e msg by (auto simp: field_view_def item_view_def int_ltype_def is_sub_def Let_def split: if_splits)
    then have "\<forall>vs \<in> set (sub' (fptr f) d'). vs = []" using sub h msg by (simp add: fresh_field_def)
    then show ?thesis using msg by (simp add: field_view_def item_view_def int_ltype_def is_sub_def)
  qed (use h e in \<open>simp_all add: fresh_field_def field_view_def Let_def\<close>)
qed

lemma fresh_view:
  "wire_type fa k fds sz \<Longrightarrow> fresh fa k fds m' a' \<Longrightarrow> \<forall>vs \<in> set (msg_view fa k fds m a). vs = [] \<Longrightarrow>
    \<forall>vs \<in> set (msg_view fa k fds m' a'). vs = []"
proof (induction k arbitrary: fds sz a a')
  case (Suc k)
  have "field_view (\<lambda>g p. msg_view fa k g m' p) (entry fa fds i) m' (data_at fa fds a' i) (size_at fa fds a' i) = []"
    if i: "i < nfields (fa fds)" for i
  proof -
    note t = wire_typeD [OF Suc.prems(1) i]
    have h: "fresh_field (\<lambda>g p. fresh fa k g m' p) (entry fa fds i) m' (data_at fa fds a' i) (size_at fa fds a' i)"
      and e: "field_view (\<lambda>g p. msg_view fa k g m p) (entry fa fds i) m (data_at fa fds a i) (size_at fa fds a i) = []"
      using Suc.prems(2,3) i by auto
    show ?thesis
      by (rule fresh_field_view [OF t(1) h e]) (rule Suc.IH [OF t(2)])
  qed
  then show ?case by simp
qed simp

section \<open>Setting the defaults\<close>

lemma wire_field_in:
  assumes f: "wire_field f" and s: "s = d + scast (size_offset f)" and A: "footprint f d s \<subseteq> A"
  shows "field_in False A f d s"
proof -
  have pf: "plain_field f" using f by (simp add: wire_field_def)
  have i: "item_size f = unat (data_size f)" by (rule plain_item_size [OF pf])
  have arr: "span (item_addr d f c) (item_size f) \<subseteq> A" if "PB_HTYPE (ftype f) = PB_HTYPE_REPEATED" "c < array_size f" for c
    using item_span(1) [OF f that(1), of "unat c" d] that(2) A by (auto simp: i word_less_nat_alt footprint_def)
  have dt: "PB_HTYPE (ftype f) \<noteq> PB_HTYPE_REPEATED \<Longrightarrow> span d (unat (data_size f)) \<subseteq> A"
    using A by (simp add: footprint_def data_span [OF f])
  have sz: "PB_HTYPE (ftype f) = PB_HTYPE_REPEATED \<Longrightarrow> span s 4 \<subseteq> A"
    "PB_HTYPE (ftype f) = PB_HTYPE_OPTIONAL \<Longrightarrow> s \<noteq> d \<Longrightarrow> span s 1 \<subseteq> A"
    using A s scast_eq_0 [of "size_offset f"] by (auto simp: footprint_def size_width_def split: if_splits)
  show ?thesis
    using f arr dt sz plain_fieldD(1) [OF pf] by (auto simp: field_in_def wire_field_def i)
qed

lemma mem_zero_bytes: "mem_read (wmem (mem_zero d n w)) d (unat n) = replicate (unat n) 0"
  using mem_read_put_bytes [of "replicate (unat n) 0" d w] unat_u32_lt [of n] by (simp add: mem_zero_def)

lemma wire_default:
  assumes f: "wire_field f" and it: "iter_field it = f" "pData it = d" "pSize it = s"
    and s: "s = d + scast (size_offset f)"
    and dj: "span d (data_width f) \<inter> span s (size_width f) = {}"
    and msg: "\<And>w. is_sub f \<Longrightarrow> PB_HTYPE (ftype f) \<noteq> PB_HTYPE_REPEATED \<Longrightarrow>
      \<exists>w'. msg (fptr f) d w = Some w' \<and> within False (span d (unat (data_size f))) w w' \<and> F (wmem w') (fptr f) d"
  shows "\<exists>w'. set_default_body env n rec msg it w = Some w' \<and> within False (footprint f d s) w w'
    \<and> fresh_field (F (wmem w')) f (wmem w') d s"
proof -
  have pf: "plain_field f" and at: "PB_ATYPE (ftype f) = PB_ATYPE_STATIC" using f by (simp_all add: wire_field_def)
  have x: "PB_LTYPE (ftype f) \<noteq> PB_LTYPE_EXTENSION" using f by (auto simp: wire_field_def no_extension)
  have sub_in: "span d (unat (data_size f)) \<subseteq> footprint f d s" if "PB_HTYPE (ftype f) \<noteq> PB_HTYPE_REPEATED"
    by (simp add: footprint_def data_span [OF f that])
  have "changes False (footprint f d s) w (set_default_body env n rec msg it w)"
  proof (rule default_field)
    show "field_in False (footprint f d s) (iter_field it) (pData it) (pSize it)"
      unfolding it by (rule wire_field_in [OF f s order_refl])
    show "changes False (footprint f d s) w (msg (fptr (iter_field it)) (pData it) w)"
      if "sub_type (iter_field it)" "PB_HTYPE (ftype (iter_field it)) \<noteq> PB_HTYPE_REPEATED" for w
      using msg [of w] that sub_in unfolding it by (auto simp: sub_type_def is_sub_def changes_def intro: within_mono)
  qed
  then obtain w' where w': "set_default_body env n rec msg it w = Some w'" "within False (footprint f d s) w w'"
    by (rule changesE)
  consider (rep) "PB_HTYPE (ftype f) = PB_HTYPE_REPEATED"
    | (flag) "PB_HTYPE (ftype f) = PB_HTYPE_OPTIONAL" "size_offset f \<noteq> 0"
    | (leaf) "PB_HTYPE (ftype f) = PB_HTYPE_OPTIONAL" "size_offset f = 0" "\<not> is_sub f"
    | (msg) "PB_HTYPE (ftype f) = PB_HTYPE_OPTIONAL" "size_offset f = 0" "is_sub f"
    | (req) "PB_HTYPE (ftype f) = PB_HTYPE_REQUIRED"
    using plain_fieldD(1) [OF pf] by blast
  then have "fresh_field (F (wmem w')) f (wmem w') d s"
  proof cases
    case rep
    then have "w' = put32 s 0 w" using w'(1) at x it by (simp add: set_default_body_def Let_def)
    then show ?thesis using rep by (simp add: fresh_field_def put32_def mem_simps)
  next
    case flag
    let ?w1 = "put8 s 0 w"
    have sd: "s \<noteq> d" using flag s by (simp add: scast_eq_0)
    have "within False (span d (unat (data_size f))) ?w1 w' \<and> (is_sub f \<longrightarrow> F (wmem w') (fptr f) d)"
    proof (cases "is_sub f")
      case True
      then have "msg (fptr f) d ?w1 = Some w'"
        using w'(1) at x it flag sd by (simp add: set_default_body_def Let_def is_sub_def)
      then show ?thesis using msg [OF True, of ?w1] flag by auto
    next
      case False
      then have "w' = put_bytes d (mem_read (wmem ?w1) (fptr f) (unat (data_size f))) ?w1
          \<or> w' = mem_zero d (data_size f) ?w1"
        using w'(1) at x it flag sd by (auto simp: set_default_body_def Let_def is_sub_def split: if_splits)
      then show ?thesis using False by (auto intro!: within_put)
    qed
    then have fr: "is_sub f \<Longrightarrow> F (wmem w') (fptr f) d" and wi: "within False (span d (unat (data_size f))) ?w1 w'" by blast+
    have "agree (span s 1) (wmem ?w1) (wmem w')"
      by (rule within_agree [OF wi]) (use dj flag in \<open>auto simp: data_span [OF f] size_width_def\<close>)
    from rd_cong(1) [OF this] have "rd8 (wmem w') s = 0" by (simp add: put8_def mem_simps)
    then show ?thesis using flag fr by (simp add: fresh_field_def)
  next
    case leaf
    then have "w' = mem_zero d (data_size f) w"
      using w'(1) at x it s plain_fieldD(10) [OF pf leaf] by (simp add: set_default_body_def Let_def is_sub_def)
    then show ?thesis using leaf by (simp add: fresh_field_def mem_zero_bytes)
  next
    case msg
    then have "msg (fptr f) d w = Some w'" using w'(1) at x it s by (simp add: set_default_body_def Let_def is_sub_def)
    then show ?thesis using assms(7) [of w] msg by (auto simp: fresh_field_def)
  next
    case req
    then have "msg (fptr f) d w = Some w'" if "is_sub f"
      using w'(1) at x it s that by (simp add: set_default_body_def Let_def is_sub_def)
    then show ?thesis using assms(7) [of w] req by (auto simp: fresh_field_def)
  qed
  with w' show ?thesis by blast
qed

lemma fold_fresh:
  assumes wf: "wf_fields fs"
    and step: "\<And>i w. i < nfields fs \<Longrightarrow> \<exists>w'. f (iter_at fs d i) w = Some w' \<and> within False (A i) w w' \<and> Q i w'"
    and keep: "\<And>i j w w'. i < nfields fs \<Longrightarrow> j < i \<Longrightarrow> within False (A i) w w' \<Longrightarrow> Q j w \<Longrightarrow> Q j w'"
  shows "i < nfields fs \<Longrightarrow> \<forall>j < i. Q j w \<Longrightarrow> \<exists>w'. iter_fold f (iter_at fs d i) w = Some w' \<and> (\<forall>j < nfields fs. Q j w')"
proof (induction "nfields fs - i" arbitrary: i w)
  case 0
  then show ?case by simp
next
  case (Suc n)
  obtain w1 where w1: "f (iter_at fs d i) w = Some w1" "within False (A i) w w1" "Q i w1"
    using step [OF Suc.prems(1)] by blast
  have q: "\<forall>j < Suc i. Q j w1"
    using keep [OF Suc.prems(1) _ w1(2)] Suc.prems(2) w1(3) by (auto simp: less_Suc_eq)
  note nx = iter_next_at [OF wf Suc.prems(1), of d]
  show ?case
  proof (cases "Suc i < nfields fs")
    case True
    have "\<exists>w'. iter_fold f (iter_at fs d (Suc i)) w1 = Some w' \<and> (\<forall>j < nfields fs. Q j w')"
      using Suc.hyps(2) q by (intro Suc.hyps(1) True) simp_all
    then show ?thesis using True nx w1(1)
      by (simp add: iter_fold.simps [of f "iter_at fs d i"] del: iter_at.simps)
  next
    case False
    then have "Suc i = nfields fs" using Suc.prems(1) by simp
    then show ?thesis using nx w1(1) q
      by (simp add: iter_fold.simps [of f "iter_at fs d i"] del: iter_at.simps)
  qed
qed

lemma defaults_fresh:
  assumes "wire_type (dfields_at env) k fds sz" "k \<le> n"
  shows "\<exists>w'. pb_message_set_to_defaults env n fds dest w = Some w' \<and> fresh (dfields_at env) k fds (wmem w') dest"
  using assms
proof (induction k arbitrary: n fds sz dest w)
  case 0
  then show ?case by (simp add: wire_type_def)
next
  case (Suc k)
  let ?fa = "dfields_at env" and ?fs = "dfields_at env fds"
  obtain m where m: "n = Suc m" "k \<le> m" using Suc.prems(2) by (cases n) auto
  have wf: "wf_fields ?fs" using Suc.prems(1) msg_typeD(1) unfolding wire_type_def by blast
  let ?A = "\<lambda>i. footprint (entry ?fa fds i) (data_at ?fa fds dest i) (size_at ?fa fds dest i)"
  let ?Q = "\<lambda>i w. fresh_field (\<lambda>g p. fresh ?fa k g (wmem w) p) (entry ?fa fds i) (wmem w)
    (data_at ?fa fds dest i) (size_at ?fa fds dest i)"
  have step: "\<exists>w'. pb_field_set_to_default env n (iter_at ?fs dest i) w = Some w' \<and> within False (?A i) w w' \<and> ?Q i w'"
    if i: "i < nfields ?fs" for i w
  proof -
    let ?f = "entry ?fa fds i" and ?it = "iter_at ?fs dest i"
    note t = wire_typeD [OF Suc.prems(1) i]
    have it: "iter_field ?it = ?f" "pData ?it = data_at ?fa fds dest i" "pSize ?it = size_at ?fa fds dest i"
      using iter_at_field [OF wf i] iter_at_offset [of ?fs dest i] by simp_all
    have s: "size_at ?fa fds dest i = data_at ?fa fds dest i + scast (size_offset ?f)"
      using iter_size [OF wf i] t(1) plain_fieldD(1) [of ?f] by (auto simp: wire_field_def)
    have "\<exists>w'. pb_message_set_to_defaults env m (fptr ?f) (data_at ?fa fds dest i) w = Some w'
        \<and> within False (span (data_at ?fa fds dest i) (unat (data_size ?f))) w w'
        \<and> fresh ?fa k (fptr ?f) (wmem w') (data_at ?fa fds dest i)" if b: "is_sub ?f" for w
    proof -
      have mt: "msg_type False ?fa k (fptr ?f) (unat (data_size ?f))" using t(2) [OF b] by (simp add: wire_type_def)
      from Suc.IH [OF t(2) [OF b] m(2), of "data_at ?fa fds dest i" w] defaults_changes [where dest = "data_at ?fa fds dest i" and w = w, OF mt m(2)] show ?thesis
        by (auto simp: changes_def)
    qed
    from wire_default [where F = "\<lambda>m g p. fresh ?fa k g m p" and msg = "pb_message_set_to_defaults env m" and env = env
        and n = m and rec = "pb_field_set_to_default env m" and w = w, OF t(1) it s t(4) this]
    show ?thesis unfolding m(1) recursive_calls by blast
  qed
  have keep: "?Q j w'" if "i < nfields ?fs" "j < i" "within False (?A i) w w'" "?Q j w" for i j w w'
  proof (rule fresh_field_cong [OF _ _ _ that(4)])
    have j: "j < nfields ?fs" "j \<noteq> i" using that by simp_all
    show "wire_field (entry ?fa fds j)" by (rule wire_typeD(1) [OF Suc.prems(1) j(1)])
    show "agree (?A j) (wmem w) (wmem w')"
      by (rule within_agree [OF that(3) wire_typeD(7) [OF Suc.prems(1) that(1) j]])
    show "fresh ?fa k (fptr (entry ?fa fds j)) (wmem w') (data_at ?fa fds dest j)"
      if "is_sub (entry ?fa fds j)" "agree (span (data_at ?fa fds dest j) (unat (data_size (entry ?fa fds j)))) (wmem w) (wmem w')"
        "fresh ?fa k (fptr (entry ?fa fds j)) (wmem w) (data_at ?fa fds dest j)"
      by (rule fresh_cong [OF wire_typeD(2) [OF Suc.prems(1) j(1) that(1)] that(2,3)])
  qed
  show ?case
  proof (cases "nfields ?fs = 0")
    case True
    then show ?thesis using wf_fields_tag [OF wf, of 0]
      by (simp add: pb_message_set_to_defaults_def set_defaults_body_def pb_field_iter_begin_def Let_def)
  next
    case False
    have "\<exists>w'. iter_fold (pb_field_set_to_default env n) (iter_at ?fs dest 0) w = Some w' \<and> (\<forall>j < nfields ?fs. ?Q j w')"
    proof (rule fold_fresh [where A = ?A and Q = ?Q, OF wf])
      show "\<exists>w'. pb_field_set_to_default env n (iter_at ?fs dest i) w = Some w' \<and> within False (?A i) w w' \<and> ?Q i w'"
        if "i < nfields ?fs" for i w by (rule step [OF that])
      show "?Q j w'" if "i < nfields ?fs" "j < i" "within False (?A i) w w'" "?Q j w" for i j w w'
        by (rule keep [OF that])
    qed (use False in simp_all)
    then show ?thesis using wf_fields_tag [OF wf, of 0] False
      by (auto simp: pb_message_set_to_defaults_def set_defaults_body_def pb_field_iter_begin_def Let_def)
  qed
qed

section \<open>The calls for submessages\<close>

abbreviation (input) sub_view :: "(addr \<Rightarrow> pb_field list) \<Rightarrow> nat \<Rightarrow> mem \<Rightarrow> addr \<Rightarrow> addr \<Rightarrow> val list list" where
  "sub_view fa k m \<equiv> (\<lambda>g p. msg_view fa k g m p)"

abbreviation (input) sub_valid :: "(addr \<Rightarrow> pb_field list) \<Rightarrow> nat \<Rightarrow> mem \<Rightarrow> addr \<Rightarrow> addr \<Rightarrow> bool" where
  "sub_valid fa k m \<equiv> (\<lambda>g p. valid_msg fa k g m p)"

definition call_reads ::
  "('s, 'h) pb_dec_env \<Rightarrow> nat \<Rightarrow> nat \<Rightarrow> ('s, 'h) dec_call \<Rightarrow> mem \<Rightarrow> addr \<Rightarrow> nat \<Rightarrow> bool" where
  "call_reads env k n dec m fds sz \<longleftrightarrow>
     (\<forall>init st a d w.
        let wire = msg_wire (dfields_at env) k fds (msg_view (dfields_at env) k fds m a) in
        valid_msg (dfields_at env) k fds m a \<longrightarrow> bufsrc.good st \<longrightarrow> bufsrc.rest st = wire \<longrightarrow>
        length wire < 4294967296 \<longrightarrow> placed d sz \<longrightarrow> span d sz \<inter> counters env n = {} \<longrightarrow>
        init \<or> fresh (dfields_at env) k fds (wmem w) d \<longrightarrow>
        (\<exists>st' w'. dec init st fds d w = Some (True, st', w') \<and> bufsrc.reads st (length wire) st'
           \<and> msg_view (dfields_at env) k fds (wmem w') d = msg_view (dfields_at env) k fds m a))"

definition sub_reads ::
  "('s, 'h) pb_dec_env \<Rightarrow> nat \<Rightarrow> nat \<Rightarrow> ('s, 'h) dec_call \<Rightarrow> mem \<Rightarrow> pb_field \<Rightarrow> bool" where
  "sub_reads env k n dec m f \<longleftrightarrow>
     sub_calls False (counters env n) env n dec f
     \<and> (is_sub f \<longrightarrow> wire_type (dfields_at env) k (fptr f) (unat (data_size f))
          \<and> call_reads env k n dec m (fptr f) (unat (data_size f)))"

lemma item_reads:
  fixes st :: "'s pb_istream" and w :: "'h world"
  assumes f: "wire_field f" and sub: "sub_reads env k n dec m f"
    and v: "valid_item (sub_valid (dfields_at env) k m) f m p" and g: "bufsrc.good st"
    and x: "x = item_view (sub_view (dfields_at env) k m) f m p"
    and r: "bufsrc.rest st = item_wire (msg_wire (dfields_at env) k) f x @ ts"
    and l: "length (item_wire (msg_wire (dfields_at env) k) f x) < 4294967296"
    and d: "placed d (unat (data_size f))" and C: "span d (unat (data_size f)) \<inter> counters env n = {}"
    and fr: "is_sub f \<Longrightarrow> PB_HTYPE (ftype f) \<noteq> PB_HTYPE_REPEATED \<Longrightarrow> fresh (dfields_at env) k (fptr f) (wmem w) d"
  shows "\<exists>st' w'. pb_decoder env dec st f d w = Some (True, st', w')
    \<and> bufsrc.reads st (length (item_wire (msg_wire (dfields_at env) k) f x)) st'
    \<and> item_view (sub_view (dfields_at env) k (wmem w')) f (wmem w') d = x
    \<and> within False (span d (unat (data_size f)) \<union> counters env n) w w'"
proof -
  let ?A = "span d (unat (data_size f)) \<union> counters env n"
  have at: "PB_ATYPE (ftype f) = PB_ATYPE_STATIC" and vl: "valid_ltype (PB_LTYPE (ftype f))" and pf: "plain_field f"
    using f by (simp_all add: wire_field_def)
  have "\<exists>s' w'. dec (PB_HTYPE (ftype f) = PB_HTYPE_REPEATED) s (fptr f) d w = Some (True, s', w')
      \<and> bufsrc.reads s (length (msg_wire (dfields_at env) k (fptr f) (msg_view (dfields_at env) k (fptr f) m p))) s'
      \<and> msg_view (dfields_at env) k (fptr f) (wmem w') d = msg_view (dfields_at env) k (fptr f) m p"
    if "is_sub f" "valid_msg (dfields_at env) k (fptr f) m p" "bufsrc.good s"
      "bufsrc.rest s = msg_wire (dfields_at env) k (fptr f) (msg_view (dfields_at env) k (fptr f) m p)"
      "length (msg_wire (dfields_at env) k (fptr f) (msg_view (dfields_at env) k (fptr f) m p)) < 4294967296" for s
    using sub that d C fr [OF that(1)] unfolding sub_reads_def call_reads_def Let_def by blast
  from dec_item_reads [where S = "sub_view (dfields_at env) k" and V = "sub_valid (dfields_at env) k m" and dec = dec
      and env = env and w = w, OF f v g r [unfolded x] l [unfolded x] d this]
  obtain st' w' where
    r: "pb_decoder env dec st f d w = Some (True, st', w')"
    "bufsrc.reads st (length (item_wire (msg_wire (dfields_at env) k) f x)) st'"
    "item_view (sub_view (dfields_at env) k (wmem w')) f (wmem w') d = x" unfolding x by blast
  have "returns False ?A st w (pb_decoder env dec st f d w)"
  proof (rule decoder_returns [OF vl _ good_is_buf [OF g]])
    show "returns False ?A st w (dec i st (fptr f) d w)"
      if "PB_LTYPE (ftype f) = PB_LTYPE_SUBMESSAGE" "is_buf_read (isource st)" for st w i
      using sub that at by (simp add: sub_reads_def sub_calls_def sub_type_def)
  qed (simp_all add: at plain_item_size [OF pf])
  then have "within False ?A w w'" using r(1) by simp
  with r show ?thesis by blast
qed

section \<open>Arrays\<close>

text \<open>The first \<open>c\<close> items of an array have the values \<open>x\<close>.\<close>

definition items_are :: "('s, 'h) pb_dec_env \<Rightarrow> nat \<Rightarrow> pb_field \<Rightarrow> addr \<Rightarrow> (nat \<Rightarrow> val) \<Rightarrow> nat \<Rightarrow> mem \<Rightarrow> bool" where
  "items_are env k f d x c m \<longleftrightarrow>
     (\<forall>i < c. item_view (sub_view (dfields_at env) k m) f m (item_addr d f (word_of_nat i)) = x i)"

lemma item_view_keep:
  assumes f: "wire_field f" and sub: "sub_reads env k n dec m f"
    and a: "agree (span q (unat (data_size f))) m1 m2"
  shows "item_view (sub_view (dfields_at env) k m2) f m2 q = item_view (sub_view (dfields_at env) k m1) f m1 q"
proof (rule item_view_cong [OF _ a])
  show "plain_field f" using f by (simp add: wire_field_def)
  show "msg_view (dfields_at env) k (fptr f) m2 q = msg_view (dfields_at env) k (fptr f) m1 q" if "is_sub f"
    using sub that by (intro msg_view_cong [OF _ a]) (simp add: sub_reads_def)
qed

lemma items_keep:
  assumes f: "wire_field f" and sub: "sub_reads env k n dec m f" and i: "items_are env k f d x c (wmem w)"
    and w: "within False B w w'" and B: "\<And>i. i < c \<Longrightarrow> span (item_addr d f (word_of_nat i)) (unat (data_size f)) \<inter> B = {}"
  shows "items_are env k f d x c (wmem w')"
  using i item_view_keep [OF f sub within_agree [OF w B]] by (simp add: items_are_def)

text \<open>Where an array field is, and the room it has there.\<close>

definition array_place :: "('s, 'h) pb_dec_env \<Rightarrow> nat \<Rightarrow> pb_field \<Rightarrow> addr \<Rightarrow> addr \<Rightarrow> bool" where
  "array_place env n f d s \<longleftrightarrow> wire_field f \<and> PB_HTYPE (ftype f) = PB_HTYPE_REPEATED
     \<and> placed d (data_width f) \<and> span d (data_width f) \<inter> span s 4 = {}
     \<and> footprint f d s \<inter> counters env n = {}"

lemma array_placeD:
  assumes a: "array_place env n f d s" and i: "i < unat (array_size f)"
  shows "placed (item_addr d f (word_of_nat i)) (unat (data_size f))"
    "span (item_addr d f (word_of_nat i)) (unat (data_size f)) \<inter> counters env n = {}"
    "span (item_addr d f (word_of_nat i)) (unat (data_size f)) \<inter> span s 4 = {}"
    "span s 4 \<inter> counters env n = {}"
    "j < i \<Longrightarrow> span (item_addr d f (word_of_nat j)) (unat (data_size f))
      \<inter> span (item_addr d f (word_of_nat i)) (unat (data_size f)) = {}"
proof -
  have f: "wire_field f" and r: "PB_HTYPE (ftype f) = PB_HTYPE_REPEATED" and pl: "placed d (data_width f)"
    and dj: "span d (data_width f) \<inter> span s 4 = {}" and C: "footprint f d s \<inter> counters env n = {}"
    using a by (simp_all add: array_place_def)
  obtain k where "item_addr d f (word_of_nat i) = d + k" "unat k + unat (data_size f) \<le> data_width f"
    using item_offset [OF f r i] by metis
  then show "placed (item_addr d f (word_of_nat i)) (unat (data_size f))" using placed_inside [OF pl] by simp
  have "span (item_addr d f (word_of_nat i)) (unat (data_size f)) \<subseteq> span d (data_width f)"
    by (rule item_span(1) [OF f r i])
  then show "span (item_addr d f (word_of_nat i)) (unat (data_size f)) \<inter> counters env n = {}"
    "span (item_addr d f (word_of_nat i)) (unat (data_size f)) \<inter> span s 4 = {}"
    using C dj by (auto simp: footprint_def)
  show "span s 4 \<inter> counters env n = {}" using C r by (auto simp: footprint_def size_width_def)
  show "span (item_addr d f (word_of_nat j)) (unat (data_size f))
      \<inter> span (item_addr d f (word_of_nat i)) (unat (data_size f)) = {}" if "j < i"
    using item_span(2) [OF f r i that, of d] by blast
qed

text \<open>Decoding the next item keeps those before it, and the counter.\<close>

lemma array_item_reads:
  fixes st :: "'s pb_istream" and w :: "'h world"
  assumes a: "array_place env n f d s" and sub: "sub_reads env k n dec m f" and c: "c < unat (array_size f)"
    and v: "valid_item (sub_valid (dfields_at env) k m) f m p"
    and x: "x c = item_view (sub_view (dfields_at env) k m) f m p"
    and g: "bufsrc.good st" and r: "bufsrc.rest st = item_wire (msg_wire (dfields_at env) k) f (x c) @ ts"
    and l: "length (item_wire (msg_wire (dfields_at env) k) f (x c)) < 4294967296"
    and i: "items_are env k f d x c (wmem w)"
  shows "\<exists>st' w'. pb_decoder env dec st f (item_addr d f (word_of_nat c)) w = Some (True, st', w')
    \<and> bufsrc.reads st (length (item_wire (msg_wire (dfields_at env) k) f (x c))) st'
    \<and> items_are env k f d x (Suc c) (wmem w') \<and> rd32 (wmem w') s = rd32 (wmem w) s"
proof -
  let ?q = "item_addr d f (word_of_nat c)"
  have f: "wire_field f" and rp: "PB_HTYPE (ftype f) = PB_HTYPE_REPEATED" using a by (simp_all add: array_place_def)
  note p = array_placeD [OF a c]
  from item_reads [where w = w, OF f sub v g x r l p(1,2)] rp obtain st' w' where
    d: "pb_decoder env dec st f ?q w = Some (True, st', w')"
    "bufsrc.reads st (length (item_wire (msg_wire (dfields_at env) k) f (x c))) st'"
    "item_view (sub_view (dfields_at env) k (wmem w')) f (wmem w') ?q = x c"
    and wi: "within False (span ?q (unat (data_size f)) \<union> counters env n) w w'" by auto
  have "items_are env k f d x c (wmem w')"
    using p(5) array_placeD(2) [OF a] c by (intro items_keep [OF f sub i wi]) (simp add: Int_Un_distrib)
  then have "items_are env k f d x (Suc c) (wmem w')" using d(3) by (simp add: items_are_def less_Suc_eq)
  moreover have "agree (span s 4) (wmem w) (wmem w')" using p(3,4) by (intro within_agree [OF wi]) blast
  then have "rd32 (wmem w') s = rd32 (wmem w) s" by (rule rd_cong(3)) simp_all
  ultimately show ?thesis using d(1,2) by blast
qed

lemma put_count:
  assumes a: "array_place env n f d s" and sub: "sub_reads env k n dec m f" and c: "c \<le> unat (array_size f)"
    and i: "items_are env k f d x c (wmem w)"
  shows "items_are env k f d x c (wmem (put32 s v w))" "rd32 (wmem (put32 s v w)) s = v"
proof -
  have f: "wire_field f" using a by (simp add: array_place_def)
  have "within False (span s 4) w (put32 s v w)" by (rule within_put(2)) simp
  then show "items_are env k f d x c (wmem (put32 s v w))"
  proof (rule items_keep [OF f sub i])
    show "span (item_addr d f (word_of_nat j)) (unat (data_size f)) \<inter> span s 4 = {}" if "j < c" for j
      by (rule array_placeD(3) [OF a less_le_trans [OF that c]])
  qed
  show "rd32 (wmem (put32 s v w)) s = v" by (simp add: put32_def mem_simps)
qed

lemma item_wire_not_Nil:
  assumes f: "wire_field f" and l: "PB_LTYPE (ftype f) \<le> PB_LTYPE_LAST_PACKABLE"
  shows "item_wire subw f (item_view sub f m p) \<noteq> []"
proof -
  have vl: "valid_ltype (PB_LTYPE (ftype f))" using f by (simp add: wire_field_def)
  have "int_ltype (PB_LTYPE (ftype f)) \<or> PB_LTYPE (ftype f) \<in> {PB_LTYPE_BOOL, PB_LTYPE_FIXED32, PB_LTYPE_FIXED64}"
    using vl l by (auto simp: valid_ltype_def int_ltype_def)
  then obtain v where "item_view sub f m p = Scalar v" by (auto simp: item_view_def int_ltype_def)
  then show ?thesis by (simp add: numeral_eq_Suc)
qed

lemma packed_loop_reads:
  fixes st :: "'s pb_istream" and w :: "'h world"
  assumes a: "array_place env n f d s" and sub: "sub_reads env k n dec m f"
    and it: "iter_field it = f" "pData it = d" "pSize it = s"
    and l: "PB_LTYPE (ftype f) \<le> PB_LTYPE_LAST_PACKABLE" and c: "c \<le> unat (array_size f)"
    and v: "\<And>i. i < c \<Longrightarrow> valid_item (sub_valid (dfields_at env) k m) f m (q i)"
    and x: "\<And>i. x i = item_view (sub_view (dfields_at env) k m) f m (q i)"
  shows "j \<le> c \<Longrightarrow> bufsrc.good st \<Longrightarrow>
    bufsrc.rest st = concat (map (\<lambda>i. item_wire (msg_wire (dfields_at env) k) f (x i)) [j..<c]) \<Longrightarrow>
    length (bufsrc.rest st) < 4294967296 \<Longrightarrow>
    items_are env k f d x j (wmem w) \<Longrightarrow> rd32 (wmem w) s = word_of_nat j \<Longrightarrow>
    \<exists>st' w'. dec_packed_loop (\<lambda>st p w. pb_decoder env dec st f p w) it st w = Some (True, st', w')
      \<and> bufsrc.reads st (length (bufsrc.rest st)) st'
      \<and> items_are env k f d x c (wmem w') \<and> rd32 (wmem w') s = word_of_nat c"
proof (induction "c - j" arbitrary: j st w)
  case 0
  then have "j = c" "bufsrc.rest st = []" by simp_all
  then have "bytes_left st = 0" using bufsrc.length_rest [OF 0(3)] by (simp add: unat_eq_0)
  then have "dec_packed_loop (\<lambda>st p w. pb_decoder env dec st f p w) it st w = Some (True, st, w)"
    by (subst dec_packed_loop.simps) simp
  then show ?case using 0 \<open>j = c\<close> \<open>bufsrc.rest st = []\<close> by (auto intro: bufsrc.reads_refl)
next
  case (Suc h)
  have f: "wire_field f" using a by (simp add: array_place_def)
  have j: "j < c" using Suc.hyps(2) by simp
  let ?W = "\<lambda>i. item_wire (msg_wire (dfields_at env) k) f (x i)"
  have r: "bufsrc.rest st = ?W j @ concat (map ?W [Suc j..<c])" using Suc.prems(3) j by (simp add: upt_conv_Cons)
  have ne: "?W j \<noteq> []" unfolding x by (rule item_wire_not_Nil [OF f l])
  then have "bufsrc.rest st \<noteq> []" using r by simp
  then have left: "0 < bytes_left st" using bufsrc.length_rest [OF Suc.prems(2)] by (auto simp: word_gt_0)
  have js: "j < unat (array_size f)" and jl: "j < 4294967296" using j c unat_u32_lt [of "array_size f"] by linarith+
  have cnt: "iter_count it w = word_of_nat j" using Suc.prems(6) it by (simp add: iter_count_def)
  have lt: "iter_count it w < array_size f" unfolding cnt word_less_nat_alt using js jl by simp
  have lw: "length (?W j) < 4294967296" using Suc.prems(4) r by simp
  from array_item_reads [where w = w, OF a sub js v [OF j] x Suc.prems(2) r lw Suc.prems(5)] obtain st1 w1 where
    d: "pb_decoder env dec st f (item_addr d f (word_of_nat j)) w = Some (True, st1, w1)"
    "bufsrc.reads st (length (?W j)) st1" "items_are env k f d x (Suc j) (wmem w1)"
    "rd32 (wmem w1) s = word_of_nat j" using Suc.prems(6) by auto
  let ?w2 = "put32 s (word_of_nat (Suc j)) w1"
  note w2 = put_count [where v = "word_of_nat (Suc j)", OF a sub _ d(3)]
  have g1: "bufsrc.good st1" "bufsrc.rest st1 = concat (map ?W [Suc j..<c])"
    using d(2) r by (simp_all add: bufsrc.reads_def)
  have "\<exists>st' w'. dec_packed_loop (\<lambda>st p w. pb_decoder env dec st f p w) it st1 ?w2 = Some (True, st', w')
      \<and> bufsrc.reads st1 (length (bufsrc.rest st1)) st'
      \<and> items_are env k f d x c (wmem w') \<and> rd32 (wmem w') s = word_of_nat c"
    using Suc.prems(4) r g1 j js w2 Suc.hyps(2) by (intro Suc.hyps(1)) auto
  then obtain st' w' where e: "dec_packed_loop (\<lambda>st p w. pb_decoder env dec st f p w) it st1 ?w2 = Some (True, st', w')"
    "bufsrc.reads st1 (length (bufsrc.rest st1)) st'" "items_are env k f d x c (wmem w')" "rd32 (wmem w') s = word_of_nat c"
    by blast
  have "iter_count it w1 + 1 = word_of_nat (Suc j)" using d(4) it by (simp add: iter_count_def)
  then have "dec_packed_loop (\<lambda>st p w. pb_decoder env dec st f p w) it st w = Some (True, st', w')"
    using left lt d(1) e(1) it cnt by (subst dec_packed_loop.simps) (simp add: add.commute)
  moreover have "bufsrc.reads st (length (bufsrc.rest st)) st'"
    using bufsrc.reads_trans [OF d(2) e(2)] r g1(2) by simp
  ultimately show ?case using e(3,4) by blast
qed

section \<open>Fields\<close>

lemma items_view:
  assumes "PB_HTYPE (ftype f) = PB_HTYPE_REPEATED" "items_are env k f d x c mm" "rd32 mm s = word_of_nat c"
    and "c \<le> unat (array_size f)"
  shows "field_view (sub_view (dfields_at env) k mm) f mm d s = map x [0..<c]"
proof -
  have c: "unat (rd32 mm s) = c" using assms(3,4) unat_u32_lt [of "array_size f"] by simp
  show ?thesis using assms(1,2,4) c by (simp add: field_view_def items_are_def min_absorb1)
qed

text \<open>The value of an array in the source.\<close>

lemma source_items:
  assumes "valid_field V f m p t" "PB_HTYPE (ftype f) = PB_HTYPE_REPEATED"
  shows "field_view sub f m p t = map (\<lambda>i. item_view sub f m (item_addr p f (word_of_nat i))) [0..<unat (rd32 m t)]"
    "i < unat (rd32 m t) \<Longrightarrow> valid_item V f m (item_addr p f (word_of_nat i))"
    "unat (rd32 m t) \<le> unat (array_size f)"
  using assms by (simp_all add: valid_field_def field_view_def word_le_nat_alt min_absorb1)

lemma static_packed_reads:
  fixes st :: "'s pb_istream" and w :: "'h world"
  assumes a: "array_place env n f d s" and sub: "sub_reads env k n dec m f"
    and it: "iter_field it = f" "pData it = d" "pSize it = s" and pk: "packed_field f"
    and v: "valid_field (sub_valid (dfields_at env) k m) f m p t"
    and vs: "vs = field_view (sub_view (dfields_at env) k m) f m p t" and z: "rd32 (wmem w) s = 0"
    and g: "bufsrc.good st"
    and r: "bufsrc.rest st = delimited (concat (map (item_wire (msg_wire (dfields_at env) k) f) vs)) @ ts"
    and l: "length (concat (map (item_wire (msg_wire (dfields_at env) k) f) vs)) < 4294967296"
  shows "\<exists>st' w'. decode_static_field env n dec st PB_WT_STRING it w = Some (True, st', w')
    \<and> bufsrc.reads st (length (delimited (concat (map (item_wire (msg_wire (dfields_at env) k) f) vs)))) st'
    \<and> field_view (sub_view (dfields_at env) k (wmem w')) f (wmem w') d s = vs"
proof -
  let ?W = "item_wire (msg_wire (dfields_at env) k) f"
  let ?bs = "concat (map ?W vs)"
  let ?x = "\<lambda>i. item_view (sub_view (dfields_at env) k m) f m (item_addr p f (word_of_nat i))"
  have rp: "PB_HTYPE (ftype f) = PB_HTYPE_REPEATED" and pl: "PB_LTYPE (ftype f) \<le> PB_LTYPE_LAST_PACKABLE"
    using pk by (simp_all add: packed_field_def)
  note si = source_items [OF v rp]
  have bs: "?bs = concat (map (\<lambda>i. ?W (?x i)) [0..<unat (rd32 m t)])" unfolding vs si(1) by (simp add: o_def)
  have r': "bufsrc.rest st = varint_list (word_of_nat (length ?bs)) @ ?bs @ ts" using r by (simp add: delimited_def)
  have u: "length ?bs = unat (word_of_nat (length ?bs) :: u64)" "unat (word_of_nat (length ?bs) :: u64) < 2 ^ 32"
    using l by simp_all
  from bufsrc.make_substream_reads [OF g r' u] obtain s1 st1 where
    ms: "pb_make_string_substream st = (Some s1, st1)" "bufsrc.good s1" "bufsrc.rest s1 = ?bs" by blast
  have "items_are env k f d ?x 0 (wmem w)" by (simp add: items_are_def)
  from packed_loop_reads [where x = ?x and q = "\<lambda>i. item_addr p f (word_of_nat i)" and c = "unat (rd32 m t)" and j = 0
      and st = s1 and w = w, OF a sub it pl si(3) si(2) refl _ ms(2) _ _ this] z l ms(3)
  obtain s2 w' where
    c: "dec_packed_loop (\<lambda>st p w. pb_decoder env dec st f p w) it s1 w = Some (True, s2, w')"
    "bufsrc.reads s1 (length ?bs) s2" "items_are env k f d ?x (unat (rd32 m t)) (wmem w')"
    "rd32 (wmem w') s = word_of_nat (unat (rd32 m t))" by (auto simp: bs)
  from bufsrc.substream_reads [OF g r' u ms(1) c(2)] obtain st2 where
    cl: "pb_close_string_substream st1 s2 = (True, st2)" "bufsrc.reads st (length (delimited ?bs)) st2"
    unfolding delimited_def by blast
  have "bytes_left s2 = 0" by (rule reads_all_left [OF ms(2) ms(3) c(2)])
  then have "decode_static_field env n dec st PB_WT_STRING it w = Some (True, st2, w')"
    using it rp pl ms(1) c(1) cl(1) by (simp add: decode_static_field_def close_packed_def Let_def)
  moreover have "field_view (sub_view (dfields_at env) k (wmem w')) f (wmem w') d s = vs"
    using items_view [OF rp c(3,4) si(3)] by (simp add: vs si(1))
  ultimately show ?thesis using cl(2) by blast
qed

lemma ht_differ: "PB_HTYPE_REPEATED \<noteq> PB_HTYPE_OPTIONAL" "PB_HTYPE_REPEATED \<noteq> PB_HTYPE_REQUIRED"
  by simp_all

lemma static_item_reads:
  fixes st :: "'s pb_istream" and w :: "'h world"
  assumes a: "array_place env n f d s" and sub: "sub_reads env k n dec m f" and c: "c < unat (array_size f)"
    and it: "iter_field it = f" "pData it = d" "pSize it = s" and pk: "\<not> packed_field f"
    and v: "valid_item (sub_valid (dfields_at env) k m) f m p"
    and x: "x c = item_view (sub_view (dfields_at env) k m) f m p"
    and g: "bufsrc.good st" and r: "bufsrc.rest st = item_wire (msg_wire (dfields_at env) k) f (x c) @ ts"
    and l: "length (item_wire (msg_wire (dfields_at env) k) f (x c)) < 4294967296"
    and i: "items_are env k f d x c (wmem w)" "rd32 (wmem w) s = word_of_nat c"
  shows "\<exists>st' w'. decode_static_field env n dec st wt it w = Some (True, st', w')
    \<and> bufsrc.reads st (length (item_wire (msg_wire (dfields_at env) k) f (x c))) st'
    \<and> items_are env k f d x (Suc c) (wmem w') \<and> rd32 (wmem w') s = word_of_nat (Suc c)"
proof -
  have rp: "PB_HTYPE (ftype f) = PB_HTYPE_REPEATED" using a by (simp add: array_place_def)
  let ?w1 = "put32 s (word_of_nat (Suc c)) w"
  note w1 = put_count [where v = "word_of_nat (Suc c)", OF a sub less_imp_le [OF c] i(1)]
  from array_item_reads [OF a sub c v x g r l w1(1)] obtain st' w' where
    d: "pb_decoder env dec st f (item_addr d f (word_of_nat c)) ?w1 = Some (True, st', w')"
    "bufsrc.reads st (length (item_wire (msg_wire (dfields_at env) k) f (x c))) st'"
    "items_are env k f d x (Suc c) (wmem w')" "rd32 (wmem w') s = word_of_nat (Suc c)" using w1(2) by auto
  have "c < 4294967296" using c unat_u32_lt [of "array_size f"] by simp
  then have "\<not> array_size f \<le> word_of_nat c" using c by (simp add: word_le_nat_alt)
  moreover have "iter_count it w = word_of_nat c" using it i(2) by (simp add: iter_count_def)
  moreover have "\<not> PB_LTYPE (ftype f) \<le> PB_LTYPE_LAST_PACKABLE" using pk rp by (simp add: packed_field_def)
  ultimately have "decode_static_field env n dec st wt it w = Some (True, st', w')"
    using rp d(1) by (simp add: decode_static_field_def it Let_def ht_differ add.commute [of 1])
  with d(2-4) show ?thesis by blast
qed

lemma static_single_reads:
  fixes st :: "'s pb_istream" and w :: "'h world"
  assumes f: "wire_field f" and sub: "sub_reads env k n dec m f" and rp: "PB_HTYPE (ftype f) \<noteq> PB_HTYPE_REPEATED"
    and it: "iter_field it = f" "pData it = d" "pSize it = s" and s: "s = d + scast (size_offset f)"
    and v: "valid_field (sub_valid (dfields_at env) k m) f m p t"
    and x: "field_view (sub_view (dfields_at env) k m) f m p t = [x]"
    and g: "bufsrc.good st" and r: "bufsrc.rest st = item_wire (msg_wire (dfields_at env) k) f x @ ts"
    and l: "length (item_wire (msg_wire (dfields_at env) k) f x) < 4294967296"
    and pl: "placed d (data_width f)" and dj: "span d (data_width f) \<inter> span s (size_width f) = {}"
    and C: "footprint f d s \<inter> counters env n = {}"
    and fr: "fresh_field (\<lambda>g p. fresh (dfields_at env) k g (wmem w) p) f (wmem w) d s"
  shows "\<exists>st' w'. decode_static_field env n dec st wt it w = Some (True, st', w')
    \<and> bufsrc.reads st (length (item_wire (msg_wire (dfields_at env) k) f x)) st'
    \<and> field_view (sub_view (dfields_at env) k (wmem w')) f (wmem w') d s = [x]"
proof -
  have pf: "plain_field f" using f by (simp add: wire_field_def)
  have ht: "PB_HTYPE (ftype f) = PB_HTYPE_REQUIRED \<or> PB_HTYPE (ftype f) = PB_HTYPE_OPTIONAL"
    using plain_fieldD(1) [OF pf] rp by blast
  define flag where "flag \<longleftrightarrow> PB_HTYPE (ftype f) = PB_HTYPE_OPTIONAL \<and> size_offset f \<noteq> 0"
  have dw: "data_width f = unat (data_size f)" by (rule data_span [OF f rp])
  have xv: "x = item_view (sub_view (dfields_at env) k m) f m p"
    "PB_HTYPE (ftype f) = PB_HTYPE_OPTIONAL \<Longrightarrow> size_offset f = 0 \<Longrightarrow> \<not> zero_val x"
    using x rp by (auto simp: field_view_def Let_def split: if_splits)
  have vi: "valid_item (sub_valid (dfields_at env) k m) f m p"
    using v x rp by (auto simp: valid_field_def field_view_def Let_def split: if_splits)
  let ?w1 = "if flag then put8 s 1 w else w"
  have Cd: "span d (unat (data_size f)) \<inter> counters env n = {}" using C by (auto simp: footprint_def dw)
  have Cs: "flag \<Longrightarrow> span s 1 \<inter> (span d (unat (data_size f)) \<union> counters env n) = {}"
    using C dj by (auto simp: footprint_def size_width_def flag_def dw)
  have ag: "agree (span d (unat (data_size f))) (wmem w) (wmem ?w1)"
    using Cs put_agree(1) [of "span d (unat (data_size f))" s w 1] by (auto simp: agree_def)
  have frs: "fresh (dfields_at env) k (fptr f) (wmem ?w1) d" if "is_sub f"
    using fr sub that rp ht by (intro fresh_cong [OF _ ag]) (auto simp: sub_reads_def fresh_field_def)
  from item_reads [where w = ?w1, OF f sub vi g xv(1) r l _ Cd frs] pl obtain st' w' where
    d: "pb_decoder env dec st f d ?w1 = Some (True, st', w')"
    "bufsrc.reads st (length (item_wire (msg_wire (dfields_at env) k) f x)) st'"
    "item_view (sub_view (dfields_at env) k (wmem w')) f (wmem w') d = x"
    and wi: "within False (span d (unat (data_size f)) \<union> counters env n) ?w1 w'" by (auto simp: dw)
  have "decode_static_field env n dec st wt it w = Some (True, st', w')"
    using it ht d(1) s by (auto simp: decode_static_field_def flag_def Let_def scast_eq_0)
  moreover have "rd8 (wmem w') s = 1" if flag
  proof -
    have "agree (span s 1) (wmem ?w1) (wmem w')" by (rule within_agree [OF wi Cs [OF that]])
    from rd_cong(1) [OF this] that show ?thesis by (simp add: put8_def mem_simps)
  qed
  then have "field_view (sub_view (dfields_at env) k (wmem w')) f (wmem w') d s = [x]"
    using d(3) xv(2) rp by (auto simp: field_view_def flag_def)
  ultimately show ?thesis using d(2) by blast
qed

end
