(* ===== verification/Pb_Wire_Message.thy ===== *)
theory Pb_Wire_Message
  imports Pb_Wire_Encode Pb_Wire_Decode
begin

text \<open>
  Whole messages: \<open>pb_decode\<close> reads the wire format of a value back into a structure of that
  value, and so decoding undoes encoding.
\<close>

section \<open>Finding the entry of a tag\<close>

lemma find_tag:
  assumes wf: "wf_fields fs" and j: "j < nfields fs" and i: "i < nfields fs"
    and x: "PB_LTYPE (ftype (field_nth fs i)) \<noteq> PB_LTYPE_EXTENSION"
    and only: "\<And>l. l < nfields fs \<Longrightarrow> l \<noteq> i \<Longrightarrow> ftag (field_nth fs l) \<noteq> ftag (field_nth fs i)"
  shows "pb_field_iter_find (iter_at fs d j) (ftag (field_nth fs i)) = Some (True, iter_at fs d i)"
proof -
  let ?n = "nfields fs" and ?t = "ftag (field_nth fs i)"
  have m: "field_matches ?t (field_nth fs i)" using x by (simp add: field_matches_def)
  consider (hit) k where "k < ?n" "field_matches ?t (field_nth fs ((j + k) mod ?n))"
      "pb_field_iter_find (iter_at fs d j) ?t = Some (True, iter_at fs d ((j + k) mod ?n))"
    | (miss) "\<forall>k < ?n. \<not> field_matches ?t (field_nth fs ((j + k) mod ?n))"
    using pb_field_iter_find_at [OF wf j, of ?t d] by blast
  then show ?thesis
  proof cases
    case hit
    have "(j + k) mod ?n < ?n" using j by simp
    then have "(j + k) mod ?n = i" using only hit(2) by (auto simp: field_matches_def)
    with hit(3) show ?thesis by simp
  next
    case miss
    then have "\<forall>l < ?n. \<not> field_matches ?t (field_nth fs l)"
      using cyclic_all_iff [OF j, of "\<lambda>l. \<not> field_matches ?t (field_nth fs l)"] by blast
    then show ?thesis using m i by blast
  qed
qed

section \<open>The required fields\<close>

abbreviation (input) is_required :: "pb_field list \<Rightarrow> nat \<Rightarrow> bool" where
  "is_required fs i \<equiv> PB_HTYPE (ftype (field_nth fs i)) = PB_HTYPE_REQUIRED"

text \<open>How many required fields are before position \<open>i\<close>: the index that the iterator has there.\<close>

definition required_before :: "pb_field list \<Rightarrow> nat \<Rightarrow> nat" where
  "required_before fs i = length (filter (is_required fs) [0..<i])"

lemma required_before_le: "required_before fs i \<le> i"
  using length_filter_le [of "is_required fs" "[0..<i]"] by (simp add: required_before_def)

lemma ranks: "map (\<lambda>i. length (filter P [0..<i])) (filter P [0..<n]) = [0..<length (filter P [0..<n])]"
  by (induction n) simp_all

lemma iter_required_index:
  assumes wf: "wf_fields fs" and o: "\<And>i. i < nfields fs \<Longrightarrow> PB_HTYPE (ftype (field_nth fs i)) \<noteq> PB_HTYPE_ONEOF"
  shows "i < nfields fs \<Longrightarrow> required_field_index (iter_at fs d i) = word_of_nat (required_before fs i)"
proof (induction i)
  case 0
  then show ?case by (simp add: pb_field_iter_begin_def Let_def required_before_def)
next
  case (Suc i)
  then have i: "i < nfields fs" by simp
  show ?case using Suc o [OF i] iter_at_field [OF wf i, of d]
    by (simp add: pb_field_iter_next_def Let_def iter_at_pos [OF wf i] wf_fields_tag [OF wf] required_before_def add.commute)
qed

lemma seek_last_at:
  assumes wf: "wf_fields fs"
  shows "i < nfields fs \<Longrightarrow> seek_last (iter_at fs d i) =
    (required_field_index (iter_at fs d (nfields fs - 1)), ftype (field_nth fs (nfields fs - 1)), iter_at fs d 0)"
proof (induction "nfields fs - i" arbitrary: i)
  case 0
  then show ?case by simp
next
  case (Suc n)
  note nx = iter_next_at [OF wf Suc.prems, of d]
  show ?case
  proof (cases "Suc i < nfields fs")
    case True
    have "n = nfields fs - Suc i" using Suc.hyps(2) by simp
    from Suc.hyps(1) [OF this True] show ?thesis
      using True nx by (simp add: seek_last.simps [of "iter_at fs d i"] del: iter_at.simps)
  next
    case False
    then have e: "Suc i = nfields fs" using Suc.prems by simp
    then have l: "nfields fs - 1 = i" by simp
    show ?thesis unfolding l using nx e iter_at_field [OF wf Suc.prems, of d]
      by (subst seek_last.simps) (simp del: iter_at.simps)
  qed
qed

lemma required_count_at:
  assumes wf: "wf_fields fs" and o: "\<And>i. i < nfields fs \<Longrightarrow> PB_HTYPE (ftype (field_nth fs i)) \<noteq> PB_HTYPE_ONEOF"
    and n: "nfields fs \<le> 64" and i: "i < nfields fs \<or> i = 0"
  shows "required_count (iter_at fs d i) = word_of_nat (required_before fs (nfields fs))"
proof (cases "nfields fs")
  case 0
  then have z: "i = 0" using i by simp
  let ?it = "iter_at fs d 0"
  have t: "ftag (iter_field ?it) = 0" using 0 by (simp add: wf_fields_tag [OF wf] iter_field_def)
  then have "pb_field_iter_next ?it = (False, ?it)" by (simp add: pb_field_iter_next_def)
  then have "seek_last ?it = (required_field_index ?it, ftype (iter_field ?it), ?it)" by (subst seek_last.simps) simp
  moreover have "required_field_index ?it = 0" by (simp add: pb_field_iter_begin_def Let_def)
  ultimately show ?thesis using t by (simp add: required_count_def z 0 required_before_def del: iter_at.simps)
next
  case (Suc k)
  then have i': "i < nfields fs" and k: "k < nfields fs" and l: "nfields fs - 1 = k" using i by auto
  have t: "ftag (iter_field (iter_at fs d 0)) \<noteq> 0"
    using Suc iter_at_field [OF wf, of 0 d] wf_fields_tag [OF wf, of 0] by simp
  have le: "required_before fs (Suc k) \<le> 64" using required_before_le [of fs "Suc k"] n Suc by simp
  then have big: "\<not> (64 :: u32) < word_of_nat (required_before fs (Suc k))" by (simp add: word_less_nat_alt)
  have c: "word_of_nat (required_before fs (Suc k)) = (if is_required fs k
      then word_of_nat (required_before fs k) + 1 else word_of_nat (required_before fs k) :: u32)"
    by (simp add: required_before_def add.commute)
  have "seek_last (iter_at fs d i) = (word_of_nat (required_before fs k), ftype (field_nth fs k), iter_at fs d 0)"
    using seek_last_at [OF wf i', of d] iter_required_index [OF wf o k, of d] l by simp
  then have "required_count (iter_at fs d i) = (let count = word_of_nat (required_before fs (Suc k))
      in if 64 < count then 64 else count)"
    unfolding required_count_def c using t by (simp only: prod.case simp_thms)
  then show ?thesis using big by (simp add: Suc)
qed

text \<open>When all the required fields have been marked, the check passes.\<close>

lemma all_required_seen:
  assumes n: "nfields fs \<le> 64"
  shows "required_seen (word_of_nat (required_before fs (nfields fs)))
    (fold mark_seen (map (\<lambda>i. word_of_nat (required_before fs i)) (filter (is_required fs) [0..<nfields fs])) [0, 0])"
proof -
  let ?N = "nfields fs" and ?r = "required_before fs"
  let ?xs = "map (\<lambda>i. word_of_nat (?r i)) (filter (is_required fs) [0..<?N]) :: u32 list"
  have small: "unat (word_of_nat k :: u32) = k" if "k \<le> 64" for k using that by simp
  have rN: "?r ?N \<le> 64" using required_before_le [of fs ?N] n by simp
  have r: "unat (word_of_nat (?r i) :: u32) = ?r i" if "i < ?N" for i
    using required_before_le [of fs i] that n by (intro small) simp
  have "unat ` set ?xs = ?r ` set (filter (is_required fs) [0..<?N])"
    using r by (auto simp: image_image intro!: image_cong)
  also have "\<dots> = set (map ?r (filter (is_required fs) [0..<?N]))" by simp
  also have "map ?r (filter (is_required fs) [0..<?N]) = [0..<?r ?N]"
    unfolding required_before_def by (rule ranks)
  finally have e: "unat ` set ?xs = {0..<?r ?N}" by simp
  have "unat i < ?r ?N" if "i \<in> set ?xs" for i
  proof -
    have "unat i \<in> {0..<?r ?N}" unfolding e [symmetric] by (rule imageI [OF that])
    then show ?thesis by (simp only: atLeastLessThan_iff)
  qed
  then have all: "\<forall>i \<in> set ?xs. unat i < unat (word_of_nat (?r ?N) :: u32)"
    unfolding small [OF rN] by (rule ballI)
  have "unat (word_of_nat (?r ?N) :: u32) \<le> 64" unfolding small [OF rN] by (rule rN)
  from required_fields_checked [OF this all] show ?thesis unfolding e small [OF rN] by (rule iffD2) (rule order_refl)
qed

section \<open>One iteration of the loop\<close>

abbreviation (input) dentry :: "('s, 'h) pb_dec_env \<Rightarrow> addr \<Rightarrow> nat \<Rightarrow> pb_field" where
  "dentry env fds i \<equiv> field_nth (dfields_at env fds) i"

abbreviation (input) ddata :: "('s, 'h) pb_dec_env \<Rightarrow> addr \<Rightarrow> addr \<Rightarrow> nat \<Rightarrow> addr" where
  "ddata env fds a i \<equiv> a + pData (iter_at (dfields_at env fds) 0 i)"

abbreviation (input) dsize :: "('s, 'h) pb_dec_env \<Rightarrow> addr \<Rightarrow> addr \<Rightarrow> nat \<Rightarrow> addr" where
  "dsize env fds a i \<equiv> a + pSize (iter_at (dfields_at env fds) 0 i)"

abbreviation (input) dfoot :: "('s, 'h) pb_dec_env \<Rightarrow> addr \<Rightarrow> addr \<Rightarrow> nat \<Rightarrow> addr set" where
  "dfoot env fds a i \<equiv> footprint (dentry env fds i) (ddata env fds a i) (dsize env fds a i)"

text \<open>A structure at \<open>dest\<close> that is decoded with \<open>dec\<close> for the submessages.\<close>

definition message_place ::
  "('s, 'h) pb_dec_env \<Rightarrow> nat \<Rightarrow> nat \<Rightarrow> ('s, 'h) dec_call \<Rightarrow> mem \<Rightarrow> addr \<Rightarrow> nat \<Rightarrow> addr \<Rightarrow> bool" where
  "message_place env k n dec m fds sz dest \<longleftrightarrow>
     wire_type (dfields_at env) (Suc k) fds sz \<and> placed dest sz \<and> span dest sz \<inter> counters env (Suc n) = {}
     \<and> (\<forall>i < nfields (dfields_at env fds). sub_reads env k n dec m (dentry env fds i))"

lemma message_placeD:
  assumes p: "message_place env k n dec m fds sz dest"
  shows "wf_fields (dfields_at env fds)" "nfields (dfields_at env fds) \<le> 64"
    "i < nfields (dfields_at env fds) \<Longrightarrow> sub_reads env k n dec m (dentry env fds i)"
    "i < nfields (dfields_at env fds) \<Longrightarrow> wire_field (dentry env fds i)"
    "i < nfields (dfields_at env fds) \<Longrightarrow> iter_field (iter_at (dfields_at env fds) dest i) = dentry env fds i"
    "pData (iter_at (dfields_at env fds) dest i) = ddata env fds dest i"
    "pSize (iter_at (dfields_at env fds) dest i) = dsize env fds dest i"
    "i < nfields (dfields_at env fds) \<Longrightarrow> PB_HTYPE (ftype (dentry env fds i)) \<noteq> PB_HTYPE_ONEOF"
    "i < nfields (dfields_at env fds) \<Longrightarrow> PB_LTYPE (ftype (dentry env fds i)) \<noteq> PB_LTYPE_EXTENSION"
    "i < nfields (dfields_at env fds) \<Longrightarrow>
      dsize env fds dest i = ddata env fds dest i + scast (size_offset (dentry env fds i))"
    "i < nfields (dfields_at env fds) \<Longrightarrow> dfoot env fds dest i \<inter> counters env n = {}"
    "i < nfields (dfields_at env fds) \<Longrightarrow> dfoot env fds dest i \<subseteq> span dest sz"
proof -
  have t: "wire_type (dfields_at env) (Suc k) fds sz" using p by (simp add: message_place_def)
  show wf: "wf_fields (dfields_at env fds)" using t msg_typeD(1) unfolding wire_type_def by blast
  show "nfields (dfields_at env fds) \<le> 64" using t plain_typeD(1) unfolding wire_type_def by blast
  show "pData (iter_at (dfields_at env fds) dest i) = ddata env fds dest i"
    "pSize (iter_at (dfields_at env fds) dest i) = dsize env fds dest i"
    using iter_at_offset [of "dfields_at env fds" dest i] by simp_all
  assume i: "i < nfields (dfields_at env fds)"
  show "sub_reads env k n dec m (dentry env fds i)" using p i by (simp add: message_place_def)
  show wfi: "wire_field (dentry env fds i)" by (rule wire_typeD(1) [OF t i])
  show "iter_field (iter_at (dfields_at env fds) dest i) = dentry env fds i" by (rule iter_at_field [OF wf i])
  show o: "PB_HTYPE (ftype (dentry env fds i)) \<noteq> PB_HTYPE_ONEOF"
    using wfi plain_fieldD(1) [of "dentry env fds i"] by (auto simp: wire_field_def)
  show "PB_LTYPE (ftype (dentry env fds i)) \<noteq> PB_LTYPE_EXTENSION"
    using wfi by (auto simp: wire_field_def no_extension)
  show "dsize env fds dest i = ddata env fds dest i + scast (size_offset (dentry env fds i))"
    using iter_size [OF wf i o] by simp
  show sp: "dfoot env fds dest i \<subseteq> span dest sz" by (rule wire_typeD(3) [OF t i])
  show "dfoot env fds dest i \<inter> counters env n = {}"
    using p sp by (auto simp: message_place_def counters_Suc)
qed

definition mark_field :: "pb_field list \<Rightarrow> nat \<Rightarrow> u32 list \<Rightarrow> u32 list" where
  "mark_field fs i seen = (if is_required fs i then mark_seen (word_of_nat (required_before fs i)) seen else seen)"

text \<open>
  The state between two fields: a good stream, an iterator of the structure, and no array of a
  fixed count.
\<close>

definition between :: "('s, 'h) pb_dec_env \<Rightarrow> addr \<Rightarrow> addr \<Rightarrow> ('s, 'h) dec_state \<Rightarrow> bool" where
  "between env fds dest s \<longleftrightarrow>
     bufsrc.good (ds_stream s) \<and> fixed_count_field s = None
     \<and> (\<exists>j < nfields (dfields_at env fds). ds_iter s = iter_at (dfields_at env fds) dest j)"

lemma tag_wire_not_Nil: "tag_wire wt f \<noteq> []"
  by (simp add: tag_wire_def)

lemma step_reads:
  assumes p: "message_place env k n dec m fds sz dest" and i: "i < nfields (dfields_at env fds)"
    and b: "between env fds dest s" and wt: "unat (wt :: u32) < 8"
    and r: "bufsrc.rest (ds_stream s) = tag_wire wt (dentry env fds i) @ bs @ ts"
    and d: "\<And>st. bufsrc.good st \<Longrightarrow> bufsrc.rest st = bs @ ts \<Longrightarrow>
      \<exists>st' w'. decode_static_field env n dec st wt (iter_at (dfields_at env fds) dest i) (ds_world s) = Some (True, st', w')
        \<and> bufsrc.reads st (length bs) st' \<and> Q w'"
  shows "\<exists>s'. dec_loop env n dec s = dec_loop env n dec s' \<and> between env fds dest s'
    \<and> bufsrc.reads (ds_stream s) (length (tag_wire wt (dentry env fds i) @ bs)) (ds_stream s')
    \<and> fields_seen s' = mark_field (dfields_at env fds) i (fields_seen s)
    \<and> within False (dfoot env fds dest i \<union> counters env n) (ds_world s) (ds_world s') \<and> Q (ds_world s')"
proof -
  let ?fs = "dfields_at env fds" and ?f = "dentry env fds i"
  let ?it = "iter_at ?fs dest i"
  note P = message_placeD [OF p]
  have t: "wire_type (dfields_at env) (Suc k) fds sz" using p by (simp add: message_place_def)
  have pf: "plain_field ?f" and at: "PB_ATYPE (ftype ?f) = PB_ATYPE_STATIC" using P(4) [OF i] by (simp_all add: wire_field_def)
  note pd = plain_fieldD [OF pf]
  obtain j where j: "j < nfields ?fs" "ds_iter s = iter_at ?fs dest j" and g: "bufsrc.good (ds_stream s)"
    and fc: "fixed_count_field s = None" using b by (auto simp: between_def)
  have nz: "ftag ?f \<noteq> 0" using pd(11) by auto
  from bufsrc.decode_tag_reads [OF g wt pd(12) nz r [unfolded tag_wire_def]] obtain st1 where
    t1: "pb_decode_tag (ds_stream s) = (Some (wt, ftag ?f), False, st1)"
    "bufsrc.reads (ds_stream s) (length (tag_wire wt ?f)) st1" unfolding tag_wire_def by blast
  have find: "pb_field_iter_find (ds_iter s) (ftag ?f) = Some (True, ?it)"
    unfolding j(2) by (rule find_tag [OF P(1) j(1) i P(9) [OF i]]) (rule wire_typeD(6) [OF t i])
  let ?s1 = "s\<lparr>ds_stream := st1, ds_iter := ?it\<rparr>"
  have "bufsrc.good st1" "bufsrc.rest st1 = bs @ ts" using t1(2) r by (simp_all add: bufsrc.reads_def)
  from d [OF this] obtain st' w' where
    d: "decode_static_field env n dec st1 wt ?it (ds_world s) = Some (True, st', w')" "bufsrc.reads st1 (length bs) st'" "Q w'"
    by blast
  have "PB_HTYPE (ftype ?f) = PB_HTYPE_REPEATED \<Longrightarrow> pSize ?it \<noteq> pData ?it"
    unfolding P(6,7) P(10) [OF i] using pd(2) by (simp add: scast_eq_0)
  then have "dec_fixed_count (frame_slot env n) ?s1 = Some ?s1"
    using P(5) [OF i] by (auto simp: dec_fixed_count_def Let_def)
  moreover have "decode_field env n dec st1 wt ?it (ds_world s) = Some (True, st', ?it, w')"
    using P(5,8) [OF i] at d(1) by (simp add: decode_field_def)
  moreover have "unat (required_field_index ?it) < 64"
    using iter_required_index [OF P(1) P(8) i] required_before_le [of ?fs i] i P(2) by (simp del: iter_at.simps)
  then have "required_field_index ?it < 64" by (simp add: word_less_nat_alt)
  then have "dec_mark_required ?s1 = ?s1\<lparr>fields_seen := mark_field ?fs i (fields_seen s)\<rparr>"
    using P(5) [OF i] iter_required_index [OF P(1) P(8) i, of dest]
    by (simp add: dec_mark_required_def mark_field_def del: iter_at.simps)
  ultimately have "dec_step env n dec s = Some (DecContinue (?s1\<lparr>fields_seen := mark_field ?fs i (fields_seen s),
      ds_stream := st', ds_iter := ?it, ds_world := w'\<rparr>))" (is "_ = Some (DecContinue ?s2)")
    using t1(1) find by (simp add: dec_step_def dec_known_def Let_def del: iter_at.simps)
  moreover have "bytes_left (ds_stream s) \<noteq> 0"
    using bufsrc.length_rest [OF g] r tag_wire_not_Nil [of wt ?f] by auto
  ultimately have "dec_loop env n dec s = dec_loop env n dec ?s2" by (subst dec_loop.simps) simp
  moreover have rd: "bufsrc.reads (ds_stream s) (length (tag_wire wt ?f @ bs)) (ds_stream ?s2)"
    using bufsrc.reads_trans [OF t1(2) d(2)] by simp
  moreover have "between env fds dest ?s2" using rd fc i by (auto simp: between_def bufsrc.reads_def)
  moreover have "returns False (dfoot env fds dest i \<union> counters env n) st1 (ds_world s)
      (decode_static_field env n dec st1 wt ?it (ds_world s))"
  proof (rule static_field_returns [where S = "counters env n"])
    show "field_in False (dfoot env fds dest i \<union> counters env n) (iter_field ?it) (pData ?it) (pSize ?it)"
      unfolding P(5) [OF i] P(6,7) by (rule wire_field_in [OF P(4) [OF i] P(10) [OF i]]) simp
    show "PB_ATYPE (ftype (iter_field ?it)) = PB_ATYPE_STATIC" unfolding P(5) [OF i] by (rule at)
    show "sub_calls False (counters env n) env n dec (iter_field ?it)"
      unfolding P(5) [OF i] using P(3) [OF i] by (simp add: sub_reads_def)
    show "is_buf_read (isource st1)" using t1(2) by (intro good_is_buf) (simp add: bufsrc.reads_def)
  qed simp
  then have "within False (dfoot env fds dest i \<union> counters env n) (ds_world s) (ds_world ?s2)" using d(1) by simp
  ultimately show ?thesis using d(3) by (intro exI [of _ ?s2]) simp
qed

section \<open>A field\<close>

lemma item_tag_small: "unat (item_tag f) < 8"
  by (auto simp: item_tag_def wiretype_of_ltype_def)

lemma place_array:
  assumes p: "message_place env k n dec m fds sz dest" and i: "i < nfields (dfields_at env fds)"
    and r: "PB_HTYPE (ftype (dentry env fds i)) = PB_HTYPE_REPEATED"
  shows "array_place env n (dentry env fds i) (ddata env fds dest i) (dsize env fds dest i)"
proof -
  have t: "wire_type (dfields_at env) (Suc k) fds sz" "placed dest sz" using p by (simp_all add: message_place_def)
  show ?thesis
    using message_placeD(4,11) [OF p i] wire_typeD(5) [OF t(1) i t(2)] wire_typeD(4) [OF t(1) i, of dest] r
    by (simp add: array_place_def size_width_def)
qed

text \<open>The items of an array that is not packed come one by one.\<close>

lemma items_read:
  assumes p: "message_place env k n dec m fds sz dest" and i: "i < nfields (dfields_at env fds)"
    and f: "f = dentry env fds i" and rp: "PB_HTYPE (ftype f) = PB_HTYPE_REPEATED" and pk: "\<not> packed_field f"
    and N: "N \<le> unat (array_size f)"
    and v: "\<And>j. j < N \<Longrightarrow> valid_item (sub_valid (dfields_at env) k m) f m (q j)"
    and x: "\<And>j. x j = item_view (sub_view (dfields_at env) k m) f m (q j)"
  shows "c \<le> N \<Longrightarrow> between env fds dest s \<Longrightarrow>
    bufsrc.rest (ds_stream s) = concat (map (\<lambda>j. tag_wire (item_tag f) f @ item_wire (msg_wire (dfields_at env) k) f (x j)) [c..<N]) @ ts \<Longrightarrow>
    length (concat (map (\<lambda>j. tag_wire (item_tag f) f @ item_wire (msg_wire (dfields_at env) k) f (x j)) [c..<N])) < 4294967296 \<Longrightarrow>
    items_are env k f (ddata env fds dest i) x c (wmem (ds_world s)) \<Longrightarrow>
    rd32 (wmem (ds_world s)) (dsize env fds dest i) = word_of_nat c \<Longrightarrow>
    \<exists>s'. dec_loop env n dec s = dec_loop env n dec s' \<and> between env fds dest s'
      \<and> bufsrc.reads (ds_stream s)
          (length (concat (map (\<lambda>j. tag_wire (item_tag f) f @ item_wire (msg_wire (dfields_at env) k) f (x j)) [c..<N]))) (ds_stream s')
      \<and> fields_seen s' = fields_seen s
      \<and> within False (dfoot env fds dest i \<union> counters env n) (ds_world s) (ds_world s')
      \<and> items_are env k f (ddata env fds dest i) x N (wmem (ds_world s'))
      \<and> rd32 (wmem (ds_world s')) (dsize env fds dest i) = word_of_nat N"
proof (induction "N - c" arbitrary: c s)
  case 0
  then show ?case by (intro exI [of _ s]) (simp add: between_def bufsrc.reads_refl)
next
  case (Suc h)
  let ?W = "\<lambda>j. item_wire (msg_wire (dfields_at env) k) f (x j)"
  let ?T = "\<lambda>j. tag_wire (item_tag f) f @ ?W j"
  let ?Q = "\<lambda>w. items_are env k f (ddata env fds dest i) x (Suc c) (wmem w)
    \<and> rd32 (wmem w) (dsize env fds dest i) = word_of_nat (Suc c)"
  have c: "c < N" using Suc.hyps(2) by simp
  have e: "concat (map ?T [c..<N]) = ?T c @ concat (map ?T [Suc c..<N])" using c by (simp add: upt_conv_Cons)
  note P = message_placeD [OF p]
  have a: "array_place env n f (ddata env fds dest i) (dsize env fds dest i)"
    unfolding f by (rule place_array [OF p i]) (use rp f in simp)
  have sub: "sub_reads env k n dec m f" unfolding f by (rule P(3) [OF i])
  have cs: "c < unat (array_size f)" using c N by simp
  have lw: "length (?W c) < 4294967296" using Suc.prems(4) unfolding e by simp
  have r: "bufsrc.rest (ds_stream s) = tag_wire (item_tag f) (dentry env fds i) @ ?W c @ concat (map ?T [Suc c..<N]) @ ts"
    using Suc.prems(3) unfolding f [symmetric] e by simp
  have "\<exists>st' w'. decode_static_field env n dec st (item_tag f) (iter_at (dfields_at env fds) dest i) (ds_world s)
      = Some (True, st', w') \<and> bufsrc.reads st (length (?W c)) st' \<and> ?Q w'"
    if "bufsrc.good st" "bufsrc.rest st = ?W c @ concat (map ?T [Suc c..<N]) @ ts" for st
    using static_item_reads [where w = "ds_world s" and wt = "item_tag f", OF a sub cs P(5) [OF i, folded f] P(6,7) pk v [OF c] x
        that lw Suc.prems(5,6)] by blast
  from step_reads [where Q = ?Q, OF p i Suc.prems(2) item_tag_small r this] obtain s1 where
    s1: "dec_loop env n dec s = dec_loop env n dec s1" "between env fds dest s1"
    "bufsrc.reads (ds_stream s) (length (?T c)) (ds_stream s1)"
    "fields_seen s1 = mark_field (dfields_at env fds) i (fields_seen s)"
    "within False (dfoot env fds dest i \<union> counters env n) (ds_world s) (ds_world s1)" "?Q (ds_world s1)"
    unfolding f by blast
  have sn: "fields_seen s1 = fields_seen s" using s1(4) rp f by (simp add: mark_field_def)
  have "bufsrc.rest (ds_stream s1) = concat (map ?T [Suc c..<N]) @ ts"
    using s1(3) Suc.prems(3) unfolding e by (simp add: bufsrc.reads_def)
  moreover have "length (concat (map ?T [Suc c..<N])) < 4294967296" using Suc.prems(4) unfolding e by simp
  moreover have "h = N - Suc c" "Suc c \<le> N" using Suc.hyps(2) by simp_all
  ultimately obtain s' where s': "dec_loop env n dec s1 = dec_loop env n dec s'" "between env fds dest s'"
    "bufsrc.reads (ds_stream s1) (length (concat (map ?T [Suc c..<N]))) (ds_stream s')" "fields_seen s' = fields_seen s1"
    "within False (dfoot env fds dest i \<union> counters env n) (ds_world s1) (ds_world s')"
    "items_are env k f (ddata env fds dest i) x N (wmem (ds_world s'))"
    "rd32 (wmem (ds_world s')) (dsize env fds dest i) = word_of_nat N"
    using Suc.hyps(1) [of "Suc c" s1] s1(2,6) by blast
  have "bufsrc.reads (ds_stream s) (length (concat (map ?T [c..<N]))) (ds_stream s')"
    using bufsrc.reads_trans [OF s1(3) s'(3)] unfolding e by (simp add: add.assoc)
  then show ?case using s1(1) s' sn within_trans [OF s1(5) s'(5)] by (intro exI [of _ s']) simp
qed

text \<open>All that the encoder has written of a field, which may be nothing.\<close>

lemma field_reads:
  assumes p: "message_place env k n dec m fds sz dest" and i: "i < nfields (dfields_at env fds)"
    and f: "f = dentry env fds i" and b: "between env fds dest s"
    and v: "valid_field (sub_valid (dfields_at env) k m) f m d' t'"
    and vs: "vs = field_view (sub_view (dfields_at env) k m) f m d' t'"
    and r: "bufsrc.rest (ds_stream s) = field_wire (msg_wire (dfields_at env) k) f vs @ ts"
    and l: "length (field_wire (msg_wire (dfields_at env) k) f vs) < 4294967296"
    and fr: "fresh_field (\<lambda>g p. fresh (dfields_at env) k g (wmem (ds_world s)) p) f (wmem (ds_world s))
      (ddata env fds dest i) (dsize env fds dest i)"
  shows "\<exists>s'. dec_loop env n dec s = dec_loop env n dec s' \<and> between env fds dest s'
    \<and> bufsrc.reads (ds_stream s) (length (field_wire (msg_wire (dfields_at env) k) f vs)) (ds_stream s')
    \<and> fields_seen s' = mark_field (dfields_at env fds) i (fields_seen s)
    \<and> within False (dfoot env fds dest i \<union> counters env n) (ds_world s) (ds_world s')
    \<and> field_view (sub_view (dfields_at env) k (wmem (ds_world s'))) f (wmem (ds_world s'))
        (ddata env fds dest i) (dsize env fds dest i) = vs"
proof -
  let ?W = "item_wire (msg_wire (dfields_at env) k) f" and ?it = "iter_at (dfields_at env fds) dest i"
  let ?V = "\<lambda>w. field_view (sub_view (dfields_at env) k (wmem w)) f (wmem w) (ddata env fds dest i) (dsize env fds dest i)"
  let ?w = "ds_world s"
  note P = message_placeD [OF p]
  have it: "iter_field ?it = f" "pData ?it = ddata env fds dest i" "pSize ?it = dsize env fds dest i"
    using P(5) [OF i] P(6,7) f by simp_all
  have wf: "wire_field f" and sub: "sub_reads env k n dec m f" using P(3,4) [OF i] f by simp_all
  consider (none) "vs = []" | (packed) "vs \<noteq> []" "packed_field f"
    | (items) "vs \<noteq> []" "PB_HTYPE (ftype f) = PB_HTYPE_REPEATED" "\<not> packed_field f"
    | (one) "vs \<noteq> []" "PB_HTYPE (ftype f) \<noteq> PB_HTYPE_REPEATED" by blast
  then show ?thesis
  proof cases
    case none
    have "?V ?w = []"
    proof (rule fresh_field_view [OF wf fr])
      show "field_view (sub_view (dfields_at env) k m) f m d' t' = []" using vs none by simp
      show "\<forall>vs \<in> set (msg_view (dfields_at env) k (fptr f) (wmem ?w) (ddata env fds dest i)). vs = []"
        if "is_sub f" "fresh (dfields_at env) k (fptr f) (wmem ?w) (ddata env fds dest i)"
          "\<forall>vs \<in> set (msg_view (dfields_at env) k (fptr f) m d'). vs = []"
        using sub that by (intro fresh_view [where sz = "unat (data_size f)", OF _ that(2,3)]) (simp add: sub_reads_def)
    qed
    moreover have "\<not> is_required (dfields_at env fds) i"
      using none vs f by (auto simp: field_view_def Let_def)
    ultimately show ?thesis using none b
      by (intro exI [of _ s]) (auto simp: field_wire_def mark_field_def between_def bufsrc.reads_refl)
  next
    case packed
    have rp: "PB_HTYPE (ftype f) = PB_HTYPE_REPEATED" using packed by (simp add: packed_field_def)
    have a: "array_place env n f (ddata env fds dest i) (dsize env fds dest i)"
      unfolding f by (rule place_array [OF p i]) (use rp f in simp)
    let ?bs = "delimited (concat (map ?W vs))"
    have fw: "field_wire (msg_wire (dfields_at env) k) f vs = tag_wire PB_WT_STRING f @ ?bs"
      using packed by (simp add: field_wire_def)
    have two: "unat PB_WT_STRING < 8" by simp
    have r': "bufsrc.rest (ds_stream s) = tag_wire PB_WT_STRING (dentry env fds i) @ ?bs @ ts"
      using r unfolding fw f [symmetric] by simp
    have "\<exists>st' w'. decode_static_field env n dec st PB_WT_STRING ?it ?w = Some (True, st', w')
        \<and> bufsrc.reads st (length ?bs) st' \<and> ?V w' = vs" if "bufsrc.good st" "bufsrc.rest st = ?bs @ ts" for st
    proof (rule static_packed_reads [OF a sub it packed(2) v vs _ that])
      show "rd32 (wmem ?w) (dsize env fds dest i) = 0" using fr rp by (simp add: fresh_field_def)
      show "length (concat (map ?W vs)) < 4294967296" using l unfolding fw delimited_def by simp
    qed
    from step_reads [where Q = "\<lambda>w. ?V w = vs", OF p i b two r' this] show ?thesis unfolding fw f [symmetric] by blast
  next
    case items
    let ?x = "\<lambda>j. item_view (sub_view (dfields_at env) k m) f m (item_addr d' f (word_of_nat j))"
    let ?T = "\<lambda>j. tag_wire (item_tag f) f @ ?W (?x j)" and ?N = "unat (rd32 m t')"
    note si = source_items [OF v items(2)]
    have fw: "field_wire (msg_wire (dfields_at env) k) f vs = concat (map ?T [0..<?N])"
      using items unfolding vs si(1) by (simp add: field_wire_def o_def)
    have z: "rd32 (wmem ?w) (dsize env fds dest i) = word_of_nat 0" using fr items by (simp add: fresh_field_def)
    have "items_are env k f (ddata env fds dest i) ?x 0 (wmem ?w)" by (simp add: items_are_def)
    from items_read [where x = ?x and q = "\<lambda>j. item_addr d' f (word_of_nat j)" and c = 0 and N = ?N,
        OF p i f items(2,3) si(3) si(2) refl _ b r [unfolded fw] l [unfolded fw] this z]
    obtain s' where s': "dec_loop env n dec s = dec_loop env n dec s'" "between env fds dest s'"
      "bufsrc.reads (ds_stream s) (length (concat (map ?T [0..<?N]))) (ds_stream s')" "fields_seen s' = fields_seen s"
      "within False (dfoot env fds dest i \<union> counters env n) ?w (ds_world s')"
      "items_are env k f (ddata env fds dest i) ?x ?N (wmem (ds_world s'))"
      "rd32 (wmem (ds_world s')) (dsize env fds dest i) = word_of_nat ?N" by auto
    have "?V (ds_world s') = vs" using items_view [OF items(2) s'(6,7) si(3)] by (simp add: vs si(1))
    moreover have "mark_field (dfields_at env fds) i (fields_seen s) = fields_seen s"
      using items(2) f by (simp add: mark_field_def)
    ultimately show ?thesis unfolding fw using s'(1-5) by (intro exI [of _ s']) simp
  next
    case one
    then obtain x where x: "vs = [x]" using vs by (auto simp: field_view_def Let_def split: if_splits)
    have t: "wire_type (dfields_at env) (Suc k) fds sz" "placed dest sz" using p by (simp_all add: message_place_def)
    have fw: "field_wire (msg_wire (dfields_at env) k) f vs = tag_wire (item_tag f) f @ ?W x"
      using one x by (simp add: field_wire_def packed_field_def)
    have r': "bufsrc.rest (ds_stream s) = tag_wire (item_tag f) (dentry env fds i) @ ?W x @ ts"
      using r unfolding fw f [symmetric] by simp
    have "\<exists>st' w'. decode_static_field env n dec st (item_tag f) ?it ?w = Some (True, st', w')
        \<and> bufsrc.reads st (length (?W x)) st' \<and> ?V w' = vs" if "bufsrc.good st" "bufsrc.rest st = ?W x @ ts" for st
      unfolding x
    proof (rule static_single_reads [OF wf sub one(2) it _ v _ that])
      show "dsize env fds dest i = ddata env fds dest i + scast (size_offset f)" unfolding f by (rule P(10) [OF i])
      show "field_view (sub_view (dfields_at env) k m) f m d' t' = [x]" using vs x by simp
      show "length (?W x) < 4294967296" using l unfolding fw by simp
      show "placed (ddata env fds dest i) (data_width f)" unfolding f by (rule wire_typeD(5) [OF t(1) i t(2)])
      show "span (ddata env fds dest i) (data_width f) \<inter> span (dsize env fds dest i) (size_width f) = {}"
        unfolding f by (rule wire_typeD(4) [OF t(1) i])
      show "footprint f (ddata env fds dest i) (dsize env fds dest i) \<inter> counters env n = {}"
        unfolding f by (rule P(11) [OF i])
    qed (rule fr)
    from step_reads [where Q = "\<lambda>w. ?V w = vs", OF p i b item_tag_small r' this] show ?thesis unfolding fw f [symmetric] by blast
  qed
qed

section \<open>All the fields\<close>

abbreviation (input) field_value :: "('s, 'h) pb_dec_env \<Rightarrow> nat \<Rightarrow> addr \<Rightarrow> mem \<Rightarrow> addr \<Rightarrow> nat \<Rightarrow> val list" where
  "field_value env k fds m a i \<equiv>
     field_view (sub_view (dfields_at env) k m) (dentry env fds i) m (ddata env fds a i) (dsize env fds a i)"

abbreviation (input) field_bytes :: "('s, 'h) pb_dec_env \<Rightarrow> nat \<Rightarrow> addr \<Rightarrow> mem \<Rightarrow> addr \<Rightarrow> nat \<Rightarrow> bytes" where
  "field_bytes env k fds m a i \<equiv>
     field_wire (msg_wire (dfields_at env) k) (dentry env fds i) (field_value env k fds m a i)"

abbreviation (input) field_fresh :: "('s, 'h) pb_dec_env \<Rightarrow> nat \<Rightarrow> addr \<Rightarrow> mem \<Rightarrow> addr \<Rightarrow> nat \<Rightarrow> bool" where
  "field_fresh env k fds m a i \<equiv>
     fresh_field (\<lambda>g p. fresh (dfields_at env) k g m p) (dentry env fds i) m (ddata env fds a i) (dsize env fds a i)"

lemma msg_view_wire:
  "msg_view (dfields_at env) (Suc k) fds m a = map (field_value env k fds m a) [0..<nfields (dfields_at env fds)]"
  "msg_wire (dfields_at env) (Suc k) fds (msg_view (dfields_at env) (Suc k) fds m a)
    = concat (map (field_bytes env k fds m a) [0..<nfields (dfields_at env fds)])"
  by (auto simp: nth_or_def intro!: arg_cong [of _ _ concat] map_cong)

text \<open>Decoding one field keeps the others.\<close>

lemma others_keep:
  assumes p: "message_place env k n dec m fds sz dest" and i: "i < nfields (dfields_at env fds)"
    and j: "j < nfields (dfields_at env fds)" "j \<noteq> i"
    and w: "within False (dfoot env fds dest i \<union> counters env n) w w'"
  shows "field_value env k fds (wmem w') dest j = field_value env k fds (wmem w) dest j"
    "field_fresh env k fds (wmem w) dest j \<Longrightarrow> field_fresh env k fds (wmem w') dest j"
proof -
  have t: "wire_type (dfields_at env) (Suc k) fds sz" using p by (simp add: message_place_def)
  note tj = wire_typeD [OF t j(1)]
  have "dfoot env fds dest j \<inter> (dfoot env fds dest i \<union> counters env n) = {}"
    using wire_typeD(7) [OF t i j, of dest] message_placeD(11) [OF p j(1)] by blast
  then have ag: "agree (dfoot env fds dest j) (wmem w) (wmem w')" by (rule within_agree [OF w])
  show "field_value env k fds (wmem w') dest j = field_value env k fds (wmem w) dest j"
    by (rule field_view_cong [OF tj(1) ag]) (rule msg_view_cong [OF tj(2)], assumption, rule agree_mono [OF ag])
  show "field_fresh env k fds (wmem w') dest j" if h: "field_fresh env k fds (wmem w) dest j"
    by (rule fresh_field_cong [OF tj(1) ag _ h]) (rule fresh_cong [OF tj(2)])
qed

text \<open>The state when the first \<open>i\<close> fields have been decoded.\<close>

definition decoded_to ::
  "('s, 'h) pb_dec_env \<Rightarrow> nat \<Rightarrow> addr \<Rightarrow> mem \<Rightarrow> addr \<Rightarrow> addr \<Rightarrow> nat \<Rightarrow> ('s, 'h) dec_state \<Rightarrow> bool" where
  "decoded_to env k fds m a dest i s \<longleftrightarrow>
     between env fds dest s
     \<and> bufsrc.rest (ds_stream s) = concat (map (field_bytes env k fds m a) [i..<nfields (dfields_at env fds)])
     \<and> fields_seen s = fold mark_seen (map (\<lambda>j. word_of_nat (required_before (dfields_at env fds) j))
         (filter (is_required (dfields_at env fds)) [0..<i])) [0, 0]
     \<and> (\<forall>j < i. field_value env k fds (wmem (ds_world s)) dest j = field_value env k fds m a j)
     \<and> (\<forall>j. i \<le> j \<and> j < nfields (dfields_at env fds) \<longrightarrow> field_fresh env k fds (wmem (ds_world s)) dest j)"

lemma fields_read:
  assumes p: "message_place env k n dec m fds sz dest" and v: "valid_msg (dfields_at env) (Suc k) fds m a"
  shows "i \<le> nfields (dfields_at env fds) \<Longrightarrow> decoded_to env k fds m a dest i s \<Longrightarrow>
    length (bufsrc.rest (ds_stream s)) < 4294967296 \<Longrightarrow>
    \<exists>s'. dec_loop env n dec s = dec_loop env n dec s'
      \<and> decoded_to env k fds m a dest (nfields (dfields_at env fds)) s'
      \<and> bufsrc.reads (ds_stream s) (length (bufsrc.rest (ds_stream s))) (ds_stream s')"
proof (induction "nfields (dfields_at env fds) - i" arbitrary: i s)
  case 0
  then show ?case by (intro exI [of _ s]) (simp add: decoded_to_def between_def bufsrc.reads_refl)
next
  case (Suc h)
  let ?fs = "dfields_at env fds"
  let ?B = "field_bytes env k fds m a"
  have i: "i < nfields ?fs" using Suc.hyps(2) by simp
  have r: "bufsrc.rest (ds_stream s) = ?B i @ concat (map ?B [Suc i..<nfields ?fs])"
    and b: "between env fds dest s" and fr: "field_fresh env k fds (wmem (ds_world s)) dest i"
    and seen: "fields_seen s = fold mark_seen (map (\<lambda>j. word_of_nat (required_before ?fs j))
         (filter (is_required ?fs) [0..<i])) [0, 0]"
    using Suc.prems(2) i by (simp_all add: decoded_to_def upt_conv_Cons)
  have vi: "valid_field (sub_valid (dfields_at env) k m) (dentry env fds i) m (ddata env fds a i) (dsize env fds a i)"
    using v i by simp
  have l: "length (?B i) < 4294967296" using Suc.prems(3) r by simp
  from field_reads [OF p i refl b vi refl r l fr] obtain s1 where
    s1: "dec_loop env n dec s = dec_loop env n dec s1" "between env fds dest s1"
    "bufsrc.reads (ds_stream s) (length (?B i)) (ds_stream s1)"
    "fields_seen s1 = mark_field ?fs i (fields_seen s)"
    "within False (dfoot env fds dest i \<union> counters env n) (ds_world s) (ds_world s1)"
    "field_value env k fds (wmem (ds_world s1)) dest i = field_value env k fds m a i" by blast
  have r1: "bufsrc.rest (ds_stream s1) = concat (map ?B [Suc i..<nfields ?fs])"
    using s1(3) r by (simp add: bufsrc.reads_def)
  have "decoded_to env k fds m a dest (Suc i) s1"
    unfolding decoded_to_def
  proof (intro conjI allI impI)
    show "fields_seen s1 = fold mark_seen (map (\<lambda>j. word_of_nat (required_before ?fs j))
         (filter (is_required ?fs) [0..<Suc i])) [0, 0]"
      unfolding s1(4) seen mark_field_def by simp
    fix j
    show "field_value env k fds (wmem (ds_world s1)) dest j = field_value env k fds m a j" if "j < Suc i"
    proof (cases "j = i")
      case False
      with that i have "j < nfields ?fs" "j < i" by simp_all
      then show ?thesis using others_keep(1) [OF p i _ False s1(5)] Suc.prems(2) by (simp add: decoded_to_def)
    qed (use s1(6) in simp)
    show "field_fresh env k fds (wmem (ds_world s1)) dest j" if "Suc i \<le> j \<and> j < nfields ?fs"
      using that others_keep(2) [OF p i _ _ s1(5), of j] Suc.prems(2) by (simp add: decoded_to_def)
  qed (fact s1(2) r1)+
  moreover have "h = nfields ?fs - Suc i" "Suc i \<le> nfields ?fs" "length (bufsrc.rest (ds_stream s1)) < 4294967296"
    using Suc.hyps(2) Suc.prems(3) r r1 by simp_all
  ultimately obtain s' where s': "dec_loop env n dec s1 = dec_loop env n dec s'"
    "decoded_to env k fds m a dest (nfields ?fs) s'"
    "bufsrc.reads (ds_stream s1) (length (bufsrc.rest (ds_stream s1))) (ds_stream s')"
    using Suc.hyps(1) by blast
  have "bufsrc.reads (ds_stream s) (length (bufsrc.rest (ds_stream s))) (ds_stream s')"
    using bufsrc.reads_trans [OF s1(3) s'(3)] r r1 by simp
  then show ?case using s1(1) s'(1,2) by (intro exI [of _ s']) simp
qed

lemma break_reads:
  assumes p: "message_place env k n dec m fds sz dest"
    and d: "bytes_left (ds_stream s) = 0" "fixed_count_field s = None"
    and it: "ds_iter s = iter_at (dfields_at env fds) dest j" "j < nfields (dfields_at env fds) \<or> j = 0"
    and seen: "fields_seen s = fold mark_seen (map (\<lambda>j. word_of_nat (required_before (dfields_at env fds) j))
         (filter (is_required (dfields_at env fds)) [0..<nfields (dfields_at env fds)])) [0, 0]"
  shows "dec_loop env n dec s = Some (DecBreak s)"
    "dec_finish slot s = (True, ds_stream s, ds_world s)"
proof -
  show "dec_loop env n dec s = Some (DecBreak s)" using d by (subst dec_loop.simps) simp
  note P = message_placeD [OF p]
  have "required_count (ds_iter s) = word_of_nat (required_before (dfields_at env fds) (nfields (dfields_at env fds)))"
    unfolding it(1) by (rule required_count_at [OF P(1) P(8) P(2) it(2)])
  then have "required_seen (required_count (ds_iter s)) (fields_seen s)"
    unfolding seen using all_required_seen [OF P(2)] by (simp only:)
  then show "dec_finish slot s = (True, ds_stream s, ds_world s)"
    using d(2) by (simp add: dec_finish_def fixed_count_wrong_def)
qed

section \<open>Whole messages\<close>

lemma noinit_reads:
  fixes st :: "'s pb_istream" and w :: "'h world"
  assumes p: "message_place env k n dec m fds sz dest" and v: "valid_msg (dfields_at env) (Suc k) fds m a"
    and g: "bufsrc.good st"
    and wire: "wire = msg_wire (dfields_at env) (Suc k) fds (msg_view (dfields_at env) (Suc k) fds m a)"
    and r: "bufsrc.rest st = wire" and l: "length wire < 4294967296"
    and fr: "fresh (dfields_at env) (Suc k) fds (wmem w) dest"
  shows "\<exists>st' w'. noinit_body env n dec st fds dest w = Some (True, st', w') \<and> bufsrc.reads st (length wire) st'
    \<and> msg_view (dfields_at env) (Suc k) fds (wmem w') dest = msg_view (dfields_at env) (Suc k) fds m a"
proof -
  let ?fs = "dfields_at env fds" and ?s = "dec_init env n st fds dest w"
  have t: "wire_type (dfields_at env) (Suc k) fds sz" and C: "span dest sz \<inter> counters env (Suc n) = {}"
    using p by (simp_all add: message_place_def)
  have s: "ds_stream ?s = st" "ds_iter ?s = iter_at ?fs dest 0" "fields_seen ?s = [0, 0]"
    "fixed_count_field ?s = None" "ds_world ?s = put32 (frame_slot env n) 0 w"
    by (simp_all add: dec_init_def)
  have "agree (span dest sz) (wmem w) (wmem (ds_world ?s))"
    unfolding s(5) by (rule put_agree(2)) (use C in \<open>auto simp: counters_Suc\<close>)
  then have fr0: "fresh (dfields_at env) (Suc k) fds (wmem (ds_world ?s)) dest" by (rule fresh_cong [OF t _ fr])
  show ?thesis
  proof (cases "nfields ?fs = 0")
    case True
    then have e: "wire = []" "msg_view (dfields_at env) (Suc k) fds m' b = []" for m' b by (simp_all add: wire)
    have "bytes_left (ds_stream ?s) = 0" using bufsrc.length_rest [OF g] r e(1) s(1) by (simp add: unat_eq_0)
    from break_reads [OF p this s(4,2) disjI2 [OF refl]] True s(3)
    have "noinit_body env n dec st fds dest w = Some (True, st, ds_world ?s)" by (simp add: noinit_body_def s(1))
    then show ?thesis using e bufsrc.reads_refl [OF g] by simp
  next
    case False
    have "between env fds dest ?s" using False g s by (auto simp: between_def)
    moreover have "bufsrc.rest st = concat (map (field_bytes env k fds m a) [0..<nfields ?fs])"
      using r unfolding wire msg_view_wire(2) .
    ultimately have "decoded_to env k fds m a dest 0 ?s" using fr0 s by (simp add: decoded_to_def)
    from fields_read [OF p v _ this] l r s(1) obtain s' where
      s': "dec_loop env n dec ?s = dec_loop env n dec s'" "decoded_to env k fds m a dest (nfields ?fs) s'"
      "bufsrc.reads st (length wire) (ds_stream s')" by auto
    have b: "between env fds dest s'" and r': "bufsrc.rest (ds_stream s') = []" using s'(2) by (simp_all add: decoded_to_def)
    have bl: "bytes_left (ds_stream s') = 0" by (rule reads_all_left [OF g r s'(3)])
    obtain j where j: "j < nfields ?fs" "ds_iter s' = iter_at ?fs dest j" "fixed_count_field s' = None"
      using b by (auto simp: between_def)
    note br = break_reads [OF p bl j(3,2) disjI1 [OF j(1)]]
    have "fields_seen s' = fold mark_seen (map (\<lambda>j. word_of_nat (required_before ?fs j))
         (filter (is_required ?fs) [0..<nfields ?fs])) [0, 0]" using s'(2) by (simp add: decoded_to_def)
    note br = br [OF this]
    have "noinit_body env n dec st fds dest w = Some (True, ds_stream s', ds_world s')"
      using s'(1) br by (simp add: noinit_body_def)
    moreover have "msg_view (dfields_at env) (Suc k) fds (wmem (ds_world s')) dest = msg_view (dfields_at env) (Suc k) fds m a"
      unfolding msg_view_wire using s'(2) by (simp add: decoded_to_def)
    ultimately show ?thesis using s'(3) by blast
  qed
qed

lemma decode_call_reads:
  fixes env :: "('s, 'h) pb_dec_env"
  shows "wire_type (dfields_at env) k fds sz \<Longrightarrow> k < n \<Longrightarrow> call_reads env k n (pb_decode_call env n) m fds sz"
proof (induction k arbitrary: n fds sz)
  case 0
  then show ?case by (simp add: wire_type_def)
next
  case (Suc k)
  let ?fa = "dfields_at env"
  obtain n' where n: "n = Suc n'" "k < n'" "Suc k \<le> n'" using Suc.prems(2) by (cases n) auto
  let ?dec = "pb_decode_call env n'"
  have sub: "sub_reads env k n' ?dec m (dentry env fds i)" if i: "i < nfields (?fa fds)" for i
  proof -
    note t = wire_typeD(1,2) [OF Suc.prems(1) i]
    have "sub_calls False (counters env n') env n' ?dec (dentry env fds i)"
      unfolding sub_calls_def
    proof (intro impI conjI allI)
      assume "sub_type (dentry env fds i)"
      then have mt: "msg_type False ?fa k (fptr (dentry env fds i)) (unat (data_size (dentry env fds i)))"
        using t(2) by (simp add: sub_type_def is_sub_def wire_type_def)
      show "returns False (span p (unat (data_size (dentry env fds i))) \<union> counters env n') st w
          (?dec b st (fptr (dentry env fds i)) p w)" if "is_buf_read (isource st)" for b st p w
        by (rule call_returns [OF _ mt n(2) that]) simp
      show "changes False (span p (unat (data_size (dentry env fds i)))) w
          (pb_message_set_to_defaults env n' (fptr (dentry env fds i)) p w)" for p w
        using n(2) by (intro defaults_changes [OF mt]) simp
    qed
    then show ?thesis using t Suc.IH [OF t(2) n(2)] by (simp add: sub_reads_def)
  qed
  show ?case
    unfolding call_reads_def Let_def
  proof (intro allI impI)
    fix i a d and st :: "'s pb_istream" and w :: "'h world"
    let ?wire = "msg_wire ?fa (Suc k) fds (msg_view ?fa (Suc k) fds m a)"
    assume h: "valid_msg ?fa (Suc k) fds m a" "bufsrc.good st" "bufsrc.rest st = ?wire" "length ?wire < 4294967296"
      "placed d sz" "span d sz \<inter> counters env n = {}" "i \<or> fresh ?fa (Suc k) fds (wmem w) d"
    have p: "message_place env k n' ?dec m fds sz d"
      using Suc.prems(1) h(5,6) sub n(1) by (simp add: message_place_def)
    note noinit = noinit_reads [OF p h(1,2) refl h(3,4)]
    show "\<exists>st' w'. pb_decode_call env n i st fds d w = Some (True, st', w') \<and> bufsrc.reads st (length ?wire) st'
        \<and> msg_view ?fa (Suc k) fds (wmem w') d = msg_view ?fa (Suc k) fds m a"
    proof (cases i)
      case True
      obtain w1 where w1: "pb_message_set_to_defaults env n' fds d w = Some w1" "fresh ?fa (Suc k) fds (wmem w1) d"
        using defaults_fresh [OF Suc.prems(1) n(3)] by blast
      from noinit [OF w1(2)] show ?thesis
        using True w1(1) by (auto simp: n(1) decode_body_def simp del: msg_wire.simps msg_view.simps)
    next
      case False
      then show ?thesis using noinit h(7) by (simp add: n(1) del: msg_wire.simps msg_view.simps)
    qed
  qed
qed

lemma pb_decode_reads:
  fixes w :: "'h world" and st :: "'s pb_istream"
  assumes "wire_type (dfields_at env) k fds sz" "valid_msg (dfields_at env) k fds m a" "k < n"
    and "placed dest sz" "span dest sz \<inter> counters env n = {}"
    and "bufsrc.good st" "bufsrc.rest st = msg_wire (dfields_at env) k fds (msg_view (dfields_at env) k fds m a)"
    and "length (bufsrc.rest st) < 4294967296"
  shows "\<exists>st' w'. pb_decode env n st fds dest w = Some (True, st', w') \<and> bytes_left st' = 0
    \<and> msg_view (dfields_at env) k fds (wmem w') dest = msg_view (dfields_at env) k fds m a"
proof -
  have "call_reads env k n (pb_decode_call env n) m fds sz" by (rule decode_call_reads [OF assms(1,3)])
  then obtain st' w' where r: "pb_decode env n st fds dest w = Some (True, st', w')"
    "bufsrc.reads st (length (bufsrc.rest st)) st'"
    "msg_view (dfields_at env) k fds (wmem w') dest = msg_view (dfields_at env) k fds m a"
    using assms(2,4-8) unfolding call_reads_def pb_decode_def Let_def by metis
  have "bytes_left st' = 0" by (rule reads_all_left [OF assms(6) refl r(2)])
  with r show ?thesis by blast
qed

section \<open>The round trip\<close>

lemma apart_from_counters:
  "\<forall>x. unat (x - dest) < sz \<longrightarrow> (\<forall>j < n. \<not> unat (x - frame_slot env j) < 4) \<Longrightarrow> span dest sz \<inter> counters env n = {}"
  by (auto simp: span_def counters_def)

text \<open>
  C1: decoding undoes encoding, for whole messages. \<open>pb_encode\<close> writes a structure of static fields
  to every buffer with room for it, and \<open>pb_decode\<close> of the bytes written succeeds with the same
  descriptors, uses up its input, and leaves at \<open>dest\<close> a structure of the same value, in whatever
  state the memory was before: every field is present or absent as in the source, with its
  numbers, bytes, strings, arrays and submessages. The structure at \<open>dest\<close> is apart from the
  decoder's own counters, and the message shorter than \<open>2^32\<close> bytes.
\<close>

theorem message_roundtrip:
  assumes "wire_type (fields_at eenv) k fds sz" "valid_msg (fields_at eenv) k fds m src" "k < n"
    and "placed src sz" "placed dest sz" "dfields_at denv = fields_at eenv"
    and "\<forall>x. unat (x - dest) < sz \<longrightarrow> (\<forall>j < n. \<not> unat (x - frame_slot denv j) < 4)"
    and "length (msg_wire (fields_at eenv) k fds (msg_view (fields_at eenv) k fds m src)) \<le> unat lim"
    and "unat lim \<le> length buf" "unat lim < 4294967296"
  shows "\<exists>st st' w'. pb_encode m eenv n (pb_ostream_from_buffer buf lim) fds src = Some (True, st)
    \<and> pb_decode denv n (written_stream st) fds dest w = Some (True, st', w') \<and> bytes_left st' = 0
    \<and> msg_view (fields_at eenv) k fds (wmem w') dest = msg_view (fields_at eenv) k fds m src"
proof -
  obtain st where st: "pb_encode m eenv n (pb_ostream_from_buffer buf lim) fds src = Some (True, st)"
    "bufsink.appends (pb_ostream_from_buffer buf lim)
       (msg_wire (fields_at eenv) k fds (msg_view (fields_at eenv) k fds m src)) st"
    using encoded_wire [OF assms(1,2,4,3,8,9)] by blast
  note g = written_stream_appends [OF st(2)]
  obtain st' w' where "pb_decode denv n (written_stream st) fds dest w = Some (True, st', w')" "bytes_left st' = 0"
    "msg_view (dfields_at denv) k fds (wmem w') dest = msg_view (dfields_at denv) k fds m src"
    using pb_decode_reads [where w = w and k = k and fds = fds and m = m and a = src, OF _ _ assms(3,5) apart_from_counters [OF assms(7)] g(1)]
      g(2) assms(1,2,8,10) unfolding assms(6) by auto
  with st(1) show ?thesis unfolding assms(6) by blast
qed

theorem message_roundtrip_witness:
  "\<exists>st st' w'. pb_encode sample_struct (no_callbacks sample_types) 3 (pb_ostream_from_buffer (replicate 20 0) 20) 1 0x1000
      = Some (True, st)
    \<and> pb_decode (plain_env sample_types) 3 (written_stream st) 1 0x2000 sevens = Some (True, st', w')
    \<and> msg_view sample_types 2 1 (wmem w') 0x2000 = sample_value"
proof -
  have f: "fields_at (no_callbacks sample_types) = sample_types" "dfields_at (plain_env sample_types) = sample_types"
    by (simp_all add: no_callbacks_def plain_env_def)
  have l: "length sample_bytes = 19" by (simp add: sample_bytes_def)
  have "\<forall>x :: addr. unat (x - 0x2000) < 32 \<longrightarrow> (\<forall>j < 3. \<not> unat (x - frame_slot (plain_env sample_types) j) < 4)"
  proof (intro allI impI)
    fix x :: addr and j :: nat
    assume x: "unat (x - 0x2000) < 32" and j: "j < 3"
    from j consider "j = 0" | "j = 1" | "j = 2" by linarith
    then obtain q :: addr where q: "frame_slot (plain_env sample_types) j = 0x2000 + q" "unat q \<in> {0x7000, 0x7010, 0x7020}"
      by cases (auto simp: plain_env_def intro: that [of "0x7000"] that [of "0x7010"] that [of "0x7020"])
    show "\<not> unat (x - frame_slot (plain_env sample_types) j) < 4"
    proof
      assume "unat (x - frame_slot (plain_env sample_types) j) < 4"
      then have "x \<in> span (0x2000 + q) 4" unfolding q(1) by (simp add: span_def)
      from span_offset [OF this] q(2) x show False by auto
    qed
  qed
  from message_roundtrip [of "no_callbacks sample_types" 2 1 32 sample_struct "0x1000" 3 "0x2000"
      "plain_env sample_types" 20 "replicate 20 0" sevens, unfolded f sample_struct_is(2,3), OF _ _ _ _ _ refl this]
  show ?thesis using sample_type sample_struct_is(1) sample_placed l by auto
qed

end
