(* ===== verification/Bs_Mem.thy ===== *)
theory Bs_Mem
  imports Base
begin

text \<open>
  BoringSSL's \<open>crypto/mem.c\<close>: the sized allocator, the constant-time comparison, the FNV hash
  and the string helpers that the byte-string code, the stacks and the hash tables call.

  The system's \<open>malloc\<close> is a parameter: a function from the requested size to the contents of
  the block, or \<^const>\<open>None\<close> when it returns NULL. A pointer from \<open>OPENSSL_malloc\<close> is a
  record of the size stored in front of the block and of the bytes that follow it. A C string
  is the list of its characters without the terminating zero, so that \<open>nth_or 0 s i\<close> reads
  \<open>s[i]\<close> up to and including the terminator.
\<close>

section \<open>The sized allocator\<close>

type_synonym sys_malloc = "u64 \<Rightarrow> bytes option"

record oblock =
  ob_size :: u64
  ob_data :: bytes

definition OPENSSL_MALLOC_PREFIX :: u64 where
  "OPENSSL_MALLOC_PREFIX = 8"

text \<open>
  The addition of the prefix wraps, as it does in the code, so that the block may be smaller
  than the size that is stored in it.
\<close>

definition OPENSSL_malloc :: "sys_malloc \<Rightarrow> u64 \<Rightarrow> oblock option" where
  "OPENSSL_malloc mal n = (case mal (n + OPENSSL_MALLOC_PREFIX) of
      None \<Rightarrow> None
    | Some blk \<Rightarrow> Some \<lparr>ob_size = n, ob_data = drop 8 blk\<rparr>)"

text \<open>\<open>OPENSSL_realloc\<close> copies the smaller of the two sizes into a new block.\<close>

definition OPENSSL_realloc :: "sys_malloc \<Rightarrow> oblock option \<Rightarrow> u64 \<Rightarrow> oblock option" where
  "OPENSSL_realloc mal orig new_size = (case orig of
      None \<Rightarrow> OPENSSL_malloc mal new_size
    | Some old \<Rightarrow> (case OPENSSL_malloc mal new_size of
        None \<Rightarrow> None
      | Some ret \<Rightarrow>
          let to_copy = (if ob_size old < new_size then ob_size old else new_size)
          in Some (ret\<lparr>ob_data := list_blit (ob_data ret) 0 (read_at (ob_data old) 0 (unat to_copy))\<rparr>)))"

definition OPENSSL_memdup :: "sys_malloc \<Rightarrow> bytes \<Rightarrow> oblock option" where
  "OPENSSL_memdup mal data = (if data = [] then None
    else case OPENSSL_malloc mal (word_of_nat (length data)) of
      None \<Rightarrow> None
    | Some ret \<Rightarrow> Some (ret\<lparr>ob_data := list_blit (ob_data ret) 0 data\<rparr>))"

text \<open>
  The law of the system's allocator: a block has the size that was asked for, and no block is
  larger than \<open>PTRDIFF_MAX\<close>.
\<close>

definition malloc_ok :: "sys_malloc \<Rightarrow> bool" where
  "malloc_ok mal \<longleftrightarrow>
    (\<forall>n blk. mal n = Some blk \<longrightarrow> length blk = unat n \<and> unat n < 9223372036854775808)"

text \<open>A well-formed block holds as many bytes as its size says.\<close>

definition block_ok :: "oblock \<Rightarrow> bool" where
  "block_ok b \<longleftrightarrow> length (ob_data b) = unat (ob_size b)"

section \<open>Comparison, hashing and strings\<close>

fun memcmp_acc :: "u8 \<Rightarrow> bytes \<Rightarrow> bytes \<Rightarrow> u8" where
  "memcmp_acc x (a # as) (b # bs) = memcmp_acc (x OR (a XOR b)) as bs"
| "memcmp_acc x as bs = x"

definition CRYPTO_memcmp :: "bytes \<Rightarrow> bytes \<Rightarrow> nat \<Rightarrow> int" where
  "CRYPTO_memcmp a b len = uint (memcmp_acc 0 (take len a) (take len b))"

text \<open>The sign of what the library's \<open>memcmp\<close> returns, on as many bytes as both have.\<close>

fun memcmp_sign :: "bytes \<Rightarrow> bytes \<Rightarrow> int" where
  "memcmp_sign (a # as) (b # bs) = (if a < b then - 1 else if b < a then 1 else memcmp_sign as bs)"
| "memcmp_sign as bs = 0"

lemma memcmp_sign_eq: "length a = length b \<Longrightarrow> memcmp_sign a b = 0 \<longleftrightarrow> a = b"
  by (induction a b rule: memcmp_sign.induct) auto

definition OPENSSL_hash32 :: "bytes \<Rightarrow> u32" where
  "OPENSSL_hash32 ptr = foldl (\<lambda>h c. (h XOR ucast c) * 16777619) 2166136261 ptr"

fun OPENSSL_strnlen :: "bytes \<Rightarrow> nat \<Rightarrow> nat" where
  "OPENSSL_strnlen (c # s) (Suc n) = (if c = 0 then 0 else Suc (OPENSSL_strnlen s n))"
| "OPENSSL_strnlen s n = 0"

text \<open>A zero-terminated copy: \<open>strdup\<close> of a whole string, \<open>strndup\<close> of at most \<open>size\<close> bytes.\<close>

definition OPENSSL_strdup :: "sys_malloc \<Rightarrow> bytes option \<Rightarrow> oblock option" where
  "OPENSSL_strdup mal s = (case s of
      None \<Rightarrow> None
    | Some cs \<Rightarrow> (case OPENSSL_malloc mal (word_of_nat (length cs) + 1) of
        None \<Rightarrow> None
      | Some ret \<Rightarrow> Some (ret\<lparr>ob_data := list_blit (ob_data ret) 0 (cs @ [0])\<rparr>)))"

definition OPENSSL_strndup :: "sys_malloc \<Rightarrow> bytes option \<Rightarrow> nat \<Rightarrow> oblock option" where
  "OPENSSL_strndup mal s len = (case s of
      None \<Rightarrow> None
    | Some cs \<Rightarrow>
        let n = OPENSSL_strnlen cs len;
            alloc_size = (word_of_nat n :: u64) + 1
        in if alloc_size < word_of_nat n then None
           else case OPENSSL_malloc mal alloc_size of
              None \<Rightarrow> None
            | Some ret \<Rightarrow> Some (ret\<lparr>ob_data :=
                list_blit (list_blit (ob_data ret) 0 (take n cs)) n [0]\<rparr>))"

definition OPENSSL_tolower :: "int \<Rightarrow> int" where
  "OPENSSL_tolower c = (if 65 \<le> c \<and> c \<le> 90 then c + (97 - 65) else c)"

text \<open>\<open>char\<close> is signed on the target, and its value is widened to an \<open>int\<close>.\<close>

fun strcase_loop :: "bytes \<Rightarrow> bytes \<Rightarrow> int" where
  "strcase_loop a b =
    (let aa = OPENSSL_tolower (sint (nth_or 0 a 0)); bb = OPENSSL_tolower (sint (nth_or 0 b 0))
     in if aa < bb then - 1 else if bb < aa then 1 else if aa = 0 then 0
        else case a of [] \<Rightarrow> 0 | _ # a' \<Rightarrow> strcase_loop a' (drop 1 b))"

definition OPENSSL_strcasecmp :: "bytes \<Rightarrow> bytes \<Rightarrow> int" where
  "OPENSSL_strcasecmp a b = strcase_loop a b"

fun OPENSSL_strncasecmp :: "bytes \<Rightarrow> bytes \<Rightarrow> nat \<Rightarrow> int" where
  "OPENSSL_strncasecmp a b 0 = 0"
| "OPENSSL_strncasecmp a b (Suc n) =
    (let aa = OPENSSL_tolower (sint (nth_or 0 a 0)); bb = OPENSSL_tolower (sint (nth_or 0 b 0))
     in if aa < bb then - 1 else if bb < aa then 1 else if aa = 0 then 0
        else OPENSSL_strncasecmp (drop 1 a) (drop 1 b) n)"

text \<open>
  \<open>strlcpy\<close> and \<open>strlcat\<close> write into a buffer of \<open>dst_size\<close> bytes and return the length they
  wanted to write; the result is the new buffer and that length.
\<close>

fun strlcpy_loop :: "bytes \<Rightarrow> bytes \<Rightarrow> nat \<Rightarrow> bytes \<times> nat" where
  "strlcpy_loop dst (c # src) (Suc (Suc n)) =
    (if c = 0 then (list_blit dst 0 [0], 0)
     else let (d, l) = strlcpy_loop (drop 1 dst) src (Suc n) in (c # d, Suc l))"
| "strlcpy_loop dst src 0 = (dst, length src)"
| "strlcpy_loop dst src (Suc n) = (list_blit dst 0 [0], length src)"

definition OPENSSL_strlcpy :: "bytes \<Rightarrow> bytes \<Rightarrow> nat \<Rightarrow> bytes \<times> nat" where
  "OPENSSL_strlcpy dst src dst_size = strlcpy_loop dst src dst_size"

fun OPENSSL_strlcat :: "bytes \<Rightarrow> bytes \<Rightarrow> nat \<Rightarrow> bytes \<times> nat" where
  "OPENSSL_strlcat dst src 0 = OPENSSL_strlcpy dst src 0"
| "OPENSSL_strlcat [] src (Suc n) = OPENSSL_strlcpy [] src (Suc n)"
| "OPENSSL_strlcat (c # dst) src (Suc n) =
    (if c = 0 then OPENSSL_strlcpy (c # dst) src (Suc n)
     else let (d, l) = OPENSSL_strlcat dst src n in (c # d, Suc l))"

section \<open>Properties of the helpers\<close>

lemma OPENSSL_malloc_ok:
  assumes "malloc_ok mal" "OPENSSL_malloc mal n = Some b" "unat n + 8 < 18446744073709551616"
  shows "block_ok b \<and> ob_size b = n \<and> unat n + 8 < 9223372036854775808"
proof -
  obtain blk where b: "mal (n + 8) = Some blk" "b = \<lparr>ob_size = n, ob_data = drop 8 blk\<rparr>"
    using assms(2) by (auto simp: OPENSSL_malloc_def OPENSSL_MALLOC_PREFIX_def split: option.splits)
  then have "length blk = unat (n + 8)" "unat (n + 8) < 9223372036854775808"
    using assms(1) by (auto simp: malloc_ok_def)
  moreover have "unat (n + 8) = unat n + 8"
    using assms(3) unat_plus_no_overflow_u64 [of n 8] by simp
  ultimately show ?thesis by (simp add: b block_ok_def)
qed

lemma OPENSSL_realloc_ok:
  assumes "malloc_ok mal" "OPENSSL_realloc mal (Some old) n = Some b" "block_ok old"
    and "unat n + 8 < 18446744073709551616" "ob_size old \<le> n"
  shows "block_ok b \<and> ob_size b = n \<and> unat n + 8 < 9223372036854775808 \<and> take (unat (ob_size old)) (ob_data b) = ob_data old"
proof -
  obtain r where r: "OPENSSL_malloc mal n = Some r"
    "b = r\<lparr>ob_data := list_blit (ob_data r) 0 (read_at (ob_data old) 0 (unat (ob_size old)))\<rparr>"
    using assms(2,5) by (auto simp: OPENSSL_realloc_def Let_def split: option.splits if_splits)
  have ok: "block_ok r" "ob_size r = n" "unat n + 8 < 9223372036854775808"
    using OPENSSL_malloc_ok [OF assms(1) r(1) assms(4)] by simp_all
  have le: "unat (ob_size old) \<le> unat n" using assms(5) by (simp add: word_le_nat_alt)
  have "read_at (ob_data old) 0 (unat (ob_size old)) = ob_data old"
    using assms(3) by (simp add: read_at_in_bounds block_ok_def)
  then show ?thesis
    using ok le assms(3) by (simp add: r(2) block_ok_def list_blit_def)
qed

lemma memcmp_acc_zero:
  "length a = length b \<Longrightarrow> memcmp_acc x a b = 0 \<longleftrightarrow> x = 0 \<and> a = b"
proof (induction x a b rule: memcmp_acc.induct)
  case (1 x a as b bs)
  have "(a XOR b = 0) = (a = b)" by (simp add: bit_eq_iff bit_xor_iff)
  then show ?case using 1 by (auto simp: or_eq_0_iff)
qed simp_all

lemma CRYPTO_memcmp_eq: "length a = length b \<Longrightarrow> CRYPTO_memcmp a b (length a) = 0 \<longleftrightarrow> a = b"
  by (simp add: CRYPTO_memcmp_def uint_0_iff memcmp_acc_zero)

lemma OPENSSL_strnlen_le: "OPENSSL_strnlen s n \<le> length s \<and> OPENSSL_strnlen s n \<le> n"
  by (induction s n rule: OPENSSL_strnlen.induct) auto

lemma OPENSSL_strnlen_takeWhile:
  "OPENSSL_strnlen s n = length (takeWhile (\<lambda>c. c \<noteq> 0) (take n s))"
  by (induction s n rule: OPENSSL_strnlen.induct) auto

text \<open>An allocator with room for every request below \<open>N\<close> bytes.\<close>

definition roomy :: "sys_malloc \<Rightarrow> nat \<Rightarrow> bool" where
  "roomy mal N \<longleftrightarrow> malloc_ok mal \<and> (\<forall>n. unat n < N \<longrightarrow> mal n \<noteq> None) \<and> N \<le> 9223372036854775808"

lemma realloc_total: "roomy mal N \<Longrightarrow> unat n + 8 < N \<Longrightarrow> OPENSSL_realloc mal buf n \<noteq> None"
proof -
  assume r: "roomy mal N" and n: "unat n + 8 < N"
  have "unat (n + 8) = unat n + 8"
    using r n unat_plus_no_overflow_u64 [of n 8] by (simp add: roomy_def)
  then have "mal (n + 8) \<noteq> None" using r n by (simp add: roomy_def)
  then show ?thesis
    by (auto simp: OPENSSL_realloc_def OPENSSL_malloc_def OPENSSL_MALLOC_PREFIX_def Let_def
        split: option.splits)
qed

lemma malloc_total: "roomy mal N \<Longrightarrow> unat n + 8 < N \<Longrightarrow> OPENSSL_malloc mal n \<noteq> None"
  using realloc_total [of mal N n None] by (simp add: OPENSSL_realloc_def)

text \<open>An allocator that serves the requests below 4096 bytes, for the examples.\<close>

definition sample_malloc :: sys_malloc where
  "sample_malloc n = (if uint n < 4096 then Some (replicate (unat n) 0xcd) else None)"

lemma sample_malloc_ok: "malloc_ok sample_malloc"
  unfolding malloc_ok_def
proof (intro allI impI)
  fix n blk
  assume a: "sample_malloc n = Some blk"
  then have "uint n < 4096" "blk = replicate (unat n) 0xcd"
    by (auto simp: sample_malloc_def split: if_splits)
  moreover from this(1) have "unat n < 4096" using nat_less_iff [of "uint n" 4096] by simp
  ultimately show "length blk = unat n \<and> unat n < 9223372036854775808" by simp
qed

lemma sample_roomy: "roomy sample_malloc 4096"
proof -
  have "sample_malloc n \<noteq> None" if "unat n < 4096" for n
  proof -
    have "uint n < 4096" using that nat_less_iff [of "uint n" 4096] by simp
    then show ?thesis by (simp add: sample_malloc_def)
  qed
  then show ?thesis using sample_malloc_ok by (simp add: roomy_def)
qed

end
