(* ===== verification/Cbs.thy ===== *)
theory Cbs
  imports Bs_Mem
begin

text \<open>
  BoringSSL's \<open>crypto/bytestring/cbs.c\<close>: the reader of byte strings and of DER.

  A \<open>CBS\<close> is a window (pointer and length) on constant bytes; it is modelled by the bytes of
  the window, whose number is below 2^64. An operation returns what it stores through its out
  parameter, or \<^const>\<open>None\<close> when it returns 0, together with the window it leaves: several
  operations have already advanced the window when they fail. A NULL out parameter is a
  result the caller ignores.
\<close>

type_synonym cbs = bytes

named_theorems cbs_simps \<open>evaluation of the primitive readers\<close>

section \<open>Primitive readers\<close>

definition cbs_get :: "u64 \<Rightarrow> cbs \<Rightarrow> bytes option \<times> cbs" where
  "cbs_get n cbs = (if length cbs < unat n then (None, cbs)
    else (Some (take (unat n) cbs), drop (unat n) cbs))"

definition CBS_skip :: "u64 \<Rightarrow> cbs \<Rightarrow> bool \<times> cbs" where
  "CBS_skip len cbs = (case cbs_get len cbs of
      (None, c) \<Rightarrow> (False, c) | (Some _, c) \<Rightarrow> (True, c))"

definition CBS_len :: "cbs \<Rightarrow> u64" where
  "CBS_len cbs = word_of_nat (length cbs)"

text \<open>The result, the copy (\<^const>\<open>None\<close> for NULL) and its length.\<close>

definition CBS_stow :: "sys_malloc \<Rightarrow> cbs \<Rightarrow> bool \<times> oblock option \<times> u64" where
  "CBS_stow mal cbs = (if CBS_len cbs = 0 then (True, None, 0)
    else case OPENSSL_memdup mal cbs of
      None \<Rightarrow> (False, None, 0)
    | Some p \<Rightarrow> (True, Some p, CBS_len cbs))"

definition CBS_strdup :: "sys_malloc \<Rightarrow> cbs \<Rightarrow> bool \<times> oblock option" where
  "CBS_strdup mal cbs = (let p = OPENSSL_strndup mal (Some cbs) (length cbs) in (p \<noteq> None, p))"

definition CBS_contains_zero_byte :: "cbs \<Rightarrow> bool" where
  "CBS_contains_zero_byte cbs = list_ex (\<lambda>b. b = 0) cbs"

definition CBS_mem_equal :: "cbs \<Rightarrow> bytes \<Rightarrow> bool" where
  "CBS_mem_equal cbs data = (if length data \<noteq> length cbs then False
    else CRYPTO_memcmp cbs data (length data) = 0)"

definition be_word :: "bytes \<Rightarrow> u64" where
  "be_word data = foldl (\<lambda>result b. push_bit 8 result OR ucast b) 0 data"

definition cbs_get_u :: "u64 \<Rightarrow> cbs \<Rightarrow> u64 option \<times> cbs" where
  "cbs_get_u len cbs = (case cbs_get len cbs of
      (None, c) \<Rightarrow> (None, c) | (Some data, c) \<Rightarrow> (Some (be_word data), c))"

definition CBS_get_u8 :: "cbs \<Rightarrow> u8 option \<times> cbs" where
  "CBS_get_u8 cbs = (case cbs_get 1 cbs of
      (None, c) \<Rightarrow> (None, c) | (Some v, c) \<Rightarrow> (Some (hd v), c))"

definition CBS_get_u16 :: "cbs \<Rightarrow> u16 option \<times> cbs" where
  "CBS_get_u16 cbs = (case cbs_get_u 2 cbs of
      (None, c) \<Rightarrow> (None, c) | (Some v, c) \<Rightarrow> (Some (ucast v), c))"

definition CBS_get_u24 :: "cbs \<Rightarrow> u32 option \<times> cbs" where
  "CBS_get_u24 cbs = (case cbs_get_u 3 cbs of
      (None, c) \<Rightarrow> (None, c) | (Some v, c) \<Rightarrow> (Some (ucast v), c))"

definition CBS_get_u32 :: "cbs \<Rightarrow> u32 option \<times> cbs" where
  "CBS_get_u32 cbs = (case cbs_get_u 4 cbs of
      (None, c) \<Rightarrow> (None, c) | (Some v, c) \<Rightarrow> (Some (ucast v), c))"

definition CBS_get_u64 :: "cbs \<Rightarrow> u64 option \<times> cbs" where
  "CBS_get_u64 cbs = cbs_get_u 8 cbs"

text \<open>The byte swaps of \<open>crypto/internal.h\<close>, in their portable form.\<close>

definition CRYPTO_bswap2 :: "u16 \<Rightarrow> u16" where
  "CRYPTO_bswap2 x = drop_bit 8 x OR push_bit 8 x"

definition CRYPTO_bswap4 :: "u32 \<Rightarrow> u32" where
  "CRYPTO_bswap4 x0 = (let x = drop_bit 16 x0 OR push_bit 16 x0
    in drop_bit 8 (x AND 0xff00ff00) OR push_bit 8 (x AND 0x00ff00ff))"

definition CRYPTO_bswap8 :: "u64 \<Rightarrow> u64" where
  "CRYPTO_bswap8 x = ucast (CRYPTO_bswap4 (ucast (drop_bit 32 x)))
    OR push_bit 32 (ucast (CRYPTO_bswap4 (ucast x)))"

definition CBS_get_u16le :: "cbs \<Rightarrow> u16 option \<times> cbs" where
  "CBS_get_u16le cbs = (case CBS_get_u16 cbs of
      (None, c) \<Rightarrow> (None, c) | (Some v, c) \<Rightarrow> (Some (CRYPTO_bswap2 v), c))"

definition CBS_get_u32le :: "cbs \<Rightarrow> u32 option \<times> cbs" where
  "CBS_get_u32le cbs = (case CBS_get_u32 cbs of
      (None, c) \<Rightarrow> (None, c) | (Some v, c) \<Rightarrow> (Some (CRYPTO_bswap4 v), c))"

definition CBS_get_u64le :: "cbs \<Rightarrow> u64 option \<times> cbs" where
  "CBS_get_u64le cbs = (case cbs_get_u 8 cbs of
      (None, c) \<Rightarrow> (None, c) | (Some v, c) \<Rightarrow> (Some (CRYPTO_bswap8 v), c))"

definition CBS_get_last_u8 :: "cbs \<Rightarrow> u8 option \<times> cbs" where
  "CBS_get_last_u8 cbs = (if CBS_len cbs = 0 then (None, cbs)
    else (Some (last cbs), butlast cbs))"

definition CBS_get_bytes :: "u64 \<Rightarrow> cbs \<Rightarrow> cbs option \<times> cbs" where
  "CBS_get_bytes len cbs = cbs_get len cbs"

text \<open>The bytes copied to \<open>out\<close>.\<close>

definition CBS_copy_bytes :: "u64 \<Rightarrow> cbs \<Rightarrow> bytes option \<times> cbs" where
  "CBS_copy_bytes len cbs = cbs_get len cbs"

definition cbs_get_length_prefixed :: "u64 \<Rightarrow> cbs \<Rightarrow> cbs option \<times> cbs" where
  "cbs_get_length_prefixed len_len cbs = (case cbs_get_u len_len cbs of
      (None, c) \<Rightarrow> (None, c) | (Some len, c) \<Rightarrow> CBS_get_bytes len c)"

definition CBS_get_u8_length_prefixed :: "cbs \<Rightarrow> cbs option \<times> cbs" where
  "CBS_get_u8_length_prefixed cbs = cbs_get_length_prefixed 1 cbs"

definition CBS_get_u16_length_prefixed :: "cbs \<Rightarrow> cbs option \<times> cbs" where
  "CBS_get_u16_length_prefixed cbs = cbs_get_length_prefixed 2 cbs"

definition CBS_get_u24_length_prefixed :: "cbs \<Rightarrow> cbs option \<times> cbs" where
  "CBS_get_u24_length_prefixed cbs = cbs_get_length_prefixed 3 cbs"

section \<open>Tags and elements\<close>

text \<open>The do-while loop of \<open>parse_base128_integer\<close>, from a value read so far.\<close>

fun base128_loop :: "u64 \<Rightarrow> cbs \<Rightarrow> u64 option \<times> cbs" where
  "base128_loop v [] = (None, [])"
| "base128_loop v (b # c) =
    (if drop_bit (64 - 7) v \<noteq> 0 then (None, c)
     else if v = 0 \<and> b = 0x80 then (None, c)
     else let v' = push_bit 7 v OR ucast (b AND 0x7f)
          in if b AND 0x80 \<noteq> 0 then base128_loop v' c else (Some v', c))"

definition parse_base128_integer :: "cbs \<Rightarrow> u64 option \<times> cbs" where
  "parse_base128_integer cbs = base128_loop 0 cbs"

abbreviation (input) CBS_ASN1_TAG_SHIFT :: nat where "CBS_ASN1_TAG_SHIFT \<equiv> 24"
abbreviation (input) CBS_ASN1_CONSTRUCTED :: u32 where "CBS_ASN1_CONSTRUCTED \<equiv> 0x20000000"
abbreviation (input) CBS_ASN1_TAG_NUMBER_MASK :: u32 where "CBS_ASN1_TAG_NUMBER_MASK \<equiv> 0x1fffffff"
abbreviation (input) CBS_ASN1_BOOLEAN :: u32 where "CBS_ASN1_BOOLEAN \<equiv> 1"
abbreviation (input) CBS_ASN1_INTEGER :: u32 where "CBS_ASN1_INTEGER \<equiv> 2"
abbreviation (input) CBS_ASN1_OCTETSTRING :: u32 where "CBS_ASN1_OCTETSTRING \<equiv> 4"

definition parse_asn1_tag :: "cbs \<Rightarrow> u32 option \<times> cbs" where
  "parse_asn1_tag cbs = (case CBS_get_u8 cbs of
      (None, c) \<Rightarrow> (None, c)
    | (Some tag_byte, c) \<Rightarrow>
        let tag = push_bit CBS_ASN1_TAG_SHIFT (ucast tag_byte AND 0xe0);
            tag_number = ucast tag_byte AND 0x1f
        in if tag_number = 0x1f then
             (case parse_base128_integer c of
                (None, c') \<Rightarrow> (None, c')
              | (Some v, c') \<Rightarrow>
                  if v > ucast CBS_ASN1_TAG_NUMBER_MASK \<or> v < 0x1f then (None, c')
                  else (Some (tag OR ucast v), c'))
           else (Some (tag OR tag_number), c))"

text \<open>
  The element with its header, the tag and the length of the header. The local \<open>header\<close> is a
  copy of the window, so that the window itself only moves when the whole element is read.
\<close>

definition cbs_get_any_asn1_element ::
  "bool \<Rightarrow> cbs \<Rightarrow> (cbs \<times> u32 \<times> u64) option \<times> cbs" where
  "cbs_get_any_asn1_element ber_ok cbs = (case parse_asn1_tag cbs of
      (None, _) \<Rightarrow> (None, cbs)
    | (Some tag, h1) \<Rightarrow> (case CBS_get_u8 h1 of
        (None, _) \<Rightarrow> (None, cbs)
      | (Some length_byte, h2) \<Rightarrow>
          let header_len = CBS_len cbs - CBS_len h2;
              result = (\<lambda>len hl. case CBS_get_bytes len cbs of
                  (None, c) \<Rightarrow> (None, c) | (Some out, c) \<Rightarrow> (Some (out, tag, hl), c))
          in if length_byte AND 0x80 = 0 then result (ucast length_byte + header_len) header_len
             else let num_bytes = ucast (length_byte AND 0x7f) :: u64
               in if ber_ok \<and> tag AND CBS_ASN1_CONSTRUCTED \<noteq> 0 \<and> num_bytes = 0
                  then result header_len header_len
                  else if num_bytes = 0 \<or> num_bytes > 4 then (None, cbs)
                  else (case cbs_get_u num_bytes h2 of
                      (None, _) \<Rightarrow> (None, cbs)
                    | (Some len64, _) \<Rightarrow>
                        if len64 < 128 then (None, cbs)
                        else if drop_bit (unat ((num_bytes - 1) * 8)) len64 = 0 then (None, cbs)
                        else if len64 + header_len + num_bytes < len64 then (None, cbs)
                        else result (len64 + (header_len + num_bytes)) (header_len + num_bytes))))"

definition CBS_get_any_asn1_element :: "cbs \<Rightarrow> (cbs \<times> u32 \<times> u64) option \<times> cbs" where
  "CBS_get_any_asn1_element cbs = cbs_get_any_asn1_element False cbs"

definition CBS_get_any_ber_asn1_element :: "cbs \<Rightarrow> (cbs \<times> u32 \<times> u64) option \<times> cbs" where
  "CBS_get_any_ber_asn1_element cbs = cbs_get_any_asn1_element True cbs"

definition CBS_get_any_asn1 :: "cbs \<Rightarrow> (cbs \<times> u32) option \<times> cbs" where
  "CBS_get_any_asn1 cbs = (case CBS_get_any_asn1_element cbs of
      (None, c) \<Rightarrow> (None, c)
    | (Some (out, tag, header_len), c) \<Rightarrow> (case CBS_skip header_len out of
        (False, _) \<Rightarrow> (None, c) | (True, body) \<Rightarrow> (Some (body, tag), c)))"

definition cbs_get_asn1 :: "u32 \<Rightarrow> bool \<Rightarrow> cbs \<Rightarrow> cbs option \<times> cbs" where
  "cbs_get_asn1 tag_value skip_header cbs = (case CBS_get_any_asn1_element cbs of
      (None, c) \<Rightarrow> (None, c)
    | (Some (out, tag, header_len), c) \<Rightarrow>
        if tag \<noteq> tag_value then (None, c)
        else if skip_header then (case CBS_skip header_len out of
            (False, _) \<Rightarrow> (None, c) | (True, body) \<Rightarrow> (Some body, c))
        else (Some out, c))"

definition CBS_get_asn1 :: "u32 \<Rightarrow> cbs \<Rightarrow> cbs option \<times> cbs" where
  "CBS_get_asn1 tag_value cbs = cbs_get_asn1 tag_value True cbs"

definition CBS_get_asn1_element :: "u32 \<Rightarrow> cbs \<Rightarrow> cbs option \<times> cbs" where
  "CBS_get_asn1_element tag_value cbs = cbs_get_asn1 tag_value False cbs"

definition CBS_peek_asn1_tag :: "u32 \<Rightarrow> cbs \<Rightarrow> bool" where
  "CBS_peek_asn1_tag tag_value cbs = (if CBS_len cbs < 1 then False
    else case parse_asn1_tag cbs of
      (None, _) \<Rightarrow> False | (Some actual_tag, _) \<Rightarrow> tag_value = actual_tag)"

section \<open>Universal types\<close>

fun uint64_loop :: "u64 \<Rightarrow> bytes \<Rightarrow> u64 option" where
  "uint64_loop out [] = Some out"
| "uint64_loop out (b # data) = (if drop_bit 56 out \<noteq> 0 then None
    else uint64_loop (push_bit 8 out OR ucast b) data)"

definition CBS_get_asn1_uint64 :: "cbs \<Rightarrow> u64 option \<times> cbs" where
  "CBS_get_asn1_uint64 cbs = (case CBS_get_asn1 CBS_ASN1_INTEGER cbs of
      (None, c) \<Rightarrow> (None, c)
    | (Some data, c) \<Rightarrow>
        if length data = 0 then (None, c)
        else if nth_or 0 data 0 AND 0x80 \<noteq> 0 then (None, c)
        else if nth_or 0 data 0 = 0 \<and> length data > 1 \<and> nth_or 0 data 1 AND 0x80 = 0 then (None, c)
        else (uint64_loop 0 data, c))"

text \<open>The union of an \<open>int64_t\<close> and its bytes: the little-endian value of the eight bytes.\<close>

definition sign_extended :: "bytes \<Rightarrow> u64" where
  "sign_extended data = le_word (list_blit
      (replicate 8 (if nth_or 0 data 0 AND 0x80 \<noteq> 0 then 0xff else 0)) 0 (rev data))"

definition CBS_get_asn1_int64 :: "cbs \<Rightarrow> u64 option \<times> cbs" where
  "CBS_get_asn1_int64 cbs = (case CBS_get_asn1 CBS_ASN1_INTEGER cbs of
      (None, c) \<Rightarrow> (None, c)
    | (Some data, c) \<Rightarrow>
        if length data = 0 \<or> length data > 8 then (None, c)
        else if length data > 1 \<and> nth_or 0 data 0 = 0 \<and> nth_or 0 data 1 AND 0x80 = 0 then (None, c)
        else if length data > 1 \<and> nth_or 0 data 0 = 0xff \<and> nth_or 0 data 1 AND 0x80 \<noteq> 0
        then (None, c)
        else (Some (sign_extended data), c))"

definition CBS_get_asn1_bool :: "cbs \<Rightarrow> bool option \<times> cbs" where
  "CBS_get_asn1_bool cbs = (case CBS_get_asn1 CBS_ASN1_BOOLEAN cbs of
      (None, c) \<Rightarrow> (None, c)
    | (Some data, c) \<Rightarrow>
        if length data \<noteq> 1 then (None, c)
        else let v = nth_or 0 data 0
          in if v \<noteq> 0 \<and> v \<noteq> 0xff then (None, c) else (Some (v \<noteq> 0), c))"

text \<open>\<^term>\<open>Some None\<close> is success without an element (\<open>out_present\<close> is 0).\<close>

definition CBS_get_optional_asn1 :: "u32 \<Rightarrow> cbs \<Rightarrow> cbs option option \<times> cbs" where
  "CBS_get_optional_asn1 tag cbs = (if CBS_peek_asn1_tag tag cbs
    then (case CBS_get_asn1 tag cbs of
        (None, c) \<Rightarrow> (None, c) | (Some out, c) \<Rightarrow> (Some (Some out), c))
    else (Some None, cbs))"

text \<open>The string and \<open>out_present\<close>.\<close>

definition CBS_get_optional_asn1_octet_string ::
  "u32 \<Rightarrow> cbs \<Rightarrow> (cbs \<times> bool) option \<times> cbs" where
  "CBS_get_optional_asn1_octet_string tag cbs = (case CBS_get_optional_asn1 tag cbs of
      (None, c) \<Rightarrow> (None, c)
    | (Some None, c) \<Rightarrow> (Some ([], False), c)
    | (Some (Some child), c) \<Rightarrow> (case CBS_get_asn1 CBS_ASN1_OCTETSTRING child of
        (None, _) \<Rightarrow> (None, c)
      | (Some out, child') \<Rightarrow>
          if CBS_len child' \<noteq> 0 then (None, c) else (Some (out, True), c)))"

definition CBS_get_optional_asn1_uint64 :: "u32 \<Rightarrow> u64 \<Rightarrow> cbs \<Rightarrow> u64 option \<times> cbs" where
  "CBS_get_optional_asn1_uint64 tag default_value cbs = (case CBS_get_optional_asn1 tag cbs of
      (None, c) \<Rightarrow> (None, c)
    | (Some None, c) \<Rightarrow> (Some default_value, c)
    | (Some (Some child), c) \<Rightarrow> (case CBS_get_asn1_uint64 child of
        (None, _) \<Rightarrow> (None, c)
      | (Some out, child') \<Rightarrow> if CBS_len child' \<noteq> 0 then (None, c) else (Some out, c)))"

definition CBS_get_optional_asn1_bool :: "u32 \<Rightarrow> bool \<Rightarrow> cbs \<Rightarrow> bool option \<times> cbs" where
  "CBS_get_optional_asn1_bool tag default_value cbs = (case CBS_get_optional_asn1 tag cbs of
      (None, c) \<Rightarrow> (None, c)
    | (Some None, c) \<Rightarrow> (Some default_value, c)
    | (Some (Some child), c) \<Rightarrow> (case CBS_get_asn1 CBS_ASN1_BOOLEAN child of
        (None, _) \<Rightarrow> (None, c)
      | (Some child2, child') \<Rightarrow>
          if length child2 \<noteq> 1 \<or> CBS_len child' \<noteq> 0 then (None, c)
          else let boolean = nth_or 0 child2 0
            in if boolean = 0 then (Some False, c)
               else if boolean = 0xff then (Some True, c)
               else (None, c)))"

definition CBS_is_valid_asn1_bitstring :: "cbs \<Rightarrow> bool" where
  "CBS_is_valid_asn1_bitstring cbs = (case CBS_get_u8 cbs of
      (None, _) \<Rightarrow> False
    | (Some num_unused_bits, c) \<Rightarrow>
        if num_unused_bits > 7 then False
        else if num_unused_bits = 0 then True
        else (case CBS_get_last_u8 c of
            (None, _) \<Rightarrow> False
          | (Some lst, _) \<Rightarrow> lst AND (push_bit (unat num_unused_bits) 1 - 1) = 0))"

definition CBS_asn1_bitstring_has_bit :: "cbs \<Rightarrow> u32 \<Rightarrow> bool" where
  "CBS_asn1_bitstring_has_bit cbs k = (if \<not> CBS_is_valid_asn1_bitstring cbs then False
    else let byte_num = drop_bit 3 k + 1; bit_num = 7 - (k AND 7)
      in ucast byte_num < CBS_len cbs
         \<and> nth_or 0 cbs (unat byte_num) AND push_bit (unat bit_num) 1 \<noteq> 0)"

section \<open>The primitive readers consume a prefix\<close>

lemma CBS_get_u8_Nil [cbs_simps, simp]: "CBS_get_u8 [] = (None, [])"
  by (simp add: CBS_get_u8_def cbs_get_def)

lemma CBS_get_u8_Cons [cbs_simps, simp]: "CBS_get_u8 (b # c) = (Some b, c)"
  by (simp add: CBS_get_u8_def cbs_get_def)

lemma cbs_get_append: "unat n = length xs \<Longrightarrow> cbs_get n (xs @ c) = (Some xs, c)"
  by (simp add: cbs_get_def)

lemma cbs_getD: "cbs_get n c = (Some xs, c') \<Longrightarrow> c = xs @ c' \<and> unat n = length xs"
  by (auto simp: cbs_get_def split: if_splits)

lemma cbs_get_fails: "cbs_get n c = (None, c') \<Longrightarrow> c' = c \<and> length c < unat n"
  by (auto simp: cbs_get_def split: if_splits)

lemma unat_CBS_len [simp]: "length c < 18446744073709551616 \<Longrightarrow> unat (CBS_len c) = length c"
  by (simp add: CBS_len_def)

lemma CBS_len_append: "CBS_len (xs @ c) - CBS_len c = word_of_nat (length xs)"
  by (simp add: CBS_len_def)

end
