(* ===== verification/Cbb.thy ===== *)
theory Cbb
  imports Cbs
begin

text \<open>
  BoringSSL's \<open>crypto/bytestring/cbb.c\<close>: the writer of byte strings and of DER.

  The CBBs that share a buffer form a chain: the root, its child with a pending length prefix,
  the child of that one, and so on. The chain is one record: the buffer (\<^const>\<open>None\<close> once
  the root's \<open>base\<close> is NULL) and the list of the pending children from the outermost in. A
  \<open>CBB *\<close> is its depth \<open>d\<close> in the chain (0 for the root, \<open>Suc i\<close> for child \<open>i\<close>); a depth
  beyond the chain is a CBB whose \<open>base\<close> has been reset to NULL. The buffer is the whole
  allocated block, its unwritten bytes included; the pointers that operations hand out are
  offsets into it. The allocator is the parameter \<open>mal\<close>.
\<close>

section \<open>The buffer\<close>

record cbb_buffer =
  bb_buf :: "oblock option"
  bb_len :: u64
  bb_cap :: u64
  bb_can_resize :: bool
  bb_error :: bool

record cbb_child =
  ch_offset :: u64
  ch_pending_len_len :: u8
  ch_pending_is_asn1 :: bool

record cbb =
  cbb_base :: "cbb_buffer option"
  cbb_kids :: "cbb_child list"

definition bb_data :: "cbb_buffer \<Rightarrow> bytes" where
  "bb_data b = (case bb_buf b of None \<Rightarrow> [] | Some blk \<Rightarrow> ob_data blk)"

text \<open>Storing bytes at an offset of the block.\<close>

definition bb_poke :: "cbb_buffer \<Rightarrow> u64 \<Rightarrow> bytes \<Rightarrow> cbb_buffer" where
  "bb_poke b p bs =
    b\<lparr>bb_buf := map_option (\<lambda>blk. blk\<lparr>ob_data := list_blit (ob_data blk) (unat p) bs\<rparr>) (bb_buf b)\<rparr>"

definition bb_fail :: "cbb_buffer \<Rightarrow> cbb_buffer" where
  "bb_fail b = b\<lparr>bb_error := True\<rparr>"

definition cbb_buffer_reserve :: "sys_malloc \<Rightarrow> cbb_buffer \<Rightarrow> u64 \<Rightarrow> bool \<times> cbb_buffer" where
  "cbb_buffer_reserve mal base len =
    (let newlen = bb_len base + len
     in if newlen < bb_len base then (False, bb_fail base)
        else if newlen > bb_cap base then
          if \<not> bb_can_resize base then (False, bb_fail base)
          else let doubled = bb_cap base * 2;
                   newcap = (if doubled < bb_cap base \<or> doubled < newlen then newlen else doubled)
            in (case OPENSSL_realloc mal (bb_buf base) newcap of
                  None \<Rightarrow> (False, bb_fail base)
                | Some newbuf \<Rightarrow> (True, base\<lparr>bb_buf := Some newbuf, bb_cap := newcap\<rparr>))
        else (True, base))"

text \<open>The new space starts at the length the buffer had before.\<close>

definition cbb_buffer_add :: "sys_malloc \<Rightarrow> cbb_buffer \<Rightarrow> u64 \<Rightarrow> bool \<times> cbb_buffer" where
  "cbb_buffer_add mal base len = (case cbb_buffer_reserve mal base len of
      (False, b) \<Rightarrow> (False, b)
    | (True, b) \<Rightarrow> (True, b\<lparr>bb_len := bb_len b + len\<rparr>))"

text \<open>\<open>add_u\<close> stores the low bytes of \<open>v\<close> from the last one back, and fails if any remain.\<close>

definition cbb_buffer_add_u :: "sys_malloc \<Rightarrow> cbb_buffer \<Rightarrow> u64 \<Rightarrow> nat \<Rightarrow> bool \<times> cbb_buffer" where
  "cbb_buffer_add_u mal base v len_len = (if len_len = 0 then (True, base)
    else case cbb_buffer_add mal base (word_of_nat len_len) of
      (False, b) \<Rightarrow> (False, b)
    | (True, b) \<Rightarrow>
        let b' = bb_poke b (bb_len base) (rev (le_bytes len_len v))
        in if drop_bit (8 * len_len) v \<noteq> 0 then (False, bb_fail b') else (True, b'))"

section \<open>Creation, flushing and finishing\<close>

definition CBB_zero :: cbb where
  "CBB_zero = \<lparr>cbb_base = None, cbb_kids = []\<rparr>"

text \<open>A \<open>cbb_buffer_st\<close> takes 32 bytes.\<close>

definition cbb_init :: "sys_malloc \<Rightarrow> oblock option \<Rightarrow> u64 \<Rightarrow> bool \<times> cbb" where
  "cbb_init mal buf cap = (case OPENSSL_malloc mal 32 of
      None \<Rightarrow> (False, CBB_zero)
    | Some _ \<Rightarrow> (True, \<lparr>cbb_base = Some \<lparr>bb_buf = buf, bb_len = 0, bb_cap = cap,
        bb_can_resize = True, bb_error = False\<rparr>, cbb_kids = []\<rparr>))"

definition CBB_init :: "sys_malloc \<Rightarrow> u64 \<Rightarrow> bool \<times> cbb" where
  "CBB_init mal initial_capacity =
    (let buf = OPENSSL_malloc mal initial_capacity
     in if initial_capacity > 0 \<and> buf = None then (False, CBB_zero)
        else cbb_init mal buf initial_capacity)"

text \<open>A fixed buffer is the caller's array.\<close>

definition CBB_init_fixed :: "sys_malloc \<Rightarrow> bytes \<Rightarrow> bool \<times> cbb" where
  "CBB_init_fixed mal arr =
    (case cbb_init mal (Some \<lparr>ob_size = word_of_nat (length arr), ob_data = arr\<rparr>) (word_of_nat (length arr)) of
      (False, st) \<Rightarrow> (False, st)
    | (True, st) \<Rightarrow> (True, st\<lparr>cbb_base := map_option (bb_can_resize_update (\<lambda>_. False)) (cbb_base st)\<rparr>))"

definition CBB_cleanup :: "cbb \<Rightarrow> cbb" where
  "CBB_cleanup st = st\<lparr>cbb_base := None\<rparr>"

text \<open>
  The form of an ASN.1 length: the number of bytes, the first byte, and the value left for the
  bytes after it.
\<close>

definition asn1_len_form :: "u64 \<Rightarrow> (u8 \<times> u8 \<times> u64) option" where
  "asn1_len_form len =
    (if len > 0xfffffffe then None
     else if len > 0xffffff then Some (5, 0x80 OR 4, len)
     else if len > 0xffff then Some (4, 0x80 OR 3, len)
     else if len > 0xff then Some (3, 0x80 OR 2, len)
     else if len > 0x7f then Some (2, 0x80 OR 1, len)
     else Some (1, ucast len, 0))"

text \<open>The byte loop that fills the pending prefix of a child.\<close>

definition write_prefix :: "cbb_buffer \<Rightarrow> cbb_child \<Rightarrow> u64 \<Rightarrow> bool \<times> cbb_buffer" where
  "write_prefix b ch len =
    (let n = unat (ch_pending_len_len ch);
         b' = bb_poke b (ch_offset ch) (rev (le_bytes n len))
     in if drop_bit (8 * n) len \<noteq> 0 then (False, bb_fail b') else (True, b'))"

text \<open>Making room for a long ASN.1 length by moving the contents.\<close>

definition widen_asn1 ::
  "sys_malloc \<Rightarrow> cbb_buffer \<Rightarrow> u64 \<Rightarrow> u64 \<Rightarrow> u64 \<Rightarrow> bool \<times> cbb_buffer" where
  "widen_asn1 mal b child_start extra_bytes len = (case cbb_buffer_add mal b extra_bytes of
      (False, b') \<Rightarrow> (False, b')
    | (True, b') \<Rightarrow> (True, bb_poke b' (child_start + extra_bytes)
        (read_at (bb_data b') (unat child_start) (unat len))))"

definition close_child ::
  "sys_malloc \<Rightarrow> cbb_buffer \<Rightarrow> cbb_child \<Rightarrow> u64 \<Rightarrow> bool \<times> cbb_buffer \<times> cbb_child" where
  "close_child mal b ch child_start =
    (let len = bb_len b - child_start
     in if ch_pending_is_asn1 ch then
          (case asn1_len_form len of
             None \<Rightarrow> (False, bb_fail b, ch)
           | Some (len_len, initial_length_byte, len') \<Rightarrow>
               let extra_bytes = ucast (len_len - 1) :: u64;
                   ch' = ch\<lparr>ch_offset := ch_offset ch + 1, ch_pending_len_len := len_len - 1\<rparr>
               in (case (if len_len \<noteq> 1 then widen_asn1 mal b child_start extra_bytes len'
                         else (True, b)) of
                     (False, b1) \<Rightarrow> (False, bb_fail b1, ch)
                   | (True, b1) \<Rightarrow>
                       (case write_prefix (bb_poke b1 (ch_offset ch) [initial_length_byte]) ch' len' of
                          (r, b2) \<Rightarrow> (r, b2, ch'))))
        else (case write_prefix b ch len of (r, b2) \<Rightarrow> (r, b2, ch)))"

text \<open>
  \<open>CBB_flush\<close> of a CBB whose chain of children is the list: the innermost child is closed
  first, and a closed child leaves the chain.
\<close>

fun flush_chain ::
  "sys_malloc \<Rightarrow> cbb_buffer \<Rightarrow> cbb_child list \<Rightarrow> bool \<times> cbb_buffer \<times> cbb_child list" where
  "flush_chain mal b [] = (\<not> bb_error b, b, [])"
| "flush_chain mal b (ch # kids) =
    (if bb_error b then (False, b, ch # kids)
     else if ch_pending_len_len ch = 0 then (True, b, ch # kids)
     else let child_start = ch_offset ch + ucast (ch_pending_len_len ch)
       in (case flush_chain mal b kids of
             (False, b1, kids1) \<Rightarrow> (False, bb_fail b1, ch # kids1)
           | (True, b1, kids1) \<Rightarrow>
               if child_start < ch_offset ch \<or> bb_len b1 < child_start
               then (False, bb_fail b1, ch # kids1)
               else (case close_child mal b1 ch child_start of
                       (False, b2, ch') \<Rightarrow> (False, b2, ch' # kids1)
                     | (True, b2, _) \<Rightarrow> (True, b2, []))))"

definition CBB_flush :: "sys_malloc \<Rightarrow> nat \<Rightarrow> cbb \<Rightarrow> bool \<times> cbb" where
  "CBB_flush mal d st = (case cbb_base st of
      None \<Rightarrow> (False, st)
    | Some b \<Rightarrow> if length (cbb_kids st) < d then (False, st)
        else (case flush_chain mal b (drop d (cbb_kids st)) of
          (r, b', kids') \<Rightarrow> (r, st\<lparr>cbb_base := Some b', cbb_kids := take d (cbb_kids st) @ kids'\<rparr>)))"

text \<open>
  The operations flush the CBB and then work on the buffer. Where the code reads \<open>cbb->base\<close>
  after a successful flush it is not NULL.
\<close>

definition on_base :: "(cbb_buffer \<Rightarrow> bool \<times> cbb_buffer) \<Rightarrow> cbb \<Rightarrow> bool \<times> cbb" where
  "on_base f st = (case cbb_base st of
      None \<Rightarrow> (False, st)
    | Some b \<Rightarrow> (case f b of (r, b') \<Rightarrow> (r, st\<lparr>cbb_base := Some b'\<rparr>)))"

definition flush_then ::
  "sys_malloc \<Rightarrow> nat \<Rightarrow> (cbb_buffer \<Rightarrow> bool \<times> cbb_buffer) \<Rightarrow> cbb \<Rightarrow> bool \<times> cbb" where
  "flush_then mal d f st = (case CBB_flush mal d st of
      (False, st') \<Rightarrow> (False, st') | (True, st') \<Rightarrow> on_base f st')"

text \<open>Where the contents of a CBB start: behind its own length prefix.\<close>

definition cbb_start :: "cbb_child list \<Rightarrow> nat \<Rightarrow> u64" where
  "cbb_start kids d = (case d of 0 \<Rightarrow> 0
    | Suc i \<Rightarrow> if i < length kids
        then ch_offset (kids ! i) + ucast (ch_pending_len_len (kids ! i)) else 0)"

definition CBB_len :: "nat \<Rightarrow> cbb \<Rightarrow> u64" where
  "CBB_len d st = (case cbb_base st of
      None \<Rightarrow> 0 | Some b \<Rightarrow> bb_len b - cbb_start (cbb_kids st) d)"

text \<open>The bytes at \<open>CBB_data\<close>, as many as \<open>CBB_len\<close> says.\<close>

definition CBB_data :: "nat \<Rightarrow> cbb \<Rightarrow> bytes" where
  "CBB_data d st = (case cbb_base st of
      None \<Rightarrow> []
    | Some b \<Rightarrow> read_at (bb_data b) (unat (cbb_start (cbb_kids st) d)) (unat (CBB_len d st)))"

text \<open>
  \<open>CBB_finish\<close>: the block and its length; \<open>outs\<close> says whether both out pointers are non-NULL.
\<close>

definition CBB_finish ::
  "sys_malloc \<Rightarrow> bool \<Rightarrow> nat \<Rightarrow> cbb \<Rightarrow> (oblock option \<times> u64) option \<times> cbb" where
  "CBB_finish mal outs d st = (if d \<noteq> 0 then (None, st)
    else case CBB_flush mal d st of
      (False, st') \<Rightarrow> (None, st')
    | (True, st') \<Rightarrow> (case cbb_base st' of
        None \<Rightarrow> (None, st')
      | Some b \<Rightarrow>
          if bb_can_resize b \<and> \<not> outs then (None, st')
          else (Some (bb_buf b, bb_len b), CBB_cleanup st')))"

section \<open>Adding bytes and integers\<close>

definition CBB_add_bytes :: "sys_malloc \<Rightarrow> nat \<Rightarrow> bytes \<Rightarrow> cbb \<Rightarrow> bool \<times> cbb" where
  "CBB_add_bytes mal d data = flush_then mal d (\<lambda>b.
    case cbb_buffer_add mal b (word_of_nat (length data)) of
      (False, b') \<Rightarrow> (False, b') | (True, b') \<Rightarrow> (True, bb_poke b' (bb_len b) data))"

text \<open>The space starts at the length after the flush.\<close>

definition CBB_add_space :: "sys_malloc \<Rightarrow> nat \<Rightarrow> u64 \<Rightarrow> cbb \<Rightarrow> bool \<times> cbb" where
  "CBB_add_space mal d len = flush_then mal d (\<lambda>b. cbb_buffer_add mal b len)"

definition CBB_reserve :: "sys_malloc \<Rightarrow> nat \<Rightarrow> u64 \<Rightarrow> cbb \<Rightarrow> bool \<times> cbb" where
  "CBB_reserve mal d len = flush_then mal d (\<lambda>b. cbb_buffer_reserve mal b len)"

definition CBB_did_write :: "nat \<Rightarrow> u64 \<Rightarrow> cbb \<Rightarrow> bool \<times> cbb" where
  "CBB_did_write d len st = on_base (\<lambda>b.
    let newlen = bb_len b + len
    in if drop d (cbb_kids st) \<noteq> [] \<or> newlen < bb_len b \<or> newlen > bb_cap b then (False, b)
       else (True, b\<lparr>bb_len := newlen\<rparr>)) st"

definition CBB_add_u8 :: "sys_malloc \<Rightarrow> nat \<Rightarrow> u8 \<Rightarrow> cbb \<Rightarrow> bool \<times> cbb" where
  "CBB_add_u8 mal d value = flush_then mal d (\<lambda>b. cbb_buffer_add_u mal b (ucast value) 1)"

definition CBB_add_u16 :: "sys_malloc \<Rightarrow> nat \<Rightarrow> u16 \<Rightarrow> cbb \<Rightarrow> bool \<times> cbb" where
  "CBB_add_u16 mal d value = flush_then mal d (\<lambda>b. cbb_buffer_add_u mal b (ucast value) 2)"

definition CBB_add_u16le :: "sys_malloc \<Rightarrow> nat \<Rightarrow> u16 \<Rightarrow> cbb \<Rightarrow> bool \<times> cbb" where
  "CBB_add_u16le mal d value = CBB_add_u16 mal d (CRYPTO_bswap2 value)"

definition CBB_add_u24 :: "sys_malloc \<Rightarrow> nat \<Rightarrow> u32 \<Rightarrow> cbb \<Rightarrow> bool \<times> cbb" where
  "CBB_add_u24 mal d value = flush_then mal d (\<lambda>b. cbb_buffer_add_u mal b (ucast value) 3)"

definition CBB_add_u32 :: "sys_malloc \<Rightarrow> nat \<Rightarrow> u32 \<Rightarrow> cbb \<Rightarrow> bool \<times> cbb" where
  "CBB_add_u32 mal d value = flush_then mal d (\<lambda>b. cbb_buffer_add_u mal b (ucast value) 4)"

definition CBB_add_u32le :: "sys_malloc \<Rightarrow> nat \<Rightarrow> u32 \<Rightarrow> cbb \<Rightarrow> bool \<times> cbb" where
  "CBB_add_u32le mal d value = CBB_add_u32 mal d (CRYPTO_bswap4 value)"

definition CBB_add_u64 :: "sys_malloc \<Rightarrow> nat \<Rightarrow> u64 \<Rightarrow> cbb \<Rightarrow> bool \<times> cbb" where
  "CBB_add_u64 mal d value = flush_then mal d (\<lambda>b. cbb_buffer_add_u mal b value 8)"

definition CBB_add_u64le :: "sys_malloc \<Rightarrow> nat \<Rightarrow> u64 \<Rightarrow> cbb \<Rightarrow> bool \<times> cbb" where
  "CBB_add_u64le mal d value = CBB_add_u64 mal d (CRYPTO_bswap8 value)"

definition CBB_discard_child :: "nat \<Rightarrow> cbb \<Rightarrow> cbb" where
  "CBB_discard_child d st = (if length (cbb_kids st) \<le> d then st
    else st\<lparr>cbb_base := map_option (bb_len_update (\<lambda>_. ch_offset (cbb_kids st ! d))) (cbb_base st),
            cbb_kids := take d (cbb_kids st)\<rparr>)"

section \<open>Children with a length prefix\<close>

text \<open>A new child of the CBB at depth \<open>d\<close> has depth \<open>Suc d\<close>.\<close>

definition push_child :: "nat \<Rightarrow> cbb_child \<Rightarrow> cbb \<Rightarrow> cbb" where
  "push_child d ch st = st\<lparr>cbb_kids := take d (cbb_kids st) @ [ch]\<rparr>"

definition cur_len :: "cbb \<Rightarrow> u64" where
  "cur_len st = (case cbb_base st of None \<Rightarrow> 0 | Some b \<Rightarrow> bb_len b)"

definition cbb_add_length_prefixed :: "sys_malloc \<Rightarrow> nat \<Rightarrow> u8 \<Rightarrow> cbb \<Rightarrow> bool \<times> cbb" where
  "cbb_add_length_prefixed mal d len_len st = (case CBB_flush mal d st of
      (False, st1) \<Rightarrow> (False, st1)
    | (True, st1) \<Rightarrow>
        let offset = cur_len st1
        in (case on_base (\<lambda>b. cbb_buffer_add mal b (ucast len_len)) st1 of
              (False, st2) \<Rightarrow> (False, st2)
            | (True, st2) \<Rightarrow>
                let st3 = snd (on_base (\<lambda>b. (True, bb_poke b offset (replicate (unat len_len) 0))) st2)
                in (True, push_child d \<lparr>ch_offset = offset, ch_pending_len_len = len_len,
                      ch_pending_is_asn1 = False\<rparr> st3)))"

definition CBB_add_u8_length_prefixed :: "sys_malloc \<Rightarrow> nat \<Rightarrow> cbb \<Rightarrow> bool \<times> cbb" where
  "CBB_add_u8_length_prefixed mal d = cbb_add_length_prefixed mal d 1"

definition CBB_add_u16_length_prefixed :: "sys_malloc \<Rightarrow> nat \<Rightarrow> cbb \<Rightarrow> bool \<times> cbb" where
  "CBB_add_u16_length_prefixed mal d = cbb_add_length_prefixed mal d 2"

definition CBB_add_u24_length_prefixed :: "sys_malloc \<Rightarrow> nat \<Rightarrow> cbb \<Rightarrow> bool \<times> cbb" where
  "CBB_add_u24_length_prefixed mal d = cbb_add_length_prefixed mal d 3"

text \<open>Running the second step only if the first one succeeds: C's \<open>&&\<close> on calls.\<close>

definition and_then :: "(cbb \<Rightarrow> bool \<times> cbb) \<Rightarrow> (cbb \<Rightarrow> bool \<times> cbb) \<Rightarrow> cbb \<Rightarrow> bool \<times> cbb" where
  "and_then f g st = (case f st of (False, st') \<Rightarrow> (False, st') | (True, st') \<Rightarrow> g st')"

text \<open>The number of groups of seven bits.\<close>

function base128_groups :: "u64 \<Rightarrow> nat" where
  "base128_groups copy = (if copy = 0 then 0 else Suc (base128_groups (drop_bit 7 copy)))"
  by auto
termination
  by (relation "measure unat") (auto intro: drop_bit_less_self_u64)

declare base128_groups.simps [simp del]

definition base128_byte :: "u64 \<Rightarrow> nat \<Rightarrow> u8" where
  "base128_byte v i = (let byte = ucast (drop_bit (7 * i) v AND 0x7f)
    in if i \<noteq> 0 then byte OR 0x80 else byte)"

fun add_base128_loop :: "sys_malloc \<Rightarrow> nat \<Rightarrow> u64 \<Rightarrow> nat \<Rightarrow> cbb \<Rightarrow> bool \<times> cbb" where
  "add_base128_loop mal d v 0 st = (True, st)"
| "add_base128_loop mal d v (Suc i) st =
    and_then (CBB_add_u8 mal d (base128_byte v i)) (add_base128_loop mal d v i) st"

definition add_base128_integer :: "sys_malloc \<Rightarrow> nat \<Rightarrow> u64 \<Rightarrow> cbb \<Rightarrow> bool \<times> cbb" where
  "add_base128_integer mal d v =
    (let len_len = base128_groups v
     in add_base128_loop mal d v (if len_len = 0 then 1 else len_len))"

definition CBB_add_asn1 :: "sys_malloc \<Rightarrow> nat \<Rightarrow> u32 \<Rightarrow> cbb \<Rightarrow> bool \<times> cbb" where
  "CBB_add_asn1 mal d tag =
    (let tag_bits = ucast (drop_bit CBS_ASN1_TAG_SHIFT tag) AND 0xe0 :: u8;
         tag_number = tag AND CBS_ASN1_TAG_NUMBER_MASK
     in and_then (CBB_flush mal d)
       (and_then (if tag_number \<ge> 0x1f
            then and_then (CBB_add_u8 mal d (tag_bits OR 0x1f))
                   (add_base128_integer mal d (ucast tag_number))
            else CBB_add_u8 mal d (tag_bits OR ucast tag_number))
       (\<lambda>st. let offset = cur_len st
          in (case CBB_add_u8 mal d 0 st of
                (False, st') \<Rightarrow> (False, st')
              | (True, st') \<Rightarrow> (True, push_child d \<lparr>ch_offset = offset, ch_pending_len_len = 1,
                   ch_pending_is_asn1 = True\<rparr> st')))))"

end
