(* ===== verification/Qsort.thy ===== *)
theory Qsort
  imports Base "HOL-Library.Multiset"
begin

text \<open>
  The C library's \<open>qsort\<close> and the contract of the comparison functions that are passed to it.
  The standard leaves the order of elements that compare equal open; the model is insertion
  sort, and nothing is proved of it that would not hold for another order of equal elements.
\<close>

fun insert_by :: "('a \<Rightarrow> 'a \<Rightarrow> int) \<Rightarrow> 'a \<Rightarrow> 'a list \<Rightarrow> 'a list" where
  "insert_by cmp x [] = [x]"
| "insert_by cmp x (y # ys) = (if cmp x y \<le> 0 then x # y # ys else y # insert_by cmp x ys)"

fun qsort_by :: "('a \<Rightarrow> 'a \<Rightarrow> int) \<Rightarrow> 'a list \<Rightarrow> 'a list" where
  "qsort_by cmp [] = []"
| "qsort_by cmp (x # xs) = insert_by cmp x (qsort_by cmp xs)"

lemma mset_insert_by: "mset (insert_by cmp x xs) = add_mset x (mset xs)"
  by (induction xs) simp_all

lemma mset_qsort_by [simp]: "mset (qsort_by cmp xs) = mset xs"
  by (induction xs) (simp_all add: mset_insert_by)

lemma set_qsort_by [simp]: "set (qsort_by cmp xs) = set xs"
  by (metis mset_qsort_by set_mset_mset)

lemma length_qsort_by [simp]: "length (qsort_by cmp xs) = length xs"
  by (metis mset_qsort_by size_mset)

definition in_order :: "('a \<Rightarrow> 'a \<Rightarrow> int) \<Rightarrow> 'a list \<Rightarrow> bool" where
  "in_order cmp xs \<longleftrightarrow> sorted_wrt (\<lambda>a b. cmp a b \<le> 0) xs"

text \<open>A comparison function orders its arguments: swapping them turns the sign around, and
  being at most equal is transitive.\<close>

locale comparator =
  fixes cmp :: "'a \<Rightarrow> 'a \<Rightarrow> int"
  assumes swap: "cmp a b < 0 \<longleftrightarrow> cmp b a > 0"
    and trans: "cmp a b \<le> 0 \<Longrightarrow> cmp b c \<le> 0 \<Longrightarrow> cmp a c \<le> 0"
begin

lemma total: "cmp a b \<le> 0 \<or> cmp b a \<le> 0"
  using swap [of a b] swap [of b a] by linarith

lemma same [simp]: "cmp a a = 0"
  using swap [of a a] by linarith

lemma equal_swap: "cmp a b = 0 \<longleftrightarrow> cmp b a = 0"
  using swap [of a b] swap [of b a] by linarith

lemma set_insert_by: "set (insert_by cmp x xs) = insert x (set xs)"
  by (metis mset_insert_by set_mset_add_mset_insert set_mset_mset)

lemma in_order_insert: "in_order cmp xs \<Longrightarrow> in_order cmp (insert_by cmp x xs)"
  unfolding in_order_def
proof (induction xs)
  case (Cons y ys)
  then show ?case using total [of x y] by (auto simp: set_insert_by intro: trans)
qed simp

lemma in_order_qsort: "in_order cmp (qsort_by cmp xs)"
  by (induction xs) (simp_all add: in_order_insert, simp add: in_order_def)

lemma in_order_nth: "in_order cmp xs \<Longrightarrow> i \<le> j \<Longrightarrow> j < length xs \<Longrightarrow> cmp (xs ! i) (xs ! j) \<le> 0"
  unfolding in_order_def by (cases "i = j") (auto simp: sorted_wrt_iff_nth_less)

text \<open>What lies below an element that is too low is too low, and what lies above one that is
  not stays so: the two facts a binary search uses.\<close>

lemma too_low: "in_order cmp xs \<Longrightarrow> i \<le> j \<Longrightarrow> j < length xs \<Longrightarrow> cmp p (xs ! j) > 0 \<Longrightarrow> cmp p (xs ! i) > 0"
  using in_order_nth [of xs i j] trans [of p "xs ! i" "xs ! j"] by linarith

lemma not_below: "in_order cmp xs \<Longrightarrow> i \<le> j \<Longrightarrow> j < length xs \<Longrightarrow> cmp p (xs ! i) < 0 \<Longrightarrow> cmp p (xs ! j) < 0"
  using in_order_nth [of xs i j] trans [of "xs ! i" "xs ! j" p] trans [of "xs ! j" p "xs ! i"]
    swap [of p "xs ! i"] swap [of p "xs ! j"] by linarith

end

end
