(* ===== verification/Cbb_Asn1.thy ===== *)
theory Cbb_Asn1
  imports Cbb Qsort
begin

text \<open>
  The rest of \<open>crypto/bytestring/cbb.c\<close>, the writers of the universal ASN.1 types, and the
  object identifier printer of \<open>cbs.c\<close>, which writes its text through a CBB.
\<close>

section \<open>Integers, strings and booleans\<close>

text \<open>Leading zero bytes are skipped; a zero pads a first byte whose high bit is set.\<close>

fun add_uint_loop :: "sys_malloc \<Rightarrow> nat \<Rightarrow> bytes \<Rightarrow> bool \<Rightarrow> cbb \<Rightarrow> bool \<times> cbb" where
  "add_uint_loop mal d [] started st = (if \<not> started then CBB_add_u8 mal d 0 st else (True, st))"
| "add_uint_loop mal d (byte # bs) started st =
    (if \<not> started then
       if byte = 0 then add_uint_loop mal d bs False st
       else and_then (if byte AND 0x80 \<noteq> 0 then CBB_add_u8 mal d 0 else Pair True)
              (and_then (CBB_add_u8 mal d byte) (add_uint_loop mal d bs True)) st
     else and_then (CBB_add_u8 mal d byte) (add_uint_loop mal d bs True) st)"

definition CBB_add_asn1_uint64 :: "sys_malloc \<Rightarrow> nat \<Rightarrow> u64 \<Rightarrow> cbb \<Rightarrow> bool \<times> cbb" where
  "CBB_add_asn1_uint64 mal d v = and_then (CBB_add_asn1 mal d CBS_ASN1_INTEGER)
    (and_then (add_uint_loop mal (Suc d)
        (map (\<lambda>i. ucast (drop_bit (8 * (7 - i)) v AND 0xff)) [0..<8]) False)
      (CBB_flush mal d))"

text \<open>The index of the first byte that is not a mere repetition of the sign.\<close>

fun skip_sign :: "bytes \<Rightarrow> nat \<Rightarrow> nat" where
  "skip_sign bs 0 = 0"
| "skip_sign bs (Suc i) =
    (if bs ! Suc i = 0xff \<and> bs ! i AND 0x80 \<noteq> 0 then skip_sign bs i else Suc i)"

fun add_bytes_down :: "sys_malloc \<Rightarrow> nat \<Rightarrow> bytes \<Rightarrow> nat \<Rightarrow> cbb \<Rightarrow> bool \<times> cbb" where
  "add_bytes_down mal d bs 0 st = CBB_add_u8 mal d (bs ! 0) st"
| "add_bytes_down mal d bs (Suc i) st =
    and_then (CBB_add_u8 mal d (bs ! Suc i)) (add_bytes_down mal d bs i) st"

definition CBB_add_asn1_int64 :: "sys_malloc \<Rightarrow> nat \<Rightarrow> u64 \<Rightarrow> cbb \<Rightarrow> bool \<times> cbb" where
  "CBB_add_asn1_int64 mal d v = (if 0 \<le> sint v then CBB_add_asn1_uint64 mal d v
    else let u = le_bytes 8 v; start = skip_sign u 7
      in and_then (CBB_add_asn1 mal d CBS_ASN1_INTEGER)
           (and_then (add_bytes_down mal (Suc d) u start) (CBB_flush mal d)))"

definition CBB_add_asn1_octet_string :: "sys_malloc \<Rightarrow> nat \<Rightarrow> bytes \<Rightarrow> cbb \<Rightarrow> bool \<times> cbb" where
  "CBB_add_asn1_octet_string mal d data = and_then (CBB_add_asn1 mal d CBS_ASN1_OCTETSTRING)
    (and_then (CBB_add_bytes mal (Suc d) data) (CBB_flush mal d))"

definition CBB_add_asn1_bool :: "sys_malloc \<Rightarrow> nat \<Rightarrow> int \<Rightarrow> cbb \<Rightarrow> bool \<times> cbb" where
  "CBB_add_asn1_bool mal d v = and_then (CBB_add_asn1 mal d CBS_ASN1_BOOLEAN)
    (and_then (CBB_add_u8 mal (Suc d) (if v \<noteq> 0 then 0xff else 0)) (CBB_flush mal d))"

section \<open>Object identifiers\<close>

abbreviation (input) UINT64_MAX :: u64 where "UINT64_MAX \<equiv> 0xffffffffffffffff"

text \<open>The loop of \<open>parse_dotted_decimal\<close> with the characters of the text as bytes.\<close>

fun dotted_loop :: "u64 \<Rightarrow> bool \<Rightarrow> cbs \<Rightarrow> u64 option \<times> cbs" where
  "dotted_loop out seen_digit [] = (if seen_digit then Some out else None, [])"
| "dotted_loop out seen_digit (u # c) =
    (if u = 0x2e \<and> c \<noteq> [] then (if seen_digit then Some out else None, c)
     else if u < 0x30 \<or> u > 0x39 \<or> (seen_digit \<and> out = 0)
       \<or> out > UINT64_MAX div 10 \<or> out * 10 > UINT64_MAX - ucast (u - 0x30) then (None, c)
     else dotted_loop (out * 10 + ucast (u - 0x30)) True c)"

definition parse_dotted_decimal :: "cbs \<Rightarrow> u64 option \<times> cbs" where
  "parse_dotted_decimal cbs = dotted_loop 0 False cbs"

lemma dotted_loop_shorter:
  "dotted_loop out seen c = (r, c') \<Longrightarrow> length c' \<le> length c \<and> (c \<noteq> [] \<longrightarrow> length c' < length c)"
proof (induction out seen c arbitrary: r c' rule: dotted_loop.induct)
  case (2 out seen u c)
  show ?case
  proof (cases "dotted_loop (out * 10 + ucast (u - 0x30)) True c")
    case (Pair a b)
    show ?thesis
    proof (cases "u = 0x2e \<and> c \<noteq> []")
      case True
      then show ?thesis using 2(2) by auto
    next
      case False
      then show ?thesis
        using 2(1) [OF False _ Pair] 2(2) Pair
        by (auto simp: less_Suc_eq_le split: if_splits)
    qed
  qed
qed simp

function add_oid_components :: "sys_malloc \<Rightarrow> nat \<Rightarrow> cbs \<Rightarrow> cbb \<Rightarrow> bool \<times> cbb" where
  "add_oid_components mal d cbs st = (if cbs = [] then (True, st)
    else case parse_dotted_decimal cbs of
      (None, _) \<Rightarrow> (False, st)
    | (Some a, cbs') \<Rightarrow> (case add_base128_integer mal d a st of
        (False, st') \<Rightarrow> (False, st')
      | (True, st') \<Rightarrow> add_oid_components mal d cbs' st'))"
  by auto
termination
proof (relation "measure (\<lambda>(mal, d, cbs, st). length cbs)", goal_cases)
  case (2 mal d cbs st x1 x2 a)
  then show ?case using dotted_loop_shorter [of 0 False cbs] by (auto simp: parse_dotted_decimal_def dest: sym)
qed simp

declare add_oid_components.simps [simp del]

definition CBB_add_asn1_oid_from_text :: "sys_malloc \<Rightarrow> nat \<Rightarrow> bytes \<Rightarrow> cbb \<Rightarrow> bool \<times> cbb" where
  "CBB_add_asn1_oid_from_text mal d cbs = and_then (CBB_flush mal d) (\<lambda>st.
    case parse_dotted_decimal cbs of
      (None, _) \<Rightarrow> (False, st)
    | (Some a, cbs1) \<Rightarrow> (case parse_dotted_decimal cbs1 of
        (None, _) \<Rightarrow> (False, st)
      | (Some b, cbs2) \<Rightarrow>
          if a > 2 \<or> (a < 2 \<and> b > 39) \<or> b > UINT64_MAX - 80 then (False, st)
          else and_then (add_base128_integer mal d (40 * a + b)) (add_oid_components mal d cbs2) st))"

text \<open>The decimal digits that \<open>snprintf\<close> with \<open>PRIu64\<close> prints.\<close>

fun dec_digits :: "nat \<Rightarrow> bytes" where
  "dec_digits n = (if n < 10 then [word_of_nat (48 + n)]
    else dec_digits (n div 10) @ [word_of_nat (48 + n mod 10)])"

declare dec_digits.simps [simp del]

definition add_decimal :: "sys_malloc \<Rightarrow> u64 \<Rightarrow> cbb \<Rightarrow> bool \<times> cbb" where
  "add_decimal mal v = CBB_add_bytes mal 0 (dec_digits (unat v))"

lemma base128_loop_shorter:
  "base128_loop v c = (Some w, c') \<Longrightarrow> length c' < length c"
  by (induction v c rule: base128_loop.induct) (auto simp: Let_def less_Suc_eq split: if_splits)

function oid_text_rest :: "sys_malloc \<Rightarrow> cbs \<Rightarrow> cbb \<Rightarrow> bool \<times> cbb" where
  "oid_text_rest mal cbs st = (if CBS_len cbs = 0 then (True, st)
    else case parse_base128_integer cbs of
      (None, _) \<Rightarrow> (False, st)
    | (Some v, cbs') \<Rightarrow>
        (case and_then (CBB_add_u8 mal 0 0x2e) (add_decimal mal v) st of
           (False, st') \<Rightarrow> (False, st')
         | (True, st') \<Rightarrow> oid_text_rest mal cbs' st'))"
  by auto
termination
proof (relation "measure (\<lambda>(mal, cbs, st). length cbs)", goal_cases)
  case (2 mal cbs st x1 x2 v)
  then show ?case using base128_loop_shorter [of 0 cbs] by (auto simp: parse_base128_integer_def dest: sym)
qed simp

declare oid_text_rest.simps [simp del]

text \<open>The first component is 40 times the first arc plus the second.\<close>

definition oid_text_first :: "sys_malloc \<Rightarrow> u64 \<Rightarrow> cbb \<Rightarrow> bool \<times> cbb" where
  "oid_text_first mal v = (if v \<ge> 80
    then and_then (CBB_add_bytes mal 0 [0x32, 0x2e]) (add_decimal mal (v - 80))
    else and_then (add_decimal mal (v div 40))
           (and_then (CBB_add_u8 mal 0 0x2e) (add_decimal mal (v mod 40))))"

definition CBS_asn1_oid_to_text :: "sys_malloc \<Rightarrow> cbs \<Rightarrow> (oblock option \<times> u64) option" where
  "CBS_asn1_oid_to_text mal cbs = (case CBB_init mal 32 of
      (False, _) \<Rightarrow> None
    | (True, st) \<Rightarrow> (case parse_base128_integer cbs of
        (None, _) \<Rightarrow> None
      | (Some v, copy) \<Rightarrow>
          (case and_then (oid_text_first mal v)
                  (and_then (oid_text_rest mal copy) (CBB_add_u8 mal 0 0)) st of
             (False, _) \<Rightarrow> None
           | (True, st') \<Rightarrow> fst (CBB_finish mal True 0 st'))))"

section \<open>Sorting the elements of a SET OF\<close>

definition compare_set_of_element :: "cbs \<Rightarrow> cbs \<Rightarrow> int" where
  "compare_set_of_element a b =
    (let min_len = min (length a) (length b); ret = memcmp_sign (take min_len a) (take min_len b)
     in if ret \<noteq> 0 then ret
        else if length a = length b then 0
        else if length a < length b then - 1 else 1)"

text \<open>Reading the elements; the fuel is the number of bytes, and every element has some.\<close>

fun set_of_children :: "nat \<Rightarrow> cbs \<Rightarrow> cbs list option" where
  "set_of_children n [] = Some []"
| "set_of_children 0 (b # c) = None"
| "set_of_children (Suc n) (b # c) = (case CBS_get_any_asn1_element (b # c) of
      (None, _) \<Rightarrow> None
    | (Some (child, _, _), c') \<Rightarrow> map_option ((#) child) (set_of_children n c'))"

fun add_all_bytes :: "sys_malloc \<Rightarrow> nat \<Rightarrow> cbs list \<Rightarrow> cbb \<Rightarrow> bool \<times> cbb" where
  "add_all_bytes mal d [] st = (True, st)"
| "add_all_bytes mal d (x # xs) st = and_then (CBB_add_bytes mal d x) (add_all_bytes mal d xs) st"

text \<open>A \<open>CBS\<close> takes 16 bytes.\<close>

definition CBB_flush_asn1_set_of :: "sys_malloc \<Rightarrow> nat \<Rightarrow> cbb \<Rightarrow> bool \<times> cbb" where
  "CBB_flush_asn1_set_of mal d = and_then (CBB_flush mal d) (\<lambda>st.
    let contents = CBB_data d st
    in case set_of_children (length contents) contents of
         None \<Rightarrow> (False, st)
       | Some children \<Rightarrow>
           if length children < 2 then (True, st)
           else if word_of_nat (length children) > UINT64_MAX div 16 then (False, st)
           else if OPENSSL_memdup mal contents = None
             \<or> OPENSSL_malloc mal (word_of_nat (length children) * 16) = None then (False, st)
           else add_all_bytes mal d (qsort_by compare_set_of_element children)
             (st\<lparr>cbb_base := map_option (bb_len_update (\<lambda>_. cbb_start (cbb_kids st) d)) (cbb_base st)\<rparr>))"

end
