(* ===== verification/Der.thy ===== *)
theory Der
  imports Cbs
begin

text \<open>
  The distinguished encoding rules as the reader and the writer of \<open>crypto/bytestring\<close> use
  them, written as functions from values to bytes, and the theorems that the parsers of
  \<open>cbs.c\<close> accept exactly these bytes: base-128 integers, tags, definite lengths, elements.
\<close>

section \<open>Base 128\<close>

lemma bit_int_128 [simp]: "bit (128 :: int) n \<longleftrightarrow> n = 7"
  using bit_push_bit_iff [of 7 "1 :: int" n] by (auto simp: bit_1_iff)

lemma bit_int_127 [simp]: "bit (127 :: int) n \<longleftrightarrow> n < 7"
  using bit_mask_iff [of 7 n, where 'a = int] by (simp add: mask_eq_exp_minus_1)


text \<open>The bytes of the groups above the last one, each with its continuation bit.\<close>

function base128_hi :: "u64 \<Rightarrow> bytes" where
  "base128_hi v = (if v = 0 then [] else base128_hi (drop_bit 7 v) @ [ucast v OR 0x80])"
  by auto
termination
  by (relation "measure unat") (auto intro: drop_bit_less_self_u64)

declare base128_hi.simps [simp del]

definition base128_bytes :: "u64 \<Rightarrow> bytes" where
  "base128_bytes v = base128_hi (drop_bit 7 v) @ [ucast v AND 0x7f]"

lemma base128_hi_0 [simp]: "base128_hi 0 = []"
  by (simp add: base128_hi.simps)

lemma cont_bit [simp]: "(ucast v OR 0x80 :: u8) AND 0x80 \<noteq> 0"
proof
  assume "(ucast v OR 0x80 :: u8) AND 0x80 = 0"
  then have "\<not> bit ((ucast v OR 0x80 :: u8) AND 0x80) 7" by simp
  then show False by (simp add: bit_and_iff bit_or_iff)
qed

lemma last_bit [simp]: "(ucast v AND 0x7f :: u8) AND 0x80 = 0"
  by (rule bit_word_eqI) (auto simp: bit_and_iff)

lemma cont_group:
  "push_bit 7 (drop_bit 7 v) OR ucast ((ucast (v :: u64) OR 0x80 :: u8) AND 0x7f) = v"
proof (rule bit_word_eqI)
  fix n
  assume "n < LENGTH(64)"
  then show "bit (push_bit 7 (drop_bit 7 v) OR ucast ((ucast v OR 0x80 :: u8) AND 0x7f)) n = bit v n"
    by (cases "n < 7") (auto simp: bit_simps)
qed

lemma last_group:
  "push_bit 7 (drop_bit 7 v) OR ucast (ucast (v :: u64) AND 0x7f :: u8) = v"
proof (rule bit_word_eqI)
  fix n
  assume "n < LENGTH(64)"
  then show "bit (push_bit 7 (drop_bit 7 v) OR ucast (ucast v AND 0x7f :: u8)) n = bit v n"
    by (cases "n < 7") (auto simp: bit_simps)
qed

lemma ucast_cont_zero: "drop_bit 7 (v :: u64) = 0 \<Longrightarrow> (ucast v OR 0x80 :: u8) = 0x80 \<Longrightarrow> v = 0"
proof (rule bit_word_eqI)
  fix n
  assume a: "drop_bit 7 v = 0" "(ucast v OR 0x80 :: u8) = 0x80" "n < LENGTH(64)"
  show "bit v n = bit 0 n"
  proof (cases "n < 7")
    case True
    then have "bit (ucast v OR 0x80 :: u8) n = bit v n" by (simp add: bit_simps)
    then show ?thesis using a True by simp
  next
    case False
    then have "bit v n = bit (drop_bit 7 v) (n - 7)" by (simp add: bit_drop_bit_eq)
    then show ?thesis by (simp add: a)
  qed
qed

lemma drop_bit_57_7: "drop_bit 57 (drop_bit 7 (v :: u64)) = 0"
  by (rule bit_word_eqI) (simp add: bit_simps)

lemma base128_loop_hi: "base128_loop 0 (base128_hi v @ c) = (if v = 0 then base128_loop 0 c
    else if c = [] then (None, []) else base128_loop v c)"
proof (induction v arbitrary: c rule: base128_hi.induct)
  case (1 v)
  show ?case
  proof (cases "v = 0")
    case False
    then have s: "base128_hi v @ c = base128_hi (drop_bit 7 v) @ (ucast v OR 0x80) # c"
      using base128_hi.simps [of v] by simp
    have step: "base128_loop (drop_bit 7 v) ((ucast v OR 0x80) # c) = base128_loop v c"
      using False ucast_cont_zero [of v]
      by (auto simp: Let_def drop_bit_57_7 cont_group)
    have nil: "base128_loop v [] = (None, [])" by simp
    show ?thesis
      unfolding s using 1 [OF False, of "(ucast v OR 0x80) # c"] False step nil
      by (cases "drop_bit 7 v = 0") (auto simp del: base128_loop.simps)
  qed simp
qed

lemma parse_base128_bytes: "parse_base128_integer (base128_bytes v @ c) = (Some v, c)"
proof -
  have step: "base128_loop (drop_bit 7 v) ((ucast v AND 0x7f) # c) = (Some v, c)"
  proof -
    have "(ucast v AND 0x7f :: u8) \<noteq> 0x80"
    proof
      assume "(ucast v AND 0x7f :: u8) = 0x80"
      then have "bit (ucast v AND 0x7f :: u8) 7" by simp
      then show False by (simp add: bit_and_iff)
    qed
    then show ?thesis by (simp add: Let_def drop_bit_57_7 last_group)
  qed
  show ?thesis
    unfolding parse_base128_integer_def base128_bytes_def append_assoc base128_loop_hi
    using step by (auto simp del: base128_loop.simps)
qed

lemma less_8_iff: "n < 8 \<longleftrightarrow> n < 7 \<or> n = (7 :: nat)"
  by auto

lemma base128_loop_hi_snoc:
  assumes "drop_bit 57 v = 0" "v = 0 \<longrightarrow> b \<noteq> 0x80" "b AND 0x80 \<noteq> 0"
  shows "base128_hi (push_bit 7 v OR ucast (b AND 0x7f)) = base128_hi v @ [b]"
proof -
  let ?w = "push_bit 7 v OR ucast (b AND 0x7f) :: u64"
  have b7: "bit b 7"
  proof (rule ccontr)
    assume "\<not> bit b 7"
    then have "b AND 0x80 = 0" by (intro bit_word_eqI) (auto simp: bit_and_iff)
    then show False using assms(3) by simp
  qed
  have hi: "\<not> bit v n" if "57 \<le> n" for n
  proof
    assume "bit v n"
    then have "bit (drop_bit 57 v) (n - 57)" using that by (simp add: bit_drop_bit_eq)
    then show False by (simp add: assms(1))
  qed
  have d: "drop_bit 7 ?w = v"
  proof (rule bit_word_eqI)
    fix n
    assume "n < LENGTH(64)"
    then show "bit (drop_bit 7 ?w) n = bit v n"
      using hi [of n] by (cases "57 \<le> n") (auto simp: bit_simps)
  qed
  have l: "ucast ?w OR 0x80 = b"
  proof (rule bit_word_eqI)
    fix n
    assume "n < LENGTH(8)"
    then show "bit (ucast ?w OR 0x80 :: u8) n = bit b n"
      using b7 by (auto simp: bit_simps less_8_iff)
  qed
  have "?w \<noteq> 0"
  proof
    assume w: "?w = 0"
    then have "v = 0" using d by simp
    moreover have "b = 0x80" using l w by simp
    ultimately show False using assms(2) by simp
  qed
  then show ?thesis using base128_hi.simps [of ?w] by (simp only: d l if_False)
qed

lemma base128_last:
  assumes "drop_bit 57 v = 0" "b AND 0x80 = (0 :: u8)"
  shows "base128_bytes (push_bit 7 v OR ucast (b AND 0x7f)) = base128_hi v @ [b]"
proof -
  let ?w = "push_bit 7 v OR ucast (b AND 0x7f) :: u64"
  have b7: "\<not> bit b 7"
  proof
    assume "bit b 7"
    then have "bit (b AND 0x80) 7" by (simp add: bit_and_iff)
    then show False by (simp add: assms(2))
  qed
  have hi: "\<not> bit v n" if "57 \<le> n" for n
  proof
    assume "bit v n"
    then have "bit (drop_bit 57 v) (n - 57)" using that by (simp add: bit_drop_bit_eq)
    then show False by (simp add: assms(1))
  qed
  have d: "drop_bit 7 ?w = v"
  proof (rule bit_word_eqI)
    fix n
    assume "n < LENGTH(64)"
    then show "bit (drop_bit 7 ?w) n = bit v n"
      using hi [of n] by (cases "57 \<le> n") (auto simp: bit_simps)
  qed
  have l: "ucast ?w AND 0x7f = b"
  proof (rule bit_word_eqI)
    fix n
    assume "n < LENGTH(8)"
    then show "bit (ucast ?w AND 0x7f :: u8) n = bit b n"
      using b7 by (auto simp: bit_simps less_8_iff)
  qed
  show ?thesis unfolding base128_bytes_def d l ..
qed

lemma base128_loopD:
  "base128_loop w c = (Some v, c') \<Longrightarrow> base128_hi w @ c = base128_bytes v @ c'"
proof (induction w c rule: base128_loop.induct)
  case (2 w b c)
  let ?w = "push_bit 7 w OR ucast (b AND 0x7f) :: u64"
  from 2(2) have ok: "drop_bit 57 w = 0" "w = 0 \<longrightarrow> b \<noteq> 0x80"
    by (auto simp: Let_def split: if_splits)
  show ?case
  proof (cases "b AND 0x80 = 0")
    case True
    with 2(2) ok have "v = ?w" "c' = c" by (auto simp: Let_def split: if_splits)
    then show ?thesis using base128_last [OF ok(1) True] by simp
  next
    case False
    with 2(2) ok have "base128_loop ?w c = (Some v, c')" by (auto simp: Let_def split: if_splits)
    then have "base128_hi ?w @ c = base128_bytes v @ c'"
      using 2(1) ok False by (simp add: Let_def)
    then show ?thesis using base128_loop_hi_snoc [OF ok False] by simp
  qed
qed simp

text \<open>Base-128 integers have one encoding each, and the parser accepts exactly that one.\<close>

lemma parse_base128_iff:
  "parse_base128_integer c = (Some v, c') \<longleftrightarrow> c = base128_bytes v @ c'"
  using base128_loopD [of 0 c v c'] parse_base128_bytes [of v c']
  by (auto simp: parse_base128_integer_def)

section \<open>Big-endian byte strings\<close>

definition be_bytes :: "nat \<Rightarrow> u64 \<Rightarrow> bytes" where
  "be_bytes n v = rev (le_bytes n v)"

lemma length_be_bytes [simp]: "length (be_bytes n v) = n"
  by (simp add: be_bytes_def)

lemma be_word_snoc: "be_word (bs @ [b]) = push_bit 8 (be_word bs) OR ucast b"
  by (simp add: be_word_def)

lemma be_word_Nil [simp]: "be_word [] = 0"
  by (simp add: be_word_def)

lemma be_word_le_word: "be_word bs = le_word (rev bs)"
  by (induction bs rule: rev_induct) (simp_all add: be_word_snoc or.commute)

lemma be_bytes_be_word: "length bs \<le> 8 \<Longrightarrow> be_bytes (length bs) (be_word bs) = bs"
  using le_bytes_le_word [of "rev bs", where 'a = 64]
  by (simp add: be_bytes_def be_word_le_word)

lemma be_word_be_bytes: "unat v < 2 ^ (8 * n) \<Longrightarrow> be_word (be_bytes n v) = v"
proof (rule bit_word_eqI)
  fix k
  assume "unat v < 2 ^ (8 * n)"
  then show "bit (be_word (be_bytes n v)) k = bit v k"
    using not_bit_above [of v "8 * n" k]
    by (auto simp: be_word_le_word be_bytes_def bit_le_word_le_bytes intro: not_less [THEN iffD1] leI)
qed

lemma unat_be_word_less: "length bs \<le> 8 \<Longrightarrow> unat (be_word bs) < 2 ^ (8 * length bs)"
proof (rule unat_less_if_bits)
  fix n
  assume l: "length bs \<le> 8" and n: "8 * length bs \<le> n"
  have "be_word bs = le_word (le_bytes (length bs) (be_word bs))"
    using be_bytes_be_word [OF l] by (simp add: be_word_le_word be_bytes_def rev_swap)
  then have "bit (be_word bs) n \<longleftrightarrow> n < 8 * length bs \<and> bit (be_word bs) n"
    by (metis bit_le_word_le_bytes)
  then show "\<not> bit (be_word bs) n" using n by simp
qed

lemma drop_bit_eq_0_iff_unat: "drop_bit j (v :: u64) = 0 \<longleftrightarrow> unat v < 2 ^ j"
proof -
  have "unat (drop_bit j v) = unat v div 2 ^ j"
  proof -
    have "unat (drop_bit j v) = drop_bit j (take_bit 64 (unat v))"
      by (simp only: unsigned_drop_bit_eq len_bit0 len_num1 mult_1_right) simp
    also have "take_bit 64 (unat v) = unat v"
      using unat_u64_lt [of v] by (simp add: take_bit_nat_eq_self)
    finally show ?thesis by (simp only: drop_bit_eq_div)
  qed
  then show ?thesis by (metis div_eq_0_iff power_eq_0_iff unat_eq_0 zero_neq_numeral)
qed

lemma cbs_get_u_append:
  "unat n = length xs \<Longrightarrow> cbs_get_u n (xs @ c) = (Some (be_word xs), c)"
  by (simp add: cbs_get_u_def cbs_get_append)

lemma cbs_get_uD:
  "cbs_get_u n c = (Some v, c') \<Longrightarrow> \<exists>xs. c = xs @ c' \<and> unat n = length xs \<and> v = be_word xs"
  by (auto simp: cbs_get_u_def dest: cbs_getD split: prod.splits option.splits)

section \<open>Tags\<close>

lemma bit_int_224 [simp]: "bit (224 :: int) n \<longleftrightarrow> 5 \<le> n \<and> n < 8"
proof -
  have "(224 :: int) = push_bit 5 (mask 3)" by (simp add: mask_eq_exp_minus_1 push_bit_eq_mult)
  then show ?thesis by (simp only: bit_push_bit_iff bit_mask_iff) auto
qed

lemma bit_int_tag_bits [simp]: "bit (3758096384 :: int) n \<longleftrightarrow> 29 \<le> n \<and> n < 32"
proof -
  have "(3758096384 :: int) = push_bit 29 (mask 3)"
    by (simp add: mask_eq_exp_minus_1 push_bit_eq_mult)
  then show ?thesis by (simp only: bit_push_bit_iff bit_mask_iff) auto
qed

lemma bit_int_31 [simp]: "bit (31 :: int) n \<longleftrightarrow> n < 5"
  using bit_mask_iff [of 5 n, where 'a = int] by (simp add: mask_eq_exp_minus_1)

lemma bit_int_tag_mask [simp]: "bit (536870911 :: int) n \<longleftrightarrow> n < 29"
  using bit_mask_iff [of 29 n, where 'a = int] by (simp add: mask_eq_exp_minus_1)

definition der_tag :: "u32 \<Rightarrow> bytes" where
  "der_tag tag = (let tag_bits = ucast (drop_bit CBS_ASN1_TAG_SHIFT tag) AND 0xe0;
      tag_number = tag AND CBS_ASN1_TAG_NUMBER_MASK
    in if tag_number \<ge> 0x1f then (tag_bits OR 0x1f) # base128_bytes (ucast tag_number)
       else [tag_bits OR ucast tag_number])"

lemma tag_recompose:
  "push_bit 24 (ucast (ucast (drop_bit 24 tag) AND 0xe0 :: u8)) OR (tag AND 0x1fffffff) = (tag :: u32)"
proof (rule bit_word_eqI)
  fix n
  assume "n < LENGTH(32)"
  then show "bit (push_bit 24 (ucast (ucast (drop_bit 24 tag) AND 0xe0 :: u8)) OR (tag AND 0x1fffffff)) n
      = bit tag n"
    by (cases "n < 29") (auto simp: bit_simps)
qed

lemma tag_bits_of:
  "unat (m :: u32) < 2 ^ 29
    \<Longrightarrow> (ucast (drop_bit 24 (push_bit 24 (ucast (b :: u8) AND 0xe0) OR m)) AND 0xe0 :: u8) = b AND 0xe0"
proof (rule bit_word_eqI)
  fix n
  assume "unat m < 2 ^ 29" "n < LENGTH(8)"
  then show "bit (ucast (drop_bit 24 (push_bit 24 (ucast b AND 0xe0) OR m)) AND 0xe0 :: u8) n
      = bit (b AND 0xe0) n"
    using not_bit_above [of m 29 "24 + n"] by (auto simp: bit_simps)
qed

lemma tag_number_of:
  "unat (m :: u32) < 2 ^ 29 \<Longrightarrow> (push_bit 24 (ucast (b :: u8) AND 0xe0) OR m) AND 0x1fffffff = m"
proof (rule bit_word_eqI)
  fix n
  assume "unat m < 2 ^ 29" "n < LENGTH(32)"
  then show "bit ((push_bit 24 (ucast b AND 0xe0) OR m) AND 0x1fffffff) n = bit m n"
    using not_bit_above [of m 29 n] by (cases "n < 29") (auto simp: bit_simps)
qed

lemma tag_byte_split: "(b AND 0xe0) OR (b AND 0x1f) = (b :: u8)"
proof (rule bit_word_eqI)
  fix n
  assume "n < LENGTH(8)"
  then show "bit ((b AND 0xe0) OR (b AND 0x1f)) n = bit b n"
    by (cases "n < 5") (auto simp: bit_simps)
qed

lemma tag_byte_lead: "b AND 0x1f = (0x1f :: u8) \<Longrightarrow> (b AND 0xe0) OR 0x1f = b"
  using tag_byte_split [of b] by simp

lemma tag_byte_number: "((a AND 0xe0) OR 0x1f) AND 0x1f = (0x1f :: u8)"
  by (rule bit_word_eqI) (auto simp: bit_simps)

lemma tag_byte_lead_bits: "((a AND 0xe0) OR (b AND 0x1f)) AND 0xe0 = (a AND 0xe0 :: u8)"
  by (rule bit_word_eqI) (auto simp: bit_simps)

lemma tag_byte_low: "((a AND 0xe0) OR b) AND 0x1f = (b AND 0x1f :: u8)"
  by (rule bit_word_eqI) (auto simp: bit_simps)

lemma ucast_and_tag: "ucast (b AND 0x1f :: u8) = (ucast b AND 0x1f :: u32)"
  "ucast (b AND 0xe0 :: u8) = (ucast b AND 0xe0 :: u32)"
  by (rule bit_word_eqI; auto simp: bit_simps)+

lemma small_number: "\<not> 0x1f \<le> (n :: u32) \<Longrightarrow> ucast n AND 0x1f = (ucast n :: u8)
    \<and> (ucast (ucast n :: u8) :: u32) = n \<and> (ucast n :: u8) \<noteq> 0x1f"
proof -
  assume a: "\<not> 0x1f \<le> n"
  then have lt: "unat n < 31" by (simp add: word_le_nat_alt)
  then have u: "unat (ucast n :: u8) = unat n"
    by (simp add: unsigned_ucast_eq take_bit_nat_eq_self)
  have m: "ucast n AND 0x1f = (ucast n :: u8)"
    using not_bit_above [of "ucast n :: u8" 5] u lt
    by (intro bit_word_eqI) (auto simp: bit_simps simp flip: not_less)
  have "(ucast (ucast n :: u8) :: u32) = n"
    by (rule unsigned_word_eqI [where 'a = nat]) (use u lt in \<open>simp add: unsigned_ucast_eq unsigned_take_bit_eq take_bit_nat_eq_self\<close>)
  moreover have "(ucast n :: u8) \<noteq> 0x1f" using u lt by auto
  ultimately show ?thesis using m by simp
qed

lemma parse_tag_bytes: "parse_asn1_tag (der_tag tag @ c) = (Some tag, c)"
proof -
  let ?lead = "ucast (drop_bit 24 tag) AND 0xe0 :: u8"
  let ?num = "tag AND 0x1fffffff"
  have lt: "unat ?num < 2 ^ 29"
    by (rule unat_less_if_bits) (auto simp: bit_simps)
  have cut: "(ucast ((ucast ?num :: u64)) :: u32) = ?num"
    by (rule bit_word_eqI) (auto simp: bit_simps)
  have u: "unat (ucast ?num :: u64) = unat ?num" by (rule unat_ucast_u32_u64)
  show ?thesis
  proof (cases "0x1f \<le> ?num")
    case True
    have b1: "ucast (?lead OR 0x1f) AND 0x1f = (0x1f :: u32)"
      using tag_byte_number [of "ucast (drop_bit 24 tag)"] by (simp flip: ucast_and_tag)
    have b2: "ucast (?lead OR 0x1f) AND 0xe0 = (ucast ?lead :: u32)"
      using tag_byte_lead_bits [of "ucast (drop_bit 24 tag)" "0x1f"] by (simp flip: ucast_and_tag)
    have ok: "\<not> (ucast ?num :: u64) > 0x1fffffff" "\<not> (ucast ?num :: u64) < 0x1f"
      using lt True by (simp_all add: word_less_nat_alt word_le_nat_alt u)
    show ?thesis
      using True ok tag_recompose [of tag]
      by (simp add: der_tag_def parse_asn1_tag_def Let_def parse_base128_bytes b1 b2 cut)
  next
    case False
    note sm = small_number [OF False]
    have b1: "ucast (?lead OR ucast ?num) AND 0x1f = ?num"
      using tag_byte_low [of "ucast (drop_bit 24 tag)" "ucast ?num"] sm by (simp flip: ucast_and_tag)
    have b2: "ucast (?lead OR ucast ?num) AND 0xe0 = (ucast ?lead :: u32)"
      using tag_byte_lead_bits [of "ucast (drop_bit 24 tag)" "ucast ?num"] sm
      by (simp flip: ucast_and_tag)
    have ne: "?num \<noteq> 0x1f" using False by auto
    show ?thesis
      using False ne tag_recompose [of tag]
      by (simp add: der_tag_def parse_asn1_tag_def Let_def b1 b2)
  qed
qed

lemma parse_tagD: "parse_asn1_tag c = (Some tag, c') \<Longrightarrow> c = der_tag tag @ c'"
proof -
  assume p: "parse_asn1_tag c = (Some tag, c')"
  then obtain b c1 where c: "c = b # c1" by (cases c) (simp_all add: parse_asn1_tag_def)
  show ?thesis
  proof (cases "b AND 0x1f = 0x1f")
    case True
    then have t: "ucast b AND 0x1f = (0x1f :: u32)" by (simp flip: ucast_and_tag)
    with p c obtain v where v: "parse_base128_integer c1 = (Some v, c')"
      "\<not> v > 0x1fffffff" "\<not> v < 0x1f" "tag = push_bit 24 (ucast b AND 0xe0) OR ucast v"
      by (auto simp: parse_asn1_tag_def Let_def split: prod.splits option.splits if_splits)
    have u: "unat v < 2 ^ 29" "31 \<le> unat v"
      using v(2,3) by (simp_all add: word_less_nat_alt)
    then have cu: "unat (ucast v :: u32) = unat v"
      by (simp add: unsigned_ucast_eq take_bit_nat_eq_self)
    have un: "unat (ucast v :: u32) < 2 ^ 29" using cu u by simp
    have cc: "(ucast (ucast v :: u32) :: u64) = v"
      by (rule unsigned_word_eqI [where 'a = nat]) (simp add: unat_ucast_u32_u64 cu)
    have ge: "(0x1f :: u32) \<le> ucast v" using u by (simp add: word_le_nat_alt cu)
    show ?thesis
      using tag_bits_of [OF un, of b] tag_number_of [OF un, of b] ge cc tag_byte_lead [OF True]
        v(1) [unfolded parse_base128_iff]
      by (simp add: c v(4) der_tag_def Let_def)
  next
    case False
    have "unat (b AND 0x1f) < 2 ^ 5" by (rule unat_less_if_bits) (auto simp: bit_simps)
    moreover have "unat (b AND 0x1f) \<noteq> 31"
    proof
      assume "unat (b AND 0x1f) = 31"
      then have "b AND 0x1f = word_of_nat 31" by (rule word_of_nat_if_unat)
      then show False using False by simp
    qed
    ultimately have lt: "unat (b AND 0x1f) < 31" by simp
    have u: "unat (ucast b AND 0x1f :: u32) = unat (b AND 0x1f)"
      using lt by (simp flip: ucast_and_tag add: unsigned_ucast_eq take_bit_nat_eq_self)
    have un: "unat (ucast b AND 0x1f :: u32) < 2 ^ 29" using u lt by simp
    have nge: "\<not> (0x1f :: u32) \<le> ucast b AND 0x1f" using u lt by (simp add: word_le_nat_alt)
    then have "(ucast b AND 0x1f :: u32) \<noteq> 0x1f" by auto
    with p c have t: "tag = push_bit 24 (ucast b AND 0xe0) OR (ucast b AND 0x1f)" "c' = c1"
      by (auto simp: parse_asn1_tag_def Let_def)
    have "ucast (ucast b AND 0x1f :: u32) = b AND 0x1f"
      by (rule bit_word_eqI) (auto simp: bit_simps)
    then show ?thesis
      using tag_bits_of [OF un, of b] tag_number_of [OF un, of b] nge tag_byte_split [of b]
      by (simp add: c t der_tag_def Let_def)
  qed
qed

text \<open>Every 32-bit tag has one encoding, and the parser accepts exactly that one.\<close>

lemma parse_tag_iff: "parse_asn1_tag c = (Some tag, c') \<longleftrightarrow> c = der_tag tag @ c'"
  using parse_tagD parse_tag_bytes by auto

section \<open>Lengths and elements\<close>

definition der_len_len :: "nat \<Rightarrow> nat" where
  "der_len_len n = (if n \<le> 0xff then 1 else if n \<le> 0xffff then 2 else if n \<le> 0xffffff then 3 else 4)"

definition der_length :: "nat \<Rightarrow> bytes" where
  "der_length n = (if n \<le> 0x7f then [word_of_nat n]
    else (0x80 OR word_of_nat (der_len_len n)) # be_bytes (der_len_len n) (word_of_nat n))"

definition der_header :: "u32 \<Rightarrow> nat \<Rightarrow> bytes" where
  "der_header tag n = der_tag tag @ der_length n"

definition der_element :: "u32 \<Rightarrow> bytes \<Rightarrow> bytes" where
  "der_element tag body = der_header tag (length body) @ body"

lemma der_element_Cons_tag: "der_element tag body = der_tag tag @ der_length (length body) @ body"
  by (simp add: der_element_def der_header_def)

lemma der_len_len_bounds:
  "der_len_len n \<in> {1, 2, 3, 4}"
  by (simp add: der_len_len_def)

text \<open>A long-form length is minimal exactly when its number of bytes is the one DER chooses.\<close>

lemma der_len_len_iff:
  assumes "k \<in> {1, 2, 3, 4}" "n < 2 ^ (8 * k)" "128 \<le> n"
  shows "der_len_len n = k \<longleftrightarrow> 2 ^ ((k - 1) * 8) \<le> n"
  using assms by (auto simp: der_len_len_def)

lemma base128_hi_length: "unat v < 2 ^ (7 * k) \<Longrightarrow> length (base128_hi v) \<le> k"
proof (induction k arbitrary: v)
  case 0
  then have "v = 0" by (simp add: unat_eq_0)
  then show ?case by simp
next
  case (Suc k)
  have "unat (drop_bit 7 v) = unat v div 128" by (simp add: drop_bit_eq_div unat_div)
  also have "\<dots> < 2 ^ (7 * k)" using Suc.prems by (simp add: less_mult_imp_div_less power_add)
  finally have "length (base128_hi (drop_bit 7 v)) \<le> k" by (rule Suc.IH)
  then show ?case by (cases "v = 0") (simp_all add: base128_hi.simps [of v])
qed

lemma length_base128_bytes: "length (base128_bytes v) \<le> 10"
proof -
  have "unat (drop_bit 7 v) = unat v div 128" by (simp add: drop_bit_eq_div unat_div)
  also have "\<dots> < 2 ^ (7 * 9)" using unat_u64_lt [of v] by simp
  finally show ?thesis using base128_hi_length [of "drop_bit 7 v" 9] by (simp add: base128_bytes_def)
qed

lemma length_der_tag: "length (der_tag tag) \<le> 11"
  using length_base128_bytes by (simp add: der_tag_def Let_def)

text \<open>The long form of a length: the first byte with its count.\<close>

lemma long_form_byte:
  assumes "k \<in> {1, 2, 3, 4}"
  shows "(0x80 OR word_of_nat k :: u8) AND 0x80 \<noteq> 0"
    "ucast ((0x80 OR word_of_nat k :: u8) AND 0x7f) = (word_of_nat k :: u64)"
  using assms by auto

lemma long_form_byteD:
  assumes "(b :: u8) AND 0x80 \<noteq> 0"
  shows "b = 0x80 OR (b AND 0x7f)"
proof (rule bit_word_eqI)
  fix n
  assume n: "n < LENGTH(8)"
  have "bit b 7"
  proof (rule ccontr)
    assume "\<not> bit b 7"
    then have "b AND 0x80 = 0" by (intro bit_word_eqI) (auto simp: bit_and_iff)
    then show False using assms by simp
  qed
  then show "bit b n = bit (0x80 OR (b AND 0x7f)) n"
    using n by (cases "n < 7") (auto simp: bit_simps less_8_iff)
qed

lemma short_form_byte: "n \<le> 0x7f \<Longrightarrow> (word_of_nat n :: u8) AND 0x80 = 0
    \<and> (ucast (word_of_nat n :: u8) :: u64) = word_of_nat n"
proof -
  assume n: "n \<le> 0x7f"
  then have u: "unat (word_of_nat n :: u8) = n" by (simp add: unat_of_nat take_bit_nat_eq_self)
  have "\<not> bit (word_of_nat n :: u8) 7" using u n not_bit_above [of "word_of_nat n :: u8" 7 7] by simp
  then have "(word_of_nat n :: u8) AND 0x80 = 0"
    by (intro bit_word_eqI) (auto simp: bit_and_iff)
  moreover have "(ucast (word_of_nat n :: u8) :: u64) = word_of_nat n"
    by (rule unsigned_word_eqI [where 'a = nat])
       (use u n in \<open>simp add: unsigned_ucast_eq take_bit_nat_eq_self\<close>)
  ultimately show ?thesis by simp
qed

lemma short_form_byteD:
  assumes "(b :: u8) AND 0x80 = 0"
  shows "unat b \<le> 0x7f" "(ucast b :: u64) = word_of_nat (unat b)"
proof -
  have b7: "\<not> bit b 7"
  proof
    assume "bit b 7"
    then have "bit (b AND 0x80) 7" by (simp add: bit_and_iff)
    then show False by (simp add: assms)
  qed
  have "unat b < 2 ^ 7"
  proof (rule unat_less_if_bits)
    fix n :: nat
    assume "7 \<le> n"
    then show "\<not> bit b n" using b7 bit_imp_le_length [of b n] by (cases "n = 7") auto
  qed
  then show "unat b \<le> 0x7f" by simp
  show "(ucast b :: u64) = word_of_nat (unat b)" by simp
qed

lemma der_len_len_covers: "n < 4294967296 \<Longrightarrow> n < 2 ^ (8 * der_len_len n)"
  by (simp add: der_len_len_def)

lemma parse_element:
  assumes n: "n = length body" "n < 4294967296"
    and l: "length (der_element tag body @ c) < 18446744073709551616"
  shows "CBS_get_any_asn1_element (der_element tag body @ c)
    = (Some (der_element tag body, tag, word_of_nat (length (der_header tag n))), c)"
proof (cases "n \<le> 0x7f")
  case True
  let ?t = "length (der_tag tag)"
  let ?b = "word_of_nat n :: u8"
  have e: "der_element tag body @ c = der_tag tag @ ?b # (body @ c)"
    using True n by (simp add: der_element_Cons_tag der_length_def)
  have p: "parse_asn1_tag (der_element tag body @ c) = (Some tag, ?b # (body @ c))"
    unfolding e by (rule parse_tag_bytes)
  have hl: "CBS_len (der_element tag body @ c) - CBS_len (body @ c) = word_of_nat (Suc ?t)"
    using CBS_len_append [of "der_tag tag @ [?b]" "body @ c"] by (simp add: e)
  have len: "unat (word_of_nat n + word_of_nat (Suc ?t) :: u64) = length (der_element tag body)"
    using l True n length_der_tag [of tag]
    by (simp add: der_element_Cons_tag der_length_def flip: of_nat_Suc of_nat_add)
  have hd: "length (der_header tag n) = Suc ?t"
    using True by (simp add: der_header_def der_length_def)
  show ?thesis
    unfolding CBS_get_any_asn1_element_def cbs_get_any_asn1_element_def
    using len short_form_byte [OF True]
    by (simp add: p hl Let_def CBS_get_bytes_def cbs_get_append hd del: of_nat_Suc)
next
  case False
  let ?t = "length (der_tag tag)"
  let ?k = "der_len_len n"
  let ?b = "0x80 OR word_of_nat ?k :: u8"
  let ?bs = "be_bytes ?k (word_of_nat n)"
  note k = der_len_len_bounds [of n]
  have n64: "unat (word_of_nat n :: u64) = n" using n by simp
  have e: "der_element tag body @ c = der_tag tag @ ?b # ?bs @ body @ c"
    using False n by (simp add: der_element_Cons_tag der_length_def)
  have p: "parse_asn1_tag (der_element tag body @ c) = (Some tag, ?b # ?bs @ body @ c)"
    unfolding e by (rule parse_tag_bytes)
  have hl: "CBS_len (der_element tag body @ c) - CBS_len (?bs @ body @ c) = word_of_nat (Suc ?t)"
    using CBS_len_append [of "der_tag tag @ [?b]" "?bs @ body @ c"] by (simp add: e)
  have kw: "unat (word_of_nat ?k :: u64) = ?k" using k by auto
  have get: "cbs_get_u (word_of_nat ?k) (?bs @ body @ c) = (Some (word_of_nat n), body @ c)"
    using be_word_be_bytes [of "word_of_nat n" ?k] der_len_len_covers [OF n(2)] n64
    by (simp add: cbs_get_u_append kw)
  have k4: "word_of_nat ?k \<noteq> (0 :: u64)" "\<not> word_of_nat ?k > (4 :: u64)"
    "unat ((word_of_nat ?k - 1) * 8 :: u64) = (?k - 1) * 8"
    using k by auto
  have g128: "\<not> word_of_nat n < (128 :: u64)"
    using False n64 by (simp add: word_less_nat_alt)
  have min: "drop_bit ((?k - 1) * 8) (word_of_nat n :: u64) \<noteq> 0"
    using der_len_len_iff [of ?k n] k der_len_len_covers [OF n(2)] False n64
    by (simp add: drop_bit_eq_0_iff_unat)
  have len: "unat (word_of_nat n + (word_of_nat (Suc ?t) + word_of_nat ?k) :: u64)
      = length (der_element tag body)"
    using l False n by (simp add: der_element_Cons_tag der_length_def flip: of_nat_Suc of_nat_add)
  have sum: "word_of_nat n + word_of_nat (Suc ?t) + word_of_nat ?k
      = (word_of_nat n + (word_of_nat (Suc ?t) + word_of_nat ?k) :: u64)"
    by (simp add: add.assoc)
  have ov: "\<not> word_of_nat n + (word_of_nat (Suc ?t) + word_of_nat ?k) < (word_of_nat n :: u64)"
    unfolding word_less_nat_alt len n64 using n by (simp add: der_element_def)
  have hd: "word_of_nat (Suc ?t) + word_of_nat ?k = (word_of_nat (length (der_header tag n)) :: u64)"
    using False by (simp add: der_header_def der_length_def)
  show ?thesis
    unfolding CBS_get_any_asn1_element_def cbs_get_any_asn1_element_def
    using len long_form_byte [OF k] get k4 g128 min ov
    by (simp add: p hl Let_def CBS_get_bytes_def cbs_get_append hd sum del: of_nat_Suc)
qed

text \<open>
  From here on the window is at most 2^64 - 1 bytes long, which every window in memory is; a
  prefix with its content that fits the window is a prefix of the window.
\<close>

lemma split_prefix:
  assumes "c = xs @ d" "c = out @ c'" "length out = length xs + n"
  shows "\<exists>body. out = xs @ body \<and> length body = n \<and> d = body @ c'"
  using assms by (auto simp: append_eq_append_conv2)

lemma element_lengths:
  assumes p: "c = der_tag tag @ b # h2" and l: "length c < 18446744073709551616"
    and k: "k = 0 \<or> h2 = bs @ h3 \<and> length bs = k"
  shows "CBS_len c - CBS_len h2 = word_of_nat (Suc (length (der_tag tag)))"
    and "unat (CBS_len c - CBS_len h2 + word_of_nat k :: u64) = Suc (length (der_tag tag)) + k"
proof -
  show 1: "CBS_len c - CBS_len h2 = word_of_nat (Suc (length (der_tag tag)))"
    using CBS_len_append [of "der_tag tag @ [b]" h2] p by simp
  have "Suc (length (der_tag tag)) + k \<le> length c" using p k by auto
  then show "unat (CBS_len c - CBS_len h2 + word_of_nat k :: u64) = Suc (length (der_tag tag)) + k"
    unfolding 1 using l by (simp flip: of_nat_Suc of_nat_add)
qed

lemma parse_element_short:
  assumes "CBS_get_any_asn1_element c = (Some (out, tag, hl), c')"
    and l: "length c < 18446744073709551616"
    and p: "parse_asn1_tag c = (Some tag, b # h2)" and b: "b AND 0x80 = 0"
  shows "\<exists>body. out = der_element tag body \<and> length body \<le> 0x7f \<and> c = out @ c'
    \<and> hl = word_of_nat (length (der_header tag (length body)))"
proof -
  let ?t = "Suc (length (der_tag tag))"
  note c = parse_tagD [OF p]
  note el = element_lengths [OF c l, of 0]
  have r: "cbs_get (ucast b + word_of_nat ?t) c = (Some out, c')" "hl = word_of_nat ?t"
    using assms(1) b el(1)
    by (auto simp: CBS_get_any_asn1_element_def cbs_get_any_asn1_element_def p Let_def
        CBS_get_bytes_def simp del: of_nat_Suc split: prod.splits option.splits)
  note g = cbs_getD [OF r(1)]
  have "unat (ucast b + word_of_nat ?t :: u64) = unat b + ?t"
  proof -
    have "unat (ucast b :: u64) = unat b"
      using unat_u8_lt [of b] by (simp add: unsigned_ucast_eq take_bit_nat_eq_self)
    moreover have "unat (word_of_nat ?t :: u64) = ?t"
      using length_der_tag [of tag] by (simp del: of_nat_Suc)
    ultimately show ?thesis
      using unat_u8_lt [of b] length_der_tag [of tag]
      by (subst unat_plus_no_overflow_u64) (simp_all del: of_nat_Suc)
  qed
  then have "length out = length (der_tag tag @ [b]) + unat b" using g by simp
  with split_prefix [of c "der_tag tag @ [b]" h2 out c' "unat b"] c g
  obtain body where body: "out = (der_tag tag @ [b]) @ body" "length body = unat b" by auto
  then have "der_length (length body) = [b]"
    using short_form_byteD [OF b] by (simp add: der_length_def)
  then show ?thesis
    using body short_form_byteD [OF b] g r(2)
    by (intro exI [of _ body]) (simp add: der_element_Cons_tag der_header_def)
qed

lemma parse_element_long:
  assumes "CBS_get_any_asn1_element c = (Some (out, tag, hl), c')"
    and l: "length c < 18446744073709551616"
    and p: "parse_asn1_tag c = (Some tag, b # h2)" and b: "b AND 0x80 \<noteq> 0"
  shows "\<exists>body. out = der_element tag body \<and> 0x7f < length body \<and> length body < 4294967296
    \<and> c = out @ c' \<and> hl = word_of_nat (length (der_header tag (length body)))"
proof -
  let ?t = "Suc (length (der_tag tag))"
  let ?nb = "ucast (b AND 0x7f) :: u64"
  note c = parse_tagD [OF p]
  have hd: "CBS_len c - CBS_len h2 = word_of_nat ?t"
    using element_lengths(1) [OF c l, of 0] by simp
  obtain n h3 where gu: "cbs_get_u ?nb h2 = (Some n, h3)"
    and nb: "?nb \<noteq> 0" "\<not> ?nb > 4" and ge: "\<not> n < 128"
    and min: "drop_bit (unat ((?nb - 1) * 8)) n \<noteq> 0"
    and ov: "\<not> n + word_of_nat ?t + ?nb < n"
    and r: "cbs_get (n + (word_of_nat ?t + ?nb)) c = (Some out, c')" "hl = word_of_nat ?t + ?nb"
    using assms(1) b hd
    by (auto simp: CBS_get_any_asn1_element_def cbs_get_any_asn1_element_def p Let_def
        CBS_get_bytes_def simp del: of_nat_Suc split: prod.splits option.splits if_splits)
  obtain bs where bs: "h2 = bs @ h3" "unat ?nb = length bs" "n = be_word bs"
    using cbs_get_uD [OF gu] by auto
  have k: "length bs \<in> {1, 2, 3, 4}"
  proof -
    have "length bs \<noteq> 0" "length bs \<le> 4"
      using nb bs(2) by (auto simp: word_less_nat_alt unat_eq_0 [symmetric])
    then show ?thesis by (simp; arith)
  qed
  have nbw: "?nb = word_of_nat (length bs)" using bs(2) by (rule word_of_nat_if_unat)
  have nlt: "unat n < 2 ^ (8 * length bs)" using unat_be_word_less [of bs] k bs(3) by auto
  have n32: "unat n < 4294967296" using nlt k by auto
  have nge: "128 \<le> unat n" using ge by (simp add: word_less_nat_alt)
  have kk: "unat ((?nb - 1) * 8) = (length bs - 1) * 8" using k unfolding nbw by auto
  have len_len: "der_len_len (unat n) = length bs"
    using der_len_len_iff [OF k nlt nge] min [unfolded kk drop_bit_eq_0_iff_unat] by simp
  have dl: "der_length (unat n) = b # bs"
  proof -
    have "be_bytes (length bs) n = bs" using be_bytes_be_word [of bs] k bs(3) by auto
    moreover have "(word_of_nat (length bs) :: u8) = b AND 0x7f"
    proof -
      have "unat (b AND 0x7f) = length bs"
        using bs(2) unat_u8_lt [of "b AND 0x7f"]
        by (simp add: unsigned_ucast_eq take_bit_nat_eq_self del: unat_word_of_nat_u64)
      then show ?thesis using word_of_nat_if_unat by metis
    qed
    ultimately show ?thesis using nge len_len long_form_byteD [OF b] by (simp add: der_length_def)
  qed
  have head: "unat (word_of_nat ?t + ?nb :: u64) = ?t + length bs"
    using element_lengths(2) [OF c l, of "length bs" bs h3] bs hd nbw by simp
  have tot: "unat (n + (word_of_nat ?t + ?nb)) = unat n + (?t + length bs)"
  proof -
    have "\<not> 18446744073709551616 \<le> unat n + unat (word_of_nat ?t + ?nb :: u64)"
      using ov add_wraps_iff_u64 [of n "word_of_nat ?t + ?nb"] by (simp add: add.assoc)
    then show ?thesis using unat_plus_no_overflow_u64 [of n "word_of_nat ?t + ?nb"] head by simp
  qed
  note g = cbs_getD [OF r(1)]
  have "length out = length (der_tag tag @ b # bs) + unat n" using g tot by simp
  with split_prefix [of c "der_tag tag @ b # bs" h3 out c' "unat n"] c bs(1) g
  obtain body where body: "out = (der_tag tag @ b # bs) @ body" "length body = unat n" by auto
  have "hl = word_of_nat (length (der_header tag (length body)))"
    unfolding r(2) nbw using body(2) dl by (simp add: der_header_def)
  then show ?thesis
    using body dl n32 nge g by (intro exI [of _ body]) (simp add: der_element_Cons_tag)
qed

lemma element_iff:
  assumes "length c < 18446744073709551616"
  shows "CBS_get_any_asn1_element c = (Some (out, tag, hl), c') \<longleftrightarrow>
    (\<exists>body. length body < 4294967296 \<and> out = der_element tag body \<and> c = out @ c'
       \<and> hl = word_of_nat (length (der_header tag (length body))))"
    (is "?L \<longleftrightarrow> ?R")
proof
  assume L: ?L
  then obtain b h2 where p: "parse_asn1_tag c = (Some tag, b # h2)"
    by (auto simp: CBS_get_any_asn1_element_def cbs_get_any_asn1_element_def Let_def
        CBS_get_u8_def cbs_get_def neq_Nil_conv Suc_le_eq
        split: prod.splits option.splits if_splits)
  show ?R
  proof (cases "b AND 0x80 = 0")
    case True
    from parse_element_short [OF L assms p True] show ?thesis by force
  next
    case False
    from parse_element_long [OF L assms p False] show ?thesis by blast
  qed
next
  assume ?R
  then show ?L using parse_element [OF refl] assms by auto
qed

text \<open>The parsers of contents: what they accept is the element with these contents.\<close>

lemma skip_header:
  assumes "length body < 4294967296"
  shows "CBS_skip (word_of_nat (length (der_header tag (length body)))) (der_element tag body)
    = (True, body)"
proof -
  have "length (der_header tag (length body)) \<le> 16"
    using length_der_tag [of tag] der_len_len_bounds [of "length body"]
    by (auto simp: der_header_def der_length_def)
  then have "unat (word_of_nat (length (der_header tag (length body))) :: u64)
      = length (der_header tag (length body))" by simp
  then show ?thesis by (simp add: CBS_skip_def der_element_def cbs_get_append)
qed

lemma any_asn1_iff:
  assumes "length c < 18446744073709551616"
  shows "CBS_get_any_asn1 c = (Some (body, tag), c')
    \<longleftrightarrow> length body < 4294967296 \<and> c = der_element tag body @ c'" (is "?L \<longleftrightarrow> ?R")
proof
  assume ?L
  then obtain out hl where e: "CBS_get_any_asn1_element c = (Some (out, tag, hl), c')"
    and s: "fst (CBS_skip hl out) \<and> snd (CBS_skip hl out) = body"
    by (auto simp: CBS_get_any_asn1_def split: prod.splits option.splits bool.splits)
  from e obtain body' where "length body' < 4294967296" "out = der_element tag body'" "c = out @ c'"
    "hl = word_of_nat (length (der_header tag (length body')))"
    using element_iff [OF assms] by blast
  then show ?R using s skip_header by simp
next
  assume ?R
  then have "CBS_get_any_asn1_element c
      = (Some (der_element tag body, tag, word_of_nat (length (der_header tag (length body)))), c')"
    using element_iff [OF assms] by blast
  then show ?L using \<open>?R\<close> skip_header by (simp add: CBS_get_any_asn1_def)
qed

lemma get_asn1_iff:
  assumes "length c < 18446744073709551616"
  shows "CBS_get_asn1 tag c = (Some body, c')
    \<longleftrightarrow> length body < 4294967296 \<and> c = der_element tag body @ c'"
proof -
  have "CBS_get_asn1 tag c = (Some body, c') \<longleftrightarrow> CBS_get_any_asn1 c = (Some (body, tag), c')"
    by (auto simp: CBS_get_asn1_def cbs_get_asn1_def CBS_get_any_asn1_def
        split: prod.splits option.splits bool.splits)
  then show ?thesis using any_asn1_iff [OF assms] by simp
qed

section \<open>Integers\<close>

definition uint_body :: "u64 \<Rightarrow> bytes" where
  "uint_body v = (let bs = dropWhile (\<lambda>b. b = 0) (be_bytes 8 v)
    in if bs = [] then [0] else if hd bs AND 0x80 \<noteq> 0 then 0 # bs else bs)"

lemma uint64_loop_append:
  "length pre + length data \<le> 8 \<Longrightarrow> uint64_loop (be_word pre) (data @ more_data)
    = uint64_loop (be_word (pre @ data)) more_data"
proof (induction data arbitrary: pre)
  case (Cons b data)
  have "unat (be_word pre) < 2 ^ (8 * length pre)"
    using Cons.prems by (intro unat_be_word_less) simp
  also have "(2 :: nat) ^ (8 * length pre) \<le> 2 ^ 56"
    using Cons.prems by (intro power_increasing) auto
  finally have "drop_bit 56 (be_word pre) = 0" by (simp add: drop_bit_eq_0_iff_unat)
  then show ?case
    using Cons.IH [of "pre @ [b]"] Cons.prems by (simp add: be_word_snoc)
qed simp

lemma be_word_Cons_zero: "be_word (0 # bs) = be_word bs"
  by (simp add: be_word_def)

lemma be_word_zeros: "be_word (replicate n 0 @ bs) = be_word bs"
  by (induction n) (simp_all add: be_word_Cons_zero)

lemma top_byte_nonzero:
  assumes "length bs = 8" "hd bs \<noteq> 0"
  shows "drop_bit 56 (be_word bs) \<noteq> 0"
proof
  assume "drop_bit 56 (be_word bs) = 0"
  then have "unat (be_word bs) < 2 ^ (8 * 7)" by (simp add: drop_bit_eq_0_iff_unat)
  then have "be_word (be_bytes 7 (be_word bs)) = be_word (0 # be_bytes 7 (be_word bs))"
    and w: "be_word (be_bytes 7 (be_word bs)) = be_word bs"
    using be_word_be_bytes by (simp_all add: be_word_Cons_zero)
  then have "be_bytes 8 (be_word (0 # be_bytes 7 (be_word bs))) = be_bytes 8 (be_word bs)" by simp
  then have "0 # be_bytes 7 (be_word bs) = bs"
    using be_bytes_be_word [of "0 # be_bytes 7 (be_word bs)"] be_bytes_be_word [of bs] assms by simp
  then show False using assms(2) by (metis list.sel(1))
qed

lemma uint64_loop_value:
  assumes "data = [] \<or> hd data \<noteq> 0"
  shows "uint64_loop 0 data = (if length data \<le> 8 then Some (be_word data) else None)"
proof (cases "length data \<le> 8")
  case True
  then show ?thesis using uint64_loop_append [of "[]" data "[]"] by simp
next
  case False
  then have t: "length (take 8 data) = 8" "hd (take 8 data) \<noteq> 0" "drop 8 data \<noteq> []"
    using assms by (cases data; auto)+
  have "uint64_loop 0 data = uint64_loop (be_word (take 8 data)) (drop 8 data)"
    using uint64_loop_append [of "[]" "take 8 data" "drop 8 data"] t by simp
  also have "\<dots> = None"
    using t top_byte_nonzero by (cases "drop 8 data") auto
  finally show ?thesis using False by simp
qed

lemma be_bytes_8_be_word: "length bs \<le> 8 \<Longrightarrow> be_bytes 8 (be_word bs) = replicate (8 - length bs) 0 @ bs"
  using be_bytes_be_word [of "replicate (8 - length bs) 0 @ bs"] by (simp add: be_word_zeros)

lemma be_word_be_bytes_8: "be_word (be_bytes 8 v) = v"
  using unat_u64_lt [of v] by (intro be_word_be_bytes) simp

lemma dropWhile_zeros:
  "length bs \<le> 8 \<Longrightarrow> bs = [] \<or> hd bs \<noteq> 0 \<Longrightarrow> dropWhile (\<lambda>b. b = 0) (be_bytes 8 (be_word bs)) = bs"
  using be_bytes_8_be_word [of bs] by (cases bs) (simp_all add: dropWhile_append)

lemma be_word_dropWhile: "be_word (dropWhile (\<lambda>b. b = 0) bs) = be_word bs"
  by (induction bs) (simp_all add: be_word_Cons_zero)

lemma stripped_bytes:
  "let bs = dropWhile (\<lambda>b. b = 0) (be_bytes 8 v)
   in length bs \<le> 8 \<and> (bs = [] \<or> hd bs \<noteq> 0) \<and> be_word bs = v"
  using length_dropWhile_le [of "\<lambda>b. b = 0" "be_bytes 8 v"]
    hd_dropWhile [of "\<lambda>b. b = 0" "be_bytes 8 v"] be_word_dropWhile be_word_be_bytes_8
  by (auto simp: Let_def)

text \<open>The checks of \<open>CBS_get_asn1_uint64\<close> on the contents of the INTEGER.\<close>

lemma uint64_data_iff:
  "length data \<noteq> 0 \<and> nth_or 0 data 0 AND 0x80 = 0
     \<and> \<not> (nth_or 0 data 0 = 0 \<and> length data > 1 \<and> nth_or 0 data 1 AND 0x80 = 0)
     \<and> uint64_loop 0 data = Some v \<longleftrightarrow> data = uint_body v" (is "?L \<longleftrightarrow> ?R")
proof
  assume L: ?L
  then obtain b ds where d: "data = b # ds" by (cases data) auto
  show ?R
  proof (cases "b = 0")
    case True
    with L d have h: "ds = [] \<or> hd ds AND 0x80 \<noteq> 0" by (cases ds) (auto simp: nth_or_def)
    then have nz: "ds = [] \<or> hd ds \<noteq> 0" by auto
    have "uint64_loop 0 ds = Some v" using L d True by simp
    then have v: "v = be_word ds" "length ds \<le> 8"
      using uint64_loop_value [OF nz] by (auto split: if_splits)
    then show ?thesis
      using dropWhile_zeros [OF v(2) nz] h d True by (auto simp: uint_body_def Let_def)
  next
    case False
    with d have nz: "data = [] \<or> hd data \<noteq> 0" by simp
    then have v: "v = be_word data" "length data \<le> 8"
      using L uint64_loop_value [OF nz] by (auto split: if_splits)
    then show ?thesis
      using dropWhile_zeros [OF v(2) nz] L d by (auto simp: uint_body_def Let_def nth_or_def)
  qed
next
  assume R: ?R
  define bs where "bs = dropWhile (\<lambda>b. b = 0) (be_bytes 8 v)"
  have b: "length bs \<le> 8" "bs = [] \<or> hd bs \<noteq> 0" "be_word bs = v"
    using stripped_bytes [of v] by (simp_all add: bs_def Let_def)
  have loop: "uint64_loop 0 bs = Some v" using uint64_loop_value [OF b(2)] b by simp
  show ?L
  proof (cases bs)
    case Nil
    then show ?thesis using R loop b(3) by (simp add: uint_body_def nth_or_def flip: bs_def)
  next
    case (Cons x xs)
    then show ?thesis
      using R loop b by (auto simp: uint_body_def nth_or_def Let_def simp flip: bs_def)
  qed
qed

lemma length_uint_body: "length (uint_body v) \<le> 9"
  using stripped_bytes [of v] by (auto simp: uint_body_def Let_def)

lemma asn1_uint64_iff:
  assumes "length c < 18446744073709551616"
  shows "CBS_get_asn1_uint64 c = (Some v, c') \<longleftrightarrow> c = der_element CBS_ASN1_INTEGER (uint_body v) @ c'"
proof -
  have "CBS_get_asn1_uint64 c = (Some v, c')
      \<longleftrightarrow> (\<exists>data. CBS_get_asn1 CBS_ASN1_INTEGER c = (Some data, c') \<and> data = uint_body v)"
    unfolding uint64_data_iff [symmetric] CBS_get_asn1_uint64_def
    by (auto split: prod.splits option.splits if_splits)
  then show ?thesis using get_asn1_iff [OF assms] length_uint_body [of v] by auto
qed

text \<open>Two's complement: leading bytes that only repeat the sign are dropped.\<close>

fun strip_sign :: "bytes \<Rightarrow> bytes" where
  "strip_sign (a # b # bs) =
    (if (a = 0 \<and> b AND 0x80 = 0) \<or> (a = 0xff \<and> b AND 0x80 \<noteq> 0) then strip_sign (b # bs)
     else a # b # bs)"
| "strip_sign bs = bs"

definition int_body :: "u64 \<Rightarrow> bytes" where
  "int_body v = strip_sign (be_bytes 8 v)"

definition sign_fill :: "bytes \<Rightarrow> u8" where
  "sign_fill bs = (if hd bs AND 0x80 \<noteq> 0 then 0xff else 0)"

lemma strip_sign_Nil_iff [simp]: "strip_sign bs = [] \<longleftrightarrow> bs = []"
  by (induction bs rule: strip_sign.induct) auto

lemma length_strip_sign: "length (strip_sign bs) \<le> length bs"
  by (induction bs rule: strip_sign.induct) auto

lemma strip_sign_fill:
  "bs \<noteq> [] \<Longrightarrow> sign_fill (strip_sign bs) = sign_fill bs
     \<and> bs = replicate (length bs - length (strip_sign bs)) (sign_fill bs) @ strip_sign bs"
proof (induction bs rule: strip_sign.induct)
  case (1 a b bs)
  show ?case
  proof (cases "(a = 0 \<and> b AND 0x80 = 0) \<or> (a = 0xff \<and> b AND 0x80 \<noteq> 0)")
    case True
    then have s: "strip_sign (a # b # bs) = strip_sign (b # bs)" by simp
    have f: "sign_fill (a # b # bs) = sign_fill (b # bs)" "a = sign_fill (b # bs)"
      using True by (auto simp: sign_fill_def)
    have "length (strip_sign (b # bs)) \<le> length (b # bs)" by (rule length_strip_sign)
    then have "Suc (length (b # bs)) - length (strip_sign (b # bs))
        = Suc (length (b # bs) - length (strip_sign (b # bs)))" by simp
    then show ?thesis using 1 True f s by (simp del: strip_sign.simps)
  next
    case False
    have "strip_sign (a # b # bs) = a # b # bs"
      unfolding strip_sign.simps by (rule if_not_P [OF False])
    then show ?thesis by (simp del: strip_sign.simps)
  qed
qed simp_all

lemma strip_sign_idem:
  "\<not> (nth_or 0 bs 0 = 0 \<and> length bs > 1 \<and> nth_or 0 bs 1 AND 0x80 = 0)
    \<Longrightarrow> \<not> (length bs > 1 \<and> nth_or 0 bs 0 = 0xff \<and> nth_or 0 bs 1 AND 0x80 \<noteq> 0) \<Longrightarrow> strip_sign bs = bs"
  by (cases bs rule: strip_sign.cases) (auto simp: nth_or_def)

lemma strip_sign_minimal:
  "let bs' = strip_sign bs in
    \<not> (length bs' > 1 \<and> nth_or 0 bs' 0 = 0 \<and> nth_or 0 bs' 1 AND 0x80 = 0)
    \<and> \<not> (length bs' > 1 \<and> nth_or 0 bs' 0 = 0xff \<and> nth_or 0 bs' 1 AND 0x80 \<noteq> 0)"
  by (induction bs rule: strip_sign.induct) (auto simp: nth_or_def Let_def)

lemma strip_sign_replicate:
  "bs \<noteq> [] \<Longrightarrow> strip_sign (replicate k (sign_fill bs) @ bs) = strip_sign bs"
proof (induction k)
  case (Suc k)
  let ?f = "sign_fill bs"
  obtain b ds where b: "replicate k ?f @ bs = b # ds"
    using Suc.prems by (cases "replicate k ?f @ bs") auto
  have "hd (replicate k ?f @ bs) AND 0x80 = 0 \<longleftrightarrow> ?f = 0"
    by (cases k) (auto simp: sign_fill_def)
  then have "strip_sign (?f # b # ds) = strip_sign (b # ds)"
    using b by (auto simp: sign_fill_def)
  then show ?case using Suc by (simp add: b [symmetric] del: strip_sign.simps)
qed simp

lemma sign_extended_be:
  assumes "data \<noteq> []" "length data \<le> 8"
  shows "sign_extended data = be_word (replicate (8 - length data) (sign_fill data) @ data)"
proof -
  have "nth_or 0 data 0 = hd data" using assms(1) by (cases data) (simp_all add: nth_or_def)
  then show ?thesis
    using assms(2) by (simp add: sign_extended_def be_word_le_word list_blit_def sign_fill_def)
qed

lemma sign_extended_strip:
  assumes "bs \<noteq> []" "length bs \<le> 8"
  shows "sign_extended (strip_sign bs) = sign_extended bs"
proof -
  let ?s = "strip_sign bs"
  have f: "sign_fill ?s = sign_fill bs"
    and b: "bs = replicate (length bs - length ?s) (sign_fill bs) @ ?s"
    using strip_sign_fill [OF assms(1)] by auto
  have l: "length ?s \<le> length bs" by (rule length_strip_sign)
  have "8 - length ?s = (8 - length bs) + (length bs - length ?s)" using l assms(2) by simp
  then have "replicate (8 - length ?s) (sign_fill bs) @ ?s
      = replicate (8 - length bs) (sign_fill bs) @ bs"
    using b by (metis append.assoc replicate_add)
  then show ?thesis using assms l f by (simp add: sign_extended_be)
qed

lemma int64_data_iff:
  "\<not> (length data = 0 \<or> length data > 8)
     \<and> \<not> (length data > 1 \<and> nth_or 0 data 0 = 0 \<and> nth_or 0 data 1 AND 0x80 = 0)
     \<and> \<not> (length data > 1 \<and> nth_or 0 data 0 = 0xff \<and> nth_or 0 data 1 AND 0x80 \<noteq> 0)
     \<and> sign_extended data = v \<longleftrightarrow> data = int_body v" (is "?L \<longleftrightarrow> ?R")
proof
  assume L: ?L
  then have d: "data \<noteq> []" "length data \<le> 8" by auto
  have "be_word (replicate (8 - length data) (sign_fill data) @ data) = v"
    using L sign_extended_be [OF d] by simp
  then have "be_bytes 8 v = replicate (8 - length data) (sign_fill data) @ data"
    using d be_bytes_be_word [of "replicate (8 - length data) (sign_fill data) @ data"] by simp
  moreover have "strip_sign data = data" using L by (intro strip_sign_idem) auto
  ultimately show ?R using strip_sign_replicate [OF d(1)] by (simp add: int_body_def)
next
  assume R: ?R
  have ne: "be_bytes 8 v \<noteq> []" using length_be_bytes [of 8 v] by (metis list.size(3) zero_neq_numeral)
  have "sign_extended data = sign_extended (be_bytes 8 v)"
    unfolding R int_body_def by (rule sign_extended_strip [OF ne]) simp
  also have "\<dots> = v" using sign_extended_be [OF ne] by (simp add: be_word_be_bytes_8)
  finally have "sign_extended data = v" .
  moreover have "data \<noteq> []" "length data \<le> 8"
    using R ne length_strip_sign [of "be_bytes 8 v"] by (auto simp: int_body_def)
  ultimately show ?L
    using strip_sign_minimal [of "be_bytes 8 v"] R by (simp add: int_body_def Let_def)
qed

lemma asn1_int64_iff:
  assumes "length c < 18446744073709551616"
  shows "CBS_get_asn1_int64 c = (Some v, c') \<longleftrightarrow> c = der_element CBS_ASN1_INTEGER (int_body v) @ c'"
proof -
  have "CBS_get_asn1_int64 c = (Some v, c')
      \<longleftrightarrow> (\<exists>data. CBS_get_asn1 CBS_ASN1_INTEGER c = (Some data, c') \<and> data = int_body v)"
    unfolding int64_data_iff [symmetric] CBS_get_asn1_int64_def
    by (auto split: prod.splits option.splits if_splits)
  moreover have "length (int_body v) \<le> 8"
    using length_strip_sign [of "be_bytes 8 v"] by (simp add: int_body_def)
  ultimately show ?thesis using get_asn1_iff [OF assms] by auto
qed

lemma asn1_bool_iff:
  assumes "length c < 18446744073709551616"
  shows "CBS_get_asn1_bool c = (Some v, c')
    \<longleftrightarrow> c = der_element CBS_ASN1_BOOLEAN [if v then 0xff else 0] @ c'"
proof -
  have "CBS_get_asn1_bool c = (Some v, c') \<longleftrightarrow>
      (\<exists>data. CBS_get_asn1 CBS_ASN1_BOOLEAN c = (Some data, c') \<and> data = [if v then 0xff else 0])"
    by (auto simp: CBS_get_asn1_bool_def Let_def nth_or_def length_Suc_conv
        split: prod.splits option.splits if_splits)
  then show ?thesis using get_asn1_iff [OF assms] by auto
qed

end
