(* ===== verification/Cbb_Flush.thy ===== *)
theory Cbb_Flush
  imports Cbb_Asn1 Der
begin

text \<open>
  The invariant of the CBB chain, the contents a CBB stands for, and what reserving, adding and
  flushing do to them: \<open>CBB_flush\<close> refines the closing of a stack of byte strings.
\<close>

section \<open>The invariant of the buffer\<close>

definition bb_ok :: "cbb_buffer \<Rightarrow> bool" where
  "bb_ok b \<longleftrightarrow> (case bb_buf b of
       None \<Rightarrow> bb_cap b = 0
     | Some blk \<Rightarrow> block_ok blk \<and> ob_size blk = bb_cap b)
   \<and> bb_len b \<le> bb_cap b \<and> unat (bb_cap b) + 8 < 9223372036854775808"

definition bb_contents :: "cbb_buffer \<Rightarrow> bytes" where
  "bb_contents b = take (unat (bb_len b)) (bb_data b)"

lemma bb_okD:
  assumes "bb_ok b"
  shows "length (bb_data b) = unat (bb_cap b)" "unat (bb_len b) \<le> unat (bb_cap b)"
    "unat (bb_cap b) + 8 < 9223372036854775808" "length (bb_contents b) = unat (bb_len b)"
proof -
  show 1: "length (bb_data b) = unat (bb_cap b)"
    using assms by (auto simp: bb_ok_def bb_data_def block_ok_def split: option.splits)
  show 2: "unat (bb_len b) \<le> unat (bb_cap b)"
    using assms by (simp add: bb_ok_def word_le_nat_alt)
  show "unat (bb_cap b) + 8 < 9223372036854775808" using assms by (simp add: bb_ok_def)
  show "length (bb_contents b) = unat (bb_len b)" using 1 2 by (simp add: bb_contents_def)
qed

lemma bb_fail_simps [simp]:
  "bb_ok (bb_fail b) = bb_ok b" "bb_contents (bb_fail b) = bb_contents b"
  "bb_len (bb_fail b) = bb_len b" "bb_error (bb_fail b)" "bb_data (bb_fail b) = bb_data b"
  "bb_can_resize (bb_fail b) = bb_can_resize b" "bb_cap (bb_fail b) = bb_cap b"
  by (simp_all add: bb_fail_def bb_ok_def bb_contents_def bb_data_def split: option.splits)

lemma realloc_grow:
  assumes m: "malloc_ok mal" and r: "OPENSSL_realloc mal buf n = Some new"
    and n: "unat n + 8 < 18446744073709551616"
    and old: "case buf of None \<Rightarrow> cap = 0 | Some blk \<Rightarrow> block_ok blk \<and> ob_size blk = cap" "cap \<le> n"
  shows "block_ok new \<and> ob_size new = n \<and> unat n + 8 < 9223372036854775808
    \<and> take (unat cap) (ob_data new) = (case buf of None \<Rightarrow> [] | Some blk \<Rightarrow> ob_data blk)"
proof (cases buf)
  case None
  then show ?thesis
    using OPENSSL_malloc_ok [OF m _ n] r old by (auto simp: OPENSSL_realloc_def)
next
  case (Some blk)
  then show ?thesis
    using OPENSSL_realloc_ok [OF m _ _ n, of blk new] r old by auto
qed

text \<open>The capacity asked for never wraps, with or without the prefix of the allocator.\<close>

lemma new_capacity:
  assumes "bb_ok b" "unat n < 9223372036854775808"
  defines "newlen \<equiv> bb_len b + n" and "dbl \<equiv> bb_cap b * 2"
  shows "unat newlen = unat (bb_len b) + unat n" "\<not> newlen < bb_len b"
    "unat (if dbl < bb_cap b \<or> dbl < newlen then newlen else dbl) + 8 < 18446744073709551616"
    "newlen \<le> (if dbl < bb_cap b \<or> dbl < newlen then newlen else dbl)"
proof -
  note b = bb_okD [OF assms(1)]
  show 1: "unat newlen = unat (bb_len b) + unat n"
    unfolding newlen_def using assms(2) b by (intro unat_plus_no_overflow_u64) simp
  show "\<not> newlen < bb_len b" by (simp add: word_less_nat_alt 1)
  have d: "unat dbl = unat (bb_cap b) * 2"
    unfolding dbl_def using b by (simp add: unat_word_ariths)
  show "unat (if dbl < bb_cap b \<or> dbl < newlen then newlen else dbl) + 8 < 18446744073709551616"
    using 1 d b assms(2) by simp
  show "newlen \<le> (if dbl < bb_cap b \<or> dbl < newlen then newlen else dbl)"
    using 1 d by (auto simp: word_le_nat_alt word_less_nat_alt)
qed

lemma reserve_ok:
  assumes m: "malloc_ok mal" and b: "bb_ok b" and n: "unat n < 9223372036854775808"
    and r: "cbb_buffer_reserve mal b n = (r, b')"
  shows "bb_ok b' \<and> bb_len b' = bb_len b \<and> take (unat (bb_len b)) (bb_data b') = bb_contents b
    \<and> (if r then unat (bb_len b) + unat n \<le> unat (bb_cap b') \<and> bb_error b' = bb_error b
       else bb_error b')"
proof -
  let ?newlen = "bb_len b + n" and ?dbl = "bb_cap b * 2"
  let ?cap = "if ?dbl < bb_cap b \<or> ?dbl < ?newlen then ?newlen else ?dbl"
  note nc = new_capacity [OF b n] and bd = bb_okD [OF b]
  show ?thesis
  proof (cases "?newlen > bb_cap b \<and> bb_can_resize b \<and> OPENSSL_realloc mal (bb_buf b) ?cap \<noteq> None")
    case False
    then show ?thesis
      using r nc(1,2) b
      by (auto simp: cbb_buffer_reserve_def Let_def bb_contents_def word_less_nat_alt not_less
          split: if_splits option.splits)
  next
    case True
    then obtain new where new: "OPENSSL_realloc mal (bb_buf b) ?cap = Some new" by auto
    have "bb_cap b \<le> ?cap" using True nc(4) by auto
    then have g: "block_ok new" "ob_size new = ?cap" "unat ?cap + 8 < 9223372036854775808"
      "take (unat (bb_cap b)) (ob_data new) = bb_data b"
      using realloc_grow [OF m new nc(3), of "bb_cap b"] b by (auto simp: bb_ok_def bb_data_def)
    have b': "b' = b\<lparr>bb_buf := Some new, bb_cap := ?cap\<rparr>" "r"
      using r True nc(2) new by (auto simp: cbb_buffer_reserve_def Let_def)
    have fit: "unat (bb_len b) + unat n \<le> unat ?cap"
      using nc(1,4) by (simp add: word_le_nat_alt)
    have "take (unat (bb_len b)) (ob_data new) = take (unat (bb_len b)) (bb_data b)"
      using g(4) bd by (metis min.absorb1 take_take)
    then show ?thesis
      using g fit b'(2)
      by (simp add: b' bb_ok_def bb_data_def bb_contents_def word_le_nat_alt)
  qed
qed

lemma add_ok:
  assumes m: "malloc_ok mal" and b: "bb_ok b" and n: "unat n < 9223372036854775808"
    and r: "cbb_buffer_add mal b n = (r, b')"
  shows "bb_ok b' \<and> take (unat (bb_len b)) (bb_data b') = bb_contents b
    \<and> (if r then unat (bb_len b') = unat (bb_len b) + unat n \<and> bb_error b' = bb_error b
       else bb_len b' = bb_len b \<and> bb_error b')"
proof -
  obtain r1 b1 where 1: "cbb_buffer_reserve mal b n = (r1, b1)" by fastforce
  note k = reserve_ok [OF m b n 1]
  have s: "unat (bb_len b + n) = unat (bb_len b) + unat n" using new_capacity(1) [OF b n] .
  show ?thesis
    using r 1 k s
    by (cases r1; cases "bb_buf b1")
       (auto simp: cbb_buffer_add_def bb_ok_def bb_data_def word_le_nat_alt)
qed

section \<open>Storing into the block\<close>

lemma bb_poke_simps [simp]:
  "bb_len (bb_poke b p bs) = bb_len b" "bb_cap (bb_poke b p bs) = bb_cap b"
  "bb_error (bb_poke b p bs) = bb_error b" "bb_can_resize (bb_poke b p bs) = bb_can_resize b"
  by (simp_all add: bb_poke_def)

lemma bb_poke_ok:
  assumes "bb_ok b" "unat p + length bs \<le> unat (bb_cap b)"
  shows "bb_ok (bb_poke b p bs)" "bb_data (bb_poke b p bs) = list_blit (bb_data b) (unat p) bs"
proof -
  have d: "bb_data (bb_poke b p bs) = list_blit (bb_data b) (unat p) bs"
    using assms by (cases "bb_buf b") (auto simp: bb_poke_def bb_data_def bb_ok_def)
  then show "bb_data (bb_poke b p bs) = list_blit (bb_data b) (unat p) bs" .
  show "bb_ok (bb_poke b p bs)"
    using assms length_list_blit [of "unat p" bs "bb_data b"] bb_okD(1) [OF assms(1)]
    by (cases "bb_buf b") (auto simp: bb_poke_def bb_ok_def block_ok_def bb_data_def)
qed

lemma contents_poke:
  assumes "bb_ok b" "unat p + length bs \<le> unat (bb_len b)"
  shows "bb_contents (bb_poke b p bs) = list_blit (bb_contents b) (unat p) bs"
proof -
  have "unat p + length bs \<le> unat (bb_cap b)" using assms bb_okD(2) [OF assms(1)] by simp
  then show ?thesis
    using assms bb_okD [OF assms(1)] bb_poke_ok(2) [OF assms(1), of p bs]
    by (simp add: bb_contents_def list_blit_def min_absorb1 min_absorb2 drop_take)
qed

text \<open>Adding room and storing bytes in it appends them.\<close>

lemma add_poke:
  assumes m: "malloc_ok mal" and b: "bb_ok b" and n: "length bs < 9223372036854775808"
    and r: "cbb_buffer_add mal b (word_of_nat (length bs)) = (True, b')"
  shows "bb_ok (bb_poke b' (bb_len b) bs)"
    "bb_contents (bb_poke b' (bb_len b) bs) = bb_contents b @ bs"
    "bb_error b' = bb_error b" "unat (bb_len b') = unat (bb_len b) + length bs"
proof -
  have u: "unat (word_of_nat (length bs) :: u64) = length bs" using n by simp
  have a: "bb_ok b'" "take (unat (bb_len b)) (bb_data b') = bb_contents b"
    "unat (bb_len b') = unat (bb_len b) + length bs" "bb_error b' = bb_error b"
    using add_ok [OF m b _ r] n u by simp_all
  have fit: "unat (bb_len b) + length bs \<le> unat (bb_cap b')" using a bb_okD(2) [OF a(1)] by simp
  show "bb_ok (bb_poke b' (bb_len b) bs)" using bb_poke_ok(1) [OF a(1) fit] .
  show "bb_contents (bb_poke b' (bb_len b) bs) = bb_contents b @ bs"
  proof -
    have "length (bb_data b') = unat (bb_cap b')" by (rule bb_okD(1) [OF a(1)])
    then show ?thesis
      using a fit bb_poke_ok(2) [OF a(1) fit]
      by (simp add: bb_contents_def take_list_blit)
  qed
  show "bb_error b' = bb_error b" "unat (bb_len b') = unat (bb_len b) + length bs" using a by simp_all
qed

section \<open>Closing one child\<close>

lemma list_blit_middle:
  "length old = length new_bytes \<Longrightarrow> list_blit (xs @ old @ ys) (length xs) new_bytes = xs @ new_bytes @ ys"
  by (simp add: list_blit_def)

lemma poke_middle:
  assumes "bb_ok b" "bb_contents b = x @ old @ y" "unat p = length x" "length old = length bs"
  shows "bb_contents (bb_poke b p bs) = x @ bs @ y" "bb_ok (bb_poke b p bs)"
proof -
  have l: "unat p + length bs \<le> unat (bb_len b)"
    using bb_okD(4) [OF assms(1)] assms(2-4) by simp
  then have c: "unat p + length bs \<le> unat (bb_cap b)" using bb_okD(2) [OF assms(1)] by simp
  show "bb_contents (bb_poke b p bs) = x @ bs @ y"
    unfolding contents_poke [OF assms(1) l] assms(2,3) by (rule list_blit_middle [OF assms(4)])
  show "bb_ok (bb_poke b p bs)" by (rule bb_poke_ok(1) [OF assms(1) c])
qed

text \<open>The length prefix of a child, when its contents are short enough for it.\<close>

definition cbb_prefix :: "bool \<Rightarrow> nat \<Rightarrow> nat \<Rightarrow> bytes option" where
  "cbb_prefix is_asn1 n len = (if is_asn1
    then (if len \<le> 0xfffffffe then Some (der_length len) else None)
    else (if len < 2 ^ (8 * n) then Some (be_bytes n (word_of_nat len)) else None))"

lemma write_prefix_ok:
  assumes "bb_ok b" "bb_contents b = x @ old @ y" "unat (ch_offset ch) = length x"
    and "length old = unat (ch_pending_len_len ch)" "write_prefix b ch len = (r, b')"
  shows "bb_ok b' \<and> bb_len b' = bb_len b
    \<and> (r \<longleftrightarrow> unat len < 2 ^ (8 * length old)) \<and> bb_error b' = (bb_error b \<or> \<not> r)
    \<and> bb_contents b' = x @ be_bytes (length old) len @ y"
proof -
  have "length old = length (rev (le_bytes (length old) len))" by simp
  note p = poke_middle [OF assms(1-3) this]
  show ?thesis
    using assms(5) p
    by (auto simp: write_prefix_def Let_def drop_bit_eq_0_iff_unat be_bytes_def simp flip: assms(4)
        split: if_splits)
qed

lemma widen_ok:
  assumes m: "malloc_ok mal" and b: "bb_ok b" and e: "unat e < 16"
    and s: "unat s + unat len = unat (bb_len b)" and r: "widen_asn1 mal b s e len = (r, b')"
  shows "bb_ok b' \<and> (if r then bb_error b' = bb_error b \<and>
      (\<exists>junk. length junk = unat e
         \<and> bb_contents b' = take (unat s) (bb_contents b) @ junk @ drop (unat s) (bb_contents b))
    else bb_error b' \<and> bb_len b' = bb_len b)"
proof -
  obtain r1 b1 where 1: "cbb_buffer_add mal b e = (r1, b1)" by fastforce
  have a: "bb_ok b1" "take (unat (bb_len b)) (bb_data b1) = bb_contents b"
    "if r1 then unat (bb_len b1) = unat (bb_len b) + unat e \<and> bb_error b1 = bb_error b
     else bb_len b1 = bb_len b \<and> bb_error b1"
    using add_ok [OF m b _ 1] e by auto
  show ?thesis
  proof (cases r1)
    case False
    then show ?thesis using r 1 a by (simp add: widen_asn1_def)
  next
    case True
    let ?c = "bb_contents b" and ?d = "bb_data b1"
    let ?mv = "read_at ?d (unat s) (unat len)"
    have b': "b' = bb_poke b1 (s + e) ?mv" "r" using r 1 True by (simp_all add: widen_asn1_def)
    have l1: "unat (bb_len b1) = unat (bb_len b) + unat e" "bb_error b1 = bb_error b"
      using a(3) True by simp_all
    have se: "unat (s + e) = unat s + unat e"
      using bb_okD [OF a(1)] l1 s by (intro unat_plus_no_overflow_u64) simp
    have ld: "length ?d = unat (bb_cap b1)" by (rule bb_okD(1) [OF a(1)])
    have fit: "unat (s + e) + length ?mv \<le> unat (bb_cap b1)"
      using se s l1 bb_okD(2) [OF a(1)] by simp
    have lL: "unat (bb_len b) \<le> length ?d" using l1 bb_okD(2) [OF a(1)] ld by simp
    have mv: "?mv = drop (unat s) ?c"
      using s lL a(2) by (simp add: read_at_in_bounds flip: drop_take)
        (metis add_diff_cancel_left' drop_take)
    have ts: "take (unat s) ?d = take (unat s) ?c"
      using s by (simp add: min_absorb1 flip: a(2))
    have "bb_contents b' = take (unat s + unat e) ?d @ ?mv"
    proof -
      have L: "unat (bb_len b1) = (unat s + unat e) + length ?mv" using s l1 by simp
      show ?thesis
        unfolding b'(1) bb_contents_def bb_poke_ok(2) [OF a(1) fit] se
        using L take_list_blit [of "unat s + unat e" ?d ?mv] fit se ld by simp
    qed
    also have "take (unat s + unat e) ?d = take (unat s) ?d @ take (unat e) (drop (unat s) ?d)"
      by (rule take_add)
    finally have c: "bb_contents b'
        = take (unat s) ?c @ take (unat e) (drop (unat s) ?d) @ drop (unat s) ?c"
      by (simp add: ts mv)
    have "length (take (unat e) (drop (unat s) ?d)) = unat e"
      using ld l1 s bb_okD(2) [OF a(1)] by simp
    moreover have "bb_ok b'" unfolding b'(1) by (rule bb_poke_ok(1) [OF a(1) fit])
    moreover have "bb_error b' = bb_error b" using b'(1) l1 by simp
    ultimately show ?thesis using b'(2) c by auto
  qed
qed

lemma asn1_form_cases:
  "asn1_len_form len = (if 0xfffffffe < unat len then None
     else if unat len \<le> 0x7f then Some (1, ucast len, 0)
     else let k = der_len_len (unat len)
       in Some (word_of_nat (Suc k), 0x80 OR word_of_nat k, len))"
  by (simp add: asn1_len_form_def der_len_len_def word_less_nat_alt Let_def not_less)

lemma asn1_form:
  assumes "asn1_len_form len = Some (k, i, len')"
  shows "unat len \<le> 0xfffffffe" "k \<noteq> 0" "unat (k - 1) < 5"
    "i # be_bytes (unat (k - 1)) len' = der_length (unat len)"
    "unat len' < 2 ^ (8 * unat (k - 1))" "k \<noteq> 1 \<Longrightarrow> len' = len"
proof -
  have w: "(word_of_nat (unat len) :: u64) = len" by simp
  have "unat len \<le> 0xfffffffe \<and> k \<noteq> 0 \<and> unat (k - 1) < 5
    \<and> i # be_bytes (unat (k - 1)) len' = der_length (unat len)
    \<and> unat len' < 2 ^ (8 * unat (k - 1)) \<and> (k \<noteq> 1 \<longrightarrow> len' = len)"
  proof (cases "unat len \<le> 0x7f")
    case True
    then have "(ucast len :: u8) = word_of_nat (unat len)"
      by (intro unsigned_word_eqI [where 'a = nat])
         (simp add: unsigned_ucast_eq unsigned_take_bit_eq take_bit_nat_eq_self)
    then show ?thesis
      using assms True by (auto simp: asn1_form_cases der_length_def be_bytes_def)
  next
    case False
    let ?n = "der_len_len (unat len)"
    have n: "?n \<in> {1, 2, 3, 4}" by (rule der_len_len_bounds)
    have s: "k = word_of_nat (Suc ?n)" "i = 0x80 OR word_of_nat ?n" "len' = len" "unat len \<le> 0xfffffffe"
      using assms False by (auto simp: asn1_form_cases Let_def split: if_splits)
    have km: "unat (k - 1) = ?n" "k \<noteq> 0" using n by (auto simp: s(1))
    have "unat len < 2 ^ (8 * ?n)" using der_len_len_covers [of "unat len"] s(4) by simp
    then show ?thesis
      using s km n False by (auto simp: der_length_def)
  qed
  then show "unat len \<le> 0xfffffffe" "k \<noteq> 0" "unat (k - 1) < 5"
    "i # be_bytes (unat (k - 1)) len' = der_length (unat len)"
    "unat len' < 2 ^ (8 * unat (k - 1))" "k \<noteq> 1 \<Longrightarrow> len' = len" by auto
qed

lemma asn1_form_None: "asn1_len_form len = None \<longleftrightarrow> 0xfffffffe < unat len"
  by (simp add: asn1_form_cases Let_def)

lemma close_asn1_ok:
  assumes m: "malloc_ok mal" and b: "bb_ok b" and c: "bb_contents b = x @ [o1] @ y"
    and x: "unat (ch_offset ch) = length x" and a: "ch_pending_is_asn1 ch"
    and s: "unat s = Suc (length x)" and r: "close_child mal b ch s = (r, b2, ch2)"
  shows "bb_ok b2 \<and> (if r then bb_error b2 = bb_error b
      \<and> (\<exists>p. cbb_prefix True 1 (length y) = Some p \<and> bb_contents b2 = x @ p @ y)
    else ch2 = ch \<and> bb_error b2 \<and> bb_len b2 = bb_len b)"
proof -
  let ?len = "bb_len b - s"
  have L: "unat (bb_len b) = Suc (length x) + length y" using bb_okD(4) [OF b] c by simp
  have "s \<le> bb_len b" using L s by (simp add: word_le_nat_alt)
  then have ly: "unat ?len = length y" using L s by (simp add: unat_sub)
  show ?thesis
  proof (cases "asn1_len_form ?len")
    case None
    then show ?thesis using r a b by (auto simp: close_child_def Let_def)
  next
    case (Some t)
    obtain k i len' where t: "asn1_len_form ?len = Some (k, i, len')" using Some by (cases t) auto
    note f = asn1_form [OF t]
    let ?e = "ucast (k - 1) :: u64"
    let ?ch = "ch\<lparr>ch_offset := ch_offset ch + 1, ch_pending_len_len := k - 1\<rparr>"
    obtain r1 b1 where w: "(if k \<noteq> 1 then widen_asn1 mal b s ?e len' else (True, b)) = (r1, b1)"
      by fastforce
    have e: "unat ?e = unat (k - 1)"
      using unat_u8_lt [of "k - 1"] by (simp add: unsigned_ucast_eq take_bit_nat_eq_self)
    have wid: "bb_ok b1 \<and> (if r1 then bb_error b1 = bb_error b \<and>
        (\<exists>junk. length junk = unat (k - 1) \<and> bb_contents b1 = (x @ [o1]) @ junk @ y)
      else bb_error b1 \<and> bb_len b1 = bb_len b)"
    proof (cases "k = 1")
      case True
      then show ?thesis using w b c by auto
    next
      case False
      then have w': "widen_asn1 mal b s ?e len' = (r1, b1)" using w by simp
      have sl: "unat s + unat len' = unat (bb_len b)" using f(6) [OF False] ly L s by simp
      have tk: "take (unat s) (bb_contents b) = x @ [o1]" "drop (unat s) (bb_contents b) = y"
        unfolding c s by simp_all
      have "unat ?e < 16" using e f(3) by simp
      from widen_ok [OF m b this sl w', unfolded tk e] show ?thesis .
    qed
    show ?thesis
    proof (cases r1)
      case False
      then have "close_child mal b ch s = (False, bb_fail b1, ch)"
        using a t w by (simp add: close_child_def Let_def)
      then show ?thesis using r wid False by simp
    next
      case True
      with wid obtain junk where j: "length junk = unat (k - 1)" "bb_contents b1 = x @ [o1] @ (junk @ y)"
        "bb_ok b1" "bb_error b1 = bb_error b" by auto
      note p = poke_middle [OF j(3,2) x, of "[i]"]
      let ?b = "bb_poke b1 (ch_offset ch) [i]"
      obtain r2 b3 where wp: "write_prefix ?b ?ch len' = (r2, b3)" by fastforce
      have off: "unat (ch_offset ?ch) = length (x @ [i])"
        using x L bb_okD(2,3) [OF b] by (simp add: unat_word_ariths)
      have jl: "length junk = unat (ch_pending_len_len ?ch)" using j by simp
      have pb: "bb_ok ?b" "bb_contents ?b = (x @ [i]) @ junk @ y" using p by simp_all
      from write_prefix_ok [OF pb off jl wp]
      have q: "bb_ok b3" "r2" "bb_error b3 = bb_error b"
        "bb_contents b3 = x @ (i # be_bytes (unat (k - 1)) len') @ y"
        using f(5) j by simp_all
      have "close_child mal b ch s = (True, b3, ?ch)"
        using a t w True wp q(2) by (simp add: close_child_def Let_def)
      then show ?thesis
        using r q f(1,4) ly by (simp add: cbb_prefix_def)
    qed
  qed
qed

lemma close_child_ok:
  assumes m: "malloc_ok mal" and b: "bb_ok b" and c: "bb_contents b = x @ old @ y"
    and x: "unat (ch_offset ch) = length x" "length old = unat (ch_pending_len_len ch)"
    and a: "ch_pending_is_asn1 ch \<longrightarrow> ch_pending_len_len ch = 1"
    and s: "unat s = length x + length old" and r: "close_child mal b ch s = (r, b2, ch2)"
  shows "bb_ok b2 \<and> (if r then bb_error b2 = bb_error b
      \<and> (\<exists>p. cbb_prefix (ch_pending_is_asn1 ch) (unat (ch_pending_len_len ch)) (length y) = Some p
          \<and> bb_contents b2 = x @ p @ y)
    else ch2 = ch \<and> bb_error b2 \<and> bb_len b2 = bb_len b)"
proof (cases "ch_pending_is_asn1 ch")
  case True
  then have p1: "unat (ch_pending_len_len ch) = 1" using a by simp
  then obtain o1 where "old = [o1]" using x(2) by (cases old) auto
  then show ?thesis
    using close_asn1_ok [OF m b _ x(1) True _ r, of o1 y] c s True p1
    by (simp only: One_nat_def append_Cons append_Nil) (auto simp: cbb_prefix_def)
next
  case False
  let ?len = "bb_len b - s"
  have L: "unat (bb_len b) = length x + length old + length y" using bb_okD(4) [OF b] c by simp
  have "s \<le> bb_len b" using L s by (simp add: word_le_nat_alt)
  then have ly: "unat ?len = length y" using L s by (simp add: unat_sub)
  obtain r1 b1 where w: "write_prefix b ch ?len = (r1, b1)" by fastforce
  have e: "r = r1" "b2 = b1" "ch2 = ch" using r w False by (auto simp: close_child_def Let_def)
  have "word_of_nat (length y) = ?len" by (rule word_of_nat_if_unat [OF ly, symmetric])
  then show ?thesis
    using write_prefix_ok [OF b c x w] e ly False x(2) by (auto simp: cbb_prefix_def)
qed

section \<open>Flushing a chain\<close>

definition child_end :: "cbb_child \<Rightarrow> nat" where
  "child_end ch = unat (ch_offset ch) + unat (ch_pending_len_len ch)"

text \<open>A chain whose first child may start at \<open>s\<close>: the prefixes lie one behind the other.\<close>

fun chain_ok :: "nat \<Rightarrow> cbb_child list \<Rightarrow> bool" where
  "chain_ok s [] = True"
| "chain_ok s (ch # kids) \<longleftrightarrow> s \<le> unat (ch_offset ch)
    \<and> ch_pending_len_len ch \<in> {1, 2, 3}
    \<and> (ch_pending_is_asn1 ch \<longrightarrow> ch_pending_len_len ch = 1) \<and> chain_ok (child_end ch) kids"

fun chain_end :: "nat \<Rightarrow> cbb_child list \<Rightarrow> nat" where
  "chain_end s [] = s"
| "chain_end s (ch # kids) = chain_end (child_end ch) kids"

lemma chain_append:
  "chain_ok s (xs @ ys) \<longleftrightarrow> chain_ok s xs \<and> chain_ok (chain_end s xs) ys"
  "chain_end s (xs @ ys) = chain_end (chain_end s xs) ys"
  by (induction xs arbitrary: s) auto

lemma chain_end_ge: "chain_ok s kids \<Longrightarrow> s \<le> chain_end s kids"
  by (induction kids arbitrary: s) (fastforce simp: child_end_def)+

text \<open>
  The abstract view: the contents of the chain are one byte string per CBB, and closing them
  puts the prefix for its length before each string but the first.
\<close>

fun frames :: "nat \<Rightarrow> bytes \<Rightarrow> cbb_child list \<Rightarrow> bytes list" where
  "frames s c [] = [drop s c]"
| "frames s c (ch # kids) =
    drop s (take (unat (ch_offset ch)) c) # frames (child_end ch) c kids"

fun close_frames :: "(bool \<times> nat) list \<Rightarrow> bytes list \<Rightarrow> bytes option" where
  "close_frames [] [x] = Some x"
| "close_frames ((a, n) # ks) (x # xs) = (case close_frames ks xs of
      None \<Rightarrow> None
    | Some y \<Rightarrow> map_option (\<lambda>p. x @ p @ y) (cbb_prefix a n (length y)))"
| "close_frames _ _ = None"

definition kinds :: "cbb_child list \<Rightarrow> (bool \<times> nat) list" where
  "kinds = map (\<lambda>ch. (ch_pending_is_asn1 ch, unat (ch_pending_len_len ch)))"

lemma flush_chain_ok:
  assumes m: "malloc_ok mal"
  shows "bb_ok b \<Longrightarrow> chain_ok s kids \<Longrightarrow> chain_end s kids \<le> unat (bb_len b)
    \<Longrightarrow> flush_chain mal b kids = (r, b', kids')
    \<Longrightarrow> bb_ok b' \<and> (if r then kids' = [] \<and> \<not> bb_error b \<and> \<not> bb_error b'
          \<and> (\<exists>y. close_frames (kinds kids) (frames s (bb_contents b) kids) = Some y
              \<and> bb_contents b' = take s (bb_contents b) @ y)
        else bb_error b' \<and> chain_ok s kids' \<and> chain_end s kids' \<le> unat (bb_len b'))"
proof (induction kids arbitrary: s b r b' kids')
  case Nil
  then show ?case by (auto simp: kinds_def)
next
  case (Cons ch kids)
  let ?n = "unat (ch_pending_len_len ch)" and ?o = "unat (ch_offset ch)"
  let ?start = "ch_offset ch + ucast (ch_pending_len_len ch) :: u64"
  have n: "ch_pending_len_len ch \<noteq> 0" "?n \<le> 3" using Cons.prems(2) by auto
  have so: "s \<le> ?o" and ck: "chain_ok (child_end ch) kids" using Cons.prems(2) by simp_all
  have ce: "chain_end (child_end ch) kids \<le> unat (bb_len b)" using Cons.prems(3) by simp
  have el: "child_end ch \<le> unat (bb_len b)" using chain_end_ge [OF ck] ce by simp
  note bd = bb_okD [OF Cons.prems(1)]
  have st: "unat ?start = child_end ch"
  proof -
    have "unat (ucast (ch_pending_len_len ch) :: u64) = ?n"
      using n(2) by (simp add: unsigned_ucast_eq take_bit_nat_eq_self)
    then show ?thesis
      using el bd by (subst unat_plus_no_overflow_u64) (simp_all add: child_end_def)
  qed
  show ?case
  proof (cases "bb_error b")
    case True
    then show ?thesis using Cons.prems by auto
  next
    case False
    obtain r1 b1 k1 where f: "flush_chain mal b kids = (r1, b1, k1)" by (metis prod_cases3)
    note IH = Cons.IH [OF Cons.prems(1) ck ce f]
    show ?thesis
    proof (cases r1)
      case False
      then have "r = False" "b' = bb_fail b1" "kids' = ch # k1"
        using Cons.prems(4) \<open>\<not> bb_error b\<close> n f by auto
      then show ?thesis using IH False Cons.prems(2) by simp
    next
      case True
      with IH obtain y where y: "k1 = []" "bb_ok b1" "\<not> bb_error b1"
        "close_frames (kinds kids) (frames (child_end ch) (bb_contents b) kids) = Some y"
        "bb_contents b1 = take (child_end ch) (bb_contents b) @ y" by auto
      have L1: "unat (bb_len b1) = child_end ch + length y"
        using bb_okD(4) [OF y(2)] y(5) el bd by simp
      have ns: "\<not> ?start < ch_offset ch" "\<not> bb_len b1 < ?start"
        using st L1 by (simp_all add: word_less_nat_alt child_end_def)
      let ?c = "bb_contents b"
      have lo: "?o \<le> length ?c" "child_end ch \<le> length ?c" using el bd by (simp_all add: child_end_def)
      have split: "bb_contents b1 = take ?o ?c @ take ?n (drop ?o ?c) @ y"
        unfolding y(5) child_end_def by (simp add: take_add)
      obtain r2 b2 ch2 where cl: "close_child mal b1 ch ?start = (r2, b2, ch2)" by (metis prod_cases3)
      have lx: "?o = length (take ?o ?c)" "length (take ?n (drop ?o ?c)) = ?n"
        using lo by (auto simp: child_end_def)
      have "unat ?start = length (take ?o ?c) + length (take ?n (drop ?o ?c))"
        using st lx by (simp add: child_end_def)
      from close_child_ok [OF m y(2) split lx(1) lx(2) _ this cl] Cons.prems(2)
      have res: "bb_ok b2 \<and> (if r2 then bb_error b2 = bb_error b1
        \<and> (\<exists>p. cbb_prefix (ch_pending_is_asn1 ch) ?n (length y) = Some p
          \<and> bb_contents b2 = take ?o ?c @ p @ y)
        else ch2 = ch \<and> bb_error b2 \<and> bb_len b2 = bb_len b1)" by simp
      show ?thesis
      proof (cases r2)
        case True
        then have e: "r" "b' = b2" "kids' = []"
          using Cons.prems(4) \<open>\<not> bb_error b\<close> n f \<open>r1\<close> ns cl by (auto simp: Let_def y(1))
        from res True obtain p where p: "cbb_prefix (ch_pending_is_asn1 ch) ?n (length y) = Some p"
          "bb_contents b2 = take ?o ?c @ p @ y" "bb_error b2 = bb_error b1" by auto
        have "take ?o ?c = take s ?c @ drop s (take ?o ?c)"
          using so by (metis append_take_drop_id min.absorb1 take_take)
        then show ?thesis
          using e p y res \<open>\<not> bb_error b\<close> by (simp add: kinds_def)
      next
        case False
        then have e: "\<not> r" "b' = b2" "kids' = [ch2]"
          using Cons.prems(4) \<open>\<not> bb_error b\<close> n f \<open>r1\<close> ns cl by (auto simp: Let_def y(1))
        then show ?thesis
          using res False Cons.prems(2) L1 by simp
      qed
    qed
  qed
qed

end
