(* ===== verification/Cbb_Props.thy ===== *)
theory Cbb_Props
  imports Cbb_Flush
begin

text \<open>
  The operations of the CBB keep its invariant, and each of them that succeeds appends its
  encoding: \<open>emits\<close> composes along \<^const>\<open>and_then\<close> and nests through children, and gives
  the DER that the ASN.1 writers produce.
\<close>

section \<open>The invariant of the chain\<close>

definition cbb_ok :: "cbb \<Rightarrow> bool" where
  "cbb_ok st \<longleftrightarrow> (case cbb_base st of None \<Rightarrow> True
    | Some b \<Rightarrow> bb_ok b \<and> chain_ok 0 (cbb_kids st) \<and> chain_end 0 (cbb_kids st) \<le> unat (bb_len b))"

definition cbb_contents :: "cbb \<Rightarrow> bytes" where
  "cbb_contents st = (case cbb_base st of None \<Rightarrow> [] | Some b \<Rightarrow> bb_contents b)"

definition keeps :: "(cbb \<Rightarrow> bool \<times> cbb) \<Rightarrow> bool" where
  "keeps f \<longleftrightarrow> (\<forall>st. cbb_ok st \<longrightarrow> cbb_ok (snd (f st)))"

lemma cbb_keepsD: "keeps f \<Longrightarrow> cbb_ok st \<Longrightarrow> f st = (r, st') \<Longrightarrow> cbb_ok st'"
  unfolding keeps_def by (metis snd_conv)

lemma keeps_Pair [intro!]: "keeps (Pair r)"
  by (simp add: keeps_def)

lemma keeps_and_then [intro!]: "keeps f \<Longrightarrow> keeps g \<Longrightarrow> keeps (and_then f g)"
  by (auto simp: keeps_def and_then_def split: prod.splits bool.splits)

lemma chain_take:
  assumes "chain_ok 0 kids" "chain_end 0 kids \<le> n" "kids = take d kids @ ks"
  shows "chain_ok 0 (take d kids)" "chain_ok (chain_end 0 (take d kids)) ks"
    "chain_end (chain_end 0 (take d kids)) ks \<le> n"
  using assms chain_append [of 0 "take d kids" ks] by (metis)+

text \<open>What a flush does to the whole chain: it closes the children of depth beyond \<open>d\<close>.\<close>

lemma CBB_flush_ok:
  assumes m: "malloc_ok mal" and ok: "cbb_ok st" and f: "CBB_flush mal d st = (r, st')"
  shows "cbb_ok st' \<and> (r \<longrightarrow> (\<exists>b b' y. cbb_base st = Some b \<and> cbb_base st' = Some b'
    \<and> d \<le> length (cbb_kids st) \<and> cbb_kids st' = take d (cbb_kids st)
    \<and> \<not> bb_error b \<and> \<not> bb_error b'
    \<and> (let s = chain_end 0 (take d (cbb_kids st)); ks = drop d (cbb_kids st)
       in close_frames (kinds ks) (frames s (bb_contents b) ks) = Some y
          \<and> bb_contents b' = take s (bb_contents b) @ y)))"
proof (cases "cbb_base st")
  case None
  then show ?thesis using f ok by (auto simp: CBB_flush_def)
next
  case (Some b)
  let ?kids = "cbb_kids st"
  show ?thesis
  proof (cases "length ?kids < d")
    case True
    then show ?thesis using f ok Some by (auto simp: CBB_flush_def)
  next
    case False
    obtain b' ks' where c: "flush_chain mal b (drop d ?kids) = (r, b', ks')"
      and st': "st' = st\<lparr>cbb_base := Some b', cbb_kids := take d ?kids @ ks'\<rparr>"
      using f Some False by (auto simp: CBB_flush_def split: prod.splits)
    have b: "bb_ok b" "chain_ok 0 ?kids" "chain_end 0 ?kids \<le> unat (bb_len b)"
      using ok Some by (simp_all add: cbb_ok_def)
    note ch = chain_take [OF b(2,3), of d "drop d ?kids", simplified]
    note F = flush_chain_ok [OF m b(1) ch(2,3) c]
    have "cbb_ok st'"
    proof (cases r)
      case True
      then have k: "ks' = []" using F by simp
      obtain y where y: "bb_contents b' = take (chain_end 0 (take d ?kids)) (bb_contents b) @ y"
        using F True by auto
      have le: "chain_end 0 (take d ?kids) \<le> unat (bb_len b)"
        using chain_end_ge [OF ch(2)] ch(3) by simp
      then have "chain_end 0 (take d ?kids) \<le> unat (bb_len b')"
        using y F bb_okD(4) [OF b(1)] bb_okD(4) [of b'] by simp
      then show ?thesis using F k ch(1) by (simp add: cbb_ok_def st')
    next
      case False
      then show ?thesis
        using F ch(1) by (simp add: cbb_ok_def st' chain_append)
    qed
    then show ?thesis
      using F Some False st' by (auto simp: Let_def)
  qed
qed

lemma keeps_flush [intro!]: "malloc_ok mal \<Longrightarrow> keeps (CBB_flush mal d)"
  unfolding keeps_def using CBB_flush_ok by (metis prod.collapse)

text \<open>
  An operation on the buffer that keeps its invariant and does not shorten it keeps the
  invariant of the chain.
\<close>

definition grows :: "(cbb_buffer \<Rightarrow> bool \<times> cbb_buffer) \<Rightarrow> bool" where
  "grows f \<longleftrightarrow> (\<forall>b. bb_ok b \<longrightarrow> bb_ok (snd (f b)) \<and> unat (bb_len b) \<le> unat (bb_len (snd (f b))))"

lemma keeps_on_base: "grows f \<Longrightarrow> keeps (on_base f)"
  unfolding keeps_def grows_def
  by (auto simp: cbb_ok_def on_base_def split: option.splits prod.splits)

lemma keeps_flush_then: "malloc_ok mal \<Longrightarrow> grows f \<Longrightarrow> keeps (flush_then mal d f)"
proof -
  assume "malloc_ok mal" "grows f"
  then have "keeps (and_then (CBB_flush mal d) (on_base f))"
    by (intro keeps_and_then keeps_flush keeps_on_base)
  moreover have "flush_then mal d f = and_then (CBB_flush mal d) (on_base f)"
    by (simp add: fun_eq_iff flush_then_def and_then_def)
  ultimately show ?thesis by simp
qed

lemma flush_then_and_then: "flush_then mal d f = and_then (CBB_flush mal d) (on_base f)"
  by (simp add: fun_eq_iff flush_then_def and_then_def)

lemma grows_reserve:
  "malloc_ok mal \<Longrightarrow> unat n < 9223372036854775808 \<Longrightarrow> grows (\<lambda>b. cbb_buffer_reserve mal b n)"
  unfolding grows_def using reserve_ok by (metis order_refl prod.collapse)

lemma grows_add:
  assumes "malloc_ok mal" "unat n < 9223372036854775808"
  shows "grows (\<lambda>b. cbb_buffer_add mal b n)"
  unfolding grows_def
proof (intro allI impI)
  fix b
  assume b: "bb_ok b"
  obtain r b' where e: "cbb_buffer_add mal b n = (r, b')" by fastforce
  show "bb_ok (snd (cbb_buffer_add mal b n))
      \<and> unat (bb_len b) \<le> unat (bb_len (snd (cbb_buffer_add mal b n)))"
    using add_ok [OF assms(1) b assms(2) e] by (cases r) (simp_all add: e)
qed

text \<open>Adding room for some bytes and storing them there.\<close>

definition add_and_poke :: "sys_malloc \<Rightarrow> bytes \<Rightarrow> cbb_buffer \<Rightarrow> bool \<times> cbb_buffer" where
  "add_and_poke mal bs b = (case cbb_buffer_add mal b (word_of_nat (length bs)) of
      (False, b') \<Rightarrow> (False, b') | (True, b') \<Rightarrow> (True, bb_poke b' (bb_len b) bs))"

lemma grows_add_and_poke:
  assumes m: "malloc_ok mal" and n: "length bs < 9223372036854775808"
  shows "grows (add_and_poke mal bs)"
  unfolding grows_def
proof (intro allI impI)
  fix b
  assume b: "bb_ok b"
  have u: "unat (word_of_nat (length bs) :: u64) < 9223372036854775808" using n by simp
  obtain r b' where e: "cbb_buffer_add mal b (word_of_nat (length bs)) = (r, b')" by fastforce
  show "bb_ok (snd (add_and_poke mal bs b))
      \<and> unat (bb_len b) \<le> unat (bb_len (snd (add_and_poke mal bs b)))"
  proof (cases r)
    case True
    then show ?thesis
      using add_poke [OF m b n] e by (simp add: add_and_poke_def)
  next
    case False
    then show ?thesis using add_ok [OF m b u e] by (simp add: add_and_poke_def e)
  qed
qed

lemma add_u_as_poke:
  "0 < n \<Longrightarrow> cbb_buffer_add_u mal b v n = (case add_and_poke mal (rev (le_bytes n v)) b of
      (False, b') \<Rightarrow> (False, b')
    | (True, b') \<Rightarrow> if drop_bit (8 * n) v \<noteq> 0 then (False, bb_fail b') else (True, b'))"
  by (simp add: cbb_buffer_add_u_def add_and_poke_def Let_def split: prod.splits bool.splits)

lemma grows_add_u:
  assumes "malloc_ok mal" "0 < n" "n \<le> 8"
  shows "grows (\<lambda>b. cbb_buffer_add_u mal b v n)"
  unfolding grows_def add_u_as_poke [OF assms(2)]
proof (intro allI impI)
  fix b
  assume "bb_ok b"
  then have "bb_ok (snd (add_and_poke mal (rev (le_bytes n v)) b))
      \<and> unat (bb_len b) \<le> unat (bb_len (snd (add_and_poke mal (rev (le_bytes n v)) b)))"
    using grows_add_and_poke [OF assms(1), of "rev (le_bytes n v)"] assms(3)
    by (simp add: grows_def)
  then show "bb_ok (snd (case add_and_poke mal (rev (le_bytes n v)) b of
        (False, b') \<Rightarrow> (False, b')
      | (True, b') \<Rightarrow> if drop_bit (8 * n) v \<noteq> 0 then (False, bb_fail b') else (True, b')))
    \<and> unat (bb_len b) \<le> unat (bb_len (snd (case add_and_poke mal (rev (le_bytes n v)) b of
        (False, b') \<Rightarrow> (False, b')
      | (True, b') \<Rightarrow> if drop_bit (8 * n) v \<noteq> 0 then (False, bb_fail b') else (True, b'))))"
    by (cases "add_and_poke mal (rev (le_bytes n v)) b") (auto split: bool.splits)
qed

section \<open>Every operation keeps the invariant\<close>

lemma CBB_add_bytes_eq: "CBB_add_bytes mal d data = flush_then mal d (add_and_poke mal data)"
  unfolding CBB_add_bytes_def add_and_poke_def by (rule refl)

lemma keeps_add_bytes: "malloc_ok mal \<Longrightarrow> length data < 9223372036854775808 \<Longrightarrow> keeps (CBB_add_bytes mal d data)"
  unfolding CBB_add_bytes_eq by (intro keeps_flush_then grows_add_and_poke)

lemma keeps_add_space: "malloc_ok mal \<Longrightarrow> unat n < 9223372036854775808 \<Longrightarrow> keeps (CBB_add_space mal d n)"
  unfolding CBB_add_space_def by (intro keeps_flush_then grows_add)

lemma keeps_reserve: "malloc_ok mal \<Longrightarrow> unat n < 9223372036854775808 \<Longrightarrow> keeps (CBB_reserve mal d n)"
  unfolding CBB_reserve_def by (intro keeps_flush_then grows_reserve)

lemma keeps_add_uint:
  assumes m: "malloc_ok mal"
  shows "keeps (CBB_add_u8 mal d v8)" "keeps (CBB_add_u16 mal d v16)" "keeps (CBB_add_u24 mal d v32)"
  "keeps (CBB_add_u32 mal d v32)" "keeps (CBB_add_u64 mal d v64)"
  unfolding CBB_add_u8_def CBB_add_u16_def CBB_add_u24_def CBB_add_u32_def CBB_add_u64_def
  using m by (auto intro!: keeps_flush_then grows_add_u)

lemma keeps_base128: "malloc_ok mal \<Longrightarrow> keeps (add_base128_integer mal d v)"
proof -
  assume m: "malloc_ok mal"
  have "keeps (add_base128_loop mal d v n)" for n
  proof (induction n)
    case (Suc n)
    have "add_base128_loop mal d v (Suc n)
        = and_then (CBB_add_u8 mal d (base128_byte v n)) (add_base128_loop mal d v n)"
      by (simp add: fun_eq_iff)
    then show ?case using Suc keeps_add_uint [OF m] by auto
  qed (simp add: keeps_def)
  then show ?thesis by (simp add: add_base128_integer_def Let_def)
qed


text \<open>A new child behind everything written so far.\<close>

lemma keeps_push:
  assumes ok: "cbb_ok st" and b: "cbb_base st = Some b" and d: "d \<le> length (cbb_kids st)"
    and e: "chain_end 0 (take d (cbb_kids st)) \<le> unat (ch_offset ch)" "child_end ch \<le> unat (bb_len b)"
    and p: "ch_pending_len_len ch \<in> {1, 2, 3}" "ch_pending_is_asn1 ch \<longrightarrow> ch_pending_len_len ch = 1"
  shows "cbb_ok (push_child d ch st)"
proof -
  have "chain_ok 0 (take d (cbb_kids st))"
    using ok b chain_append(1) [of 0 "take d (cbb_kids st)" "drop d (cbb_kids st)"]
    by (simp add: cbb_ok_def)
  then show ?thesis
    using ok b e p by (auto simp: push_child_def cbb_ok_def chain_append)
qed

text \<open>After a successful flush at depth \<open>d\<close> the chain ends there, and everything is in place.\<close>

definition settled :: "nat \<Rightarrow> cbb \<Rightarrow> bool" where
  "settled d st \<longleftrightarrow> cbb_ok st \<and> length (cbb_kids st) = d
    \<and> (\<exists>b. cbb_base st = Some b \<and> \<not> bb_error b)"

lemma flush_settles:
  assumes "malloc_ok mal" "cbb_ok st" "CBB_flush mal d st = (True, st')"
  shows "settled d st' \<and> cbb_kids st' = take d (cbb_kids st)"
  using CBB_flush_ok [OF assms] by (auto simp: settled_def)

lemma flush_settled: "settled d st \<Longrightarrow> CBB_flush mal d st = (True, st)"
  by (auto simp: settled_def CBB_flush_def)

lemma settled_len:
  assumes "settled d st"
  shows "unat (cur_len st) = length (cbb_contents st)"
    "chain_end 0 (cbb_kids st) \<le> unat (cur_len st)" "unat (cur_len st) < 9223372036854775800"
proof -
  obtain b where b: "cbb_base st = Some b" "bb_ok b" "chain_end 0 (cbb_kids st) \<le> unat (bb_len b)"
    using assms by (auto simp: settled_def cbb_ok_def)
  show "unat (cur_len st) = length (cbb_contents st)" "unat (cur_len st) < 9223372036854775800"
    "chain_end 0 (cbb_kids st) \<le> unat (cur_len st)"
    using b bb_okD [OF b(2)] by (simp_all add: cur_len_def cbb_contents_def)
qed

section \<open>What an operation appends\<close>

text \<open>
  \<open>emits mal d f bs\<close>: whenever \<open>f\<close> succeeds on a chain that ends at depth \<open>d\<close>, it has
  appended \<open>bs\<close> and the chain ends there again.
\<close>

definition emits :: "nat \<Rightarrow> (cbb \<Rightarrow> bool \<times> cbb) \<Rightarrow> bytes \<Rightarrow> bool" where
  "emits d f bs \<longleftrightarrow> (\<forall>st st'. settled d st \<longrightarrow> f st = (True, st') \<longrightarrow>
     settled d st' \<and> cbb_kids st' = cbb_kids st \<and> cbb_contents st' = cbb_contents st @ bs)"

lemma emitsI:
  assumes "\<And>st st'. settled d st \<Longrightarrow> f st = (True, st')
    \<Longrightarrow> settled d st' \<and> cbb_kids st' = cbb_kids st \<and> cbb_contents st' = cbb_contents st @ bs"
  shows "emits d f bs"
  using assms unfolding emits_def by blast

lemma emitsD:
  assumes "emits d f bs" "settled d st" "f st = (True, st')"
  shows "settled d st'" "cbb_kids st' = cbb_kids st" "cbb_contents st' = cbb_contents st @ bs"
  using assms unfolding emits_def by blast+

lemma emits_Pair [intro]: "emits d (Pair True) []"
  by (auto intro: emitsI)

lemma emits_Pair_False: "emits d (Pair False) bs"
  by (auto intro: emitsI)

lemma and_thenD: "and_then f g st = (True, st') \<Longrightarrow> \<exists>st1. f st = (True, st1) \<and> g st1 = (True, st')"
  by (auto simp: and_then_def split: prod.splits bool.splits)

lemma emits_and_then [intro]:
  assumes "emits d f xs" "emits d g ys"
  shows "emits d (and_then f g) (xs @ ys)"
proof (rule emitsI)
  fix st st'
  assume s: "settled d st" and r: "and_then f g st = (True, st')"
  obtain st1 where 1: "f st = (True, st1)" "g st1 = (True, st')" using and_thenD [OF r] by auto
  note a = emitsD [OF assms(1) s 1(1)]
  from emitsD [OF assms(2) a(1) 1(2)] a(2,3)
  show "settled d st' \<and> cbb_kids st' = cbb_kids st \<and> cbb_contents st' = cbb_contents st @ xs @ ys"
    by simp
qed

lemma emits_flush [intro]: "emits d (CBB_flush mal d) []"
  by (rule emitsI) (simp add: flush_settled)

lemma emits_on_flush:
  assumes g: "grows f"
    and f: "\<And>b b'. bb_ok b \<Longrightarrow> f b = (True, b') \<Longrightarrow> bb_contents b' = bb_contents b @ bs \<and> bb_error b' = bb_error b"
  shows "emits d (flush_then mal d f) bs"
proof (rule emitsI)
  fix st st'
  assume s: "settled d st" and r: "flush_then mal d f st = (True, st')"
  then obtain b where b: "cbb_base st = Some b" "\<not> bb_error b" "bb_ok b"
    by (auto simp: settled_def cbb_ok_def)
  have "on_base f st = (True, st')" using r s by (simp add: flush_then_def flush_settled)
  moreover from this obtain b' where b': "f b = (True, b')" "st' = st\<lparr>cbb_base := Some b'\<rparr>"
    using b by (auto simp: on_base_def split: prod.splits)
  moreover have "cbb_ok st'"
    using cbb_keepsD [OF keeps_on_base [OF g] _ calculation(1)] s by (simp add: settled_def)
  ultimately show "settled d st' \<and> cbb_kids st' = cbb_kids st \<and> cbb_contents st' = cbb_contents st @ bs"
    using f [OF b(3) b'(1)] b s by (simp add: settled_def cbb_contents_def)
qed

lemma add_and_poke_emits:
  assumes m: "malloc_ok mal" and n: "length bs < 9223372036854775808"
    and b: "bb_ok b" "add_and_poke mal bs b = (True, b')"
  shows "bb_contents b' = bb_contents b @ bs \<and> bb_error b' = bb_error b"
proof -
  obtain b1 where 1: "cbb_buffer_add mal b (word_of_nat (length bs)) = (True, b1)"
    "b' = bb_poke b1 (bb_len b) bs"
    using b(2) by (auto simp: add_and_poke_def split: prod.splits bool.splits)
  show ?thesis using add_poke [OF m b(1) n 1(1)] 1(2) by simp
qed

lemma emits_add_bytes:
  "malloc_ok mal \<Longrightarrow> length data < 9223372036854775808 \<Longrightarrow> emits d (CBB_add_bytes mal d data) data"
  unfolding CBB_add_bytes_eq
  by (rule emits_on_flush [OF grows_add_and_poke add_and_poke_emits]) auto

lemma emits_add_u:
  assumes m: "malloc_ok mal" and n: "0 < n" "n \<le> 8"
  shows "emits d (flush_then mal d (\<lambda>b. cbb_buffer_add_u mal b v n)) (be_bytes n v)"
proof (rule emits_on_flush [OF grows_add_u [OF m n]])
  fix b b'
  assume b: "bb_ok b" and r: "cbb_buffer_add_u mal b v n = (True, b')"
  then have "add_and_poke mal (be_bytes n v) b = (True, b')"
    unfolding add_u_as_poke [OF n(1)] be_bytes_def by (auto split: prod.splits bool.splits if_splits)
  from add_and_poke_emits [OF m _ b this] n
  show "bb_contents b' = bb_contents b @ be_bytes n v \<and> bb_error b' = bb_error b" by simp
qed

lemma emits_add_u8: "malloc_ok mal \<Longrightarrow> emits d (CBB_add_u8 mal d v) [v]"
proof -
  have "ucast (ucast v :: u64) = v" by (rule bit_word_eqI) (auto simp: bit_simps)
  then show "malloc_ok mal \<Longrightarrow> emits d (CBB_add_u8 mal d v) [v]"
    using emits_add_u [of mal 1 d "ucast v"] by (simp add: CBB_add_u8_def be_bytes_def)
qed

lemma emits_cong: "emits d f bs \<Longrightarrow> bs = cs \<Longrightarrow> emits d f cs"
  by simp

lemma base128_groups_0 [simp]: "base128_groups 0 = 0"
  by (simp add: base128_groups.simps)

text \<open>The descending loop of the writer gives the bytes of the recursive definition.\<close>

lemma base128_byte_low: "base128_byte v 0 = ucast v AND 0x7f"
  by (rule bit_word_eqI) (auto simp: base128_byte_def bit_simps)

lemma base128_hi_bytes:
  "base128_hi v = map (\<lambda>i. base128_byte v i OR 0x80) (rev [0..<base128_groups v])"
proof (induction v rule: base128_hi.induct)
  case (1 v)
  show ?case
  proof (cases "v = 0")
    case False
    let ?w = "drop_bit 7 v"
    have st: "base128_byte ?w i OR 0x80 = base128_byte v (Suc i) OR 0x80" for i
      by (rule bit_word_eqI)
         (auto simp: base128_byte_def Let_def bit_simps add.commute add.left_commute)
    have lo: "ucast v OR 0x80 = base128_byte v 0 OR 0x80"
      by (rule bit_word_eqI) (auto simp: base128_byte_def bit_simps less_8_iff)
    have up: "map f (rev [0..<Suc n]) = map (\<lambda>i. f (Suc i)) (rev [0..<n]) @ [f 0]"
      for f :: "nat \<Rightarrow> u8" and n
      by (simp add: upt_conv_Cons map_Suc_upt [symmetric] rev_map del: upt_Suc map_Suc_upt)
    show ?thesis
      using False 1 [OF False] base128_hi.simps [of v] base128_groups.simps [of v]
      by (simp add: st lo up del: upt_Suc)
  qed simp
qed

lemma base128_bytes_loop:
  "map (base128_byte v) (rev [0..<(if base128_groups v = 0 then 1 else base128_groups v)])
    = base128_bytes v"
proof (cases "v = 0")
  case True
  then show ?thesis by (simp add: base128_bytes_def base128_byte_low)
next
  case False
  then have g: "base128_groups v = Suc (base128_groups (drop_bit 7 v))"
    using base128_groups.simps [of v] by simp
  have st: "base128_byte (drop_bit 7 v) i OR 0x80 = base128_byte v (Suc i)" for i
    by (rule bit_word_eqI)
       (auto simp: base128_byte_def Let_def bit_simps add.commute add.left_commute)
  have up: "map f (rev [0..<Suc n]) = map (\<lambda>i. f (Suc i)) (rev [0..<n]) @ [f 0]"
    for f :: "nat \<Rightarrow> u8" and n
    by (simp add: upt_conv_Cons map_Suc_upt [symmetric] rev_map del: upt_Suc map_Suc_upt)
  show ?thesis
    unfolding g base128_bytes_def base128_hi_bytes st
    by (simp add: up base128_byte_low del: upt_Suc)
qed

lemma emits_base128_loop:
  assumes m: "malloc_ok mal"
  shows "emits d (add_base128_loop mal d v n) (map (base128_byte v) (rev [0..<n]))"
proof (induction n)
  case 0
  have "add_base128_loop mal d v 0 = Pair True" by (simp add: fun_eq_iff)
  then show ?case by (auto intro: emits_Pair)
next
  case (Suc n)
  have "add_base128_loop mal d v (Suc n)
      = and_then (CBB_add_u8 mal d (base128_byte v n)) (add_base128_loop mal d v n)"
    by (simp add: fun_eq_iff)
  then show ?case using emits_and_then [OF emits_add_u8 [OF m] Suc] by simp
qed

lemma emits_base128: "malloc_ok mal \<Longrightarrow> emits d (add_base128_integer mal d v) (base128_bytes v)"
  unfolding add_base128_integer_def Let_def
  by (rule emits_cong [OF emits_base128_loop base128_bytes_loop])

section \<open>Children\<close>

lemma settled_push:
  assumes s: "settled d st" and s': "settled d st'" "cbb_kids st' = cbb_kids st"
    and ch: "unat (ch_offset ch) + unat (ch_pending_len_len ch) = length (cbb_contents st')"
      "length (cbb_contents st) \<le> unat (ch_offset ch)"
    and p: "ch_pending_len_len ch \<in> {1, 2, 3}" "ch_pending_is_asn1 ch \<longrightarrow> ch_pending_len_len ch = 1"
  shows "settled (Suc d) (push_child d ch st') \<and> cbb_contents (push_child d ch st') = cbb_contents st'
    \<and> cbb_kids (push_child d ch st') = cbb_kids st @ [ch]"
proof -
  obtain b where b: "cbb_base st' = Some b" "\<not> bb_error b" using s' by (auto simp: settled_def)
  have k: "length (cbb_kids st') = d" "cbb_ok st'" using s' by (simp_all add: settled_def)
  have "cbb_ok (push_child d ch st')"
  proof (rule keeps_push [OF k(2) b(1) _ _ _ p])
    show "chain_end 0 (take d (cbb_kids st')) \<le> unat (ch_offset ch)"
      using settled_len(1,2) [OF s] ch(2) s'(2) k(1) by simp
    show "child_end ch \<le> unat (bb_len b)"
      using settled_len(1) [OF s'(1)] ch(1) b by (simp add: child_end_def cur_len_def)
  qed (use k in simp)
  then show ?thesis
    using k b s'(2) by (auto simp: settled_def push_child_def cbb_contents_def)
qed

text \<open>Flushing a CBB whose only child has been filled.\<close>

lemma flush_one:
  assumes m: "malloc_ok mal" and s: "settled (Suc d) st" and k: "cbb_kids st = ks @ [ch]" "length ks = d"
    and f: "CBB_flush mal d st = (True, st')"
  shows "settled d st' \<and> cbb_kids st' = ks \<and> (\<exists>p.
    cbb_prefix (ch_pending_is_asn1 ch) (unat (ch_pending_len_len ch))
      (length (drop (child_end ch) (cbb_contents st))) = Some p
    \<and> cbb_contents st' = take (unat (ch_offset ch)) (cbb_contents st) @ p
        @ drop (child_end ch) (cbb_contents st))"
proof -
  have ok: "cbb_ok st" using s by (simp add: settled_def)
  obtain b b' y where b: "cbb_base st = Some b" "cbb_base st' = Some b'"
    "close_frames (kinds [ch]) (frames (chain_end 0 ks) (bb_contents b) [ch]) = Some y"
    "bb_contents b' = take (chain_end 0 ks) (bb_contents b) @ y"
    using CBB_flush_ok [OF m ok f] k by (auto simp: Let_def)
  have "chain_end 0 ks \<le> unat (ch_offset ch)"
    using ok b(1) k by (simp add: cbb_ok_def chain_append)
  then have t: "take (chain_end 0 ks) (bb_contents b)
      @ drop (chain_end 0 ks) (take (unat (ch_offset ch)) (bb_contents b))
      = take (unat (ch_offset ch)) (bb_contents b)"
    by (metis append_take_drop_id min.absorb1 take_take)
  have "bb_contents b' = take (unat (ch_offset ch)) (bb_contents b)
      @ the (cbb_prefix (ch_pending_is_asn1 ch) (unat (ch_pending_len_len ch))
          (length (drop (child_end ch) (bb_contents b)))) @ drop (child_end ch) (bb_contents b)
    \<and> cbb_prefix (ch_pending_is_asn1 ch) (unat (ch_pending_len_len ch))
        (length (drop (child_end ch) (bb_contents b))) \<noteq> None"
    using b(3,4) t by (auto simp: kinds_def simp flip: append_assoc)
  then show ?thesis
    using flush_settles [OF m ok f] k b(1,2) by (auto simp: cbb_contents_def)
qed

definition add_tag :: "sys_malloc \<Rightarrow> nat \<Rightarrow> u32 \<Rightarrow> cbb \<Rightarrow> bool \<times> cbb" where
  "add_tag mal d tag = (let tag_bits = ucast (drop_bit CBS_ASN1_TAG_SHIFT tag) AND 0xe0 :: u8;
      tag_number = tag AND CBS_ASN1_TAG_NUMBER_MASK
    in if tag_number \<ge> 0x1f
       then and_then (CBB_add_u8 mal d (tag_bits OR 0x1f)) (add_base128_integer mal d (ucast tag_number))
       else CBB_add_u8 mal d (tag_bits OR ucast tag_number))"

lemma emits_der_tag: "malloc_ok mal \<Longrightarrow> emits d (add_tag mal d tag) (der_tag tag)"
  using emits_and_then [OF emits_add_u8 emits_base128] emits_add_u8
  by (auto simp: add_tag_def der_tag_def Let_def)

lemma CBB_add_asn1_eq: "CBB_add_asn1 mal d tag = and_then (CBB_flush mal d) (and_then (add_tag mal d tag)
    (\<lambda>st. case CBB_add_u8 mal d 0 st of
        (False, st') \<Rightarrow> (False, st')
      | (True, st') \<Rightarrow> (True, push_child d \<lparr>ch_offset = cur_len st, ch_pending_len_len = 1,
           ch_pending_is_asn1 = True\<rparr> st')))"
  by (simp add: CBB_add_asn1_def add_tag_def Let_def)

lemma asn1_opens:
  assumes m: "malloc_ok mal" and s: "settled d st" and r: "CBB_add_asn1 mal d tag st = (True, st3)"
  shows "settled (Suc d) st3 \<and> cbb_contents st3 = cbb_contents st @ der_tag tag @ [0]
    \<and> (\<exists>ch. cbb_kids st3 = cbb_kids st @ [ch] \<and> ch_pending_len_len ch = 1 \<and> ch_pending_is_asn1 ch
        \<and> unat (ch_offset ch) = length (cbb_contents st @ der_tag tag))"
proof -
  from r s obtain st1 st2 where 1: "add_tag mal d tag st = (True, st1)"
      "CBB_add_u8 mal d 0 st1 = (True, st2)"
    and st3: "st3 = push_child d \<lparr>ch_offset = cur_len st1, ch_pending_len_len = 1,
           ch_pending_is_asn1 = True\<rparr> st2"
    by (auto simp: CBB_add_asn1_eq and_then_def flush_settled split: prod.splits bool.splits)
  let ?ch = "\<lparr>ch_offset = cur_len st1, ch_pending_len_len = 1, ch_pending_is_asn1 = True\<rparr>"
  note e1 = emitsD [OF emits_der_tag [OF m] s 1(1)]
  note e2 = emitsD [OF emits_add_u8 [OF m] e1(1) 1(2)]
  have o: "unat (ch_offset ?ch) = length (cbb_contents st1)" using settled_len(1) [OF e1(1)] by simp
  have k: "cbb_kids st2 = cbb_kids st" using e1(2) e2(2) by simp
  show ?thesis
    using settled_push [OF s e2(1) k, of ?ch] o e1(3) e2(3) st3 by simp
qed

text \<open>Whatever is written into an ASN.1 child becomes the contents of a DER element.\<close>

lemma emits_asn1:
  assumes m: "malloc_ok mal" and g: "emits (Suc d) g body"
  shows "emits d (and_then (CBB_add_asn1 mal d tag) (and_then g (CBB_flush mal d))) (der_element tag body)"
proof (rule emitsI)
  fix st st'
  assume s: "settled d st" and r: "and_then (CBB_add_asn1 mal d tag) (and_then g (CBB_flush mal d)) st = (True, st')"
  from and_thenD [OF r] obtain st3 where 3: "CBB_add_asn1 mal d tag st = (True, st3)"
    "and_then g (CBB_flush mal d) st3 = (True, st')" by auto
  from and_thenD [OF 3(2)] obtain st4 where 4: "g st3 = (True, st4)" "CBB_flush mal d st4 = (True, st')"
    by auto
  from asn1_opens [OF m s 3(1)] obtain ch where p: "settled (Suc d) st3"
    "cbb_contents st3 = cbb_contents st @ der_tag tag @ [0]" "cbb_kids st3 = cbb_kids st @ [ch]"
    "ch_pending_len_len ch = 1" "ch_pending_is_asn1 ch"
    "unat (ch_offset ch) = length (cbb_contents st @ der_tag tag)" by auto
  note e4 = emitsD [OF g p(1) 4(1)]
  have kd: "length (cbb_kids st) = d" using s by (simp add: settled_def)
  obtain q where "settled d st'" "cbb_kids st' = cbb_kids st"
    "cbb_prefix True 1 (length body) = Some q"
    "cbb_contents st' = cbb_contents st @ der_tag tag @ q @ body"
    using flush_one [OF m e4(1) _ kd 4(2), of ch] e4(2,3) p by (auto simp: child_end_def)
  then show "settled d st' \<and> cbb_kids st' = cbb_kids st
      \<and> cbb_contents st' = cbb_contents st @ der_element tag body"
    by (auto simp: cbb_prefix_def der_element_Cons_tag split: if_splits)
qed

text \<open>The same for the fixed-width length prefixes.\<close>

lemma length_prefixed_opens:
  assumes m: "malloc_ok mal" and s: "settled d st" and n: "n \<in> {1, 2, 3}"
    and r: "cbb_add_length_prefixed mal d n st = (True, st3)"
  shows "settled (Suc d) st3 \<and> cbb_contents st3 = cbb_contents st @ replicate (unat n) 0
    \<and> cbb_kids st3 = cbb_kids st @ [\<lparr>ch_offset = cur_len st, ch_pending_len_len = n,
         ch_pending_is_asn1 = False\<rparr>]"
proof -
  let ?ch = "\<lparr>ch_offset = cur_len st, ch_pending_len_len = n, ch_pending_is_asn1 = False\<rparr>"
  let ?z = "replicate (unat n) 0 :: bytes"
  have nn: "unat n \<le> 3" using n by auto
  from s obtain b where b: "cbb_base st = Some b" by (auto simp: settled_def)
  have cl: "cur_len st = bb_len b" using b by (simp add: cur_len_def)
  obtain r1 b1 where o1: "cbb_buffer_add mal b (ucast n) = (r1, b1)" by fastforce
  have r1: "r1" and st3: "st3 = push_child d ?ch (st\<lparr>cbb_base := Some (bb_poke b1 (bb_len b) ?z)\<rparr>)"
    using r o1 b
    by (cases r1; simp add: cbb_add_length_prefixed_def flush_settled [OF s] Let_def cl on_base_def)+
  let ?st2 = "st\<lparr>cbb_base := Some (bb_poke b1 (bb_len b) ?z)\<rparr>"
  have "on_base (add_and_poke mal ?z) st = (True, ?st2)"
    using o1 r1 b by (simp add: on_base_def add_and_poke_def)
  then have "CBB_add_bytes mal d ?z st = (True, ?st2)"
    using s by (simp add: CBB_add_bytes_eq flush_then_def flush_settled)
  moreover have "length ?z < 9223372036854775808" using nn by simp
  ultimately have e2: "settled d ?st2" "cbb_kids ?st2 = cbb_kids st"
    "cbb_contents ?st2 = cbb_contents st @ ?z"
    using emitsD [OF emits_add_bytes [OF m], of ?z d st ?st2] s by auto
  have o: "unat (ch_offset ?ch) = length (cbb_contents st)" using settled_len(1) [OF s] by simp
  show ?thesis using settled_push [OF s e2(1,2), of ?ch] o e2(3) n st3 by simp
qed

text \<open>A closed child of fixed width holds a length that fits the width.\<close>

lemma emits_length_prefixed:
  assumes m: "malloc_ok mal" and g: "emits (Suc d) g body" and n: "n \<in> {1, 2, 3}"
  shows "emits d (and_then (cbb_add_length_prefixed mal d n) (and_then g (CBB_flush mal d)))
    (be_bytes (unat n) (word_of_nat (length body)) @ body)"
proof (rule emitsI)
  fix st st'
  assume s: "settled d st"
    and r: "and_then (cbb_add_length_prefixed mal d n) (and_then g (CBB_flush mal d)) st = (True, st')"
  from and_thenD [OF r] obtain st3 where 3: "cbb_add_length_prefixed mal d n st = (True, st3)"
    "and_then g (CBB_flush mal d) st3 = (True, st')" by auto
  from and_thenD [OF 3(2)] obtain st4 where 4: "g st3 = (True, st4)" "CBB_flush mal d st4 = (True, st')"
    by auto
  let ?ch = "\<lparr>ch_offset = cur_len st, ch_pending_len_len = n, ch_pending_is_asn1 = False\<rparr>"
  note p = length_prefixed_opens [OF m s n 3(1)]
  note e4 = emitsD [OF g conjunct1 [OF p] 4(1)]
  have kd: "length (cbb_kids st) = d" using s by (simp add: settled_def)
  have o: "unat (ch_offset ?ch) = length (cbb_contents st)" using settled_len(1) [OF s] by simp
  obtain q where "settled d st'" "cbb_kids st' = cbb_kids st"
    "cbb_prefix False (unat n) (length body) = Some q" "cbb_contents st' = cbb_contents st @ q @ body"
    using flush_one [OF m e4(1) _ kd 4(2), of ?ch] e4(2,3) p o by (auto simp: child_end_def)
  then show "settled d st' \<and> cbb_kids st' = cbb_kids st \<and> cbb_contents st'
      = cbb_contents st @ be_bytes (unat n) (word_of_nat (length body)) @ body"
    by (auto simp: cbb_prefix_def split: if_splits)
qed

section \<open>What the ASN.1 writers append\<close>

lemma emits_uint_started:
  assumes m: "malloc_ok mal"
  shows "emits d (add_uint_loop mal d bs True) bs"
proof (induction bs)
  case Nil
  have "add_uint_loop mal d [] True = Pair True" by (simp add: fun_eq_iff)
  then show ?case by (auto intro: emits_Pair)
next
  case (Cons b bs)
  have "add_uint_loop mal d (b # bs) True = and_then (CBB_add_u8 mal d b) (add_uint_loop mal d bs True)"
    by (simp add: fun_eq_iff)
  then show ?case using emits_and_then [OF emits_add_u8 [OF m] Cons] by simp
qed

definition pad_uint :: "bytes \<Rightarrow> bytes" where
  "pad_uint bs = (let ds = dropWhile (\<lambda>b. b = 0) bs
    in if ds = [] then [0] else if hd ds AND 0x80 \<noteq> 0 then 0 # ds else ds)"

lemma emits_uint_loop:
  assumes m: "malloc_ok mal"
  shows "emits d (add_uint_loop mal d bs False) (pad_uint bs)"
proof (induction bs)
  case Nil
  have "add_uint_loop mal d [] False = CBB_add_u8 mal d 0" by (simp add: fun_eq_iff)
  then show ?case using emits_add_u8 [OF m] by (simp add: pad_uint_def)
next
  case (Cons b bs)
  show ?case
  proof (cases "b = 0")
    case True
    then have "add_uint_loop mal d (b # bs) False = add_uint_loop mal d bs False"
      by (simp add: fun_eq_iff)
    then show ?thesis using Cons True by (simp add: pad_uint_def)
  next
    case False
    let ?p = "if b AND 0x80 \<noteq> 0 then CBB_add_u8 mal d 0 else Pair True"
    have e: "add_uint_loop mal d (b # bs) False
        = and_then ?p (and_then (CBB_add_u8 mal d b) (add_uint_loop mal d bs True))"
      using False by (simp add: fun_eq_iff)
    have "emits d ?p (if b AND 0x80 \<noteq> 0 then [0] else [])"
      using emits_add_u8 [OF m] emits_Pair by simp
    from emits_and_then [OF this emits_and_then [OF emits_add_u8 [OF m, of d b]
        emits_uint_started [OF m, of d bs]]]
    have "emits d (add_uint_loop mal d (b # bs) False) ((if b AND 0x80 \<noteq> 0 then [0] else []) @ [b] @ bs)"
      by (simp only: e)
    then show ?thesis using False by (cases "b AND 0x80 = 0") (simp_all add: pad_uint_def del: add_uint_loop.simps)
  qed
qed

lemma bit_int_255 [simp]: "bit (255 :: int) n \<longleftrightarrow> n < 8"
  using bit_mask_iff [of 8 n, where 'a = int] by (simp add: mask_eq_exp_minus_1)

lemma high_bit_iff: "(w AND 0x80 :: u8) \<noteq> 0 \<longleftrightarrow> bit w 7"
proof
  assume "bit w 7"
  then have "bit (w AND 0x80) 7" by (simp add: bit_simps)
  then show "w AND 0x80 \<noteq> 0" by (rule contrapos_pn) simp
next
  assume "w AND 0x80 \<noteq> 0"
  then show "bit w 7" by (rule contrapos_np) (rule bit_word_eqI, auto simp: bit_simps)
qed

lemma be_bytes_8_map: "map (\<lambda>i. ucast (drop_bit (8 * (7 - i)) v AND 0xff)) [0..<8] = be_bytes 8 v"
proof -
  have b: "ucast (w AND 0xff) = (ucast w :: u8)" for w :: u64
    by (rule bit_word_eqI) (simp add: bit_simps)
  show ?thesis by (simp add: b be_bytes_def upt_rec numeral_eq_Suc del: upt_Suc)
qed

lemma emits_asn1_uint64:
  "malloc_ok mal \<Longrightarrow> emits d (CBB_add_asn1_uint64 mal d v) (der_element CBS_ASN1_INTEGER (uint_body v))"
proof -
  assume m: "malloc_ok mal"
  have "pad_uint (be_bytes 8 v) = uint_body v" by (simp add: pad_uint_def uint_body_def)
  then show ?thesis
    unfolding CBB_add_asn1_uint64_def be_bytes_8_map
    using emits_asn1 [OF m emits_uint_loop [OF m, of "Suc d" "be_bytes 8 v"]] by simp
qed

lemma emits_asn1_octet_string:
  "malloc_ok mal \<Longrightarrow> length data < 9223372036854775808
    \<Longrightarrow> emits d (CBB_add_asn1_octet_string mal d data) (der_element CBS_ASN1_OCTETSTRING data)"
  unfolding CBB_add_asn1_octet_string_def by (intro emits_asn1 emits_add_bytes)

lemma emits_asn1_bool:
  "malloc_ok mal \<Longrightarrow> emits d (CBB_add_asn1_bool mal d v)
    (der_element CBS_ASN1_BOOLEAN [if v \<noteq> 0 then 0xff else 0])"
  unfolding CBB_add_asn1_bool_def by (intro emits_asn1 emits_add_u8)

lemma emits_bytes_down:
  assumes m: "malloc_ok mal"
  shows "emits d (add_bytes_down mal d bs n) (map ((!) bs) (rev [0..<Suc n]))"
proof (induction n)
  case 0
  have "add_bytes_down mal d bs 0 = CBB_add_u8 mal d (bs ! 0)" by (simp add: fun_eq_iff)
  then show ?case using emits_add_u8 [OF m] by simp
next
  case (Suc n)
  have "add_bytes_down mal d bs (Suc n)
      = and_then (CBB_add_u8 mal d (bs ! Suc n)) (add_bytes_down mal d bs n)"
    by (simp add: fun_eq_iff)
  then show ?case using emits_and_then [OF emits_add_u8 [OF m] Suc] by simp
qed

lemma skip_sign_strip:
  "n < length bs \<Longrightarrow> bs ! n AND 0x80 \<noteq> 0
    \<Longrightarrow> map ((!) bs) (rev [0..<Suc (skip_sign bs n)]) = strip_sign (map ((!) bs) (rev [0..<Suc n]))"
proof (induction n)
  case (Suc n)
  have s: "map ((!) bs) (rev [0..<Suc (Suc n)]) = bs ! Suc n # map ((!) bs) (rev [0..<Suc n])"
    "map ((!) bs) (rev [0..<Suc n]) = bs ! n # map ((!) bs) (rev [0..<n])" by simp_all
  have nz: "bs ! Suc n \<noteq> 0" using Suc.prems(2) by auto
  show ?case
  proof (cases "bs ! Suc n = 0xff \<and> bs ! n AND 0x80 \<noteq> 0")
    case True
    then have "strip_sign (map ((!) bs) (rev [0..<Suc (Suc n)])) = strip_sign (map ((!) bs) (rev [0..<Suc n]))"
      unfolding s by simp
    then show ?thesis using True Suc by (simp del: upt_Suc)
  next
    case False
    then have "strip_sign (map ((!) bs) (rev [0..<Suc (Suc n)])) = map ((!) bs) (rev [0..<Suc (Suc n)])"
      unfolding s using nz by auto
    moreover have "skip_sign bs (Suc n) = Suc n" using False by auto
    ultimately show ?thesis by simp
  qed
qed simp

lemma top_bit_le_bytes: "le_bytes 8 v ! 7 AND 0x80 \<noteq> 0 \<longleftrightarrow> bit (v :: u64) 63"
proof -
  have "le_bytes 8 v ! 7 = ucast (drop_bit 56 v)" by (simp add: numeral_eq_Suc)
  then show ?thesis by (simp add: high_bit_iff bit_simps)
qed

lemma strip_sign_positive:
  assumes "bs \<noteq> []" "hd bs AND 0x80 = 0"
  shows "strip_sign bs = pad_uint bs"
  using assms
proof (induction bs rule: strip_sign.induct)
  case (1 a b bs)
  have a: "a \<noteq> 0xff" using 1(3) by auto
  show ?case
  proof (cases "a = 0")
    case True
    show ?thesis
    proof (cases "b AND 0x80 = 0")
      case b: True
      then have "strip_sign (b # bs) = pad_uint (b # bs)" using 1(1) True by simp
      then show ?thesis using True b by (simp add: pad_uint_def)
    next
      case False
      then have "b \<noteq> 0" by auto
      then show ?thesis using True False by (simp add: pad_uint_def)
    qed
  next
    case False
    then show ?thesis using a 1(3) by (simp add: pad_uint_def)
  qed
qed (auto simp: pad_uint_def)

lemma emits_asn1_int64:
  assumes m: "malloc_ok mal"
  shows "emits d (CBB_add_asn1_int64 mal d v) (der_element CBS_ASN1_INTEGER (int_body v))"
proof (cases "0 \<le> sint v")
  case True
  then have "\<not> bit v 63" using bit_last_iff [of v] by simp
  then have "hd (be_bytes 8 v) AND 0x80 = 0"
    using top_bit_le_bytes [of v] last_conv_nth [of "le_bytes 8 v"]
    by (simp add: be_bytes_def hd_rev flip: length_0_conv)
  moreover have "be_bytes 8 v \<noteq> []" by (simp flip: length_0_conv)
  ultimately have "int_body v = uint_body v"
    using strip_sign_positive by (simp add: int_body_def uint_body_def pad_uint_def)
  then show ?thesis using True emits_asn1_uint64 [OF m] by (simp add: CBB_add_asn1_int64_def)
next
  case False
  then have "bit v 63" using bit_last_iff [of v] by simp
  then have "le_bytes 8 v ! 7 AND 0x80 \<noteq> 0" using top_bit_le_bytes by blast
  then have "map ((!) (le_bytes 8 v)) (rev [0..<Suc (skip_sign (le_bytes 8 v) 7)])
      = strip_sign (map ((!) (le_bytes 8 v)) (rev [0..<Suc 7]))"
    by (intro skip_sign_strip) simp_all
  also have "map ((!) (le_bytes 8 v)) (rev [0..<Suc 7]) = be_bytes 8 v"
    using map_nth [of "le_bytes 8 v"] by (simp add: be_bytes_def flip: rev_map)
  finally have "map ((!) (le_bytes 8 v)) (rev [0..<Suc (skip_sign (le_bytes 8 v) 7)]) = int_body v"
    by (simp add: int_body_def)
  then show ?thesis
    using emits_asn1 [OF m emits_bytes_down [OF m, of "Suc d" "le_bytes 8 v" "skip_sign (le_bytes 8 v) 7"]]
      False by (simp add: CBB_add_asn1_int64_def Let_def del: upt_Suc)
qed

end
