(* ===== verification/Cbb_Reach.thy ===== *)
theory Cbb_Reach
  imports Cbb_Props
begin

text \<open>
  The CBB as a state machine: a step is one call of an operation of \<open>cbb.c\<close>, successful or
  not, at any depth of the chain. In every reachable state the buffer and the chain are in
  order, and a failed buffer stays failed.
\<close>

section \<open>The composite operations keep the invariant\<close>

lemma keeps_length_prefixed:
  assumes m: "malloc_ok mal" and n: "n \<in> {1, 2, 3}"
  shows "keeps (cbb_add_length_prefixed mal d n)"
  unfolding keeps_def
proof (intro allI impI)
  fix st
  assume ok: "cbb_ok st"
  obtain r1 st1 where f: "CBB_flush mal d st = (r1, st1)" by fastforce
  have ok1: "cbb_ok st1" by (rule cbb_keepsD [OF keeps_flush [OF m] ok f])
  obtain r2 st2 where a: "on_base (\<lambda>b. cbb_buffer_add mal b (ucast n)) st1 = (r2, st2)" by fastforce
  have "unat (ucast n :: u64) < 9223372036854775808" using n by auto
  from cbb_keepsD [OF keeps_on_base [OF grows_add [OF m this]] ok1 a] have ok2: "cbb_ok st2" .
  show "cbb_ok (snd (cbb_add_length_prefixed mal d n st))"
  proof (cases "r1 \<and> r2")
    case False
    then show ?thesis
      using f a ok1 ok2 by (cases r1; cases r2) (auto simp: cbb_add_length_prefixed_def Let_def)
  next
    case True
    then have s: "settled d st1" using flush_settles [OF m ok] f by simp
    obtain r3 st3 where e: "cbb_add_length_prefixed mal d n st = (r3, st3)" by fastforce
    have r3: "r3" using e f a True by (simp add: cbb_add_length_prefixed_def Let_def)
    have "cbb_add_length_prefixed mal d n st1 = (True, st3)"
      using e r3 f True by (simp add: cbb_add_length_prefixed_def flush_settled [OF s])
    then show ?thesis using length_prefixed_opens [OF m s n] e by (simp add: settled_def)
  qed
qed

lemma keeps_der_tag: "malloc_ok mal \<Longrightarrow> keeps (add_tag mal d tag)"
  using keeps_add_uint keeps_base128 by (auto simp: add_tag_def Let_def)

lemma keeps_add_asn1:
  assumes m: "malloc_ok mal"
  shows "keeps (CBB_add_asn1 mal d tag)"
  unfolding keeps_def
proof (intro allI impI)
  fix st
  assume ok: "cbb_ok st"
  obtain r1 st1 where f: "CBB_flush mal d st = (r1, st1)" by fastforce
  have ok1: "cbb_ok st1" by (rule cbb_keepsD [OF keeps_flush [OF m] ok f])
  obtain r2 st2 where t: "add_tag mal d tag st1 = (r2, st2)" by fastforce
  have ok2: "cbb_ok st2" by (rule cbb_keepsD [OF keeps_der_tag [OF m] ok1 t])
  obtain r3 st3 where u: "CBB_add_u8 mal d 0 st2 = (r3, st3)" by fastforce
  have ok3: "cbb_ok st3" by (rule cbb_keepsD [OF keeps_add_uint(1) [OF m] ok2 u])
  show "cbb_ok (snd (CBB_add_asn1 mal d tag st))"
  proof (cases "r1 \<and> r2 \<and> r3")
    case False
    then show ?thesis
      using f t u ok1 ok2 ok3
      by (cases r1; cases r2; cases r3) (auto simp: CBB_add_asn1_eq and_then_def)
  next
    case True
    then have s: "settled d st1" using flush_settles [OF m ok] f by simp
    obtain r st4 where e: "CBB_add_asn1 mal d tag st = (r, st4)" by fastforce
    have "r" "CBB_add_asn1 mal d tag st1 = (True, st4)"
      using e f t u True by (auto simp: CBB_add_asn1_eq and_then_def flush_settled [OF s])
    then show ?thesis using asn1_opens [OF m s] e by (auto simp: settled_def)
  qed
qed

lemma keeps_uint_loop: "malloc_ok mal \<Longrightarrow> keeps (add_uint_loop mal d bs started)"
proof (induction bs arbitrary: started)
  case Nil
  have "add_uint_loop mal d [] started = (if started then Pair True else CBB_add_u8 mal d 0)"
    by (simp add: fun_eq_iff)
  then show ?case using keeps_add_uint [OF Nil] by auto
next
  case (Cons b bs)
  have e: "add_uint_loop mal d (b # bs) started =
      (if \<not> started \<and> b = 0 then add_uint_loop mal d bs False
       else and_then (if \<not> started \<and> b AND 0x80 \<noteq> 0 then CBB_add_u8 mal d 0 else Pair True)
         (and_then (CBB_add_u8 mal d b) (add_uint_loop mal d bs True)))"
    by (simp add: fun_eq_iff and_then_def)
  show ?case unfolding e using Cons keeps_add_uint [OF Cons.prems] by auto
qed

lemma keeps_bytes_down: "malloc_ok mal \<Longrightarrow> keeps (add_bytes_down mal d bs n)"
proof (induction n)
  case 0
  have "add_bytes_down mal d bs 0 = CBB_add_u8 mal d (bs ! 0)" by (simp add: fun_eq_iff)
  then show ?case using keeps_add_uint [OF 0] by auto
next
  case (Suc n)
  have "add_bytes_down mal d bs (Suc n) = and_then (CBB_add_u8 mal d (bs ! Suc n)) (add_bytes_down mal d bs n)"
    by (simp add: fun_eq_iff)
  then show ?case using Suc keeps_add_uint [OF Suc.prems] by auto
qed

lemma keeps_asn1_uint64: "malloc_ok mal \<Longrightarrow> keeps (CBB_add_asn1_uint64 mal d v)"
  unfolding CBB_add_asn1_uint64_def by (intro keeps_and_then keeps_add_asn1 keeps_uint_loop keeps_flush)

lemma keeps_asn1_int64: "malloc_ok mal \<Longrightarrow> keeps (CBB_add_asn1_int64 mal d v)"
  using keeps_asn1_uint64 [of mal d v]
  by (auto simp: CBB_add_asn1_int64_def Let_def
      intro!: keeps_and_then keeps_add_asn1 keeps_bytes_down keeps_flush)

lemma keeps_octet_string:
  "malloc_ok mal \<Longrightarrow> length data < 9223372036854775808 \<Longrightarrow> keeps (CBB_add_asn1_octet_string mal d data)"
  unfolding CBB_add_asn1_octet_string_def
  by (intro keeps_and_then keeps_add_asn1 keeps_add_bytes keeps_flush)

lemma keeps_asn1_bool: "malloc_ok mal \<Longrightarrow> keeps (CBB_add_asn1_bool mal d v)"
  unfolding CBB_add_asn1_bool_def
  by (intro keeps_and_then keeps_add_asn1 keeps_add_uint keeps_flush)

lemma keeps_oid_components: "malloc_ok mal \<Longrightarrow> keeps (add_oid_components mal d cbs)"
  unfolding keeps_def
proof (intro allI impI)
  fix st
  show "malloc_ok mal \<Longrightarrow> cbb_ok st \<Longrightarrow> cbb_ok (snd (add_oid_components mal d cbs st))"
  proof (induction mal d cbs st rule: add_oid_components.induct)
    case (1 mal d cbs st)
    show ?case
    proof (cases "cbs = []")
      case True
      then show ?thesis using 1(3) by (simp add: add_oid_components.simps)
    next
      case False
      obtain p cbs' where p: "parse_dotted_decimal cbs = (p, cbs')" by fastforce
      show ?thesis
      proof (cases p)
        case None
        then show ?thesis using p False 1(3) by (simp add: add_oid_components.simps)
      next
        case (Some a)
        obtain r st' where a: "add_base128_integer mal d a st = (r, st')" by fastforce
        have ok: "cbb_ok st'" by (rule cbb_keepsD [OF keeps_base128 [OF 1(2)] 1(3) a])
        show ?thesis
        proof (cases r)
          case True
          then show ?thesis
            using 1(1) [OF False p [symmetric] Some a [symmetric]] 1(2) ok p Some a False
            by (simp add: add_oid_components.simps [of mal d cbs st])
        next
          case False
          then show ?thesis
            using ok p Some a \<open>cbs \<noteq> []\<close> by (simp add: add_oid_components.simps)
        qed
      qed
    qed
  qed
qed

lemma keeps_oid_from_text: "malloc_ok mal \<Longrightarrow> keeps (CBB_add_asn1_oid_from_text mal d text)"
  unfolding CBB_add_asn1_oid_from_text_def
proof (rule keeps_and_then [OF keeps_flush])
  assume m: "malloc_ok mal"
  have "keeps (and_then (add_base128_integer mal d v) (add_oid_components mal d c))" for v c
    using m by (intro keeps_and_then keeps_base128 keeps_oid_components)
  then show "keeps (\<lambda>st. case parse_dotted_decimal text of
      (None, _) \<Rightarrow> (False, st)
    | (Some a, cbs1) \<Rightarrow> (case parse_dotted_decimal cbs1 of
        (None, _) \<Rightarrow> (False, st)
      | (Some b, cbs2) \<Rightarrow>
          if a > 2 \<or> (a < 2 \<and> b > 39) \<or> b > UINT64_MAX - 80 then (False, st)
          else and_then (add_base128_integer mal d (40 * a + b)) (add_oid_components mal d cbs2) st))"
    by (auto simp: keeps_def split: prod.splits option.splits)
qed

lemma keeps_add_all:
  "malloc_ok mal \<Longrightarrow> \<forall>x \<in> set xs. length x < 9223372036854775808 \<Longrightarrow> keeps (add_all_bytes mal d xs)"
proof (induction xs)
  case Nil
  then show ?case by (simp add: keeps_def)
next
  case (Cons x xs)
  have "add_all_bytes mal d (x # xs) = and_then (CBB_add_bytes mal d x) (add_all_bytes mal d xs)"
    by (simp add: fun_eq_iff)
  then show ?case using Cons keeps_add_bytes by auto
qed

section \<open>Sorting a SET OF\<close>

text \<open>The comparison is a total preorder: lexicographic, then by length.\<close>

fun lex_le :: "bytes \<Rightarrow> bytes \<Rightarrow> bool" where
  "lex_le [] ys = True"
| "lex_le (x # xs) [] = False"
| "lex_le (x # xs) (y # ys) \<longleftrightarrow> x < y \<or> (x = y \<and> lex_le xs ys)"

lemma memcmp_sign_Nil [simp]: "memcmp_sign a [] = 0"
  by (cases a) simp_all

lemma compare_lex: "compare_set_of_element a b \<le> 0 \<longleftrightarrow> lex_le a b"
proof (induction a b rule: lex_le.induct)
  case (3 x xs y ys)
  have e: "compare_set_of_element (x # xs) (y # ys)
      = (if x < y then - 1 else if y < x then 1 else compare_set_of_element xs ys)"
    by (auto simp: compare_set_of_element_def Let_def)
  show ?case unfolding e using 3 by auto
qed (simp_all add: compare_set_of_element_def Let_def)

lemma lex_le_trans: "lex_le a b \<Longrightarrow> lex_le b c \<Longrightarrow> lex_le a c"
proof (induction a b arbitrary: c rule: lex_le.induct)
  case (3 x xs y ys)
  then show ?case by (cases c) auto
qed auto

lemma compare_swap: "compare_set_of_element a b < 0 \<longleftrightarrow> compare_set_of_element b a > 0"
proof (induction a b rule: lex_le.induct)
  case (3 x xs y ys)
  have e: "compare_set_of_element (x # xs) (y # ys)
      = (if x < y then - 1 else if y < x then 1 else compare_set_of_element xs ys)" for x xs y ys
    by (auto simp: compare_set_of_element_def Let_def)
  show ?case unfolding e using 3 by auto
next
  case (1 ys)
  then show ?case by (cases ys) (simp_all add: compare_set_of_element_def Let_def)
qed (simp_all add: compare_set_of_element_def Let_def)

interpretation set_of: comparator compare_set_of_element
  by unfold_locales (auto simp: compare_lex compare_swap intro: lex_le_trans)

lemma sorted_elements: "sorted_wrt lex_le (qsort_by compare_set_of_element xs)"
  using set_of.in_order_qsort [of xs] by (simp add: in_order_def compare_lex)

lemma children_concat:
  "length c < 18446744073709551616 \<Longrightarrow> set_of_children n c = Some xs
    \<Longrightarrow> concat xs = c \<and> (\<forall>x \<in> set xs. \<exists>tag body. x = der_element tag body)"
proof (induction n c arbitrary: xs rule: set_of_children.induct)
  case (3 n b c)
  obtain out tag hl c' ys where e: "CBS_get_any_asn1_element (b # c) = (Some (out, tag, hl), c')"
    "set_of_children n c' = Some ys" "xs = out # ys"
    using 3(3) by (auto split: prod.splits option.splits)
  from e(1) obtain body where o: "out = der_element tag body" "b # c = out @ c'"
    using element_iff [OF 3(2)] by auto
  have "length c' < 18446744073709551616"
    using 3(2) arg_cong [OF o(2), of length] by simp
  from 3(1) [OF e(1) [symmetric] refl refl refl this e(2)] have "concat ys = c'"
    "\<forall>x \<in> set ys. \<exists>tag body. x = der_element tag body" by simp_all
  then show ?case using e(3) o by auto
qed simp_all

text \<open>With a unit of fuel for every byte, the elements of any sequence of elements are found.\<close>

lemma der_element_nonempty: "der_element tag body \<noteq> []"
  by (simp add: der_element_Cons_tag der_length_def)

lemma children_complete:
  assumes "\<forall>x \<in> set xs. \<exists>tag body. x = der_element tag body \<and> length body < 4294967296"
    and "length (concat xs) < 18446744073709551616" "length (concat xs) \<le> n"
  shows "set_of_children n (concat xs) = Some xs"
  using assms
proof (induction xs arbitrary: n)
  case Nil
  then show ?case by (cases n) simp_all
next
  case (Cons x xs)
  then obtain tag body where x: "x = der_element tag body" "length body < 4294967296" by auto
  then have ne: "x \<noteq> []" using der_element_nonempty by simp
  have "\<exists>hl. CBS_get_any_asn1_element (x @ concat xs) = (Some (x, tag, hl), concat xs)"
    using element_iff [of "x @ concat xs" x tag _ "concat xs"] Cons.prems(2) x by auto
  then obtain hl where e: "CBS_get_any_asn1_element (x @ concat xs) = (Some (x, tag, hl), concat xs)" ..
  obtain n' where n: "n = Suc n'" using Cons.prems(3) ne by (cases n) auto
  have "length (concat xs) \<le> n'" using Cons.prems(3) n ne by (cases x) auto
  moreover have "length (concat xs) < 18446744073709551616" using Cons.prems(2) by simp
  ultimately have ih: "set_of_children n' (concat xs) = Some xs" using Cons by simp
  obtain b c where bc: "x @ concat xs = b # c" using ne by (cases "x @ concat xs") auto
  show ?case using e ih n by (simp add: bc)
qed

text \<open>The contents of the CBB at the end of the chain lie behind its own prefix.\<close>

lemma chain_end_start:
  assumes "chain_ok 0 kids" "chain_end 0 kids < 9223372036854775808"
  shows "unat (cbb_start kids (length kids)) = chain_end 0 kids"
proof (cases kids rule: rev_cases)
  case Nil
  then show ?thesis by (simp add: cbb_start_def)
next
  case (snoc ks ch)
  have n: "unat (ch_pending_len_len ch) \<le> 3" using assms(1) snoc by (auto simp: chain_append)
  have "unat (ucast (ch_pending_len_len ch) :: u64) = unat (ch_pending_len_len ch)"
    using n by (simp add: unsigned_ucast_eq take_bit_nat_eq_self)
  then show ?thesis
    using assms(2) snoc
    by (simp add: cbb_start_def chain_append child_end_def unat_plus_no_overflow_u64)
qed

lemma settled_start:
  assumes s: "settled d st"
  shows "unat (cbb_start (cbb_kids st) d) = chain_end 0 (cbb_kids st)"
    "unat (CBB_len d st) = length (cbb_contents st) - chain_end 0 (cbb_kids st)"
    "CBB_data d st = drop (chain_end 0 (cbb_kids st)) (cbb_contents st)"
proof -
  obtain b where b: "cbb_base st = Some b" "bb_ok b" "chain_ok 0 (cbb_kids st)"
    and e: "chain_end 0 (cbb_kids st) \<le> unat (bb_len b)" and d: "length (cbb_kids st) = d"
    using s by (auto simp: settled_def cbb_ok_def)
  note bd = bb_okD [OF b(2)]
  have lt: "chain_end 0 (cbb_kids st) < 9223372036854775808" using e bd by simp
  show st: "unat (cbb_start (cbb_kids st) d) = chain_end 0 (cbb_kids st)"
    using chain_end_start [OF b(3) lt] d by simp
  have "cbb_start (cbb_kids st) d \<le> bb_len b" using st e by (simp add: word_le_nat_alt)
  then show len: "unat (CBB_len d st) = length (cbb_contents st) - chain_end 0 (cbb_kids st)"
    using b(1) bd st by (simp add: CBB_len_def cbb_contents_def unat_sub)
  show "CBB_data d st = drop (chain_end 0 (cbb_kids st)) (cbb_contents st)"
    using b(1) bd e len st
    by (simp add: CBB_data_def cbb_contents_def read_at_in_bounds bb_contents_def drop_take)
qed

text \<open>Rewinding to the start of the contents.\<close>

lemma rewind_settled:
  assumes s: "settled d st"
  defines "st' \<equiv> st\<lparr>cbb_base := map_option (bb_len_update (\<lambda>_. cbb_start (cbb_kids st) d)) (cbb_base st)\<rparr>"
  shows "settled d st' \<and> cbb_kids st' = cbb_kids st
    \<and> cbb_contents st' = take (chain_end 0 (cbb_kids st)) (cbb_contents st)"
proof -
  obtain b where b: "cbb_base st = Some b" "bb_ok b" "chain_ok 0 (cbb_kids st)" "\<not> bb_error b"
    and e: "chain_end 0 (cbb_kids st) \<le> unat (bb_len b)" and d: "length (cbb_kids st) = d"
    using s by (auto simp: settled_def cbb_ok_def)
  let ?b = "b\<lparr>bb_len := cbb_start (cbb_kids st) d\<rparr>"
  note st = settled_start(1) [OF s] and bd = bb_okD [OF b(2)]
  have "bb_ok ?b"
    using b(2) e st bd by (cases "bb_buf b") (auto simp: bb_ok_def word_le_nat_alt)
  moreover have "bb_contents ?b = take (chain_end 0 (cbb_kids st)) (bb_contents b)"
    using st e by (simp add: bb_contents_def bb_data_def min_absorb1)
  ultimately show ?thesis
    using b d st by (simp add: st'_def settled_def cbb_ok_def cbb_contents_def)
qed

lemma emits_add_all:
  "malloc_ok mal \<Longrightarrow> \<forall>x \<in> set xs. length x < 9223372036854775808
    \<Longrightarrow> emits d (add_all_bytes mal d xs) (concat xs)"
proof (induction xs)
  case Nil
  have "add_all_bytes mal d [] = Pair True" by (simp add: fun_eq_iff)
  then show ?case by (auto intro: emits_Pair)
next
  case (Cons x xs)
  have "add_all_bytes mal d (x # xs) = and_then (CBB_add_bytes mal d x) (add_all_bytes mal d xs)"
    by (simp add: fun_eq_iff)
  then show ?case using Cons emits_and_then [OF emits_add_bytes [of mal x d]] by simp
qed

definition set_of_body :: "sys_malloc \<Rightarrow> nat \<Rightarrow> cbb \<Rightarrow> bool \<times> cbb" where
  "set_of_body mal d st = (let contents = CBB_data d st
    in case set_of_children (length contents) contents of
         None \<Rightarrow> (False, st)
       | Some children \<Rightarrow>
           if length children < 2 then (True, st)
           else if word_of_nat (length children) > UINT64_MAX div 16 then (False, st)
           else if OPENSSL_memdup mal contents = None
             \<or> OPENSSL_malloc mal (word_of_nat (length children) * 16) = None then (False, st)
           else add_all_bytes mal d (qsort_by compare_set_of_element children)
             (st\<lparr>cbb_base := map_option (bb_len_update (\<lambda>_. cbb_start (cbb_kids st) d)) (cbb_base st)\<rparr>))"

lemma CBB_flush_asn1_set_of_eq:
  "CBB_flush_asn1_set_of mal d = and_then (CBB_flush mal d) (set_of_body mal d)"
  unfolding CBB_flush_asn1_set_of_def set_of_body_def by (rule refl)

lemma children_short:
  assumes "settled d st" "set_of_children (length (CBB_data d st)) (CBB_data d st) = Some xs"
  shows "concat xs = CBB_data d st" "\<forall>x \<in> set (qsort_by compare_set_of_element xs). length x < 9223372036854775808"
    "\<forall>x \<in> set xs. \<exists>tag body. x = der_element tag body"
proof -
  have l: "length (CBB_data d st) < 9223372036854775800"
    using settled_start(3) [OF assms(1)] settled_len(1,3) [OF assms(1)] by simp
  have c: "length (CBB_data d st) < 18446744073709551616" using l by simp
  show 1: "concat xs = CBB_data d st" "\<forall>x \<in> set xs. \<exists>tag body. x = der_element tag body"
    using children_concat [OF c assms(2)] by auto
  have "length x \<le> length (concat xs)" if "x \<in> set xs" for x
    using that by (induction xs) auto
  moreover have "set (qsort_by compare_set_of_element xs) = set xs" by simp
  ultimately show "\<forall>x \<in> set (qsort_by compare_set_of_element xs). length x < 9223372036854775808"
    using l 1(1) by fastforce
qed

lemma set_of_body_ok:
  assumes m: "malloc_ok mal" and s: "settled d st"
  shows "cbb_ok (snd (set_of_body mal d st))"
proof (cases "set_of_children (length (CBB_data d st)) (CBB_data d st)")
  case None
  then show ?thesis using s by (simp add: set_of_body_def Let_def settled_def)
next
  case (Some xs)
  let ?st = "st\<lparr>cbb_base := map_option (bb_len_update (\<lambda>_. cbb_start (cbb_kids st) d)) (cbb_base st)\<rparr>"
  have "cbb_ok ?st" using rewind_settled [OF s] by (simp add: settled_def)
  moreover have "keeps (add_all_bytes mal d (qsort_by compare_set_of_element xs))"
    using keeps_add_all [OF m children_short(2) [OF s Some]] .
  ultimately have "cbb_ok (snd (add_all_bytes mal d (qsort_by compare_set_of_element xs) ?st))" by (simp add: keeps_def)
  then show ?thesis using s Some by (simp add: set_of_body_def Let_def settled_def)
qed

lemma keeps_set_of:
  assumes m: "malloc_ok mal"
  shows "keeps (CBB_flush_asn1_set_of mal d)"
  unfolding keeps_def CBB_flush_asn1_set_of_eq and_then_def
  using CBB_flush_ok [OF m] flush_settles [OF m] set_of_body_ok [OF m]
  by (auto split: prod.splits bool.splits)

text \<open>On success the elements of the child are the same, and in ascending order.\<close>

lemma set_of_sorts:
  assumes m: "malloc_ok mal" and s: "settled d st" and r: "CBB_flush_asn1_set_of mal d st = (True, st')"
  shows "\<exists>xs ys. CBB_data d st = concat xs \<and> CBB_data d st' = concat ys \<and> mset ys = mset xs
    \<and> sorted_wrt lex_le ys \<and> (\<forall>x \<in> set xs. \<exists>tag body. x = der_element tag body) \<and> settled d st'"
proof -
  have b: "set_of_body mal d st = (True, st')"
    using r s by (simp add: CBB_flush_asn1_set_of_eq and_then_def flush_settled)
  then obtain xs where xs: "set_of_children (length (CBB_data d st)) (CBB_data d st) = Some xs"
    by (auto simp: set_of_body_def Let_def split: option.splits)
  note c = children_short [OF s xs]
  let ?st = "st\<lparr>cbb_base := map_option (bb_len_update (\<lambda>_. cbb_start (cbb_kids st) d)) (cbb_base st)\<rparr>"
  show ?thesis
  proof (cases "length xs < 2")
    case True
    then have "st' = st" using b xs by (simp add: set_of_body_def Let_def)
    moreover have "sorted_wrt lex_le xs" using True by (cases xs; cases "tl xs") auto
    ultimately show ?thesis using c s by (intro exI [of _ xs]) auto
  next
    case False
    then have a: "add_all_bytes mal d (qsort_by compare_set_of_element xs) ?st = (True, st')"
      using b xs by (auto simp: set_of_body_def Let_def split: if_splits)
    note rw = rewind_settled [OF s]
    note e = emitsD [OF emits_add_all [OF m c(2), of d] _ a]
    have le: "chain_end 0 (cbb_kids st) \<le> length (cbb_contents st)"
      using settled_len(1,2) [OF s] by simp
    have "settled d st'" "cbb_kids st' = cbb_kids st"
      "cbb_contents st' = take (chain_end 0 (cbb_kids st)) (cbb_contents st) @ concat (qsort_by compare_set_of_element xs)"
      using e rw by auto
    then have "CBB_data d st' = concat (qsort_by compare_set_of_element xs)" "settled d st'"
      using settled_start(3) [of d st'] le by simp_all
    then show ?thesis
      using c sorted_elements [of xs]
      by (intro exI [of _ xs] exI [of _ "qsort_by compare_set_of_element xs"]) auto
  qed
qed

section \<open>Reachable states\<close>

text \<open>
  A request for \<open>n\<close> more bytes whose new length, if it does not overflow by itself, leaves room for
  the eight bytes that \<open>OPENSSL_malloc\<close> adds to it: at most eight values of \<open>n\<close> are left out in
  every state.
\<close>

definition request_fits :: "cbb \<Rightarrow> u64 \<Rightarrow> bool" where
  "request_fits st n \<longleftrightarrow> unat (cur_len st) + unat n < 18446744073709551608
     \<or> 18446744073709551616 \<le> unat (cur_len st) + unat n"

lemma big_request_fails:
  assumes "malloc_ok mal" "bb_ok b" "9223372036854775808 \<le> unat n"
    and "unat (bb_len b) + unat n < 18446744073709551608 \<or> 18446744073709551616 \<le> unat (bb_len b) + unat n"
  shows "cbb_buffer_reserve mal b n = (False, bb_fail b)"
proof (cases "18446744073709551616 \<le> unat (bb_len b) + unat n")
  case True
  then show ?thesis using add_wraps_iff_u64 [of "bb_len b" n] by (simp add: cbb_buffer_reserve_def Let_def)
next
  case False
  let ?newlen = "bb_len b + n" and ?dbl = "bb_cap b * 2"
  let ?cap = "if ?dbl < bb_cap b \<or> ?dbl < ?newlen then ?newlen else ?dbl"
  note bd = bb_okD [OF assms(2)]
  have n: "unat ?newlen = unat (bb_len b) + unat n" using False by (intro unat_plus_no_overflow_u64) simp
  have d: "unat ?dbl = unat (bb_cap b) * 2" using bd by (simp add: unat_word_ariths)
  have c: "unat ?cap + 8 < 18446744073709551616" "9223372036854775808 \<le> unat ?cap"
    using n d bd assms(3,4) False by (auto simp: word_less_nat_alt)
  have "OPENSSL_malloc mal ?cap = None"
  proof (rule ccontr)
    assume "OPENSSL_malloc mal ?cap \<noteq> None"
    then obtain blk where "OPENSSL_malloc mal ?cap = Some blk" by blast
    from OPENSSL_malloc_ok [OF assms(1) this c(1)] c(2) show False by simp
  qed
  then have "OPENSSL_realloc mal (bb_buf b) ?cap = None"
    by (cases "bb_buf b") (simp_all add: OPENSSL_realloc_def)
  moreover have "\<not> ?newlen < bb_len b" "?newlen > bb_cap b" using n bd assms(3) by (simp_all add: word_less_nat_alt)
  ultimately show ?thesis by (simp add: cbb_buffer_reserve_def Let_def)
qed

lemma big_request_keeps:
  assumes "malloc_ok mal" "cbb_ok st" "9223372036854775808 \<le> unat n"
    and "request_fits (snd (CBB_flush mal d st)) n"
  shows "cbb_ok (snd (CBB_reserve mal d n st))" "cbb_ok (snd (CBB_add_space mal d n st))"
proof -
  obtain r st1 where f: "CBB_flush mal d st = (r, st1)" by fastforce
  have ok: "cbb_ok st1" by (rule cbb_keepsD [OF keeps_flush [OF assms(1)] assms(2) f])
  have "on_base (\<lambda>b. cbb_buffer_reserve mal b n) st1 = on_base (\<lambda>b. (False, bb_fail b)) st1"
    using big_request_fails [OF assms(1) _ assms(3)] ok assms(4) f
    by (auto simp: on_base_def cbb_ok_def request_fits_def cur_len_def split: option.splits)
  moreover from this have "on_base (\<lambda>b. cbb_buffer_add mal b n) st1 = on_base (\<lambda>b. (False, bb_fail b)) st1"
    by (auto simp: on_base_def cbb_buffer_add_def split: option.splits prod.splits bool.splits)
  moreover have "cbb_ok (snd (on_base (\<lambda>b. (False, bb_fail b)) st1))"
    using ok by (auto simp: on_base_def cbb_ok_def split: option.splits)
  ultimately show "cbb_ok (snd (CBB_reserve mal d n st))" "cbb_ok (snd (CBB_add_space mal d n st))"
    using ok f by (cases r; simp add: CBB_reserve_def CBB_add_space_def flush_then_def)+
qed

lemma request_keeps:
  assumes "malloc_ok mal" "cbb_ok st" "request_fits (snd (CBB_flush mal d st)) n"
  shows "cbb_ok (snd (CBB_reserve mal d n st))" "cbb_ok (snd (CBB_add_space mal d n st))"
  using big_request_keeps [OF assms(1,2) _ assms(3)] keeps_reserve [OF assms(1), of n d]
    keeps_add_space [OF assms(1), of n d] assms(2)
  by (cases "unat n < 9223372036854775808"; simp add: keeps_def)+

text \<open>
  One call on the chain. An array that is passed in is an object in memory, shorter than 2^63.
\<close>

inductive cbb_step :: "sys_malloc \<Rightarrow> cbb \<Rightarrow> cbb \<Rightarrow> bool" for mal where
  flush: "cbb_step mal st (snd (CBB_flush mal d st))"
| add_bytes: "length data < 9223372036854775808 \<Longrightarrow> cbb_step mal st (snd (CBB_add_bytes mal d data st))"
| add_space: "request_fits (snd (CBB_flush mal d st)) n \<Longrightarrow> cbb_step mal st (snd (CBB_add_space mal d n st))"
| reserve: "request_fits (snd (CBB_flush mal d st)) n \<Longrightarrow> cbb_step mal st (snd (CBB_reserve mal d n st))"
| did_write: "cbb_step mal st (snd (CBB_did_write d n st))"
| add_u8: "cbb_step mal st (snd (CBB_add_u8 mal d v8 st))"
| add_u16: "cbb_step mal st (snd (CBB_add_u16 mal d v16 st))"
| add_u16le: "cbb_step mal st (snd (CBB_add_u16le mal d v16 st))"
| add_u24: "cbb_step mal st (snd (CBB_add_u24 mal d v32 st))"
| add_u32: "cbb_step mal st (snd (CBB_add_u32 mal d v32 st))"
| add_u32le: "cbb_step mal st (snd (CBB_add_u32le mal d v32 st))"
| add_u64: "cbb_step mal st (snd (CBB_add_u64 mal d v64 st))"
| add_u64le: "cbb_step mal st (snd (CBB_add_u64le mal d v64 st))"
| u8_prefixed: "cbb_step mal st (snd (CBB_add_u8_length_prefixed mal d st))"
| u16_prefixed: "cbb_step mal st (snd (CBB_add_u16_length_prefixed mal d st))"
| u24_prefixed: "cbb_step mal st (snd (CBB_add_u24_length_prefixed mal d st))"
| add_asn1: "cbb_step mal st (snd (CBB_add_asn1 mal d tag st))"
| discard_child: "cbb_step mal st (CBB_discard_child d st)"
| asn1_uint64: "cbb_step mal st (snd (CBB_add_asn1_uint64 mal d v64 st))"
| asn1_int64: "cbb_step mal st (snd (CBB_add_asn1_int64 mal d v64 st))"
| octet_string: "length data < 9223372036854775808
    \<Longrightarrow> cbb_step mal st (snd (CBB_add_asn1_octet_string mal d data st))"
| asn1_bool: "cbb_step mal st (snd (CBB_add_asn1_bool mal d i st))"
| oid_from_text: "cbb_step mal st (snd (CBB_add_asn1_oid_from_text mal d data st))"
| flush_set_of: "cbb_step mal st (snd (CBB_flush_asn1_set_of mal d st))"
| finish: "cbb_step mal st (snd (CBB_finish mal outs d st))"
| cleanup: "cbb_step mal st (CBB_cleanup st)"

inductive cbb_reachable :: "sys_malloc \<Rightarrow> cbb \<Rightarrow> bool" for mal where
  zero: "cbb_reachable mal CBB_zero"
| init: "unat n < 18446744073709551608 \<Longrightarrow> cbb_reachable mal (snd (CBB_init mal n))"
| init_fixed: "length arr + 8 < 9223372036854775808 \<Longrightarrow> cbb_reachable mal (snd (CBB_init_fixed mal arr))"
| step: "cbb_reachable mal st \<Longrightarrow> cbb_step mal st st' \<Longrightarrow> cbb_reachable mal st'"

lemma grows_did_write:
  "grows (\<lambda>b. let newlen = bb_len b + n
    in if kids \<noteq> [] \<or> newlen < bb_len b \<or> newlen > bb_cap b then (False, b)
       else (True, b\<lparr>bb_len := newlen\<rparr>))"
  unfolding grows_def Let_def
proof (intro allI impI)
  fix b
  assume "bb_ok b"
  then show "bb_ok (snd (if kids \<noteq> [] \<or> bb_len b + n < bb_len b \<or> bb_len b + n > bb_cap b
      then (False, b) else (True, b\<lparr>bb_len := bb_len b + n\<rparr>)))
    \<and> unat (bb_len b) \<le> unat (bb_len (snd (if kids \<noteq> [] \<or> bb_len b + n < bb_len b
      \<or> bb_len b + n > bb_cap b then (False, b) else (True, b\<lparr>bb_len := bb_len b + n\<rparr>))))"
    by (cases "bb_buf b") (auto simp: bb_ok_def word_le_nat_alt word_less_nat_alt)
qed

lemma did_write_ok: "cbb_ok st \<Longrightarrow> cbb_ok (snd (CBB_did_write d n st))"
  using keeps_on_base [OF grows_did_write [of n "drop d (cbb_kids st)"]]
  by (simp add: CBB_did_write_def keeps_def)

lemma discard_ok:
  assumes "cbb_ok st"
  shows "cbb_ok (CBB_discard_child d st)"
proof (cases "length (cbb_kids st) \<le> d \<or> cbb_base st = None")
  case True
  then show ?thesis using assms by (auto simp: CBB_discard_child_def cbb_ok_def)
next
  case False
  then obtain b where b: "cbb_base st = Some b" and d: "d < length (cbb_kids st)" by auto
  let ?kids = "cbb_kids st"
  have ok: "bb_ok b" "chain_ok 0 ?kids" "chain_end 0 ?kids \<le> unat (bb_len b)"
    using assms b by (simp_all add: cbb_ok_def)
  have sp: "?kids = take d ?kids @ ?kids ! d # drop (Suc d) ?kids" using d by (rule id_take_nth_drop)
  note ch = chain_take [OF ok(2,3) sp]
  let ?o = "ch_offset (?kids ! d)"
  have o: "chain_end 0 (take d ?kids) \<le> unat ?o" using ch(2) by simp
  have "child_end (?kids ! d) \<le> unat (bb_len b)"
    using ch(2,3) chain_end_ge [of "child_end (?kids ! d)" "drop (Suc d) ?kids"] by simp
  then have "unat ?o \<le> unat (bb_len b)" by (simp add: child_end_def)
  then have "bb_ok (b\<lparr>bb_len := ?o\<rparr>)"
    using ok(1) by (cases "bb_buf b") (auto simp: bb_ok_def word_le_nat_alt)
  then show ?thesis using b d ch(1) o by (simp add: CBB_discard_child_def cbb_ok_def)
qed

lemma cleanup_ok: "cbb_ok (CBB_cleanup st)"
  by (simp add: CBB_cleanup_def cbb_ok_def)

lemma finish_ok:
  assumes "malloc_ok mal" "cbb_ok st"
  shows "cbb_ok (snd (CBB_finish mal outs d st))"
proof -
  obtain r st1 where f: "CBB_flush mal d st = (r, st1)" by fastforce
  have "cbb_ok st1" by (rule cbb_keepsD [OF keeps_flush [OF assms(1)] assms(2) f])
  then show ?thesis
    using f assms(2) cleanup_ok [of st1]
    by (cases r; cases "d = 0") (simp_all add: CBB_finish_def split: option.split)
qed

lemma init_ok:
  assumes "malloc_ok mal" "unat n < 18446744073709551608"
  shows "cbb_ok (snd (CBB_init mal n))"
proof (cases "OPENSSL_malloc mal n")
  case None
  then show ?thesis
    by (auto simp: CBB_init_def Let_def CBB_zero_def cbb_ok_def cbb_init_def bb_ok_def
        word_gt_0 split: option.splits)
next
  case (Some blk)
  then show ?thesis
    using OPENSSL_malloc_ok [OF assms(1) Some] assms(2)
    by (auto simp: CBB_init_def Let_def CBB_zero_def cbb_ok_def cbb_init_def bb_ok_def
        split: option.splits)
qed

lemma init_fixed_ok: "length arr + 8 < 9223372036854775808 \<Longrightarrow> cbb_ok (snd (CBB_init_fixed mal arr))"
  by (auto simp: CBB_init_fixed_def cbb_init_def CBB_zero_def cbb_ok_def bb_ok_def block_ok_def
      split: option.splits)

lemmas keeps_all = keeps_flush keeps_add_bytes keeps_add_uint
  keeps_add_asn1 keeps_asn1_uint64 keeps_asn1_int64 keeps_octet_string keeps_asn1_bool
  keeps_oid_from_text keeps_set_of

lemma step_ok:
  assumes "malloc_ok mal" "cbb_step mal st st'" "cbb_ok st"
  shows "cbb_ok st'"
  using assms(2)
proof cases
  case (u8_prefixed d)
  then show ?thesis
    using keeps_length_prefixed [OF assms(1), of 1] assms(3)
    by (simp add: CBB_add_u8_length_prefixed_def keeps_def)
next
  case (u16_prefixed d)
  then show ?thesis
    using keeps_length_prefixed [OF assms(1), of 2] assms(3)
    by (simp add: CBB_add_u16_length_prefixed_def keeps_def)
next
  case (u24_prefixed d)
  then show ?thesis
    using keeps_length_prefixed [OF assms(1), of 3] assms(3)
    by (simp add: CBB_add_u24_length_prefixed_def keeps_def)
next
  case (cleanup)
  then show ?thesis by (simp add: cleanup_ok)
qed (use keeps_all [OF assms(1)] request_keeps [OF assms(1,3)] assms(1,3) did_write_ok discard_ok finish_ok in
    \<open>auto simp: keeps_def CBB_add_u16le_def CBB_add_u32le_def CBB_add_u64le_def\<close>)

lemma reachable_ok: "cbb_reachable mal st \<Longrightarrow> malloc_ok mal \<Longrightarrow> cbb_ok st"
proof (induction rule: cbb_reachable.induct)
  case zero
  then show ?case by (simp add: CBB_zero_def cbb_ok_def)
qed (auto intro: init_ok init_fixed_ok step_ok)

end
