(* ===== verification/Cbb_Live.thy ===== *)
theory Cbb_Live
  imports Cbb_Reach
begin

text \<open>
  When the writer succeeds: with an allocator that serves every request below \<open>N\<close> bytes, an
  operation on a growing buffer whose contents stay below half of \<open>N\<close> does not fail. The
  buffer at most doubles the length that is asked for, so that no request gets larger.
\<close>

section \<open>A growing buffer stays one\<close>

definition resizable :: "cbb \<Rightarrow> bool" where
  "resizable st \<longleftrightarrow> (\<exists>b. cbb_base st = Some b \<and> bb_can_resize b)"

definition stays :: "(cbb \<Rightarrow> bool \<times> cbb) \<Rightarrow> bool" where
  "stays f \<longleftrightarrow> (\<forall>st. resizable st \<longrightarrow> resizable (snd (f st)))"

lemma reserve_resize: "bb_can_resize (snd (cbb_buffer_reserve mal b n)) = bb_can_resize b"
  by (simp add: cbb_buffer_reserve_def Let_def split: option.split)

lemma add_resize: "bb_can_resize (snd (cbb_buffer_add mal b n)) = bb_can_resize b"
  using reserve_resize [of mal b n]
  by (cases "cbb_buffer_reserve mal b n") (auto simp: cbb_buffer_add_def split: bool.splits)

lemma add_and_poke_resize: "bb_can_resize (snd (add_and_poke mal bs b)) = bb_can_resize b"
  using add_resize [of mal b "word_of_nat (length bs)"]
  by (cases "cbb_buffer_add mal b (word_of_nat (length bs))")
     (auto simp: add_and_poke_def split: bool.splits)

lemma add_u_resize: "0 < n \<Longrightarrow> bb_can_resize (snd (cbb_buffer_add_u mal b v n)) = bb_can_resize b"
  using add_and_poke_resize [of mal "rev (le_bytes n v)" b]
  by (cases "add_and_poke mal (rev (le_bytes n v)) b") (auto simp: add_u_as_poke split: bool.splits)

lemma write_prefix_resize: "bb_can_resize (snd (write_prefix b ch len)) = bb_can_resize b"
  by (simp add: write_prefix_def Let_def)

lemma widen_resize: "bb_can_resize (snd (widen_asn1 mal b s e len)) = bb_can_resize b"
  using add_resize [of mal b e]
  by (cases "cbb_buffer_add mal b e") (auto simp: widen_asn1_def split: bool.splits)

lemma close_child_resize: "bb_can_resize (fst (snd (close_child mal b ch s))) = bb_can_resize b"
proof (cases "asn1_len_form (bb_len b - s)")
  case None
  then show ?thesis
    using write_prefix_resize [of b ch "bb_len b - s"]
    by (auto simp: close_child_def Let_def split: prod.splits)
next
  case (Some t)
  obtain k i l where t: "t = (k, i, l)" by (cases t) auto
  let ?w = "if k \<noteq> 1 then widen_asn1 mal b s (ucast (k - 1)) l else (True, b)"
  have w: "bb_can_resize (snd ?w) = bb_can_resize b" using widen_resize by simp
  obtain r1 b1 where r: "?w = (r1, b1)" by fastforce
  show ?thesis
    using Some t w write_prefix_resize [of b ch "bb_len b - s"]
      write_prefix_resize [of "bb_poke b1 (ch_offset ch) [i]"
        "ch\<lparr>ch_offset := ch_offset ch + 1, ch_pending_len_len := k - 1\<rparr>" l]
    unfolding close_child_def Let_def
    by (cases r1) (auto simp: r split: prod.splits)
qed

lemma flush_chain_resize: "bb_can_resize (fst (snd (flush_chain mal b kids))) = bb_can_resize b"
proof (induction kids)
  case (Cons ch kids)
  obtain r1 b1 k1 where f: "flush_chain mal b kids = (r1, b1, k1)" by (metis prod_cases3)
  have "bb_can_resize b1 = bb_can_resize b" using Cons f by simp
  moreover obtain r2 b2 ch2 where
    c: "close_child mal b1 ch (ch_offset ch + ucast (ch_pending_len_len ch)) = (r2, b2, ch2)"
    by (metis prod_cases3)
  moreover have "bb_can_resize b2 = bb_can_resize b1"
    using close_child_resize [of mal b1 ch] c by (metis fst_conv snd_conv)
  ultimately show ?case
    using f by (cases r1; cases r2) (simp_all add: Let_def)
qed simp

lemma stays_flush: "stays (CBB_flush mal d)"
  unfolding stays_def resizable_def
proof (intro allI impI)
  fix st :: cbb
  assume "\<exists>b. cbb_base st = Some b \<and> bb_can_resize b"
  then obtain b where b: "cbb_base st = Some b" "bb_can_resize b" by auto
  obtain r b' k where f: "flush_chain mal b (drop d (cbb_kids st)) = (r, b', k)" by (metis prod_cases3)
  then show "\<exists>b. cbb_base (snd (CBB_flush mal d st)) = Some b \<and> bb_can_resize b"
    using b flush_chain_resize [of mal b "drop d (cbb_kids st)"] by (simp add: CBB_flush_def)
qed

lemma stays_and_then: "stays f \<Longrightarrow> stays g \<Longrightarrow> stays (and_then f g)"
  by (auto simp: stays_def and_then_def split: prod.splits bool.splits)

lemma stays_on_base: "(\<And>b. bb_can_resize (snd (f b)) = bb_can_resize b) \<Longrightarrow> stays (on_base f)"
  by (auto simp: stays_def resizable_def on_base_def split: prod.splits) (metis snd_conv)

lemma stays_add_u8: "stays (CBB_add_u8 mal d v)"
  unfolding CBB_add_u8_def flush_then_and_then
  by (intro stays_and_then stays_flush stays_on_base add_u_resize) simp

lemma stays_add_bytes: "stays (CBB_add_bytes mal d data)"
  unfolding CBB_add_bytes_eq flush_then_and_then
  by (intro stays_and_then stays_flush stays_on_base add_and_poke_resize)

section \<open>Operations that succeed\<close>

lemma reserve_total:
  assumes r: "roomy mal N" and b: "bb_ok b" "bb_can_resize b"
    and n: "2 * (unat (bb_len b) + unat n) + 8 < N"
  shows "fst (cbb_buffer_reserve mal b n)"
proof -
  let ?newlen = "bb_len b + n" and ?dbl = "bb_cap b * 2"
  let ?cap = "if ?dbl < bb_cap b \<or> ?dbl < ?newlen then ?newlen else ?dbl"
  have n63: "unat n < 9223372036854775808" using r n by (simp add: roomy_def)
  note nc = new_capacity [OF b(1) n63]
  show ?thesis
  proof (cases "?newlen > bb_cap b")
    case False
    then show ?thesis using nc(2) by (simp add: cbb_buffer_reserve_def Let_def)
  next
    case True
    have "unat ?dbl = unat (bb_cap b) * 2"
      using bb_okD(3) [OF b(1)] by (simp add: unat_word_ariths)
    then have "unat ?cap \<le> 2 * (unat (bb_len b) + unat n)"
      using True nc(1) by (simp add: word_less_nat_alt)
    then have "OPENSSL_realloc mal (bb_buf b) ?cap \<noteq> None"
      using n by (intro realloc_total [OF r]) simp
    then show ?thesis using True nc(2) b(2) by (auto simp: cbb_buffer_reserve_def Let_def)
  qed
qed

lemma add_total:
  assumes "roomy mal N" "bb_ok b" "bb_can_resize b" "2 * (unat (bb_len b) + unat n) + 8 < N"
  shows "fst (cbb_buffer_add mal b n)"
  using reserve_total [OF assms] by (auto simp: cbb_buffer_add_def split: prod.splits bool.splits)

lemma add_and_poke_total:
  assumes r: "roomy mal N" and b: "bb_ok b" "bb_can_resize b"
    and n: "2 * (unat (bb_len b) + length bs) + 8 < N"
  shows "fst (add_and_poke mal bs b)"
proof -
  have "unat (word_of_nat (length bs) :: u64) = length bs" using r n by (simp add: roomy_def)
  then have "fst (cbb_buffer_add mal b (word_of_nat (length bs)))" using add_total [OF r b] n by simp
  then show ?thesis by (auto simp: add_and_poke_def split: prod.splits bool.splits)
qed

text \<open>What an operation appends, and that it does so when there is room.\<close>

definition yields :: "sys_malloc \<Rightarrow> nat \<Rightarrow> nat \<Rightarrow> (cbb \<Rightarrow> bool \<times> cbb) \<Rightarrow> bytes \<Rightarrow> bool" where
  "yields mal N d f bs \<longleftrightarrow> emits d f bs \<and> (\<forall>st. settled d st \<longrightarrow> resizable st
     \<longrightarrow> 2 * (length (cbb_contents st) + length bs) + 8 < N \<longrightarrow> fst (f st) \<and> resizable (snd (f st)))"

lemma yieldsD:
  assumes "yields mal N d f bs" "settled d st" "resizable st"
    "2 * (length (cbb_contents st) + length bs) + 8 < N"
  shows "\<exists>st'. f st = (True, st') \<and> settled d st' \<and> resizable st' \<and> cbb_kids st' = cbb_kids st
    \<and> cbb_contents st' = cbb_contents st @ bs"
proof -
  obtain r st' where f: "f st = (r, st')" by fastforce
  then have r: "r" "resizable st'" using assms by (auto simp: yields_def)
  have e: "emits d f bs" using assms(1) by (simp add: yields_def)
  from emitsD [OF e assms(2), of st'] f r show ?thesis by auto
qed

lemma yieldsI:
  assumes "emits d f bs"
    and "\<And>st. settled d st \<Longrightarrow> resizable st \<Longrightarrow> 2 * (length (cbb_contents st) + length bs) + 8 < N
      \<Longrightarrow> fst (f st) \<and> resizable (snd (f st))"
  shows "yields mal N d f bs"
  using assms unfolding yields_def by blast

lemma yields_Pair: "yields mal N d (Pair True) []"
  by (rule yieldsI) (auto intro: emits_Pair)

lemma yields_and_then:
  assumes f: "yields mal N d f xs" and g: "yields mal N d g ys"
  shows "yields mal N d (and_then f g) (xs @ ys)"
proof (rule yieldsI)
  show "emits d (and_then f g) (xs @ ys)" using f g by (auto simp: yields_def)
  fix st
  assume s: "settled d st" "resizable st"
    and n: "2 * (length (cbb_contents st) + length (xs @ ys)) + 8 < N"
  from n have "2 * (length (cbb_contents st) + length xs) + 8 < N" by simp
  from yieldsD [OF f s this] obtain st1 where 1: "f st = (True, st1)" "settled d st1" "resizable st1"
    "cbb_contents st1 = cbb_contents st @ xs" by auto
  have "2 * (length (cbb_contents st1) + length ys) + 8 < N" using n 1(4) by simp
  from yieldsD [OF g 1(2,3) this] 1(1)
  show "fst (and_then f g st) \<and> resizable (snd (and_then f g st))"
    by (auto simp: and_then_def)
qed

lemma settledD:
  assumes "settled d st" "resizable st"
  obtains b where "cbb_base st = Some b" "bb_ok b" "bb_can_resize b" "\<not> bb_error b"
    "unat (bb_len b) = length (cbb_contents st)"
proof -
  obtain b where b: "cbb_base st = Some b" "bb_ok b" "\<not> bb_error b"
    using assms(1) by (auto simp: settled_def cbb_ok_def)
  then show ?thesis
    using that [OF b(1,2) _ b(3)] assms(2) bb_okD(4) [OF b(2)]
    by (auto simp: resizable_def cbb_contents_def)
qed

lemma yields_flush_then:
  assumes e: "emits d (flush_then mal d f) bs"
    and t: "\<And>b. bb_ok b \<Longrightarrow> bb_can_resize b \<Longrightarrow> 2 * (unat (bb_len b) + length bs) + 8 < N \<Longrightarrow> fst (f b)"
    and c: "\<And>b. bb_can_resize (snd (f b)) = bb_can_resize b"
  shows "yields mal N d (flush_then mal d f) bs"
proof (rule yieldsI [OF e])
  fix st
  assume s: "settled d st" "resizable st" and n: "2 * (length (cbb_contents st) + length bs) + 8 < N"
  obtain b where b: "cbb_base st = Some b" "bb_ok b" "bb_can_resize b"
    "unat (bb_len b) = length (cbb_contents st)" using settledD [OF s] by metis
  show "fst (flush_then mal d f st) \<and> resizable (snd (flush_then mal d f st))"
    using t [OF b(2,3)] c [of b] b n
    by (auto simp: flush_then_def flush_settled [OF s(1)] on_base_def resizable_def split: prod.splits)
qed

lemma yields_add_bytes:
  "roomy mal N \<Longrightarrow> length data < 9223372036854775808 \<Longrightarrow> yields mal N d (CBB_add_bytes mal d data) data"
  unfolding CBB_add_bytes_eq
  by (rule yields_flush_then [OF _ add_and_poke_total add_and_poke_resize])
     (auto simp: roomy_def simp flip: CBB_add_bytes_eq intro: emits_add_bytes)

lemma yields_add_u8:
  assumes "roomy mal N"
  shows "yields mal N d (CBB_add_u8 mal d v) [v]"
proof -
  have v: "ucast (ucast v :: u64) = v" "drop_bit 8 (ucast v :: u64) = 0"
    by (rule bit_word_eqI, auto simp: bit_simps dest: bit_imp_le_length)+
  have m: "malloc_ok mal" using assms by (simp add: roomy_def)
  show ?thesis
    unfolding CBB_add_u8_def
  proof (rule yields_flush_then)
    show "emits d (flush_then mal d (\<lambda>b. cbb_buffer_add_u mal b (ucast v) 1)) [v]"
      using emits_add_u8 [OF m] by (simp add: CBB_add_u8_def)
    show "bb_can_resize (snd (cbb_buffer_add_u mal b (ucast v) 1)) = bb_can_resize b" for b
      by (rule add_u_resize) simp
    fix b
    assume "bb_ok b" "bb_can_resize b" "2 * (unat (bb_len b) + length [v]) + 8 < N"
    then have "fst (add_and_poke mal [v] b)" by (rule add_and_poke_total [OF assms])
    then show "fst (cbb_buffer_add_u mal b (ucast v) 1)"
      using v by (auto simp: add_u_as_poke split: prod.splits bool.splits)
  qed
qed

lemma yields_base128: "roomy mal N \<Longrightarrow> yields mal N d (add_base128_integer mal d v) (base128_bytes v)"
proof -
  assume r: "roomy mal N"
  have "yields mal N d (add_base128_loop mal d v n) (map (base128_byte v) (rev [0..<n]))" for n
  proof (induction n)
    case 0
    have "add_base128_loop mal d v 0 = Pair True" by (simp add: fun_eq_iff)
    then show ?case using yields_Pair by simp
  next
    case (Suc n)
    have "add_base128_loop mal d v (Suc n)
        = and_then (CBB_add_u8 mal d (base128_byte v n)) (add_base128_loop mal d v n)"
      by (simp add: fun_eq_iff)
    then show ?case using yields_and_then [OF yields_add_u8 [OF r] Suc] by simp
  qed
  from this [of "if base128_groups v = 0 then 1 else base128_groups v"]
  show ?thesis unfolding add_base128_integer_def Let_def base128_bytes_loop .
qed

lemma yields_tag: "roomy mal N \<Longrightarrow> yields mal N d (add_tag mal d tag) (der_tag tag)"
  using yields_and_then [OF yields_add_u8 yields_base128] yields_add_u8
  by (auto simp: add_tag_def der_tag_def Let_def)

lemma fst_True: "fst p \<Longrightarrow> \<exists>x. p = (True, x)"
  by (cases p) simp

lemma write_prefix_total: "unat len < 2 ^ (8 * unat (ch_pending_len_len ch)) \<Longrightarrow> fst (write_prefix b ch len)"
  by (simp add: write_prefix_def Let_def drop_bit_eq_0_iff_unat)

lemma close_asn1_total:
  assumes r: "roomy mal N" and b: "bb_ok b" "bb_can_resize b" and a: "ch_pending_is_asn1 ch"
    and s: "s \<le> bb_len b" "unat (bb_len b - s) \<le> 0xfffffffe"
    and n: "2 * (unat (bb_len b) + length (der_length (unat (bb_len b - s)))) + 8 < N + 2"
  shows "fst (close_child mal b ch s)"
proof -
  let ?len = "bb_len b - s"
  obtain k i l where t: "asn1_len_form ?len = Some (k, i, l)"
    using s(2) asn1_form_None [of ?len] by (cases "asn1_len_form ?len") auto
  note f = asn1_form [OF t]
  have dl: "length (der_length (unat ?len)) = Suc (unat (k - 1))"
    using f(4) [symmetric] by simp
  have e: "unat (ucast (k - 1) :: u64) = unat (k - 1)"
    using unat_u8_lt [of "k - 1"] by (simp add: unsigned_ucast_eq take_bit_nat_eq_self)
  have "fst (cbb_buffer_add mal b (ucast (k - 1)))"
    using n dl e by (intro add_total [OF r b]) simp
  then have w: "fst (if k \<noteq> 1 then widen_asn1 mal b s (ucast (k - 1)) l else (True, b))"
    by (auto simp: widen_asn1_def split: prod.splits bool.splits)
  have p: "fst (write_prefix b' (ch\<lparr>ch_offset := ch_offset ch + 1, ch_pending_len_len := k - 1\<rparr>) l)" for b'
    using f(5) by (intro write_prefix_total) simp
  obtain b1 where w1: "(if k \<noteq> 1 then widen_asn1 mal b s (ucast (k - 1)) l else (True, b)) = (True, b1)"
    using fst_True [OF w] by blast
  obtain b2 where wp: "write_prefix (bb_poke b1 (ch_offset ch) [i])
      (ch\<lparr>ch_offset := ch_offset ch + 1, ch_pending_len_len := k - 1\<rparr>) l = (True, b2)"
    using fst_True [OF p] by blast
  show ?thesis
    by (simp only: close_child_def Let_def t a if_True option.case prod.case bool.case w1 wp fst_conv)
qed

lemma yields_asn1:
  assumes r: "roomy mal N" and g: "yields mal N (Suc d) g body" and l: "length body \<le> 0xfffffffe"
  shows "yields mal N d (and_then (CBB_add_asn1 mal d tag) (and_then g (CBB_flush mal d)))
    (der_element tag body)"
proof (rule yieldsI)
  have m: "malloc_ok mal" using r by (simp add: roomy_def)
  show "emits d (and_then (CBB_add_asn1 mal d tag) (and_then g (CBB_flush mal d))) (der_element tag body)"
    using emits_asn1 [OF m] g by (simp add: yields_def)
  fix st
  assume s: "settled d st" "resizable st"
    and n: "2 * (length (cbb_contents st) + length (der_element tag body)) + 8 < N"
  have el: "length (der_element tag body)
      = length (der_tag tag) + length (der_length (length body)) + length body"
    by (simp add: der_element_Cons_tag)
  obtain L where dl: "length (der_length (length body)) = Suc L"
    by (cases "der_length (length body)") (auto simp: der_length_def split: if_splits)
  have n1: "2 * (length (cbb_contents st) + length (der_tag tag)) + 8 < N" using n el by simp
  obtain st1 where 1: "add_tag mal d tag st = (True, st1)" "settled d st1" "resizable st1"
    "cbb_contents st1 = cbb_contents st @ der_tag tag"
    using yieldsD [OF yields_tag [OF r] s n1] by auto
  have n2: "2 * (length (cbb_contents st1) + length [0 :: u8]) + 8 < N" using n el dl 1(4) by simp
  obtain st2 where 2: "CBB_add_u8 mal d 0 st1 = (True, st2)" "resizable st2"
    using yieldsD [OF yields_add_u8 [OF r] 1(2,3) n2] by auto
  obtain st3 where 3: "CBB_add_asn1 mal d tag st = (True, st3)" "resizable st3"
    using 1(1) 2 flush_settled [OF s(1)]
    by (auto simp: CBB_add_asn1_eq and_then_def push_child_def resizable_def)
  from asn1_opens [OF m s(1) 3(1)] obtain ch where p: "settled (Suc d) st3"
    "cbb_contents st3 = cbb_contents st @ der_tag tag @ [0]" "cbb_kids st3 = cbb_kids st @ [ch]"
    "ch_pending_len_len ch = 1" "ch_pending_is_asn1 ch"
    "unat (ch_offset ch) = length (cbb_contents st @ der_tag tag)" by auto
  have n3: "2 * (length (cbb_contents st3) + length body) + 8 < N" using n el dl p(2) by simp
  obtain st4 where 4: "g st3 = (True, st4)" "settled (Suc d) st4" "resizable st4"
    "cbb_kids st4 = cbb_kids st3" "cbb_contents st4 = cbb_contents st3 @ body"
    using yieldsD [OF g p(1) 3(2) n3] by auto
  obtain b where b: "cbb_base st4 = Some b" "bb_ok b" "bb_can_resize b" "\<not> bb_error b"
    "unat (bb_len b) = length (cbb_contents st4)" using settledD [OF 4(2,3)] by metis
  let ?start = "ch_offset ch + ucast (ch_pending_len_len ch) :: u64"
  have st: "unat ?start = Suc (length (cbb_contents st @ der_tag tag))"
    using bb_okD(2,3) [OF b(2)] b(5) 4(5) p(2,4,6)
    by (subst unat_plus_no_overflow_u64) simp_all
  have le: "?start \<le> bb_len b" "\<not> ?start < ch_offset ch"
    using st b(5) 4(5) p(2,6) by (simp_all add: word_le_nat_alt word_less_nat_alt)
  have ln: "unat (bb_len b - ?start) = length body"
    using st b(5) 4(5) p(2) le(1) by (simp add: unat_sub)
  have "fst (close_child mal b ch ?start)"
    using n el b(5) 4(5) p(2) ln l le(1)
    by (intro close_asn1_total [OF r b(2,3) p(5)]) simp_all
  from fst_True [OF this] obtain b2 ch2 where "close_child mal b ch ?start = (True, b2, ch2)" by auto
  moreover have "drop d (cbb_kids st4) = [ch]" "\<not> length (cbb_kids st4) < d"
    using 4(4) p(3) s(1) by (simp_all add: settled_def)
  ultimately have "fst (CBB_flush mal d st4)"
    using b(1,4) p(4) le by (simp add: CBB_flush_def Let_def not_less)
  moreover have "resizable (snd (CBB_flush mal d st4))" using stays_flush 4(3) by (simp add: stays_def)
  ultimately show "fst (and_then (CBB_add_asn1 mal d tag) (and_then g (CBB_flush mal d)) st)
    \<and> resizable (snd (and_then (CBB_add_asn1 mal d tag) (and_then g (CBB_flush mal d)) st))"
    using 3(1) 4(1) by (simp add: and_then_def)
qed

lemma yields_octet_string:
  "roomy mal N \<Longrightarrow> length data \<le> 0xfffffffe
    \<Longrightarrow> yields mal N d (CBB_add_asn1_octet_string mal d data) (der_element CBS_ASN1_OCTETSTRING data)"
  unfolding CBB_add_asn1_octet_string_def by (intro yields_asn1 yields_add_bytes) simp_all

end
