(* ===== verification/Bytestring.thy ===== *)
theory Bytestring
  imports Cbb_Live
begin

text \<open>
  The properties of BoringSSL's byte-string library: the reader accepts exactly DER, the
  writer refines the closing of a stack of byte strings, and values survive the way through
  both. The allocator of the witnesses serves requests below 4096 bytes.
\<close>

definition sample_cbb :: cbb where
  "sample_cbb = snd (CBB_init sample_malloc 16)"

lemma sample_settled: "settled 0 sample_cbb"
proof -
  have "cbb_ok sample_cbb"
    unfolding sample_cbb_def
    by (rule reachable_ok [OF cbb_reachable.init sample_malloc_ok]) simp
  moreover have "cbb_kids sample_cbb = []" "cbb_base sample_cbb \<noteq> None"
    "map_option bb_error (cbb_base sample_cbb) = Some False" by code_simp+
  ultimately show ?thesis by (auto simp: settled_def)
qed

lemma sample_contents: "cbb_contents sample_cbb = []"
  by code_simp

section \<open>DER\<close>

text \<open>C8: The reader of one DER element accepts exactly the bytes that DER assigns to a tag and
  contents, followed by anything: \<open>CBS_get_any_asn1\<close> returns some contents and tag and leaves
  \<open>c'\<close> if and only if the window is the tag, the minimal length and the contents before \<open>c'\<close>.
  So every accepted input has one parse and every value one encoding.\<close>

theorem get_any_asn1_exact:
  assumes "length c < 18446744073709551616"
  shows "CBS_get_any_asn1 c = (Some (body, tag), c')
    \<longleftrightarrow> length body < 4294967296 \<and> c = der_element tag body @ c'"
  by (rule any_asn1_iff [OF assms])

theorem get_any_asn1_exact_witness:
  "length [0x30, 0x03, 0x02, 0x01, 0x05, 0xaa :: u8] < 18446744073709551616
    \<and> CBS_get_any_asn1 [0x30, 0x03, 0x02, 0x01, 0x05, 0xaa] = (Some ([0x02, 0x01, 0x05], 0x20000010), [0xaa])"
proof -
  have "[0x30, 0x03, 0x02, 0x01, 0x05, 0xaa] = der_element 0x20000010 [0x02, 0x01, 0x05] @ [0xaa]"
    by code_simp
  then show ?thesis
    using get_any_asn1_exact [of "[0x30, 0x03, 0x02, 0x01, 0x05, 0xaa]" "[0x02, 0x01, 0x05]"
      "0x20000010" "[0xaa]"] by simp
qed

text \<open>C17: A signed 64-bit integer that \<open>CBB_add_asn1_int64\<close> has written, whatever was in the
  buffer and at whatever depth of the chain, is read back by \<open>CBS_get_asn1_int64\<close> from the
  bytes that were appended, and reading stops behind them; and any input from which the reader
  gets this value starts with exactly these bytes.\<close>

theorem asn1_int64_roundtrip:
  assumes "malloc_ok mal" "settled d st" "CBB_add_asn1_int64 mal d v st = (True, st')"
    and "length e + length c < 18446744073709551616" "cbb_contents st' = cbb_contents st @ e"
  shows "CBS_get_asn1_int64 (e @ c) = (Some v, c) \<and> settled d st'
    \<and> (\<forall>w. length w < 18446744073709551616 \<longrightarrow> CBS_get_asn1_int64 w = (Some v, c) \<longrightarrow> w = e @ c)"
proof -
  note x = emitsD [OF emits_asn1_int64 [OF assms(1)] assms(2,3)]
  have e: "e = der_element CBS_ASN1_INTEGER (int_body v)" using x(3) assms(5) by simp
  show ?thesis using asn1_int64_iff x(1) assms(4) by (auto simp: e)
qed

theorem asn1_int64_roundtrip_witness:
  "malloc_ok sample_malloc \<and> settled 0 sample_cbb
    \<and> fst (CBB_add_asn1_int64 sample_malloc 0 (- 129) sample_cbb)
    \<and> CBS_get_asn1_int64 ([2, 2, 0xff, 0x7f] @ [7]) = (Some (- 129), [7])"
proof -
  obtain r st' where e: "CBB_add_asn1_int64 sample_malloc 0 (- 129) sample_cbb = (r, st')" by fastforce
  have "fst (CBB_add_asn1_int64 sample_malloc 0 (- 129) sample_cbb)
    \<and> cbb_contents (snd (CBB_add_asn1_int64 sample_malloc 0 (- 129) sample_cbb)) = [2, 2, 0xff, 0x7f]"
    by code_simp
  then have r: "r" "cbb_contents st' = cbb_contents sample_cbb @ [2, 2, 0xff, 0x7f]"
    by (simp_all add: e sample_contents)
  then show ?thesis
    using asn1_int64_roundtrip [of sample_malloc 0 sample_cbb "- 129" st' "[2, 2, 0xff, 0x7f]" "[7]"]
      sample_malloc_ok sample_settled e by simp
qed

text \<open>The same for unsigned 64-bit integers: \<open>CBB_add_asn1_uint64\<close> writes the only
  encoding from which \<open>CBS_get_asn1_uint64\<close> reads the value.\<close>

theorem asn1_uint64_roundtrip:
  assumes "malloc_ok mal" "settled d st" "CBB_add_asn1_uint64 mal d v st = (True, st')"
    and "length e + length c < 18446744073709551616" "cbb_contents st' = cbb_contents st @ e"
  shows "CBS_get_asn1_uint64 (e @ c) = (Some v, c) \<and> settled d st'
    \<and> (\<forall>w. length w < 18446744073709551616 \<longrightarrow> CBS_get_asn1_uint64 w = (Some v, c) \<longrightarrow> w = e @ c)"
proof -
  note x = emitsD [OF emits_asn1_uint64 [OF assms(1)] assms(2,3)]
  have e: "e = der_element CBS_ASN1_INTEGER (uint_body v)" using x(3) assms(5) by simp
  show ?thesis using asn1_uint64_iff x(1) assms(4) by (auto simp: e)
qed

theorem asn1_uint64_roundtrip_witness:
  "malloc_ok sample_malloc \<and> settled 0 sample_cbb
    \<and> fst (CBB_add_asn1_uint64 sample_malloc 0 0x80 sample_cbb)
    \<and> CBS_get_asn1_uint64 ([2, 2, 0, 0x80] @ [7]) = (Some 0x80, [7])"
proof -
  obtain r st' where e: "CBB_add_asn1_uint64 sample_malloc 0 0x80 sample_cbb = (r, st')" by fastforce
  have "fst (CBB_add_asn1_uint64 sample_malloc 0 0x80 sample_cbb)
    \<and> cbb_contents (snd (CBB_add_asn1_uint64 sample_malloc 0 0x80 sample_cbb)) = [2, 2, 0, 0x80]"
    by code_simp
  then have r: "r" "cbb_contents st' = cbb_contents sample_cbb @ [2, 2, 0, 0x80]"
    by (simp_all add: e sample_contents)
  then show ?thesis
    using asn1_uint64_roundtrip [of sample_malloc 0 sample_cbb "0x80" st' "[2, 2, 0, 0x80]" "[7]"]
      sample_malloc_ok sample_settled e by simp
qed

section \<open>The chain of CBBs\<close>

text \<open>C9: \<open>CBB_flush\<close> refines the closing of a stack of byte strings. Seen through its contents,
  the chain below depth \<open>d\<close> is one byte string per CBB; a successful flush replaces the strings
  from \<open>d\<close> on by their concatenation with the length prefix of each child before its contents,
  the innermost first, leaves everything before them as it was, and ends the chain at \<open>d\<close>.\<close>

theorem flush_closes_children:
  assumes "malloc_ok mal" "cbb_reachable mal st" "CBB_flush mal d st = (True, st')"
  shows "let s = chain_end 0 (take d (cbb_kids st)); ks = drop d (cbb_kids st)
    in cbb_kids st' = take d (cbb_kids st)
      \<and> Some (cbb_contents st') = map_option (\<lambda>y. take s (cbb_contents st) @ y)
          (close_frames (kinds ks) (frames s (cbb_contents st) ks))"
  using CBB_flush_ok [OF assms(1) reachable_ok [OF assms(2,1)] assms(3)]
  by (auto simp: Let_def cbb_contents_def)

definition nested_cbb :: cbb where
  "nested_cbb = snd (CBB_add_bytes sample_malloc 2 [9, 8] (snd (CBB_add_asn1 sample_malloc 1 0x20000010
    (snd (CBB_add_u8 sample_malloc 1 5 (snd (CBB_add_u16_length_prefixed sample_malloc 0 sample_cbb)))))))"

lemma nested_reachable: "cbb_reachable sample_malloc nested_cbb"
  unfolding nested_cbb_def sample_cbb_def
  by (intro cbb_reachable.step [OF _ cbb_step.add_bytes] cbb_reachable.step [OF _ cbb_step.add_asn1]
      cbb_reachable.step [OF _ cbb_step.add_u8] cbb_reachable.step [OF _ cbb_step.u16_prefixed]
      cbb_reachable.init) simp_all

theorem flush_closes_children_witness:
  "malloc_ok sample_malloc \<and> cbb_reachable sample_malloc nested_cbb
    \<and> fst (CBB_flush sample_malloc 0 nested_cbb)
    \<and> cbb_contents (snd (CBB_flush sample_malloc 0 nested_cbb)) = [0, 5, 5, 0x30, 2, 9, 8]"
proof -
  obtain r st' where e: "CBB_flush sample_malloc 0 nested_cbb = (r, st')" by fastforce
  have r: "fst (CBB_flush sample_malloc 0 nested_cbb)" by code_simp
  have "kinds (cbb_kids nested_cbb) = [(False, 2), (True, 1)]"
    "frames 0 (cbb_contents nested_cbb) (cbb_kids nested_cbb) = [[], [5, 0x30], [9, 8]]"
    by code_simp+
  moreover have "cbb_prefix True 1 2 = Some [2]" by (simp add: cbb_prefix_def der_length_def)
  moreover have "cbb_prefix False 2 5 = Some [0, 5]"
  proof -
    have "be_bytes 2 5 = [0, 5]" by code_simp
    then show ?thesis by (simp add: cbb_prefix_def)
  qed
  ultimately have "close_frames (kinds (cbb_kids nested_cbb))
      (frames 0 (cbb_contents nested_cbb) (cbb_kids nested_cbb)) = Some [0, 5, 5, 0x30, 2, 9, 8]"
    by (simp add: numeral_eq_Suc)
  then show ?thesis
    using flush_closes_children [OF sample_malloc_ok nested_reachable, of 0 st'] r
      sample_malloc_ok nested_reachable
    by (simp add: e Let_def)
qed

text \<open>C10: No sequence of calls on a chain of CBBs, failing calls included, gets out of the
  allocated block, as long as no request is one of those for which the addition in
  \<open>OPENSSL_malloc\<close> wraps (\<open>request_fits\<close>, see the last property of this section for those): in every
  state reached the block has the size recorded as the capacity, the length is within it, and the
  pending prefixes lie one behind the other within the length.\<close>

theorem cbb_stays_in_block:
  assumes "malloc_ok mal" "cbb_reachable mal st" "cbb_base st = Some b"
  shows "length (bb_data b) = unat (bb_cap b) \<and> unat (bb_len b) \<le> unat (bb_cap b)
    \<and> chain_ok 0 (cbb_kids st) \<and> chain_end 0 (cbb_kids st) \<le> unat (bb_len b)"
  using reachable_ok [OF assms(2,1)] assms(3) bb_okD [of b] by (simp add: cbb_ok_def)

theorem cbb_stays_in_block_witness:
  "malloc_ok sample_malloc \<and> cbb_reachable sample_malloc nested_cbb
    \<and> cbb_base nested_cbb \<noteq> None \<and> chain_end 0 (cbb_kids nested_cbb) = 5
    \<and> chain_end 0 (cbb_kids nested_cbb) \<le> unat (bb_len (the (cbb_base nested_cbb)))"
proof -
  have "map_option bb_error (cbb_base nested_cbb) = Some False" by code_simp
  then have b: "cbb_base nested_cbb \<noteq> None" by auto
  have k: "chain_end 0 (cbb_kids nested_cbb) = 5" by code_simp
  from b obtain b where "cbb_base nested_cbb = Some b" by auto
  from cbb_stays_in_block [OF sample_malloc_ok nested_reachable this] this b k show ?thesis
    using sample_malloc_ok nested_reachable by simp
qed

text \<open>C18: A successful \<open>CBB_flush_asn1_set_of\<close> leaves in the child the same DER elements as
  before, with their number of occurrences, in ascending order of their encodings.\<close>

theorem set_of_is_sorted:
  assumes "malloc_ok mal" "settled d st" "CBB_flush_asn1_set_of mal d st = (True, st')"
  shows "\<exists>xs ys. CBB_data d st = concat xs \<and> CBB_data d st' = concat ys \<and> mset ys = mset xs
    \<and> sorted_wrt lex_le ys \<and> (\<forall>x \<in> set xs. \<exists>tag body. x = der_element tag body)"
  using set_of_sorts [OF assms] by blast

definition set_cbb :: cbb where
  "set_cbb = snd (CBB_add_bytes sample_malloc 0 [4, 1, 9, 2, 1, 7] sample_cbb)"

lemma set_settled: "settled 0 set_cbb"
proof -
  obtain r st' where e: "CBB_add_bytes sample_malloc 0 [4, 1, 9, 2, 1, 7] sample_cbb = (r, st')" by fastforce
  have "fst (CBB_add_bytes sample_malloc 0 [4, 1, 9, 2, 1, 7] sample_cbb)" by code_simp
  then show ?thesis
    using emitsD(1) [OF emits_add_bytes [OF sample_malloc_ok] sample_settled, of "[4, 1, 9, 2, 1, 7]" st']
    by (simp add: set_cbb_def e)
qed

theorem set_of_is_sorted_witness:
  "malloc_ok sample_malloc \<and> settled 0 set_cbb \<and> fst (CBB_flush_asn1_set_of sample_malloc 0 set_cbb)
    \<and> CBB_data 0 (snd (CBB_flush_asn1_set_of sample_malloc 0 set_cbb)) = [2, 1, 7, 4, 1, 9]
    \<and> (\<exists>ys. CBB_data 0 (snd (CBB_flush_asn1_set_of sample_malloc 0 set_cbb)) = concat ys
        \<and> sorted_wrt lex_le ys)"
proof -
  obtain r st' where e: "CBB_flush_asn1_set_of sample_malloc 0 set_cbb = (r, st')" by fastforce
  have r: "fst (CBB_flush_asn1_set_of sample_malloc 0 set_cbb)"
    "CBB_data 0 (snd (CBB_flush_asn1_set_of sample_malloc 0 set_cbb)) = [2, 1, 7, 4, 1, 9]"
    by code_simp+
  from r(1) e have "CBB_flush_asn1_set_of sample_malloc 0 set_cbb = (True, st')" by simp
  from set_of_is_sorted [OF sample_malloc_ok set_settled this] r sample_malloc_ok set_settled
  show ?thesis by (auto simp: e)
qed

section \<open>Failures\<close>















text \<open>C34: These are the requests that the invariant leaves out. The size that \<open>OPENSSL_malloc\<close>
  hands to the system wraps when the prefix of eight bytes is added: if the new length of a
  resizable CBB is one of the last eight values of \<open>size_t\<close>, the system is asked for less than
  eight bytes, and if it has them the request is served by a block without a single byte, and
  \<open>CBB_reserve\<close> succeeds and records the whole length as the capacity.\<close>

theorem malloc_size_wraps:
  assumes "settled d st" "cbb_base st = Some b" "bb_can_resize b" "malloc_ok mal"
    and "18446744073709551608 \<le> unat (bb_len b) + unat n" "unat (bb_len b) + unat n < 18446744073709551616"
    and "mal (bb_len b + n + 8) = Some blk"
  shows "length blk < 8 \<and> OPENSSL_malloc mal (bb_len b + n) = Some \<lparr>ob_size = bb_len b + n, ob_data = []\<rparr>
    \<and> fst (CBB_reserve mal d n st)
    \<and> (\<exists>b'. cbb_base (snd (CBB_reserve mal d n st)) = Some b' \<and> bb_cap b' = bb_len b + n)"
proof -
  let ?s = "bb_len b + n"
  have s: "unat ?s = unat (bb_len b) + unat n" using assms(6) by (rule unat_plus_no_overflow_u64)
  have "unat (?s + 8) = unat ?s + 8 - 18446744073709551616"
    using le_mod_geq [of 18446744073709551616 "unat ?s + 8"] assms(5,6) s unfolding unat_word_ariths(1) [of ?s 8] by simp
  then have l: "length blk < 8" using assms(4,6,7) s by (auto simp: malloc_ok_def)
  then have m: "OPENSSL_malloc mal ?s = Some \<lparr>ob_size = ?s, ob_data = []\<rparr>"
    using assms(7) by (simp add: OPENSSL_malloc_def OPENSSL_MALLOC_PREFIX_def)
  have ok: "bb_ok b" using assms(1,2) by (simp add: settled_def cbb_ok_def)
  note bd = bb_okD [OF ok]
  have c: "unat (bb_cap b * 2) = unat (bb_cap b) * 2" using bd by (simp add: unat_word_ariths)
  have cmp: "\<not> ?s < bb_len b" "?s > bb_cap b" "bb_cap b * 2 < ?s" using s c bd assms(5) by (simp_all add: word_less_nat_alt)
  obtain nb where "OPENSSL_realloc mal (bb_buf b) ?s = Some nb"
    using m by (cases "bb_buf b") (simp_all add: OPENSSL_realloc_def Let_def)
  then have "cbb_buffer_reserve mal b n = (True, b\<lparr>bb_buf := Some nb, bb_cap := ?s\<rparr>)"
    using cmp assms(3) by (simp add: cbb_buffer_reserve_def Let_def)
  then show ?thesis
    using l m assms(2) by (simp add: CBB_reserve_def flush_then_def flush_settled [OF assms(1)] on_base_def)
qed

theorem malloc_size_wraps_witness:
  "fst (CBB_reserve sample_malloc 0 (- 8) sample_cbb)"
proof -
  have "map_option (\<lambda>b. (bb_len b, bb_can_resize b)) (cbb_base sample_cbb) = Some (0, True)" by code_simp
  then obtain b where b: "cbb_base sample_cbb = Some b" "bb_len b = 0" "bb_can_resize b" by auto
  have "sample_malloc (bb_len b + (- 8) + 8) = Some []" by (simp add: b(2) sample_malloc_def)
  from malloc_size_wraps [OF sample_settled b(1,3) sample_malloc_ok _ _ this] b(2) show ?thesis by simp
qed

section \<open>Success\<close>

lemma init_total:
  assumes r: "roomy mal N" and n: "unat cap + 8 < N" "40 < N"
  shows "\<exists>st. CBB_init mal cap = (True, st) \<and> settled 0 st \<and> resizable st \<and> cbb_contents st = []"
proof -
  obtain buf x where b: "OPENSSL_malloc mal cap = Some buf" "OPENSSL_malloc mal 32 = Some x"
    using malloc_total [OF r n(1)] malloc_total [OF r, of 32] n(2) by auto
  let ?st = "\<lparr>cbb_base = Some \<lparr>bb_buf = Some buf, bb_len = 0, bb_cap = cap,
        bb_can_resize = True, bb_error = False\<rparr>, cbb_kids = []\<rparr>"
  have i: "CBB_init mal cap = (True, ?st)" using b by (simp add: CBB_init_def cbb_init_def Let_def)
  have "malloc_ok mal" "unat cap < 9223372036854775808" using r n by (simp_all add: roomy_def)
  then have "cbb_ok ?st" using init_ok [of mal cap] i by simp
  then show ?thesis using i by (simp add: settled_def resizable_def cbb_contents_def bb_contents_def)
qed

lemma finish_total:
  assumes "settled 0 st" "cbb_contents st \<noteq> []"
  shows "\<exists>buf len. fst (CBB_finish mal True 0 st) = Some (Some buf, len)
    \<and> take (unat len) (ob_data buf) = cbb_contents st"
proof -
  obtain b where b: "cbb_base st = Some b" using assms(1) by (auto simp: settled_def)
  then have "bb_contents b \<noteq> []" using assms(2) by (simp add: cbb_contents_def)
  then obtain buf where "bb_buf b = Some buf" by (cases "bb_buf b") (auto simp: bb_contents_def bb_data_def)
  then show ?thesis
    using b by (simp add: CBB_finish_def flush_settled [OF assms(1)] cbb_contents_def bb_contents_def bb_data_def)
qed

text \<open>C16: Building is not only right when it succeeds, it does succeed: with an allocator that
  serves every request below \<open>N\<close> bytes, an octet string of any content of up to 2^32 - 2 bytes
  is written and finished, from any initial capacity and with all the growing and the moving
  of the contents behind a longer length that this takes, as soon as \<open>N\<close> is above twice the
  result; and the reader finds the string in the finished block, with nothing behind it.\<close>

theorem octet_string_is_written:
  assumes "roomy mal N" "length data \<le> 0xfffffffe" "unat cap + 8 < N" "2 * (length data + 20) + 8 < N"
  shows "\<exists>st0 st1 buf len. CBB_init mal cap = (True, st0)
    \<and> CBB_add_asn1_octet_string mal 0 data st0 = (True, st1)
    \<and> fst (CBB_finish mal True 0 st1) = Some (Some buf, len)
    \<and> CBS_get_asn1 CBS_ASN1_OCTETSTRING (take (unat len) (ob_data buf)) = (Some data, [])"
proof -
  obtain st0 where 0: "CBB_init mal cap = (True, st0)" "settled 0 st0" "resizable st0" "cbb_contents st0 = []"
    using init_total [OF assms(1,3)] assms(4) by auto
  have tag: "length (der_tag CBS_ASN1_OCTETSTRING) = 1" by (simp add: der_tag_def)
  have dl: "length (der_length n) \<le> 5" for n
    using der_len_len_bounds [of n] by (auto simp: der_length_def)
  have len: "length (der_element CBS_ASN1_OCTETSTRING data) \<le> length data + 6"
    using dl [of "length data"] by (simp add: der_element_Cons_tag tag)
  have n: "2 * (length (cbb_contents st0) + length (der_element CBS_ASN1_OCTETSTRING data)) + 8 < N"
    using assms(4) len 0(4) by simp
  obtain st1 where 1: "CBB_add_asn1_octet_string mal 0 data st0 = (True, st1)" "settled 0 st1"
    "cbb_contents st1 = der_element CBS_ASN1_OCTETSTRING data"
    using yieldsD [OF yields_octet_string [OF assms(1,2)] 0(2,3) n] 0(4) by auto
  obtain buf len where 2: "fst (CBB_finish mal True 0 st1) = Some (Some buf, len)"
    "take (unat len) (ob_data buf) = der_element CBS_ASN1_OCTETSTRING data"
    using finish_total [OF 1(2)] 1(3) der_element_nonempty by metis
  have "CBS_get_asn1 CBS_ASN1_OCTETSTRING (take (unat len) (ob_data buf)) = (Some data, [])"
    unfolding 2(2)
    using get_asn1_iff [of "der_element CBS_ASN1_OCTETSTRING data" _ data "[]"] len assms(2) by simp
  then show ?thesis using 0(1) 1(1) 2(1) by blast
qed

theorem octet_string_is_written_witness:
  "\<exists>st0 st1 buf len. CBB_init sample_malloc 0 = (True, st0)
    \<and> CBB_add_asn1_octet_string sample_malloc 0 (replicate 200 7) st0 = (True, st1)
    \<and> fst (CBB_finish sample_malloc True 0 st1) = Some (Some buf, len)
    \<and> CBS_get_asn1 CBS_ASN1_OCTETSTRING (take (unat len) (ob_data buf)) = (Some (replicate 200 7), [])"
  using octet_string_is_written [OF sample_roomy, of "replicate 200 7" 0] by simp

section \<open>Length prefixes\<close>

text \<open>What is written into a child with a 24-bit length prefix is what
  \<open>CBS_get_u24_length_prefixed\<close> gets out again, whatever the child was filled by: if filling
  it appends \<open>body\<close>, opening, filling and flushing appends bytes from which the reader
  returns \<open>body\<close>, and it stops behind them.\<close>

theorem u24_length_prefixed_roundtrip:
  assumes "malloc_ok mal" "settled d st" "emits (Suc d) fill body" "length body < 2 ^ 24"
    and "and_then (CBB_add_u24_length_prefixed mal d) (and_then fill (CBB_flush mal d)) st = (True, st')"
  shows "\<exists>e. cbb_contents st' = cbb_contents st @ e \<and> settled d st'
    \<and> (\<forall>c. CBS_get_u24_length_prefixed (e @ c) = (Some body, c))"
proof -
  have "emits d (and_then (CBB_add_u24_length_prefixed mal d) (and_then fill (CBB_flush mal d)))
      (be_bytes 3 (word_of_nat (length body)) @ body)"
    using emits_length_prefixed [OF assms(1,3), of 3] by (simp add: CBB_add_u24_length_prefixed_def)
  note x = emitsD [OF this assms(2,5)]
  have u: "unat (word_of_nat (length body) :: u64) = length body" using assms(4) by simp
  have "be_word (be_bytes 3 (word_of_nat (length body))) = word_of_nat (length body)"
    using u assms(4) by (intro be_word_be_bytes) simp
  then have "CBS_get_u24_length_prefixed ((be_bytes 3 (word_of_nat (length body)) @ body) @ c) = (Some body, c)" for c
    using u by (simp add: CBS_get_u24_length_prefixed_def cbs_get_length_prefixed_def
        cbs_get_u_append CBS_get_bytes_def cbs_get_append)
  then show ?thesis using x by blast
qed

theorem u24_length_prefixed_roundtrip_witness:
  "settled 0 sample_cbb \<and> emits 1 (CBB_add_u8 sample_malloc 1 9) [9]
   \<and> fst (and_then (CBB_add_u24_length_prefixed sample_malloc 0)
      (and_then (CBB_add_u8 sample_malloc 1 9) (CBB_flush sample_malloc 0)) sample_cbb)
   \<and> (\<exists>e. \<forall>c. CBS_get_u24_length_prefixed (e @ c) = (Some [9], c))"
proof -
  let ?op = "and_then (CBB_add_u24_length_prefixed sample_malloc 0)
      (and_then (CBB_add_u8 sample_malloc 1 9) (CBB_flush sample_malloc 0))"
  have f: "fst (?op sample_cbb)" by code_simp
  then obtain st' where e: "?op sample_cbb = (True, st')" by (metis prod.collapse)
  have g: "emits (Suc 0) (CBB_add_u8 sample_malloc 1 9) [9]"
    using emits_add_u8 [OF sample_malloc_ok] by simp
  from u24_length_prefixed_roundtrip [OF sample_malloc_ok sample_settled g _ e]
  show ?thesis using f g sample_settled by auto
qed

end
