(* ===== verification/Unicode.thy ===== *)
theory Unicode
  imports Bytestring
begin

text \<open>
  BoringSSL's \<open>crypto/bytestring/unicode.c\<close>: code points in UTF-8, Latin-1, UCS-2 and UTF-32,
  read from a CBS and written to a CBB. The UTF-8 reader accepts exactly what the writer
  writes: no overlong form, no surrogate and no reserved code point.
\<close>

section \<open>The code\<close>

definition is_valid_code_point :: "u32 \<Rightarrow> bool" where
  "is_valid_code_point v = (if v > 0x10ffff \<or> v AND 0xfffe = 0xfffe \<or> (v \<ge> 0xfdd0 \<and> v \<le> 0xfdef)
     \<or> (v \<ge> 0xd800 \<and> v \<le> 0xdfff) then False else True)"

definition BOTTOM_BITS :: "nat \<Rightarrow> u8" where
  "BOTTOM_BITS n = push_bit n 1 - 1"

definition TOP_BITS :: "nat \<Rightarrow> u8" where
  "TOP_BITS n = NOT (BOTTOM_BITS (8 - n))"

text \<open>The loop over the continuation bytes.\<close>

fun utf8_loop :: "nat \<Rightarrow> u32 \<Rightarrow> cbs \<Rightarrow> u32 option \<times> cbs" where
  "utf8_loop 0 v cbs = (Some v, cbs)"
| "utf8_loop (Suc n) v cbs = (case CBS_get_u8 cbs of
      (None, c') \<Rightarrow> (None, c')
    | (Some c, c') \<Rightarrow> if c AND TOP_BITS 2 \<noteq> TOP_BITS 1 then (None, c')
        else utf8_loop n (push_bit 6 v OR ucast (c AND BOTTOM_BITS 6)) c')"

definition cbs_get_utf8 :: "cbs \<Rightarrow> u32 option \<times> cbs" where
  "cbs_get_utf8 cbs = (case CBS_get_u8 cbs of
      (None, c') \<Rightarrow> (None, c')
    | (Some c, c') \<Rightarrow>
        let finish = (\<lambda>v len lower_bound. case utf8_loop len v c' of
              (None, c'') \<Rightarrow> (None, c'')
            | (Some w, c'') \<Rightarrow>
                if \<not> is_valid_code_point w \<or> w < lower_bound then (None, c'') else (Some w, c''))
        in if c \<le> 0x7f then (Some (ucast c), c')
           else if c AND TOP_BITS 3 = TOP_BITS 2 then finish (ucast (c AND BOTTOM_BITS 5)) 1 0x80
           else if c AND TOP_BITS 4 = TOP_BITS 3 then finish (ucast (c AND BOTTOM_BITS 4)) 2 0x800
           else if c AND TOP_BITS 5 = TOP_BITS 4 then finish (ucast (c AND BOTTOM_BITS 3)) 3 0x10000
           else (None, c'))"

definition cbs_get_latin1 :: "cbs \<Rightarrow> u32 option \<times> cbs" where
  "cbs_get_latin1 cbs = (case CBS_get_u8 cbs of
      (None, c) \<Rightarrow> (None, c) | (Some v, c) \<Rightarrow> (Some (ucast v), c))"

definition cbs_get_ucs2_be :: "cbs \<Rightarrow> u32 option \<times> cbs" where
  "cbs_get_ucs2_be cbs = (case CBS_get_u16 cbs of
      (None, c) \<Rightarrow> (None, c)
    | (Some v, c) \<Rightarrow> if \<not> is_valid_code_point (ucast v) then (None, c) else (Some (ucast v), c))"

definition cbs_get_utf32_be :: "cbs \<Rightarrow> u32 option \<times> cbs" where
  "cbs_get_utf32_be cbs = (case CBS_get_u32 cbs of
      (None, c) \<Rightarrow> (None, c)
    | (Some v, c) \<Rightarrow> if is_valid_code_point v then (Some v, c) else (None, c))"

definition cbb_get_utf8_len :: "u32 \<Rightarrow> nat" where
  "cbb_get_utf8_len u = (if u \<le> 0x7f then 1 else if u \<le> 0x7ff then 2 else if u \<le> 0xffff then 3 else 4)"

definition cbb_add_utf8 :: "sys_malloc \<Rightarrow> nat \<Rightarrow> u32 \<Rightarrow> cbb \<Rightarrow> bool \<times> cbb" where
  "cbb_add_utf8 mal d u =
    (let put = CBB_add_u8 mal d;
         tail_byte = (\<lambda>i. TOP_BITS 1 OR ucast (drop_bit i u AND ucast (BOTTOM_BITS 6)))
     in if \<not> is_valid_code_point u then Pair False
        else if u \<le> 0x7f then put (ucast u)
        else if u \<le> 0x7ff then
          and_then (put (TOP_BITS 2 OR ucast (drop_bit 6 u))) (put (tail_byte 0))
        else if u \<le> 0xffff then
          and_then (put (TOP_BITS 3 OR ucast (drop_bit 12 u)))
            (and_then (put (tail_byte 6)) (put (tail_byte 0)))
        else if u \<le> 0x10ffff then
          and_then (put (TOP_BITS 4 OR ucast (drop_bit 18 u)))
            (and_then (put (tail_byte 12)) (and_then (put (tail_byte 6)) (put (tail_byte 0))))
        else Pair False)"

definition cbb_add_latin1 :: "sys_malloc \<Rightarrow> nat \<Rightarrow> u32 \<Rightarrow> cbb \<Rightarrow> bool \<times> cbb" where
  "cbb_add_latin1 mal d u = (if u \<le> 0xff then CBB_add_u8 mal d (ucast u) else Pair False)"

definition cbb_add_ucs2_be :: "sys_malloc \<Rightarrow> nat \<Rightarrow> u32 \<Rightarrow> cbb \<Rightarrow> bool \<times> cbb" where
  "cbb_add_ucs2_be mal d u =
    (if u \<le> 0xffff \<and> is_valid_code_point u then CBB_add_u16 mal d (ucast u) else Pair False)"

definition cbb_add_utf32_be :: "sys_malloc \<Rightarrow> nat \<Rightarrow> u32 \<Rightarrow> cbb \<Rightarrow> bool \<times> cbb" where
  "cbb_add_utf32_be mal d u = (if is_valid_code_point u then CBB_add_u32 mal d u else Pair False)"

section \<open>UTF-8 as a function\<close>

definition tail_byte :: "u32 \<Rightarrow> nat \<Rightarrow> u8" where
  "tail_byte u i = 0x80 OR (ucast (drop_bit (6 * i) u) AND 0x3f)"

definition utf8_bytes :: "u32 \<Rightarrow> bytes" where
  "utf8_bytes u = (if u \<le> 0x7f then [ucast u]
    else if u \<le> 0x7ff then (0xc0 OR ucast (drop_bit 6 u)) # map (tail_byte u) (rev [0..<1])
    else if u \<le> 0xffff then (0xe0 OR ucast (drop_bit 12 u)) # map (tail_byte u) (rev [0..<2])
    else (0xf0 OR ucast (drop_bit 18 u)) # map (tail_byte u) (rev [0..<3]))"

lemma bits_values:
  "BOTTOM_BITS 3 = 0x07" "BOTTOM_BITS 4 = 0x0f" "BOTTOM_BITS 5 = 0x1f" "BOTTOM_BITS 6 = 0x3f"
  "TOP_BITS 1 = 0x80" "TOP_BITS (Suc 0) = 0x80" "TOP_BITS 2 = 0xc0" "TOP_BITS 3 = 0xe0" "TOP_BITS 4 = 0xf0" "TOP_BITS 5 = 0xf8"
  by code_simp+

lemma bit_int_utf8 [simp]:
  "bit (63 :: int) n \<longleftrightarrow> n < 6" "bit (15 :: int) n \<longleftrightarrow> n < 4" "bit (7 :: int) n \<longleftrightarrow> n < 3"
  "bit (192 :: int) n \<longleftrightarrow> 6 \<le> n \<and> n < 8" "bit (240 :: int) n \<longleftrightarrow> 4 \<le> n \<and> n < 8"
  "bit (248 :: int) n \<longleftrightarrow> 3 \<le> n \<and> n < 8"
proof -
  have m: "(63 :: int) = mask 6" "(15 :: int) = mask 4" "(7 :: int) = mask 3"
    "(192 :: int) = push_bit 6 (mask 2)" "(240 :: int) = push_bit 4 (mask 4)"
    "(248 :: int) = push_bit 3 (mask 5)"
    by (simp_all add: mask_eq_exp_minus_1 push_bit_eq_mult)
  show "bit (63 :: int) n \<longleftrightarrow> n < 6" "bit (15 :: int) n \<longleftrightarrow> n < 4" "bit (7 :: int) n \<longleftrightarrow> n < 3"
    "bit (192 :: int) n \<longleftrightarrow> 6 \<le> n \<and> n < 8" "bit (240 :: int) n \<longleftrightarrow> 4 \<le> n \<and> n < 8"
    "bit (248 :: int) n \<longleftrightarrow> 3 \<le> n \<and> n < 8"
    by (simp only: m bit_push_bit_iff bit_mask_iff; auto)+
qed

lemma lead_split:
  fixes b :: u8
  assumes "b AND hi = lead" "hi OR lo = - 1" "hi AND lo = 0" "lead AND lo = 0"
  shows "b = lead OR (b AND lo)"
proof (rule bit_word_eqI)
  fix n
  assume n: "n < LENGTH(8)"
  have "bit (b AND hi) n = bit lead n" "bit (hi OR lo) n = bit (- 1 :: u8) n"
    "bit (hi AND lo) n = bit (0 :: u8) n" using assms by simp_all
  then show "bit b n = bit (lead OR (b AND lo)) n" using n by (auto simp: bit_simps)
qed

lemma tail_test: "tail_byte u i AND 0xc0 = 0x80" "tail_byte u i AND 0x3f = ucast (drop_bit (6 * i) u) AND 0x3f"
  by (rule bit_word_eqI, auto simp: tail_byte_def bit_simps)+

text \<open>The loop accepts exactly the continuation bytes of the value it returns.\<close>

lemma utf8_loop_iff:
  "unat v < 2 ^ (32 - 6 * n) \<Longrightarrow> 6 * n \<le> 24
    \<Longrightarrow> utf8_loop n v c = (Some w, c')
      \<longleftrightarrow> c = map (tail_byte w) (rev [0..<n]) @ c' \<and> drop_bit (6 * n) w = v"
proof (induction n arbitrary: v c)
  case 0
  then show ?case by auto
next
  case (Suc n)
  show ?case
  proof (cases c)
    case Nil
    then show ?thesis by simp
  next
    case (Cons b c1)
    let ?v = "push_bit 6 v OR ucast (b AND 0x3f) :: u32"
    have hv: "\<not> bit v k" if "32 - 6 * Suc n \<le> k" for k
      using not_bit_above [OF Suc.prems(1)] that by simp
    have lt: "unat ?v < 2 ^ (32 - 6 * n)"
      by (rule unat_less_if_bits) (use Suc.prems(2) hv in \<open>auto simp: bit_simps\<close>)
    have hv6: "k < 26" if "bit v k" for k
    proof (rule ccontr)
      assume "\<not> k < 26"
      then have "32 - 6 * Suc n \<le> k" by simp
      then show False using hv that by blast
    qed
    have d6: "drop_bit 6 ?v = v"
      by (rule bit_word_eqI) (auto simp: bit_simps dest: hv6)
    have dd: "drop_bit (6 * Suc n) w = drop_bit 6 (drop_bit (6 * n) w)"
      by (simp add: drop_bit_drop_bit)
    have b: "b = 0x80 OR (b AND 0x3f)" if "b AND 0xc0 = 0x80"
      using lead_split [OF that, of "0x3f"] by simp
    have tb: "tail_byte w n = 0x80 OR (ucast (drop_bit (6 * n) w) AND 0x3f)" by (simp add: tail_byte_def)
    have lo: "ucast ?v AND 0x3f = b AND (0x3f :: u8)"
      by (rule bit_word_eqI) (auto simp: bit_simps)
    have "utf8_loop (Suc n) v c = (Some w, c')
        \<longleftrightarrow> b AND 0xc0 = 0x80 \<and> utf8_loop n ?v c1 = (Some w, c')"
      by (auto simp: Cons bits_values)
    also have "\<dots> \<longleftrightarrow> b AND 0xc0 = 0x80 \<and> c1 = map (tail_byte w) (rev [0..<n]) @ c' \<and> drop_bit (6 * n) w = ?v"
      using Suc.IH [OF lt] Suc.prems(2) by simp
    also have "\<dots> \<longleftrightarrow> b = tail_byte w n \<and> c1 = map (tail_byte w) (rev [0..<n]) @ c' \<and> drop_bit (6 * Suc n) w = v"
    proof -
      have "b AND 0xc0 = 0x80 \<and> drop_bit (6 * n) w = ?v \<longleftrightarrow> b = tail_byte w n \<and> drop_bit (6 * Suc n) w = v"
      proof
        assume a: "b AND 0xc0 = 0x80 \<and> drop_bit (6 * n) w = ?v"
        then have "tail_byte w n = b" using b lo tb by simp
        then show "b = tail_byte w n \<and> drop_bit (6 * Suc n) w = v" using a d6 dd by simp
      next
        assume a: "b = tail_byte w n \<and> drop_bit (6 * Suc n) w = v"
        have "push_bit 6 (drop_bit 6 (drop_bit (6 * n) w))
            OR ucast (ucast (drop_bit (6 * n) w) AND 0x3f :: u8) = drop_bit (6 * n) w"
        proof (rule bit_word_eqI)
          fix k
          assume "k < LENGTH(32)"
          then show "bit (push_bit 6 (drop_bit 6 (drop_bit (6 * n) w))
              OR ucast (ucast (drop_bit (6 * n) w) AND 0x3f :: u8)) k = bit (drop_bit (6 * n) w) k"
            by (cases "k < 6") (auto simp: bit_simps)
        qed
        then show "b AND 0xc0 = 0x80 \<and> drop_bit (6 * n) w = ?v"
          using a tail_test [of w n] dd by simp
      qed
      then show ?thesis by blast
    qed
    finally show ?thesis by (auto simp: Cons)
  qed
qed

section \<open>The reader accepts exactly the writer's bytes\<close>

lemma valid_range: "is_valid_code_point u \<Longrightarrow> unat u \<le> 0x10ffff"
  by (auto simp: is_valid_code_point_def word_le_nat_alt word_less_nat_alt split: if_splits)

lemma drop_bit_u32_less: "unat (u :: u32) < 2 ^ (m + k) \<Longrightarrow> unat (drop_bit m u) < 2 ^ k"
  by (rule unat_less_if_bits) (use not_bit_above [of u "m + k"] in \<open>auto simp: bit_simps add.commute\<close>)

lemma u32_less_if_drop: "unat (drop_bit m (u :: u32)) < 2 ^ k \<Longrightarrow> unat u < 2 ^ (m + k)"
proof (rule unat_less_if_bits)
  fix n
  assume a: "unat (drop_bit m u) < 2 ^ k" "m + k \<le> n"
  then have "\<not> bit (drop_bit m u) (n - m)" using not_bit_above by (metis le_diff_conv2 le_add1 add.commute order_trans)
  then show "\<not> bit u n" using a(2) by (simp add: bit_simps)
qed

text \<open>A lead byte with its payload, for each of the three lengths.\<close>

lemma lead_bytes:
  "unat (x :: u32) < 32 \<Longrightarrow> (0xc0 OR ucast x :: u8) AND 0xe0 = 0xc0 \<and> ucast ((0xc0 OR ucast x :: u8) AND 0x1f) = x"
  "unat x < 16 \<Longrightarrow> (0xe0 OR ucast x :: u8) AND 0xf0 = 0xe0 \<and> ucast ((0xe0 OR ucast x :: u8) AND 0x0f) = x"
  "unat x < 8 \<Longrightarrow> (0xf0 OR ucast x :: u8) AND 0xf8 = 0xf0 \<and> ucast ((0xf0 OR ucast x :: u8) AND 0x07) = x"
proof -
  have nb: "k < j" if "unat x < 2 ^ j" "bit x k" for j k
    using not_bit_above [OF that(1), of k] that(2) by (cases "k < j") auto
  show "unat x < 32 \<Longrightarrow> (0xc0 OR ucast x :: u8) AND 0xe0 = 0xc0 \<and> ucast ((0xc0 OR ucast x :: u8) AND 0x1f) = x"
    by (rule conjI; rule bit_word_eqI) (auto simp: bit_simps dest: nb [of 5, simplified])
  show "unat x < 16 \<Longrightarrow> (0xe0 OR ucast x :: u8) AND 0xf0 = 0xe0 \<and> ucast ((0xe0 OR ucast x :: u8) AND 0x0f) = x"
    by (rule conjI; rule bit_word_eqI) (auto simp: bit_simps dest: nb [of 4, simplified])
  show "unat x < 8 \<Longrightarrow> (0xf0 OR ucast x :: u8) AND 0xf8 = 0xf0 \<and> ucast ((0xf0 OR ucast x :: u8) AND 0x07) = x"
    by (rule conjI; rule bit_word_eqI) (auto simp: bit_simps dest: nb [of 3, simplified])
qed

lemma lead_tests:
  "(0xe0 OR x :: u8) AND 0xe0 = 0xe0" "(0xf0 OR x :: u8) AND 0xe0 = 0xe0" "(0xf0 OR x :: u8) AND 0xf0 = 0xf0"
  by (rule bit_word_eqI, auto simp: bit_simps)+

lemma not_ascii: "bit (b :: u8) 7 \<Longrightarrow> \<not> b \<le> 0x7f"
proof
  assume b: "bit b 7" "b \<le> 0x7f"
  then have "unat b < 2 ^ 7" by (simp add: word_le_nat_alt)
  from not_bit_above [OF this, of 7] show False using b(1) by simp
qed

lemma ascii_u32: "(u :: u32) \<le> 0x7f \<Longrightarrow> (ucast u :: u8) \<le> 0x7f \<and> (ucast (ucast u :: u8) :: u32) = u"
proof -
  assume u: "u \<le> 0x7f"
  then have t: "take_bit 8 u = u" by (intro take_bit_self_if_unat_less) (simp add: word_le_nat_alt)
  moreover have "take_bit 8 (unat u) = unat u"
    using u by (intro take_bit_nat_eq_self) (simp add: word_le_nat_alt)
  ultimately show ?thesis using u by (simp add: word_le_nat_alt unsigned_ucast_eq unsigned_take_bit_eq)
qed

lemma utf8_parse:
  assumes v: "is_valid_code_point u"
  shows "cbs_get_utf8 (utf8_bytes u @ c) = (Some u, c)"
proof -
  have go: "utf8_loop n (drop_bit (6 * n) u) (map (tail_byte u) (rev [0..<n]) @ c) = (Some u, c)"
    if "unat (drop_bit (6 * n) u) < 2 ^ (32 - 6 * n)" "6 * n \<le> 24" for n
    using utf8_loop_iff [OF that] by simp
  note ev = bits_values Let_def
  consider "u \<le> 0x7f" | "\<not> u \<le> 0x7f" "u \<le> 0x7ff" | "\<not> u \<le> 0x7ff" "u \<le> 0xffff"
    | "\<not> u \<le> 0xffff" by blast
  then show ?thesis
  proof cases
    case 1
    then show ?thesis using ascii_u32 [OF 1] by (simp add: utf8_bytes_def cbs_get_utf8_def)
  next
    case 2
    have r: "unat (drop_bit 6 u) < 2 ^ 5"
      using 2 by (intro drop_bit_u32_less) (simp add: word_le_nat_alt)
    have h: "\<not> (0xc0 OR ucast (drop_bit 6 u) :: u8) \<le> 0x7f" by (rule not_ascii) (simp add: bit_simps)
    have "unat (drop_bit (6 * 1) u) < 2 ^ (32 - 6 * 1)" using r by simp
    from go [OF this] have g: "utf8_loop 1 (drop_bit 6 u) (map (tail_byte u) (rev [0..<1]) @ c) = (Some u, c)"
      by simp
    have u: "utf8_bytes u = (0xc0 OR ucast (drop_bit 6 u)) # map (tail_byte u) (rev [0..<1])"
      using 2 by (simp add: utf8_bytes_def)
    have lb: "\<not> u < 0x80" using 2 by (simp add: word_le_nat_alt word_less_nat_alt)
    show ?thesis
      unfolding u cbs_get_utf8_def append_Cons CBS_get_u8_Cons
      using h lead_bytes(1) [of "drop_bit 6 u"] r g v lb
      by (simp add: ev del: utf8_loop.simps One_nat_def upt_Suc)
  next
    case 3
    then have "u \<noteq> 0" "\<not> u \<le> 0x7f" by (auto simp: word_le_nat_alt)
    have r: "unat (drop_bit 12 u) < 2 ^ 4"
      using 3 by (intro drop_bit_u32_less) (simp add: word_le_nat_alt)
    have h: "\<not> (0xe0 OR ucast (drop_bit 12 u) :: u8) \<le> 0x7f" by (rule not_ascii) (simp add: bit_simps)
    have "unat (drop_bit (6 * 2) u) < 2 ^ (32 - 6 * 2)" using r by simp
    from go [OF this] have g: "utf8_loop 2 (drop_bit 12 u) (map (tail_byte u) (rev [0..<2]) @ c) = (Some u, c)"
      by simp
    have u: "utf8_bytes u = (0xe0 OR ucast (drop_bit 12 u)) # map (tail_byte u) (rev [0..<2])"
      using 3 \<open>\<not> u \<le> 0x7f\<close> by (simp add: utf8_bytes_def)
    have lb: "\<not> u < 0x800" using 3 by (simp add: word_le_nat_alt word_less_nat_alt)
    show ?thesis
      unfolding u cbs_get_utf8_def append_Cons CBS_get_u8_Cons
      using h lead_bytes(2) [of "drop_bit 12 u"] lead_tests(1) [of "ucast (drop_bit 12 u)"] r g v lb
      by (simp add: ev del: utf8_loop.simps One_nat_def upt_Suc)
  next
    case 4
    then have n: "\<not> u \<le> 0x7f" "\<not> u \<le> 0x7ff" by (auto simp: word_le_nat_alt)
    have r: "unat (drop_bit 18 u) < 2 ^ 3"
      using valid_range [OF v] by (intro drop_bit_u32_less) simp
    have h: "\<not> (0xf0 OR ucast (drop_bit 18 u) :: u8) \<le> 0x7f" by (rule not_ascii) (simp add: bit_simps)
    have "unat (drop_bit (6 * 3) u) < 2 ^ (32 - 6 * 3)" using r by simp
    from go [OF this] have g: "utf8_loop 3 (drop_bit 18 u) (map (tail_byte u) (rev [0..<3]) @ c) = (Some u, c)"
      by simp
    have u: "utf8_bytes u = (0xf0 OR ucast (drop_bit 18 u)) # map (tail_byte u) (rev [0..<3])"
      using 4 n by (simp add: utf8_bytes_def)
    have lb: "\<not> u < 0x10000" using 4 by (simp add: word_le_nat_alt word_less_nat_alt)
    show ?thesis
      unfolding u cbs_get_utf8_def append_Cons CBS_get_u8_Cons
      using h lead_bytes(3) [of "drop_bit 18 u"] lead_tests(2,3) [of "ucast (drop_bit 18 u)"] r g v lb
      by (simp add: ev del: utf8_loop.simps One_nat_def upt_Suc)
  qed
qed

lemma utf8_loopD:
  assumes "utf8_loop n (ucast (b AND m :: u8)) c = (Some u, c')" "unat (b AND m) < 2 ^ k" "k + 6 * n \<le> 21" "0 < n"
  shows "c = map (tail_byte u) (rev [0..<n]) @ c'" "ucast (drop_bit (6 * n) u) = b AND m"
    "unat u < 2 ^ (6 * n + k)"
proof -
  have w: "unat (ucast (b AND m) :: u32) = unat (b AND m)"
    using unat_u8_lt [of "b AND m"] by (simp add: unsigned_ucast_eq take_bit_nat_eq_self)
  have "(2 :: nat) ^ k \<le> 2 ^ (32 - 6 * n)" using assms(3) by (intro power_increasing) auto
  with assms(2) have "unat (b AND m) < 2 ^ (32 - 6 * n)" by (rule less_le_trans)
  then have lt: "unat (ucast (b AND m) :: u32) < 2 ^ (32 - 6 * n)" by (simp only: w)
  have "6 * n \<le> 24" using assms(3) by simp
  from utf8_loop_iff [OF lt this] assms(1)
  have c: "c = map (tail_byte u) (rev [0..<n]) @ c'" and d: "drop_bit (6 * n) u = ucast (b AND m)" by auto
  show "c = map (tail_byte u) (rev [0..<n]) @ c'" by (rule c)
  show "ucast (drop_bit (6 * n) u) = b AND m"
    unfolding d by (rule bit_word_eqI) (auto simp: bit_simps)
  show "unat u < 2 ^ (6 * n + k)"
    by (rule u32_less_if_drop) (simp add: d w assms(2))
qed

lemma utf8_parseD:
  assumes "cbs_get_utf8 c = (Some u, c')" "\<not> (\<exists>b c1. c = b # c1 \<and> b \<le> 0x7f)"
  shows "is_valid_code_point u \<and> c = utf8_bytes u @ c'"
proof -
  obtain b c1 where c: "c = b # c1" using assms(1) by (cases c) (auto simp: cbs_get_utf8_def)
  have b: "\<not> b \<le> 0x7f" using assms(2) c by blast
  define finish :: "u32 \<Rightarrow> nat \<Rightarrow> u32 \<Rightarrow> u32 option \<times> cbs" where
    "finish = (\<lambda>v len lower_bound. case utf8_loop len v c1 of
              (None, c'') \<Rightarrow> (None, c'')
            | (Some w, c'') \<Rightarrow>
                if \<not> is_valid_code_point w \<or> w < lower_bound then (None, c'') else (Some w, c''))"
  have fin: "utf8_loop n v c1 = (Some u, c') \<and> is_valid_code_point u \<and> \<not> u < lb"
    if "finish v n lb = (Some u, c')" for v n lb
    using that by (auto simp: finish_def split: prod.splits option.splits if_splits)
  have e: "cbs_get_utf8 c = (if b AND 0xe0 = 0xc0 then finish (ucast (b AND 0x1f)) 1 0x80
      else if b AND 0xf0 = 0xe0 then finish (ucast (b AND 0x0f)) 2 0x800
      else if b AND 0xf8 = 0xf0 then finish (ucast (b AND 0x07)) 3 0x10000 else (None, c1))"
    using b by (simp add: c cbs_get_utf8_def bits_values Let_def finish_def)
  have lt: "unat (b AND 0x1f) < 2 ^ 5" "unat (b AND 0x0f) < 2 ^ 4" "unat (b AND 0x07) < 2 ^ 3"
    by (rule unat_less_if_bits; auto simp: bit_simps)+
  consider "b AND 0xe0 = 0xc0" "finish (ucast (b AND 0x1f)) 1 0x80 = (Some u, c')"
    | "b AND 0xf0 = 0xe0" "finish (ucast (b AND 0x0f)) 2 0x800 = (Some u, c')"
    | "b AND 0xf8 = 0xf0" "finish (ucast (b AND 0x07)) 3 0x10000 = (Some u, c')"
    using assms(1) unfolding e by (auto split: if_splits)
  then show ?thesis
  proof cases
    case 1
    note f = fin [OF 1(2)]
    note d = utf8_loopD [OF conjunct1 [OF f] lt(1)]
    have "b = 0xc0 OR ucast (drop_bit 6 u)"
      using lead_split [OF 1(1), of "0x1f"] d(2) by simp
    moreover have "\<not> u \<le> 0x7f" "u \<le> 0x7ff"
      using f d(3) by (simp_all add: word_le_nat_alt word_less_nat_alt)
    ultimately show ?thesis using f d(1) c by (simp add: utf8_bytes_def)
  next
    case 2
    note f = fin [OF 2(2)]
    note d = utf8_loopD [OF conjunct1 [OF f] lt(2)]
    have "b = 0xe0 OR ucast (drop_bit 12 u)"
      using lead_split [OF 2(1), of "0x0f"] d(2) by simp
    moreover have "\<not> u \<le> 0x7f" "\<not> u \<le> 0x7ff" "u \<le> 0xffff"
      using f d(3) by (simp_all add: word_le_nat_alt word_less_nat_alt)
    ultimately show ?thesis using f d(1) c by (simp add: utf8_bytes_def)
  next
    case 3
    note f = fin [OF 3(2)]
    note d = utf8_loopD [OF conjunct1 [OF f] lt(3)]
    have "b = 0xf0 OR ucast (drop_bit 18 u)"
      using lead_split [OF 3(1), of "0x07"] d(2) by simp
    moreover have "\<not> u \<le> 0x7f" "\<not> u \<le> 0x7ff" "\<not> u \<le> 0xffff"
      using f by (simp_all add: word_le_nat_alt word_less_nat_alt)
    ultimately show ?thesis using f d(1) c by (simp add: utf8_bytes_def)
  qed
qed

lemma ascii_valid: "u \<le> 0x7f \<Longrightarrow> is_valid_code_point u"
proof -
  assume u: "u \<le> 0x7f"
  then have l: "unat u < 2 ^ 7" by (simp add: word_le_nat_alt)
  have "u AND 0xfffe \<noteq> 0xfffe"
  proof
    assume "u AND 0xfffe = 0xfffe"
    then have "bit (u AND 0xfffe) 8 = bit (0xfffe :: u32) 8" by simp
    moreover have "bit (0xfffe :: u32) 8" by simp
    ultimately show False using not_bit_above [OF l, of 8] by (simp add: bit_and_iff)
  qed
  then show ?thesis using u by (auto simp: is_valid_code_point_def word_le_nat_alt word_less_nat_alt)
qed

lemma utf8_iff: "cbs_get_utf8 c = (Some u, c') \<longleftrightarrow> is_valid_code_point u \<and> c = utf8_bytes u @ c'"
proof
  assume L: "cbs_get_utf8 c = (Some u, c')"
  show "is_valid_code_point u \<and> c = utf8_bytes u @ c'"
  proof (cases "\<exists>b c1. c = b # c1 \<and> b \<le> 0x7f")
    case False
    then show ?thesis by (rule utf8_parseD [OF L])
  next
    case True
    then obtain b c1 where b: "c = b # c1" "b \<le> 0x7f" by blast
    have "unat (ucast b :: u32) = unat b"
      using unat_u8_lt [of b] by (simp add: unsigned_ucast_eq take_bit_nat_eq_self)
    then have le: "(ucast b :: u32) \<le> 0x7f" using b(2) by (simp add: word_le_nat_alt)
    have "(ucast (ucast b :: u32) :: u8) = b" by (rule bit_word_eqI) (auto simp: bit_simps)
    moreover have "u = ucast b" "c' = c1" using L b by (simp_all add: cbs_get_utf8_def)
    ultimately show ?thesis using le ascii_valid [OF le] b(1) by (simp add: utf8_bytes_def)
  qed
next
  assume "is_valid_code_point u \<and> c = utf8_bytes u @ c'"
  then show "cbs_get_utf8 c = (Some u, c')" using utf8_parse by simp
qed

lemma tail_byte_code: "(TOP_BITS 1 OR ucast (drop_bit i (u :: u32) AND ucast (BOTTOM_BITS 6)) :: u8)
    = 0x80 OR (ucast (drop_bit i u) AND 0x3f)"
  by (rule bit_word_eqI) (auto simp: bits_values bit_simps)

lemma emits_utf8:
  assumes m: "malloc_ok mal"
  shows "emits d (cbb_add_utf8 mal d u) (utf8_bytes u)"
proof (cases "is_valid_code_point u")
  case False
  then show ?thesis by (simp add: cbb_add_utf8_def emits_Pair_False)
next
  case True
  have u: "u \<le> 0x10ffff" using valid_range [OF True] by (simp add: word_le_nat_alt)
  note e = emits_add_u8 [OF m, of d]
  have t: "map (tail_byte u) (rev [0..<1]) = [tail_byte u 0]"
    "map (tail_byte u) (rev [0..<2]) = [tail_byte u 1, tail_byte u 0]"
    "map (tail_byte u) (rev [0..<3]) = [tail_byte u 2, tail_byte u 1, tail_byte u 0]"
    by (simp_all add: numeral_2_eq_2 numeral_3_eq_3)
  have tb: "0x80 OR (ucast u AND 0x3f) = tail_byte u 0"
    "0x80 OR (ucast (drop_bit 6 u) AND 0x3f) = tail_byte u 1"
    "0x80 OR (ucast (drop_bit 12 u) AND 0x3f) = tail_byte u 2"
    by (simp_all add: tail_byte_def)
  have p: "put = CBB_add_u8 mal d \<Longrightarrow> emits d (and_then (put a) (put b)) [a, b]"
    "put = CBB_add_u8 mal d \<Longrightarrow> emits d (and_then (put a) (and_then (put b) (put x))) [a, b, x]"
    "put = CBB_add_u8 mal d \<Longrightarrow> emits d (and_then (put a) (and_then (put b) (and_then (put x) (put y)))) [a, b, x, y]"
    for put a b x y
    using emits_and_then [OF e e, of a b] emits_and_then [OF e emits_and_then [OF e e], of a b x]
      emits_and_then [OF e emits_and_then [OF e emits_and_then [OF e e]], of a b x y]
    by simp_all
  show ?thesis
    unfolding cbb_add_utf8_def Let_def utf8_bytes_def t tail_byte_code
    using True u e [of "ucast u"] p [OF refl] by (simp add: bits_values tb)
qed

lemma utf8_length: "cbb_get_utf8_len u = length (utf8_bytes u)"
  by (simp add: cbb_get_utf8_len_def utf8_bytes_def)

text \<open>C26: \<open>cbs_get_utf8\<close> accepts exactly the valid code points in their shortest form: it
  returns \<open>u\<close> and leaves \<open>c'\<close> if and only if \<open>u\<close> is a valid code point and the window is the
  UTF-8 of \<open>u\<close> before \<open>c'\<close>. Overlong forms, surrogates and reserved code points are refused.\<close>

theorem utf8_exact:
  "cbs_get_utf8 c = (Some u, c') \<longleftrightarrow> is_valid_code_point u \<and> c = utf8_bytes u @ c'"
  by (rule utf8_iff)

text \<open>A code point written by \<open>cbb_add_utf8\<close> takes as many bytes as \<open>cbb_get_utf8_len\<close> says,
  and \<open>cbs_get_utf8\<close> reads it back from them.\<close>

theorem utf8_roundtrip:
  assumes "malloc_ok mal" "settled d st" "cbb_add_utf8 mal d u st = (True, st')"
  shows "\<exists>e. cbb_contents st' = cbb_contents st @ e \<and> length e = cbb_get_utf8_len u \<and> settled d st'
    \<and> (\<forall>c. cbs_get_utf8 (e @ c) = (Some u, c))"
proof -
  have v: "is_valid_code_point u"
    using assms(3) by (cases "is_valid_code_point u") (simp_all add: cbb_add_utf8_def)
  show ?thesis
    using emitsD [OF emits_utf8 [OF assms(1)] assms(2,3)] utf8_length [of u] utf8_parse [OF v] by auto
qed

theorem utf8_roundtrip_witness:
  "settled 0 sample_cbb \<and> fst (cbb_add_utf8 sample_malloc 0 0x20ac sample_cbb)
    \<and> (\<exists>e. length e = 3 \<and> (\<forall>c. cbs_get_utf8 (e @ c) = (Some 0x20ac, c)))"
proof -
  have f: "fst (cbb_add_utf8 sample_malloc 0 0x20ac sample_cbb)" "cbb_get_utf8_len 0x20ac = 3" by code_simp+
  then obtain st' where e: "cbb_add_utf8 sample_malloc 0 0x20ac sample_cbb = (True, st')"
    by (cases "cbb_add_utf8 sample_malloc 0 0x20ac sample_cbb") auto
  from utf8_roundtrip [OF sample_malloc_ok sample_settled e] f sample_settled show ?thesis by auto
qed

end
