(* ===== verification/Oid.thy ===== *)
theory Oid
  imports Bytestring
begin

text \<open>
  Object identifiers: \<open>CBB_add_asn1_oid_from_text\<close> reads dotted decimal text and writes DER
  contents, \<open>CBS_asn1_oid_to_text\<close> goes the other way. Both are characterised by the list of
  arcs, and the second undoes the first.
\<close>

section \<open>Decimal numbers\<close>

definition digit :: "nat \<Rightarrow> u8" where
  "digit k = word_of_nat (48 + k)"

lemma dec_digits_step:
  "dec_digits n = (if n < 10 then [digit n] else dec_digits (n div 10) @ [digit (n mod 10)])"
  by (simp add: dec_digits.simps [of n] digit_def)

lemma dec_digits_not_Nil [simp]: "dec_digits n \<noteq> []"
  by (simp add: dec_digits_step [of n])

lemma dec_digits_snoc: "0 < n \<Longrightarrow> k < 10 \<Longrightarrow> dec_digits (n * 10 + k) = dec_digits n @ [digit k]"
  by (simp add: dec_digits_step [of "n * 10 + k"])

lemma digit_value: "k < 10 \<Longrightarrow> unat (digit k) = 48 + k"
proof -
  assume k: "k < 10"
  have "unat (word_of_nat (48 + k) :: u8) = 48 + k"
    by (rule of_nat_inverse [OF refl]) (use k in simp)
  then show ?thesis unfolding digit_def .
qed

lemma digit_props:
  assumes "k < 10"
  shows "digit k \<noteq> 0x2e" "\<not> digit k < 0x30" "\<not> digit k > 0x39"
    "unat (ucast (digit k - 0x30) :: u64) = k"
proof -
  note v = digit_value [OF assms]
  show "\<not> digit k < 0x30" "\<not> digit k > 0x39" using v assms by (simp_all add: word_less_nat_alt)
  show "digit k \<noteq> 0x2e" using v by auto
  have "unat (digit k - 0x30) = k" using v by (simp add: unat_sub word_le_nat_alt)
  then show "unat (ucast (digit k - 0x30) :: u64) = k"
    using assms by (simp add: unsigned_ucast_eq take_bit_nat_eq_self)
qed

lemma digitD:
  assumes "\<not> u < (0x30 :: u8)" "\<not> u > 0x39"
  shows "\<exists>k < 10. u = digit k"
proof -
  have b: "48 \<le> unat u" "unat u \<le> 57" using assms by (simp_all add: word_less_nat_alt)
  then have "u = digit (unat u - 48)"
    unfolding digit_def by (intro word_of_nat_if_unat) simp
  then show ?thesis using b by (intro exI [of _ "unat u - 48"]) simp
qed

text \<open>The two overflow tests say that the value with the new digit fits 64 bits.\<close>

lemma overflow_tests:
  assumes "k < 10"
  shows "(out > UINT64_MAX div 10 \<or> out * 10 > UINT64_MAX - ucast (digit k - 0x30))
      \<longleftrightarrow> 18446744073709551616 \<le> unat out * 10 + k"
    and "unat out * 10 + k < 18446744073709551616
      \<Longrightarrow> unat (out * 10 + ucast (digit k - 0x30)) = unat out * 10 + k"
proof -
  note d = digit_props(4) [OF assms]
  have q: "unat (UINT64_MAX div 10) = 1844674407370955161" by (simp add: unat_div)
  have m: "unat (UINT64_MAX - ucast (digit k - 0x30)) = 18446744073709551615 - k"
    using d assms by (simp add: unat_sub word_le_nat_alt)
  show "(out > UINT64_MAX div 10 \<or> out * 10 > UINT64_MAX - ucast (digit k - 0x30))
      \<longleftrightarrow> 18446744073709551616 \<le> unat out * 10 + k"
  proof (cases "out > UINT64_MAX div 10")
    case True
    then show ?thesis using q by (simp add: word_less_nat_alt)
  next
    case False
    then have "unat out \<le> 1844674407370955161" using q by (simp add: word_less_nat_alt)
    then have "unat (out * 10) = unat out * 10" by (simp add: unat_word_ariths)
    moreover have "(out * 10 > UINT64_MAX - ucast (digit k - 0x30))
        = (18446744073709551615 - k < unat (out * 10))"
      unfolding word_less_nat_alt m ..
    moreover have "(18446744073709551615 - k < j) = (18446744073709551616 \<le> j + k)" for j :: nat
      using assms by linarith
    ultimately show ?thesis using False by simp
  qed
  show "unat (out * 10 + ucast (digit k - 0x30)) = unat out * 10 + k"
    if "unat out * 10 + k < 18446744073709551616"
    using that d by (simp add: unat_word_ariths)
qed

lemma dotted_loop_digit:
  assumes "k < 10" "\<not> (seen \<and> out = 0)" "unat out * 10 + k < 18446744073709551616"
  shows "dotted_loop out seen (digit k # c) = dotted_loop (word_of_nat (unat out * 10 + k)) True c"
proof -
  have w: "out * 10 + ucast (digit k - 0x30) = word_of_nat (unat out * 10 + k)"
    using overflow_tests(2) [OF assms(1,3)] by (rule word_of_nat_if_unat)
  show ?thesis
    unfolding dotted_loop.simps w [symmetric]
    using digit_props [OF assms(1)] overflow_tests(1) [OF assms(1), of out] assms(2,3) by auto
qed

lemma dotted_loop_number:
  "n < 18446744073709551616 \<Longrightarrow> dotted_loop 0 False (dec_digits n @ c) = dotted_loop (word_of_nat n) True c"
proof (induction n arbitrary: c rule: dec_digits.induct)
  case (1 n)
  show ?case
  proof (cases "n < 10")
    case True
    then show ?thesis using dotted_loop_digit [of n False 0 c] by (simp add: dec_digits_step [of n])
  next
    case False
    then have s: "dec_digits n @ c = dec_digits (n div 10) @ digit (n mod 10) # c"
      by (simp add: dec_digits_step [of n])
    have q: "n div 10 < 18446744073709551616" using 1(2) by simp
    then have u: "unat (word_of_nat (n div 10) :: u64) = n div 10" by simp
    have "(word_of_nat (n div 10) :: u64) \<noteq> 0" using u False by (auto simp: unat_eq_0 [symmetric])
    then show ?thesis
      unfolding s using 1(1) [OF False q] dotted_loop_digit [of "n mod 10" True "word_of_nat (n div 10)" c]
        u 1(2) by simp
  qed
qed

lemma dotted_loopD:
  "dotted_loop out True c = (Some v, c') \<Longrightarrow>
    (c' = [] \<and> dec_digits (unat out) @ c = dec_digits (unat v))
    \<or> (c' \<noteq> [] \<and> dec_digits (unat out) @ c = dec_digits (unat v) @ 0x2e # c')"
proof (induction c arbitrary: out)
  case (Cons u c)
  show ?case
  proof (cases "u = 0x2e \<and> c \<noteq> []")
    case True
    then show ?thesis using Cons.prems by auto
  next
    case False
    then have ok: "\<not> u < 0x30" "\<not> u > 0x39" "out \<noteq> 0"
      "\<not> (out > UINT64_MAX div 10 \<or> out * 10 > UINT64_MAX - ucast (u - 0x30))"
      using Cons.prems by (auto split: if_splits)
    obtain k where k: "k < 10" "u = digit k" using digitD [OF ok(1,2)] by auto
    have fit: "unat out * 10 + k < 18446744073709551616"
      using ok(4) overflow_tests(1) [OF k(1), of out] k(2) by simp
    have "dotted_loop (word_of_nat (unat out * 10 + k)) True c = (Some v, c')"
      using Cons.prems dotted_loop_digit [OF k(1) _ fit, of True c] ok(3) k(2) by simp
    moreover have "unat (word_of_nat (unat out * 10 + k) :: u64) = unat out * 10 + k"
      by (rule of_nat_inverse [OF refl]) (use fit in simp)
    ultimately have "(c' = [] \<and> dec_digits (unat out * 10 + k) @ c = dec_digits (unat v))
      \<or> (c' \<noteq> [] \<and> dec_digits (unat out * 10 + k) @ c = dec_digits (unat v) @ 0x2e # c')"
      using Cons.IH by metis
    moreover have "dec_digits (unat out * 10 + k) = dec_digits (unat out) @ [u]"
      using dec_digits_snoc [of "unat out" k] ok(3) k by (simp add: unat_gt_0)
    ultimately show ?thesis by simp
  qed
qed simp

text \<open>A component is a decimal number without leading zeros, up to the end or a dot before more text.\<close>

lemma parse_dotted_iff:
  "parse_dotted_decimal c = (Some v, c') \<longleftrightarrow>
    (c' = [] \<and> c = dec_digits (unat v)) \<or> (c' \<noteq> [] \<and> c = dec_digits (unat v) @ 0x2e # c')"
proof
  assume R: "(c' = [] \<and> c = dec_digits (unat v)) \<or> (c' \<noteq> [] \<and> c = dec_digits (unat v) @ 0x2e # c')"
  then show "parse_dotted_decimal c = (Some v, c')"
    using dotted_loop_number [OF unat_u64_lt, of v "[]"] dotted_loop_number [OF unat_u64_lt, of v "0x2e # c'"]
    by (auto simp: parse_dotted_decimal_def)
next
  assume L: "parse_dotted_decimal c = (Some v, c')"
  then obtain u cs where c: "c = u # cs" by (cases c) (auto simp: parse_dotted_decimal_def)
  have ok: "\<not> u < 0x30" "\<not> u > 0x39"
    using L by (auto simp: parse_dotted_decimal_def c split: if_splits)
  obtain k where k: "k < 10" "u = digit k" using digitD [OF ok] by auto
  have "dotted_loop (word_of_nat k) True cs = (Some v, c')"
    using L dotted_loop_digit [of k False 0 cs] k by (simp add: parse_dotted_decimal_def c)
  from dotted_loopD [OF this] k
  show "(c' = [] \<and> c = dec_digits (unat v)) \<or> (c' \<noteq> [] \<and> c = dec_digits (unat v) @ 0x2e # c')"
    by (simp add: c dec_digits_step [of k])
qed

section \<open>Arcs\<close>

text \<open>The text of a list of arcs, and the DER contents of an identifier.\<close>

fun dotted :: "u64 list \<Rightarrow> bytes" where
  "dotted [] = []"
| "dotted [v] = dec_digits (unat v)"
| "dotted (v # w # vs) = dec_digits (unat v) @ 0x2e # dotted (w # vs)"

definition arcs_ok :: "u64 \<Rightarrow> u64 \<Rightarrow> bool" where
  "arcs_ok a b \<longleftrightarrow> a \<le> 2 \<and> (a < 2 \<longrightarrow> b \<le> 39) \<and> b \<le> UINT64_MAX - 80"

definition oid_contents :: "u64 \<Rightarrow> u64 \<Rightarrow> u64 list \<Rightarrow> bytes" where
  "oid_contents a b vs = base128_bytes (40 * a + b) @ concat (map base128_bytes vs)"

lemma dotted_Nil_iff [simp]: "dotted vs = [] \<longleftrightarrow> vs = []"
  by (cases vs rule: dotted.cases) simp_all

lemma parse_dotted_arcs: "parse_dotted_decimal (dotted (v # vs)) = (Some v, dotted vs)"
  by (cases vs) (simp_all add: parse_dotted_iff)

lemma parse_dottedD: "parse_dotted_decimal c = (Some v, dotted vs) \<Longrightarrow> c = dotted (v # vs)"
  by (cases vs) (auto simp: parse_dotted_iff)

text \<open>The writer accepts only dotted text, and appends the base-128 codes of the arcs.\<close>

lemma oid_components_emit:
  "malloc_ok mal \<Longrightarrow> settled d st \<Longrightarrow> add_oid_components mal d cbs st = (True, st') \<Longrightarrow>
    \<exists>vs. cbs = dotted vs \<and> settled d st' \<and> cbb_kids st' = cbb_kids st
      \<and> cbb_contents st' = cbb_contents st @ concat (map base128_bytes vs)"
proof (induction mal d cbs st arbitrary: st' rule: add_oid_components.induct [case_names step])
  case (step mal d cbs st)
  show ?case
  proof (cases "cbs = []")
    case True
    then show ?thesis using step.prems by (auto simp: add_oid_components.simps intro!: exI [of _ "[]"])
  next
    case False
    then obtain v cs st1 where p: "parse_dotted_decimal cbs = (Some v, cs)"
      "add_base128_integer mal d v st = (True, st1)" "add_oid_components mal d cs st1 = (True, st')"
      using step.prems(3)
      by (auto simp: add_oid_components.simps [of mal d cbs] split: prod.splits option.splits bool.splits)
    note x = emitsD [OF emits_base128 [OF step.prems(1)] step.prems(2) p(2)]
    from step.IH [OF False p(1) [symmetric] refl p(2) [symmetric] refl step.prems(1) x(1) p(3)]
    obtain vs where "cs = dotted vs" "settled d st'" "cbb_kids st' = cbb_kids st1"
      "cbb_contents st' = cbb_contents st1 @ concat (map base128_bytes vs)" by auto
    then show ?thesis using x parse_dottedD [of cbs v vs] p(1) by (intro exI [of _ "v # vs"]) simp
  qed
qed

lemma oid_from_text_emits:
  assumes m: "malloc_ok mal" and s: "settled d st"
    and f: "CBB_add_asn1_oid_from_text mal d text st = (True, st')"
  shows "\<exists>a b vs. text = dotted (a # b # vs) \<and> arcs_ok a b \<and> settled d st'
    \<and> cbb_kids st' = cbb_kids st \<and> cbb_contents st' = cbb_contents st @ oid_contents a b vs"
proof -
  obtain a b c1 c2 st1 where p: "parse_dotted_decimal text = (Some a, c1)"
    "parse_dotted_decimal c1 = (Some b, c2)" "arcs_ok a b"
    "add_base128_integer mal d (40 * a + b) st = (True, st1)" "add_oid_components mal d c2 st1 = (True, st')"
    using f unfolding CBB_add_asn1_oid_from_text_def
    by (auto simp: and_then_def flush_settled [OF s] arcs_ok_def not_less
        split: prod.splits option.splits bool.splits if_splits)
  note x = emitsD [OF emits_base128 [OF m] s p(4)]
  from oid_components_emit [OF m x(1) p(5)] obtain vs where v: "c2 = dotted vs" "settled d st'"
    "cbb_kids st' = cbb_kids st1" "cbb_contents st' = cbb_contents st1 @ concat (map base128_bytes vs)"
    by auto
  have "c1 = dotted (b # vs)" using p(2) v(1) by (intro parse_dottedD) simp
  then have "text = dotted (a # b # vs)" using p(1) by (intro parse_dottedD) simp
  then show ?thesis using p(3) x v by (intro exI [of _ a] exI [of _ b] exI [of _ vs]) (simp add: oid_contents_def)
qed

section \<open>Printing\<close>

lemma dec_digits_length: "n < 10 ^ Suc k \<Longrightarrow> length (dec_digits n) \<le> Suc k"
proof (induction k arbitrary: n)
  case (Suc k)
  have "n div 10 < 10 ^ Suc k" using Suc.prems by (simp add: less_mult_imp_div_less)
  from Suc.IH [OF this] show ?case by (simp add: dec_digits_step [of n])
qed (simp add: dec_digits_step)

lemma dec_digits_u64: "length (dec_digits (unat (v :: u64))) \<le> 20"
proof -
  have "unat v < 10 ^ Suc 19" using unat_u64_lt [of v] by simp
  from dec_digits_length [OF this] show ?thesis by simp
qed

lemma yields_add_decimal: "roomy mal N \<Longrightarrow> yields mal N 0 (add_decimal mal v) (dec_digits (unat v))"
  unfolding add_decimal_def by (rule yields_add_bytes) (use dec_digits_u64 [of v] in simp_all)

lemma oid_text_first_yields:
  assumes r: "roomy mal N" and ab: "arcs_ok a b"
  shows "yields mal N 0 (oid_text_first mal (40 * a + b)) (dotted [a, b])"
proof (cases "a = 2")
  case True
  have "40 * a + b \<ge> 80" "40 * a + b - 80 = b"
    using ab True by (simp_all add: arcs_ok_def word_le_nat_alt unat_word_ariths)
  moreover have "dotted [a, b] = [0x32, 0x2e] @ dec_digits (unat b)"
    using True by (simp add: dec_digits_step [of 2] digit_def)
  ultimately show ?thesis
    unfolding oid_text_first_def
    using yields_and_then [OF yields_add_bytes [OF r, of "[0x32, 0x2e]"] yields_add_decimal [OF r]] by simp
next
  case False
  have "unat a \<noteq> 2" using False word_of_nat_if_unat [of a 2] by auto
  then have a: "unat a < 2" using ab by (simp add: arcs_ok_def word_le_nat_alt)
  then have b: "unat b \<le> 39" using ab by (simp add: arcs_ok_def word_le_nat_alt word_less_nat_alt)
  have u: "unat (40 * a + b) = 40 * unat a + unat b" using a b by (simp add: unat_word_ariths)
  have q: "(40 * a + b) div 40 = a" "(40 * a + b) mod 40 = b"
    by (rule unsigned_word_eqI [where 'a = nat], use u b in \<open>simp add: unat_div unat_mod\<close>)+
  have "\<not> 40 * a + b \<ge> 80" using u a b by (simp add: word_le_nat_alt)
  then show ?thesis
    unfolding oid_text_first_def
    using yields_and_then [OF yields_add_decimal [OF r, of a]
        yields_and_then [OF yields_add_u8 [OF r] yields_add_decimal [OF r, of b]]] q by simp
qed

lemma oid_text_rest_yields:
  assumes r: "roomy mal N"
  shows "length (concat (map base128_bytes vs)) < 18446744073709551616 \<Longrightarrow>
    yields mal N 0 (oid_text_rest mal (concat (map base128_bytes vs)))
      (concat (map (\<lambda>v. 0x2e # dec_digits (unat v)) vs))"
proof (induction vs)
  case Nil
  have "oid_text_rest mal [] = Pair True" by (simp add: fun_eq_iff oid_text_rest.simps CBS_len_def)
  then show ?case using yields_Pair by simp
next
  case (Cons v vs)
  let ?c = "concat (map base128_bytes vs)"
  have nz: "CBS_len (base128_bytes v @ ?c) \<noteq> 0"
  proof -
    have "unat (CBS_len (base128_bytes v @ ?c)) = length (base128_bytes v @ ?c)"
      unfolding CBS_len_def by (rule of_nat_inverse [OF refl]) (use Cons.prems in simp)
    then show ?thesis by (auto simp: base128_bytes_def)
  qed
  have "oid_text_rest mal (base128_bytes v @ ?c)
      = and_then (and_then (CBB_add_u8 mal 0 0x2e) (add_decimal mal v)) (oid_text_rest mal ?c)"
    using nz parse_base128_bytes [of v ?c]
    by (simp add: fun_eq_iff and_then_def oid_text_rest.simps [of mal "base128_bytes v @ ?c"])
  moreover have "yields mal N 0 (oid_text_rest mal ?c) (concat (map (\<lambda>v. 0x2e # dec_digits (unat v)) vs))"
    by (rule Cons.IH) (use Cons.prems in simp)
  ultimately show ?case
    using yields_and_then [OF yields_and_then [OF yields_add_u8 [OF r] yields_add_decimal [OF r]]] by simp
qed

lemma dotted_pieces: "dotted (v # vs) = dec_digits (unat v) @ concat (map (\<lambda>v. 0x2e # dec_digits (unat v)) vs)"
  by (induction vs arbitrary: v) simp_all

lemma oid_to_text_total:
  assumes r: "roomy mal N" "40 < N" and ab: "arcs_ok a b"
    and n: "length (oid_contents a b vs) < 18446744073709551616"
      "2 * Suc (length (dotted (a # b # vs))) + 8 < N"
  shows "\<exists>buf len. CBS_asn1_oid_to_text mal (oid_contents a b vs) = Some (Some buf, len)
    \<and> take (unat len) (ob_data buf) = dotted (a # b # vs) @ [0]"
proof -
  let ?c = "concat (map base128_bytes vs)"
  let ?f = "and_then (oid_text_first mal (40 * a + b)) (and_then (oid_text_rest mal ?c) (CBB_add_u8 mal 0 0))"
  obtain st where i: "CBB_init mal 32 = (True, st)" "settled 0 st" "resizable st" "cbb_contents st = []"
    using init_total [OF r(1), of 32] r(2) by auto
  have c: "length ?c < 18446744073709551616" using n(1) by (simp add: oid_contents_def)
  have d: "dotted (a # b # vs) @ [0]
      = dotted [a, b] @ concat (map (\<lambda>v. 0x2e # dec_digits (unat v)) vs) @ [0]"
    using dotted_pieces [of a "b # vs"] by simp
  have "yields mal N 0 ?f (dotted (a # b # vs) @ [0])"
    unfolding d
    by (intro yields_and_then oid_text_first_yields oid_text_rest_yields yields_add_u8 r(1) ab c)
  from yieldsD [OF this i(2,3)] i(4) n(2)
  obtain st' where s: "?f st = (True, st')" "settled 0 st'" "cbb_contents st' = dotted (a # b # vs) @ [0]"
    by auto
  obtain buf len where "fst (CBB_finish mal True 0 st') = Some (Some buf, len)"
    "take (unat len) (ob_data buf) = dotted (a # b # vs) @ [0]"
    using finish_total [OF s(2)] s(3) by (metis snoc_eq_iff_butlast)
  then show ?thesis
    using i(1) s(1) parse_base128_bytes [of "40 * a + b" ?c]
    by (simp add: CBS_asn1_oid_to_text_def oid_contents_def)
qed

section \<open>The two directions together\<close>

text \<open>C20: An object identifier that \<open>CBB_add_asn1_oid_from_text\<close> accepts as text is printed
  again by \<open>CBS_asn1_oid_to_text\<close> from the contents written: the same text, with its terminator,
  as soon as the allocator serves what the printed text takes.\<close>

theorem oid_text_roundtrip:
  assumes "malloc_ok mal" "settled d st" "CBB_add_asn1_oid_from_text mal d text st = (True, st')"
    and "roomy mal2 N" "40 < N" "2 * Suc (length text) + 8 < N"
  shows "\<exists>e buf len. cbb_contents st' = cbb_contents st @ e
    \<and> CBS_asn1_oid_to_text mal2 e = Some (Some buf, len)
    \<and> take (unat len) (ob_data buf) = text @ [0]"
proof -
  obtain a b vs where w: "text = dotted (a # b # vs)" "arcs_ok a b" "settled d st'"
    "cbb_contents st' = cbb_contents st @ oid_contents a b vs"
    using oid_from_text_emits [OF assms(1-3)] by auto
  obtain blk where "cbb_base st' = Some blk" "bb_ok blk" using w(3) by (auto simp: settled_def cbb_ok_def)
  then have "length (cbb_contents st') < 18446744073709551616"
    using bb_okD(4) [of blk] unat_u64_lt [of "bb_len blk"] by (simp add: cbb_contents_def)
  then have "length (oid_contents a b vs) < 18446744073709551616" using w(4) by simp
  from oid_to_text_total [OF assms(4,5) w(2) this] w(1,4) assms(6) show ?thesis by auto
qed

theorem oid_text_roundtrip_witness:
  "fst (CBB_add_asn1_oid_from_text sample_malloc 0 [49,46,50,46,56,52,48] sample_cbb)
   \<and> (\<exists>e buf len. CBS_asn1_oid_to_text sample_malloc e = Some (Some buf, len)
     \<and> take (unat len) (ob_data buf) = [49,46,50,46,56,52,48,0])"
proof -
  let ?op = "CBB_add_asn1_oid_from_text sample_malloc 0 [49,46,50,46,56,52,48] sample_cbb"
  have f: "fst ?op" by code_simp
  then obtain st' where e: "?op = (True, st')" using fst_True by blast
  from oid_text_roundtrip [OF sample_malloc_ok sample_settled e sample_roomy] f show ?thesis by simp blast
qed

lemma oid_components_yield:
  assumes r: "roomy mal N"
  shows "yields mal N d (add_oid_components mal d (dotted vs)) (concat (map base128_bytes vs))"
proof (induction vs)
  case Nil
  have "add_oid_components mal d [] = Pair True" by (simp add: fun_eq_iff add_oid_components.simps)
  then show ?case using yields_Pair by simp
next
  case (Cons v vs)
  have "add_oid_components mal d (dotted (v # vs))
      = and_then (add_base128_integer mal d v) (add_oid_components mal d (dotted vs))"
    using parse_dotted_arcs [of v vs] dotted_Nil_iff [of "v # vs"]
    by (simp add: fun_eq_iff and_then_def add_oid_components.simps [of mal d "dotted (v # vs)"]
        del: dotted_Nil_iff dotted.simps)
  then show ?case using yields_and_then [OF yields_base128 [OF r] Cons] by simp
qed

lemma oid_from_text_eq:
  assumes "arcs_ok a b"
  shows "CBB_add_asn1_oid_from_text mal d (dotted (a # b # vs))
    = and_then (CBB_flush mal d) (and_then (add_base128_integer mal d (40 * a + b))
        (add_oid_components mal d (dotted vs)))"
proof -
  have "\<not> (a > 2 \<or> (a < 2 \<and> b > 39) \<or> b > UINT64_MAX - 80)"
    using assms by (auto simp: arcs_ok_def not_less)
  then show ?thesis
    unfolding CBB_add_asn1_oid_from_text_def
    by (simp only: parse_dotted_arcs prod.case option.case if_False)
qed

lemma oid_contents_length:
  "length (oid_contents a b vs) \<le> 10 * length (dotted (a # b # vs))"
proof -
  have c: "length (concat (map base128_bytes vs)) \<le> 10 * length vs" for vs
    using length_base128_bytes by (induction vs) (simp_all add: add_mono)
  have "length vs \<le> length (dotted vs)" for vs
    by (induction vs rule: dotted.induct) (use dec_digits_not_Nil in \<open>auto simp: Suc_le_eq\<close>)
  from c [of vs] length_base128_bytes [of "40 * a + b"] this [of "a # b # vs"]
  show ?thesis unfolding oid_contents_def by simp
qed

text \<open>C19: \<open>CBB_add_asn1_oid_from_text\<close> accepts exactly the dotted decimal text of an
  identifier: at least two arcs without leading zeros, each of 64 bits, the first at most 2, the
  second at most 39 below a first arc of 0 or 1. Given room, nothing else can make it fail, and
  what it appends is the base-128 code of \<open>40 a + b\<close> and of the other arcs.\<close>

theorem oid_from_text_exact:
  assumes "roomy mal N" "settled d st" "resizable st" "2 * (length (cbb_contents st) + 10 * length text) + 8 < N"
  shows "(\<exists>st'. CBB_add_asn1_oid_from_text mal d text st = (True, st') \<and> cbb_contents st' = cbb_contents st @ e)
    \<longleftrightarrow> (\<exists>a b vs. text = dotted (a # b # vs) \<and> arcs_ok a b \<and> e = oid_contents a b vs)"
proof
  assume "\<exists>st'. CBB_add_asn1_oid_from_text mal d text st = (True, st') \<and> cbb_contents st' = cbb_contents st @ e"
  then show "\<exists>a b vs. text = dotted (a # b # vs) \<and> arcs_ok a b \<and> e = oid_contents a b vs"
    using oid_from_text_emits [OF _ assms(2)] assms(1) unfolding roomy_def by fastforce
next
  assume "\<exists>a b vs. text = dotted (a # b # vs) \<and> arcs_ok a b \<and> e = oid_contents a b vs"
  then obtain a b vs where t: "text = dotted (a # b # vs)" "arcs_ok a b" "e = oid_contents a b vs" by auto
  have "yields mal N d (and_then (add_base128_integer mal d (40 * a + b))
      (add_oid_components mal d (dotted vs))) e"
    unfolding t(3) oid_contents_def
    by (intro yields_and_then yields_base128 oid_components_yield assms(1))
  from yieldsD [OF this assms(2,3)] oid_contents_length [of a b vs] assms(4) t
  show "\<exists>st'. CBB_add_asn1_oid_from_text mal d text st = (True, st') \<and> cbb_contents st' = cbb_contents st @ e"
    by (auto simp: oid_from_text_eq and_then_def flush_settled [OF assms(2)] simp del: dotted.simps)
qed

theorem oid_from_text_exact_witness:
  "\<exists>st'. CBB_add_asn1_oid_from_text sample_malloc 0 [49,46,50,46,56,52,48] sample_cbb = (True, st')
    \<and> cbb_contents st' = cbb_contents sample_cbb @ [0x2a, 0x86, 0x48]"
proof -
  have t: "[49,46,50,46,56,52,48] = dotted [1, 2, 840]" "[0x2a, 0x86, 0x48] = oid_contents 1 2 [840]"
    by code_simp+
  have "resizable sample_cbb" "cbb_contents sample_cbb = []"
    using init_total [OF sample_roomy, of 16] by (auto simp: sample_cbb_def)
  moreover have "\<exists>a b vs. [49,46,50,46,56,52,48] = dotted (a # b # vs) \<and> arcs_ok a b
      \<and> [0x2a, 0x86, 0x48] = oid_contents a b vs"
    unfolding t by (intro exI [of _ 1] exI [of _ 2] exI [of _ "[840]"]) (simp add: arcs_ok_def)
  ultimately show ?thesis
    by (subst oid_from_text_exact [OF sample_roomy sample_settled]) simp_all
qed


end
