(* ===== verification/Stack.thy ===== *)
theory Stack
  imports Bs_Mem Qsort
begin

text \<open>
  BoringSSL's \<open>crypto/stack/stack.c\<close>: growing arrays of pointers, with an optional comparison
  function. A pointer is its address, 0 is NULL. The array is the list of the pointers that
  fit the allocated block, of which the first \<open>num\<close> are valid. A comparison function is
  its address too; what calling it answers is the parameter \<open>call\<close>, on the two elements
  that the pointers it gets point to.
\<close>

type_synonym ptr = u64
type_synonym cmp_call = "ptr \<Rightarrow> ptr \<Rightarrow> ptr \<Rightarrow> int"

record stack_st =
  sk_size :: u64
  sk_data :: "ptr list"
  sk_sorted :: bool
  sk_num_alloc :: u64
  sk_comp :: ptr

section \<open>The array of pointers\<close>

text \<open>A block of memory as the pointers it holds, and back. The elements of a fresh block are
  whatever the allocator left there.\<close>

definition ptrs_of :: "oblock \<Rightarrow> ptr list" where
  "ptrs_of blk = map (\<lambda>i. le_word (read_at (ob_data blk) (8 * i) 8)) [0..<length (ob_data blk) div 8]"

definition block_of :: "ptr list \<Rightarrow> oblock" where
  "block_of ps = \<lparr>ob_size = word_of_nat (8 * length ps), ob_data = concat (map (le_bytes 8) ps)\<rparr>"

definition realloc_ptrs :: "sys_malloc \<Rightarrow> ptr list \<Rightarrow> u64 \<Rightarrow> ptr list option" where
  "realloc_ptrs mal data alloc_size =
    map_option ptrs_of (OPENSSL_realloc mal (Some (block_of data)) alloc_size)"

definition kMinSize :: u64 where
  "kMinSize = 4"

text \<open>A \<open>_STACK\<close> takes 40 bytes.\<close>

definition sk_new :: "sys_malloc \<Rightarrow> ptr \<Rightarrow> stack_st option" where
  "sk_new mal cmp = (case OPENSSL_malloc mal 40 of
      None \<Rightarrow> None
    | Some _ \<Rightarrow> (case OPENSSL_malloc mal (8 * kMinSize) of
        None \<Rightarrow> None
      | Some _ \<Rightarrow> Some \<lparr>sk_size = 0, sk_data = replicate (unat kMinSize) 0, sk_sorted = False,
          sk_num_alloc = kMinSize, sk_comp = cmp\<rparr>))"

definition sk_new_null :: "sys_malloc \<Rightarrow> stack_st option" where
  "sk_new_null mal = sk_new mal 0"

section \<open>Access\<close>

text \<open>A NULL stack is \<^const>\<open>None\<close>.\<close>

definition sk_num :: "stack_st option \<Rightarrow> u64" where
  "sk_num sk = (case sk of None \<Rightarrow> 0 | Some s \<Rightarrow> sk_size s)"

definition sk_zero :: "stack_st \<Rightarrow> stack_st" where
  "sk_zero sk = (if sk_size sk = 0 then sk
    else sk\<lparr>sk_data := list_blit (sk_data sk) 0 (replicate (unat (sk_size sk)) 0),
            sk_size := 0, sk_sorted := False\<rparr>)"

definition sk_value :: "stack_st option \<Rightarrow> u64 \<Rightarrow> ptr" where
  "sk_value sk i = (case sk of None \<Rightarrow> 0
    | Some s \<Rightarrow> if i \<ge> sk_size s then 0 else sk_data s ! unat i)"

definition sk_set :: "stack_st \<Rightarrow> u64 \<Rightarrow> ptr \<Rightarrow> ptr \<times> stack_st" where
  "sk_set sk i value = (if i \<ge> sk_size sk then (0, sk)
    else (value, sk\<lparr>sk_data := (sk_data sk)[unat i := value]\<rparr>))"

text \<open>The elements that \<open>sk_pop_free_ex\<close> passes to the free function, in order.\<close>

definition sk_pop_free_ex :: "stack_st option \<Rightarrow> ptr list" where
  "sk_pop_free_ex sk = (case sk of None \<Rightarrow> []
    | Some s \<Rightarrow> filter (\<lambda>p. p \<noteq> 0) (take (unat (sk_size s)) (sk_data s)))"

section \<open>Insertion and deletion\<close>

text \<open>The doubled allocation, or one more when that overflows; \<^const>\<open>None\<close> when that does too.\<close>

definition sk_new_alloc :: "u64 \<Rightarrow> u64 option" where
  "sk_new_alloc num_alloc =
    (let overflows = (\<lambda>new_alloc. new_alloc < num_alloc \<or> (new_alloc * 8) div 8 \<noteq> new_alloc);
         doubled = push_bit 1 num_alloc
     in if \<not> overflows doubled then Some doubled
        else if \<not> overflows (num_alloc + 1) then Some (num_alloc + 1)
        else None)"

definition sk_grow :: "sys_malloc \<Rightarrow> stack_st \<Rightarrow> stack_st option" where
  "sk_grow mal sk = (if sk_num_alloc sk \<le> sk_size sk + 1
    then case sk_new_alloc (sk_num_alloc sk) of
        None \<Rightarrow> None
      | Some new_alloc \<Rightarrow> (case realloc_ptrs mal (sk_data sk) (new_alloc * 8) of
          None \<Rightarrow> None
        | Some data \<Rightarrow> Some (sk\<lparr>sk_data := data, sk_num_alloc := new_alloc\<rparr>))
    else Some sk)"

definition sk_insert :: "sys_malloc \<Rightarrow> stack_st \<Rightarrow> ptr \<Rightarrow> u64 \<Rightarrow> u64 \<times> stack_st" where
  "sk_insert mal sk p pos = (case sk_grow mal sk of
      None \<Rightarrow> (0, sk)
    | Some s \<Rightarrow>
        let n = unat (sk_size s);
            data = (if pos \<ge> sk_size s then (sk_data s)[n := p]
              else (list_blit (sk_data s) (unat pos + 1)
                (take (n - unat pos) (drop (unat pos) (sk_data s))))[unat pos := p])
        in (sk_size s + 1, s\<lparr>sk_data := data, sk_size := sk_size s + 1, sk_sorted := False\<rparr>))"

definition sk_delete :: "stack_st \<Rightarrow> u64 \<Rightarrow> ptr \<times> stack_st" where
  "sk_delete sk pos = (if pos \<ge> sk_size sk then (0, sk)
    else (sk_data sk ! unat pos,
      sk\<lparr>sk_data := (if pos \<noteq> sk_size sk - 1
            then list_blit (sk_data sk) (unat pos)
              (take (unat (sk_size sk - pos - 1)) (drop (unat pos + 1) (sk_data sk)))
            else sk_data sk),
         sk_size := sk_size sk - 1\<rparr>))"

lemma unat_step: "i < (num :: u64) \<Longrightarrow> unat (i + 1) = Suc (unat i)"
  using unat_u64_lt [of num] by (simp add: word_less_nat_alt unat_word_ariths)

text \<open>The first index at or after \<open>i\<close>, and below \<open>num\<close>, whose element satisfies the test.\<close>

function first_index :: "(ptr \<Rightarrow> bool) \<Rightarrow> ptr list \<Rightarrow> u64 \<Rightarrow> u64 \<Rightarrow> u64 option" where
  "first_index test data num i = (if i < num
    then if test (data ! unat i) then Some i else first_index test data num (i + 1)
    else None)"
  by auto
termination
  by (relation "measure (\<lambda>(test, data, num, i). unat num - unat i)")
    (auto simp: unat_step word_less_nat_alt)

declare first_index.simps [simp del]

definition sk_delete_ptr :: "stack_st \<Rightarrow> ptr \<Rightarrow> ptr \<times> stack_st" where
  "sk_delete_ptr sk p = (case first_index (\<lambda>q. q = p) (sk_data sk) (sk_size sk) 0 of
      Some i \<Rightarrow> sk_delete sk i
    | None \<Rightarrow> (0, sk))"

definition sk_shift :: "stack_st \<Rightarrow> ptr \<times> stack_st" where
  "sk_shift sk = (if sk_size sk = 0 then (0, sk) else sk_delete sk 0)"

definition sk_push :: "sys_malloc \<Rightarrow> stack_st \<Rightarrow> ptr \<Rightarrow> u64 \<times> stack_st" where
  "sk_push mal sk p = sk_insert mal sk p (sk_size sk)"

definition sk_pop :: "stack_st \<Rightarrow> ptr \<times> stack_st" where
  "sk_pop sk = (if sk_size sk = 0 then (0, sk) else sk_delete sk (sk_size sk - 1))"

section \<open>Searching and sorting\<close>

definition sk_is_sorted :: "stack_st option \<Rightarrow> bool" where
  "sk_is_sorted sk = (case sk of None \<Rightarrow> True | Some s \<Rightarrow> sk_sorted s)"

lemma search_mid:
  assumes "unat (lo :: u64) < unat hi"
  shows "unat (hi - lo) = unat hi - unat lo"
    "unat (lo + (hi - lo - 1) div 2) = unat lo + (unat hi - unat lo - 1) div 2"
    "unat (lo + (hi - lo - 1) div 2 + 1) = unat lo + (unat hi - unat lo - 1) div 2 + 1"
proof -
  let ?d = "(hi - lo - 1) div 2"
  show d: "unat (hi - lo) = unat hi - unat lo" using assms by (simp add: unat_sub word_le_nat_alt)
  then have "unat (hi - lo - 1) = unat hi - unat lo - 1"
    using assms by (subst unat_sub) (simp_all add: word_le_nat_alt)
  then have q: "unat ?d = (unat hi - unat lo - 1) div 2" by (simp add: unat_div)
  then have b: "unat lo + unat ?d < unat hi" using assms by linarith
  show m: "unat (lo + ?d) = unat lo + (unat hi - unat lo - 1) div 2"
    using b unat_u64_lt [of hi] q by (subst unat_plus_no_overflow_u64) simp_all
  show "unat (lo + ?d + 1) = unat lo + (unat hi - unat lo - 1) div 2 + 1"
    using b m q unat_step [of "lo + ?d" hi] by (simp add: word_less_nat_alt)
qed

text \<open>The binary search for the earliest match, between \<open>lo\<close> and \<open>hi\<close>.\<close>

function sk_search :: "(ptr \<Rightarrow> int) \<Rightarrow> ptr list \<Rightarrow> u64 \<Rightarrow> u64 \<Rightarrow> u64 option" where
  "sk_search r data lo hi = (if lo < hi
    then let mid = lo + (hi - lo - 1) div 2
      in if r (data ! unat mid) > 0 then sk_search r data (mid + 1) hi
         else if r (data ! unat mid) < 0 then sk_search r data lo mid
         else if hi - lo = 1 then Some mid
         else sk_search r data lo (mid + 1)
    else None)"
  by auto
termination
proof (relation "measure (\<lambda>(r, data, lo, hi). unat hi - unat lo)", goal_cases)
  case (4 r data lo hi mid)
  then have l: "unat lo < unat hi" by (simp add: word_less_nat_alt)
  have "unat hi - unat lo \<noteq> 1"
    using 4(5) search_mid(1) [OF l] word_of_nat_if_unat [of "hi - lo" 1] by auto
  then have "(unat hi - unat lo - 1) div 2 + 1 < unat hi - unat lo" using l by linarith
  then show ?case using search_mid(3) [OF l] 4(2) by simp
qed (auto simp: word_less_nat_alt search_mid)

declare sk_search.simps [simp del]

definition sk_find :: "cmp_call \<Rightarrow> stack_st option \<Rightarrow> ptr \<Rightarrow> u64 option" where
  "sk_find call sk p = (case sk of
      None \<Rightarrow> None
    | Some s \<Rightarrow>
        if sk_comp s = 0 then first_index (\<lambda>q. q = p) (sk_data s) (sk_size s) 0
        else if p = 0 then None
        else if \<not> sk_is_sorted sk
        then first_index (\<lambda>elem. call (sk_comp s) p elem = 0) (sk_data s) (sk_size s) 0
        else sk_search (call (sk_comp s) p) (sk_data s) 0 (sk_size s))"

definition sk_sort :: "cmp_call \<Rightarrow> stack_st \<Rightarrow> stack_st" where
  "sk_sort call sk = (if sk_comp sk = 0 \<or> sk_sorted sk then sk
    else sk\<lparr>sk_data := (if sk_size sk \<ge> 2
        then list_blit (sk_data sk) 0
          (qsort_by (call (sk_comp sk)) (take (unat (sk_size sk)) (sk_data sk)))
        else sk_data sk), sk_sorted := True\<rparr>)"

definition sk_set_cmp_func :: "stack_st \<Rightarrow> ptr \<Rightarrow> ptr \<times> stack_st" where
  "sk_set_cmp_func sk cmp = (sk_comp sk,
    sk\<lparr>sk_sorted := (if sk_comp sk \<noteq> cmp then False else sk_sorted sk), sk_comp := cmp\<rparr>)"

section \<open>Copies\<close>

definition sk_dup :: "sys_malloc \<Rightarrow> stack_st option \<Rightarrow> stack_st option" where
  "sk_dup mal sk = (case sk of
      None \<Rightarrow> None
    | Some s \<Rightarrow> (case sk_new mal (sk_comp s) of
        None \<Rightarrow> None
      | Some ret \<Rightarrow> (case realloc_ptrs mal (sk_data ret) (8 * sk_num_alloc s) of
          None \<Rightarrow> None
        | Some data \<Rightarrow> Some \<lparr>sk_size = sk_size s,
            sk_data = list_blit data 0 (take (unat (sk_size s)) (sk_data s)),
            sk_sorted = sk_sorted s, sk_num_alloc = sk_num_alloc s, sk_comp = sk_comp s\<rparr>)))"

text \<open>
  The deep copy of the first \<open>n\<close> elements: the copies of those that are not NULL, or what has to
  be freed when the copy function, a parameter, returns NULL for one. The copy function may
  fail at one call and not at another, so that it gets the number of the call.
\<close>

fun copy_elems :: "(nat \<Rightarrow> ptr \<Rightarrow> ptr) \<Rightarrow> nat \<Rightarrow> ptr list \<Rightarrow> ptr list + ptr list" where
  "copy_elems copy i [] = Inr []"
| "copy_elems copy i (p # ps) =
    (if p = 0 then map_sum ((#) 0) ((#) 0) (copy_elems copy (Suc i) ps)
     else if copy i p = 0 then Inl []
     else map_sum ((#) (copy i p)) ((#) (copy i p)) (copy_elems copy (Suc i) ps))"

text \<open>The copy, or \<^const>\<open>None\<close>, and the pointers passed to the free function.\<close>

definition sk_deep_copy ::
  "sys_malloc \<Rightarrow> (nat \<Rightarrow> ptr \<Rightarrow> ptr) \<Rightarrow> stack_st option \<Rightarrow> stack_st option \<times> ptr list" where
  "sk_deep_copy mal copy sk = (case sk_dup mal sk of
      None \<Rightarrow> (None, [])
    | Some ret \<Rightarrow> (case copy_elems copy 0 (take (unat (sk_size ret)) (sk_data ret)) of
        Inl done_before \<Rightarrow> (None, filter (\<lambda>p. p \<noteq> 0) done_before)
      | Inr copies \<Rightarrow> (Some (ret\<lparr>sk_data := list_blit (sk_data ret) 0 copies\<rparr>), [])))"

end
