(* ===== verification/Stack_Props.thy ===== *)
theory Stack_Props
  imports Stack
begin

text \<open>
  What is proved of the stacks: they refine lists, a run of operations keeps the room for one
  more element and the meaning of \<open>sorted\<close>, the three searches of \<open>sk_find\<close> agree on the
  first match, and a deep copy that fails frees what it made. \<open>sk_set\<close> is the one operation
  that breaks the order a set flag promises.
\<close>

section \<open>The valid elements and the invariant\<close>

definition sk_elems :: "stack_st \<Rightarrow> ptr list" where
  "sk_elems sk = take (unat (sk_size sk)) (sk_data sk)"

text \<open>There is always room for one more element than is used.\<close>

definition sk_shape :: "stack_st \<Rightarrow> bool" where
  "sk_shape sk \<longleftrightarrow> length (sk_data sk) = unat (sk_num_alloc sk) \<and> sk_size sk < sk_num_alloc sk
    \<and> 8 * unat (sk_num_alloc sk) < 9223372036854775808"

text \<open>The flag \<open>sorted\<close> says that the elements are in the order of the comparison function.\<close>

definition sk_ok :: "cmp_call \<Rightarrow> stack_st \<Rightarrow> bool" where
  "sk_ok call sk \<longleftrightarrow> sk_shape sk
    \<and> (sk_sorted sk \<longrightarrow> sk_comp sk \<noteq> 0 \<and> in_order (call (sk_comp sk)) (sk_elems sk))"

lemma sk_shapeD:
  assumes "sk_shape sk"
  shows "length (sk_data sk) = unat (sk_num_alloc sk)" "unat (sk_size sk) < unat (sk_num_alloc sk)"
    "8 * unat (sk_num_alloc sk) < 9223372036854775808" "length (sk_elems sk) = unat (sk_size sk)"
  using assms by (simp_all add: sk_shape_def sk_elems_def word_less_nat_alt)

lemma sk_nth: "sk_shape sk \<Longrightarrow> i < unat (sk_size sk) \<Longrightarrow> sk_data sk ! i = sk_elems sk ! i"
  by (simp add: sk_elems_def)

section \<open>The block of pointers\<close>

lemma length_concat_le: "length (concat (map (le_bytes n) ps)) = n * length ps"
  by (induction ps) simp_all

lemma read_concat_le:
  "i < length ps \<Longrightarrow> read_at (concat (map (le_bytes 8) ps) @ rst) (8 * i) 8 = le_bytes 8 (ps ! i)"
proof (induction ps arbitrary: i)
  case (Cons p ps)
  show ?case
  proof (cases i)
    case 0
    then show ?thesis by (simp add: read_at_in_bounds)
  next
    case (Suc j)
    have "read_at (le_bytes 8 p @ xs) (8 * Suc j) 8 = read_at xs (8 * j) 8" for xs :: bytes
      by (rule nth_equalityI) (auto simp: read_at_def nth_or_def nth_append)
    then show ?thesis using Cons Suc by simp
  qed
qed simp

lemma ptrs_of_prefix:
  assumes "take (8 * length ps) (ob_data blk) = concat (map (le_bytes 8) ps)"
  shows "take (length ps) (ptrs_of blk) = ps"
proof -
  have d: "ob_data blk = concat (map (le_bytes 8) ps) @ drop (8 * length ps) (ob_data blk)"
    using assms by (metis append_take_drop_id)
  have "8 * length ps \<le> length (ob_data blk)"
    using arg_cong [OF assms, of length] length_concat_le [of 8 ps] by simp
  then have n: "length ps \<le> length (ob_data blk) div 8" by linarith
  show ?thesis
  proof (rule nth_equalityI)
    fix i
    assume "i < length (take (length ps) (ptrs_of blk))"
    then have i: "i < length ps" by simp
    then have "read_at (ob_data blk) (8 * i) 8 = le_bytes 8 (ps ! i)"
      using read_concat_le [OF i, of "drop (8 * length ps) (ob_data blk)"] d by simp
    then show "take (length ps) (ptrs_of blk) ! i = ps ! i"
      using i n by (simp add: ptrs_of_def le_word_le_bytes)
  qed (use n in \<open>simp add: ptrs_of_def\<close>)
qed

lemma realloc_ptrs_ok:
  assumes m: "malloc_ok mal" and r: "realloc_ptrs mal data (n * 8) = Some data'"
    and n: "8 * unat n + 8 < 18446744073709551616" "length data \<le> unat n"
  shows "length data' = unat n \<and> take (length data) data' = data \<and> 8 * unat n < 9223372036854775808"
proof -
  obtain blk where b: "OPENSSL_realloc mal (Some (block_of data)) (n * 8) = Some blk" "data' = ptrs_of blk"
    using r by (auto simp: realloc_ptrs_def)
  have u: "unat (n * 8) = 8 * unat n" using n(1) by (simp add: unat_word_ariths)
  have s: "unat (ob_size (block_of data)) = 8 * length data"
    unfolding block_of_def oblock.select_convs by (rule of_nat_inverse [OF refl]) (use n in simp)
  have o: "block_ok (block_of data)" using s by (simp add: block_ok_def block_of_def length_concat_le)
  have "ob_size (block_of data) \<le> n * 8" using s u n(2) by (simp add: word_le_nat_alt)
  from OPENSSL_realloc_ok [OF m b(1) o _ this] u n(1) s
  have k: "block_ok blk" "ob_size blk = n * 8" "8 * unat n < 9223372036854775808"
    "take (8 * length data) (ob_data blk) = concat (map (le_bytes 8) data)"
    by (auto simp: block_of_def)
  then have "length data' = unat n" using u by (simp add: b(2) ptrs_of_def block_ok_def)
  then show ?thesis using k ptrs_of_prefix [OF k(4)] by (simp add: b(2))
qed

lemma sk_new_alloc_ok:
  assumes "8 * unat n < 9223372036854775808" "0 < unat n"
  shows "\<exists>k. sk_new_alloc n = Some k \<and> unat k = 2 * unat n"
proof -
  have d: "unat (push_bit 1 n) = 2 * unat n"
    using assms by (simp add: push_bit_eq_mult unat_word_ariths)
  have "unat (push_bit 1 n * 8) = 16 * unat n" using d assms by (subst unat_word_ariths) simp
  then have "(push_bit 1 n * 8) div 8 = push_bit 1 n"
    using d by (intro unsigned_word_eqI [where 'a = nat]) (simp add: unat_div)
  then show ?thesis
    using d assms by (auto simp: sk_new_alloc_def Let_def word_less_nat_alt)
qed

lemma sk_grow_ok:
  assumes m: "malloc_ok mal" and s: "sk_shape sk" and g: "sk_grow mal sk = Some s'"
  shows "sk_shape s' \<and> sk_elems s' = sk_elems sk \<and> unat (sk_size sk) + 1 < unat (sk_num_alloc s')
    \<and> sk_size s' = sk_size sk \<and> sk_comp s' = sk_comp sk \<and> sk_sorted s' = sk_sorted sk"
proof (cases "sk_num_alloc sk \<le> sk_size sk + 1")
  case False
  have "unat (sk_size sk + 1) = unat (sk_size sk) + 1"
    using unat_step [of "sk_size sk" "sk_num_alloc sk"] s by (simp add: sk_shape_def)
  then show ?thesis using False g s by (simp add: sk_grow_def word_le_nat_alt)
next
  case True
  note d = sk_shapeD [OF s]
  obtain k where k: "sk_new_alloc (sk_num_alloc sk) = Some k" "unat k = 2 * unat (sk_num_alloc sk)"
    using sk_new_alloc_ok [of "sk_num_alloc sk"] d by auto
  then obtain data where r: "realloc_ptrs mal (sk_data sk) (k * 8) = Some data"
    "s' = sk\<lparr>sk_data := data, sk_num_alloc := k\<rparr>"
    using g True by (auto simp: sk_grow_def split: option.splits)
  have "length data = unat k \<and> take (length (sk_data sk)) data = sk_data sk \<and> 8 * unat k < 9223372036854775808"
    using d k by (intro realloc_ptrs_ok [OF m r(1)]) simp_all
  moreover from this have "take (unat (sk_size sk)) data = sk_elems sk"
    using d unfolding sk_elems_def by (metis less_imp_le_nat min.absorb1 take_take)
  moreover have "sk_size sk < k" using d k by (simp add: word_less_nat_alt)
  ultimately show ?thesis using d k by (simp add: r(2) sk_shape_def sk_elems_def)
qed

text \<open>
  The only reason for a stack not to grow: it has no second free slot, and the allocator refuses a
  block of twice the size, which the code computes without an overflow.
\<close>

definition no_memory :: "sys_malloc \<Rightarrow> stack_st \<Rightarrow> bool" where
  "no_memory mal sk \<longleftrightarrow> unat (sk_num_alloc sk) \<le> unat (sk_size sk) + 1
     \<and> OPENSSL_malloc mal (16 * sk_num_alloc sk) = None"

lemma sk_grow_None:
  assumes s: "sk_shape sk"
  shows "sk_grow mal sk = None \<longleftrightarrow> no_memory mal sk"
proof -
  note d = sk_shapeD [OF s]
  have u: "unat (sk_size sk + 1) = unat (sk_size sk) + 1"
    using unat_step [of "sk_size sk" "sk_num_alloc sk"] s by (simp add: sk_shape_def)
  obtain k where k: "sk_new_alloc (sk_num_alloc sk) = Some k" "unat k = 2 * unat (sk_num_alloc sk)"
    using sk_new_alloc_ok [of "sk_num_alloc sk"] d by auto
  have "unat (k * 8) = unat (16 * sk_num_alloc sk)"
    using k(2) d by (simp add: unat_word_ariths)
  then have e: "k * 8 = 16 * sk_num_alloc sk" by (rule unsigned_word_eqI [where 'a = nat])
  have "realloc_ptrs mal (sk_data sk) (k * 8) = None \<longleftrightarrow> OPENSSL_malloc mal (16 * sk_num_alloc sk) = None"
    unfolding e by (simp add: realloc_ptrs_def OPENSSL_realloc_def Let_def split: option.split)
  then show ?thesis using k(1) u by (auto simp: sk_grow_def no_memory_def word_le_nat_alt split: option.splits)
qed

section \<open>Insertion and deletion on the list of elements\<close>

lemma insert_elems:
  assumes m: "malloc_ok mal" and s: "sk_shape sk" and i: "sk_insert mal sk p pos = (r, s')"
  shows "sk_shape s' \<and> sk_comp s' = sk_comp sk
    \<and> (if no_memory mal sk then r = 0 \<and> s' = sk
       else r = sk_size s' \<and> \<not> sk_sorted s'
         \<and> sk_elems s' = take (unat pos) (sk_elems sk) @ p # drop (unat pos) (sk_elems sk))"
proof (cases "sk_grow mal sk")
  case None
  then have "no_memory mal sk" using sk_grow_None [OF s, of mal] by simp
  then show ?thesis using i s None by (simp add: sk_insert_def)
next
  case (Some g)
  then have grows: "\<not> no_memory mal sk" using sk_grow_None [OF s, of mal] by simp
  note G = sk_grow_ok [OF m s Some]
  note D = sk_shapeD [OF conjunct1 [OF G]]
  let ?n = "unat (sk_size g)"
  let ?data = "if pos \<ge> sk_size g then (sk_data g)[?n := p]
      else (list_blit (sk_data g) (unat pos + 1) (take (?n - unat pos) (drop (unat pos) (sk_data g))))[unat pos := p]"
  define data where "data = ?data"
  have r: "r = sk_size g + 1" "s' = g\<lparr>sk_data := data, sk_size := sk_size g + 1, sk_sorted := False\<rparr>"
    using i Some by (auto simp: sk_insert_def Let_def data_def)
  have u: "unat (sk_size g + 1) = Suc ?n"
    using unat_step [of "sk_size g" "sk_num_alloc g"] G by (auto simp: sk_shape_def)
  have room: "Suc ?n < length (sk_data g)" using G D by simp
  have e: "take (Suc ?n) data = take (unat pos) (sk_elems g) @ p # drop (unat pos) (sk_elems g)"
  proof (cases "pos \<ge> sk_size g")
    case True
    then show ?thesis
      using room by (simp add: data_def sk_elems_def word_le_nat_alt take_Suc_conv_app_nth)
  next
    case False
    then have p: "unat pos < ?n" by (simp add: word_le_nat_alt)
    let ?ys = "take (?n - unat pos) (drop (unat pos) (sk_data g))"
    have "(list_blit (sk_data g) (unat pos + 1) ?ys)[unat pos := p]
        = (take (unat pos) (sk_data g) @ [p] @ ?ys) @ drop (Suc ?n) (sk_data g)"
      using p room by (simp add: list_blit_def list_update_append take_Suc_conv_app_nth)
    then have "take (Suc ?n) ((list_blit (sk_data g) (unat pos + 1) ?ys)[unat pos := p])
        = take (unat pos) (sk_data g) @ p # ?ys"
      using p room by (simp add: Suc_diff_le)
    moreover have "?ys = drop (unat pos) (sk_elems g)" "take (unat pos) (sk_data g) = take (unat pos) (sk_elems g)"
      using p by (simp_all add: sk_elems_def drop_take)
    ultimately show ?thesis using False by (simp add: data_def)
  qed
  have "length data = length (sk_data g)" using room by (auto simp: data_def list_blit_def word_le_nat_alt)
  moreover have "sk_size g + 1 < sk_num_alloc g" using u room D by (simp add: word_less_nat_alt)
  moreover have "sk_elems s' = take (Suc ?n) data" unfolding sk_elems_def by (simp add: r u)
  ultimately show ?thesis
    using G D e grows by (simp add: r sk_shape_def)
qed

lemma delete_elems:
  assumes s: "sk_shape sk" and d: "sk_delete sk pos = (r, s')"
  shows "sk_shape s' \<and> sk_comp s' = sk_comp sk \<and> sk_sorted s' = sk_sorted sk
    \<and> (if unat pos < length (sk_elems sk)
       then r = sk_elems sk ! unat pos
         \<and> sk_elems s' = take (unat pos) (sk_elems sk) @ drop (Suc (unat pos)) (sk_elems sk)
       else r = 0 \<and> s' = sk)"
proof (cases "pos \<ge> sk_size sk")
  case True
  then show ?thesis using d s sk_shapeD [OF s] by (simp add: sk_delete_def word_le_nat_alt)
next
  case False
  note D = sk_shapeD [OF s]
  let ?n = "unat (sk_size sk)"
  have p: "unat pos < ?n" using False by (simp add: word_le_nat_alt)
  have u: "unat (sk_size sk - 1) = ?n - 1" "unat (sk_size sk - pos - 1) = ?n - unat pos - 1"
    using p by (simp_all add: unat_sub word_le_nat_alt)
  let ?data = "if pos \<noteq> sk_size sk - 1
      then list_blit (sk_data sk) (unat pos)
        (take (unat (sk_size sk - pos - 1)) (drop (unat pos + 1) (sk_data sk)))
      else sk_data sk"
  have r: "r = sk_data sk ! unat pos" "s' = sk\<lparr>sk_data := ?data, sk_size := sk_size sk - 1\<rparr>"
    using d False by (simp_all add: sk_delete_def)
  have e: "take (?n - 1) ?data = take (unat pos) (sk_elems sk) @ drop (Suc (unat pos)) (sk_elems sk)"
  proof (cases "pos = sk_size sk - 1")
    case True
    then have "unat pos = ?n - 1" using u by simp
    then show ?thesis using True D p by (simp add: sk_elems_def)
  next
    case False
    then show ?thesis
      using D p u unfolding sk_elems_def
      by (auto intro!: nth_equalityI simp: list_blit_def nth_append)
  qed
  have "length ?data = length (sk_data sk)" using D p u by (simp add: list_blit_def)
  moreover have "sk_size sk - 1 < sk_num_alloc sk" using u D by (simp add: word_less_nat_alt)
  ultimately show ?thesis
    using s D e u p by (simp add: r sk_shape_def sk_elems_def)
qed

section \<open>Searching\<close>

text \<open>What a search for the first hit between two indices answers.\<close>

definition finds :: "(nat \<Rightarrow> bool) \<Rightarrow> u64 \<Rightarrow> u64 \<Rightarrow> u64 option \<Rightarrow> bool" where
  "finds hit lo hi r \<longleftrightarrow> (case r of
      Some j \<Rightarrow> lo \<le> j \<and> j < hi \<and> hit (unat j) \<and> (\<forall>k. unat lo \<le> k \<and> k < unat j \<longrightarrow> \<not> hit k)
    | None \<Rightarrow> \<forall>k. unat lo \<le> k \<and> k < unat hi \<longrightarrow> \<not> hit k)"

lemma first_index_finds: "finds (\<lambda>k. test (data ! k)) i num (first_index test data num i)"
proof (induction test data num i rule: first_index.induct [case_names step])
  case (step test data num i)
  show ?case
  proof (cases "i < num \<and> \<not> test (data ! unat i)")
    case True
    have u: "unat (i + 1) = Suc (unat i)" using True unat_step by blast
    have f: "first_index test data num i = first_index test data num (i + 1)"
      using True by (simp add: first_index.simps [of test data num i])
    have "\<not> test (data ! k)" if "unat i \<le> k" "unat (i + 1) \<le> k \<longrightarrow> \<not> test (data ! k)" for k
      using that True u by (cases "k = unat i") auto
    then show ?thesis
      using step True u unfolding f finds_def
      by (auto simp: word_le_nat_alt word_less_nat_alt split: option.splits)
  next
    case False
    then show ?thesis
      by (auto simp: first_index.simps [of test data num i] finds_def word_less_nat_alt)
  qed
qed

text \<open>A search that was narrowed to a part of the interval.\<close>

lemma finds_narrow:
  assumes "finds hit lo' hi' r" "lo \<le> lo'" "hi' \<le> hi"
    and "\<And>k. unat lo \<le> k \<Longrightarrow> k < unat lo' \<Longrightarrow> \<not> hit k"
    and "\<And>k. r = None \<Longrightarrow> unat hi' \<le> k \<Longrightarrow> k < unat hi \<Longrightarrow> \<not> hit k"
  shows "finds hit lo hi r"
proof (cases r)
  case None
  have "\<not> hit k" if "unat lo \<le> k" "k < unat hi" for k
  proof -
    have n: "unat lo' \<le> k \<Longrightarrow> k < unat hi' \<Longrightarrow> \<not> hit k" using assms(1) None by (simp add: finds_def)
    show ?thesis
      using assms(4) [OF that(1)] assms(5) [OF None _ that(2)] n by (cases "k < unat lo'"; cases "k < unat hi'") auto
  qed
  then show ?thesis using None by (simp add: finds_def)
next
  case (Some j)
  then have j: "lo' \<le> j" "j < hi'" "hit (unat j)" "\<And>k. unat lo' \<le> k \<Longrightarrow> k < unat j \<Longrightarrow> \<not> hit k"
    using assms(1) by (auto simp: finds_def)
  have "\<not> hit k" if "unat lo \<le> k" "k < unat j" for k
    using assms(4) [OF that(1)] j(4) [OF _ that(2)] by (cases "k < unat lo'") auto
  moreover have "lo \<le> j" "j < hi"
    using j(1,2) assms(2,3) by (simp_all add: word_le_nat_alt word_less_nat_alt)
  ultimately show ?thesis using Some j(3) by (simp add: finds_def)
qed

definition falling :: "(nat \<Rightarrow> int) \<Rightarrow> nat \<Rightarrow> nat \<Rightarrow> bool" where
  "falling f lo hi \<longleftrightarrow> (\<forall>i j. lo \<le> i \<and> i \<le> j \<and> j < hi \<longrightarrow> (f j > 0 \<longrightarrow> f i > 0) \<and> (f i < 0 \<longrightarrow> f j < 0))"

lemma falling_sub: "falling f lo hi \<Longrightarrow> lo \<le> lo' \<Longrightarrow> hi' \<le> hi \<Longrightarrow> falling f lo' hi'"
  unfolding falling_def by (meson le_trans less_le_trans)

lemma fallingD:
  assumes "falling f lo hi" "lo \<le> i" "i \<le> j" "j < hi"
  shows "f j > 0 \<Longrightarrow> f i > 0" "f i < 0 \<Longrightarrow> f j < 0"
  using assms by (auto simp: falling_def)

lemma sk_search_finds:
  "falling (\<lambda>k. r (data ! k)) (unat lo) (unat hi)
    \<Longrightarrow> finds (\<lambda>k. r (data ! k) = 0) lo hi (sk_search r data lo hi)"
proof (induction r data lo hi rule: sk_search.induct [case_names step])
  case (step r data lo hi)
  show ?case
  proof (cases "lo < hi")
    case False
    then show ?thesis by (auto simp: sk_search.simps [of r data lo hi] finds_def word_less_nat_alt)
  next
    case True
    then have l: "unat lo < unat hi" by (simp add: word_less_nat_alt)
    define mid where "mid = lo + (hi - lo - 1) div 2"
    have m: "unat lo \<le> unat mid" "unat mid < unat hi" "unat (mid + 1) = Suc (unat mid)"
      using search_mid [OF l] l by (simp_all add: mid_def)
    consider (low) "r (data ! unat mid) > 0" | (high) "r (data ! unat mid) < 0" | (hit) "r (data ! unat mid) = 0"
      by linarith
    then show ?thesis
    proof cases
      case low
      have e: "sk_search r data lo hi = sk_search r data (mid + 1) hi"
        using True low by (simp add: sk_search.simps [of r data lo hi] Let_def flip: mid_def)
      have f: "finds (\<lambda>k. r (data ! k) = 0) (mid + 1) hi (sk_search r data (mid + 1) hi)"
        by (rule step.IH(1) [OF True mid_def low], rule falling_sub [OF step.prems]) (use m in simp_all)
      have "r (data ! k) \<noteq> 0" if "unat lo \<le> k" "k < unat (mid + 1)" for k
        using fallingD(1) [OF step.prems that(1) _ m(2)] that(2) m(3) low by simp
      then show ?thesis
        unfolding e by (intro finds_narrow [OF f]) (use m in \<open>auto simp: word_le_nat_alt\<close>)
    next
      case high
      have e: "sk_search r data lo hi = sk_search r data lo mid"
        using True high by (simp add: sk_search.simps [of r data lo hi] Let_def flip: mid_def)
      have f: "finds (\<lambda>k. r (data ! k) = 0) lo mid (sk_search r data lo mid)"
        by (rule step.IH(2) [OF True mid_def _ high], use high in simp, rule falling_sub [OF step.prems])
          (use m in simp_all)
      have "r (data ! k) \<noteq> 0" if "unat mid \<le> k" "k < unat hi" for k
        using fallingD(2) [OF step.prems m(1) that] high by simp
      then show ?thesis
        unfolding e by (intro finds_narrow [OF f]) (use m in \<open>auto simp: word_le_nat_alt\<close>)
    next
      case hit
      show ?thesis
      proof (cases "hi - lo = 1")
        case one: True
        then have "unat hi = Suc (unat lo)" using search_mid(1) [OF l] l by simp
        then have ml: "unat mid = unat lo" using m by simp
        then have "mid = lo" by (rule unsigned_word_eqI [where 'a = nat])
        then have "sk_search r data lo hi = Some mid"
          using True hit one by (simp add: sk_search.simps [of r data lo hi] Let_def)
        then show ?thesis using m ml hit by (simp add: finds_def word_le_nat_alt word_less_nat_alt)
      next
        case False
        have e: "sk_search r data lo hi = sk_search r data lo (mid + 1)"
          using True hit False by (simp add: sk_search.simps [of r data lo hi] Let_def flip: mid_def)
        have f: "finds (\<lambda>k. r (data ! k) = 0) lo (mid + 1) (sk_search r data lo (mid + 1))"
          by (rule step.IH(3) [OF True mid_def _ _ False], use hit in simp, use hit in simp,
              rule falling_sub [OF step.prems]) (use m in simp_all)
        then have "sk_search r data lo (mid + 1) \<noteq> None"
          using hit m by (auto simp: finds_def split: option.splits)
        then show ?thesis
          unfolding e by (intro finds_narrow [OF f]) (use m in \<open>auto simp: word_le_nat_alt\<close>)
      qed
    qed
  qed
qed

text \<open>\<open>sk_find\<close> finds the first element that matches, whatever way it searches.\<close>

definition sk_matches :: "cmp_call \<Rightarrow> stack_st \<Rightarrow> ptr \<Rightarrow> ptr \<Rightarrow> bool" where
  "sk_matches call sk p q \<longleftrightarrow>
    (if sk_comp sk = 0 then q = p else p \<noteq> 0 \<and> call (sk_comp sk) p q = 0)"

lemma finds_cong:
  "finds hit lo hi r \<Longrightarrow> (\<And>k. k < unat hi \<Longrightarrow> hit k = hit' k) \<Longrightarrow> finds hit' lo hi r"
  by (auto simp: finds_def word_less_nat_alt split: option.splits)

lemma find_finds:
  assumes ok: "sk_ok call sk" and c: "sk_comp sk \<noteq> 0 \<Longrightarrow> comparator (call (sk_comp sk))"
  shows "finds (\<lambda>k. sk_matches call sk p (sk_elems sk ! k)) 0 (sk_size sk) (sk_find call (Some sk) p)"
proof -
  have s: "sk_shape sk" using ok by (simp add: sk_ok_def)
  note d = sk_shapeD [OF s] and e = sk_nth [OF s]
  let ?test = "if sk_comp sk = 0 then (\<lambda>q. q = p) else (\<lambda>q. call (sk_comp sk) p q = 0)"
  have lin: "finds (\<lambda>k. ?test (sk_elems sk ! k)) 0 (sk_size sk) (first_index ?test (sk_data sk) (sk_size sk) 0)"
    using e by (intro finds_cong [OF first_index_finds]) simp
  have srt: "finds (\<lambda>k. call (sk_comp sk) p (sk_elems sk ! k) = 0) 0 (sk_size sk)
      (sk_search (call (sk_comp sk) p) (sk_data sk) 0 (sk_size sk))"
    if n: "sk_comp sk \<noteq> 0" and o: "sk_sorted sk"
  proof (rule finds_cong [OF sk_search_finds])
    have o: "in_order (call (sk_comp sk)) (sk_elems sk)" using ok o by (simp add: sk_ok_def)
    note f = comparator.too_low [OF c [OF n] o] comparator.not_below [OF c [OF n] o]
    show "falling (\<lambda>k. call (sk_comp sk) p (sk_data sk ! k)) (unat (0 :: u64)) (unat (sk_size sk))"
      unfolding falling_def
    proof (intro allI impI)
      fix i j
      assume "unat (0 :: u64) \<le> i \<and> i \<le> j \<and> j < unat (sk_size sk)"
      then show "(call (sk_comp sk) p (sk_data sk ! j) > 0 \<longrightarrow> call (sk_comp sk) p (sk_data sk ! i) > 0)
        \<and> (call (sk_comp sk) p (sk_data sk ! i) < 0 \<longrightarrow> call (sk_comp sk) p (sk_data sk ! j) < 0)"
        using f [of i j p] d e by simp
    qed
  qed (simp add: e)
  consider (ptr) "sk_comp sk = 0" | (null) "sk_comp sk \<noteq> 0" "p = 0"
    | (linear) "sk_comp sk \<noteq> 0" "p \<noteq> 0" "\<not> sk_sorted sk" | (binary) "sk_comp sk \<noteq> 0" "p \<noteq> 0" "sk_sorted sk"
    by blast
  then show ?thesis
  proof cases
    case ptr
    then show ?thesis using lin by (simp add: sk_find_def sk_matches_def)
  next
    case null
    then show ?thesis by (simp add: sk_find_def sk_matches_def finds_def)
  next
    case linear
    then show ?thesis using lin by (simp add: sk_find_def sk_matches_def sk_is_sorted_def)
  next
    case binary
    then show ?thesis using srt by (simp add: sk_find_def sk_matches_def sk_is_sorted_def)
  qed
qed

section \<open>Runs of operations\<close>

datatype sk_op = Push ptr | Insert ptr u64 | Delete u64 | Delete_ptr ptr | Shift | Pop
  | Set u64 ptr | Zero | Sort | Set_cmp ptr

fun sk_run :: "sys_malloc \<Rightarrow> cmp_call \<Rightarrow> sk_op \<Rightarrow> stack_st \<Rightarrow> u64 \<times> stack_st" where
  "sk_run mal call (Push p) sk = sk_push mal sk p"
| "sk_run mal call (Insert p i) sk = sk_insert mal sk p i"
| "sk_run mal call (Delete i) sk = sk_delete sk i"
| "sk_run mal call (Delete_ptr p) sk = sk_delete_ptr sk p"
| "sk_run mal call Shift sk = sk_shift sk"
| "sk_run mal call Pop sk = sk_pop sk"
| "sk_run mal call (Set i p) sk = sk_set sk i p"
| "sk_run mal call Zero sk = (0, sk_zero sk)"
| "sk_run mal call Sort sk = (0, sk_sort call sk)"
| "sk_run mal call (Set_cmp f) sk = sk_set_cmp_func sk f"

text \<open>What each operation does to the list of elements: whether there is memory, the list before,
  the result, and the list behind. Insertion fails without memory, and then changes nothing.\<close>

definition grown :: "bool \<Rightarrow> ptr list \<Rightarrow> u64 \<Rightarrow> ptr list \<Rightarrow> ptr list \<Rightarrow> bool" where
  "grown nomem xs r ys xs' \<longleftrightarrow> (if nomem then r = 0 \<and> xs' = xs else r = word_of_nat (length ys) \<and> xs' = ys)"

fun list_op :: "bool \<Rightarrow> cmp_call \<Rightarrow> ptr \<Rightarrow> sk_op \<Rightarrow> ptr list \<Rightarrow> u64 \<Rightarrow> ptr list \<Rightarrow> bool" where
  "list_op nomem call f (Push p) xs r xs' = grown nomem xs r (xs @ [p]) xs'"
| "list_op nomem call f (Insert p i) xs r xs' = grown nomem xs r (take (unat i) xs @ p # drop (unat i) xs) xs'"
| "list_op nomem call f (Delete i) xs r xs' =
    (r = nth_or 0 xs (unat i) \<and> xs' = take (unat i) xs @ drop (Suc (unat i)) xs)"
| "list_op nomem call f (Delete_ptr p) xs r xs' = (r = (if p \<in> set xs then p else 0) \<and> xs' = remove1 p xs)"
| "list_op nomem call f Shift xs r xs' = (r = nth_or 0 xs 0 \<and> xs' = drop 1 xs)"
| "list_op nomem call f Pop xs r xs' = (r = (if xs = [] then 0 else last xs) \<and> xs' = butlast xs)"
| "list_op nomem call f (Set i p) xs r xs' = (r = (if unat i < length xs then p else 0) \<and> xs' = xs[unat i := p])"
| "list_op nomem call f Zero xs r xs' = (xs' = [])"
| "list_op nomem call f Sort xs r xs' = (mset xs' = mset xs \<and> (f = 0 \<longrightarrow> xs' = xs)
    \<and> (f \<noteq> 0 \<and> comparator (call f) \<longrightarrow> in_order (call f) xs'))"
| "list_op nomem call f (Set_cmp g) xs r xs' = (xs' = xs \<and> r = f)"

lemma size_elems: "sk_shape sk \<Longrightarrow> sk_size sk = word_of_nat (length (sk_elems sk))"
  using sk_shapeD(4) by (intro word_of_nat_if_unat) simp

lemma in_order_drop_nth: "in_order cmp xs \<Longrightarrow> in_order cmp (take i xs @ drop (Suc i) xs)"
proof (cases "i < length xs")
  case True
  assume "in_order cmp xs"
  then have "in_order cmp (take i xs @ xs ! i # drop (Suc i) xs)" using True by (simp add: id_take_nth_drop [symmetric])
  then show ?thesis by (simp add: in_order_def sorted_wrt_append)
qed simp

lemma push_run:
  assumes m: "malloc_ok mal" and ok: "sk_ok call sk" and i: "sk_insert mal sk p pos = (r, s')"
  shows "sk_ok call s' \<and> grown (no_memory mal sk) (sk_elems sk) r (take (unat pos) (sk_elems sk) @ p # drop (unat pos) (sk_elems sk)) (sk_elems s')"
proof -
  have s: "sk_shape sk" using ok by (simp add: sk_ok_def)
  from insert_elems [OF m s i] size_elems [of s'] ok show ?thesis
    by (auto simp: sk_ok_def grown_def split: if_splits)
qed

lemma delete_run:
  assumes ok: "sk_ok call sk" and d: "sk_delete sk pos = (r, s')"
  shows "sk_ok call s' \<and> r = nth_or 0 (sk_elems sk) (unat pos)
    \<and> sk_elems s' = take (unat pos) (sk_elems sk) @ drop (Suc (unat pos)) (sk_elems sk)"
proof -
  have s: "sk_shape sk" using ok by (simp add: sk_ok_def)
  from delete_elems [OF s d] ok in_order_drop_nth [of "call (sk_comp sk)" "sk_elems sk" "unat pos"]
  show ?thesis by (auto simp: sk_ok_def nth_or_def split: if_splits)
qed

lemma delete_ptr_run:
  assumes ok: "sk_ok call sk" and d: "sk_delete_ptr sk p = (r, s')"
  shows "sk_ok call s' \<and> r = (if p \<in> set (sk_elems sk) then p else 0) \<and> sk_elems s' = remove1 p (sk_elems sk)"
proof -
  have s: "sk_shape sk" using ok by (simp add: sk_ok_def)
  let ?xs = "sk_elems sk"
  have F: "finds (\<lambda>k. ?xs ! k = p) 0 (sk_size sk) (first_index (\<lambda>q. q = p) (sk_data sk) (sk_size sk) 0)"
    by (rule finds_cong [OF first_index_finds]) (simp add: sk_nth [OF s])
  show ?thesis
  proof (cases "first_index (\<lambda>q. q = p) (sk_data sk) (sk_size sk) 0")
    case None
    then have "p \<notin> set ?xs" using F sk_shapeD(4) [OF s] by (auto simp: finds_def in_set_conv_nth)
    then show ?thesis using None d ok by (simp add: sk_delete_ptr_def remove1_idem)
  next
    case (Some j)
    then have j: "unat j < length ?xs" "?xs ! unat j = p" "\<forall>k < unat j. ?xs ! k \<noteq> p"
      using F sk_shapeD(4) [OF s] by (simp_all add: finds_def word_less_nat_alt)
    have x: "?xs = take (unat j) ?xs @ p # drop (Suc (unat j)) ?xs" using j by (metis id_take_nth_drop)
    have "p \<notin> set (take (unat j) ?xs)" using j by (auto simp: in_set_conv_nth)
    then have "remove1 p ?xs = take (unat j) ?xs @ drop (Suc (unat j)) ?xs"
      by (subst x) (simp add: remove1_append)
    moreover have "p \<in> set ?xs" using j by auto
    moreover have "sk_delete sk j = (r, s')" using d Some by (simp add: sk_delete_ptr_def)
    note delete_run [OF ok this]
    ultimately show ?thesis using j by (simp add: nth_or_def)
  qed
qed

lemma set_run:
  assumes s: "sk_shape sk" and d: "sk_set sk i p = (r, s')"
  shows "sk_shape s' \<and> r = (if unat i < length (sk_elems sk) then p else 0)
    \<and> sk_elems s' = (sk_elems sk)[unat i := p]"
proof (cases "i \<ge> sk_size sk")
  case True
  then have "(sk_elems sk)[unat i := p] = sk_elems sk"
    using sk_shapeD(4) [OF s] by (intro list_update_beyond) (simp add: word_le_nat_alt)
  then show ?thesis using True d s sk_shapeD(4) [OF s] by (auto simp: sk_set_def word_le_nat_alt)
next
  case False
  then have "unat i < unat (sk_size sk)" by (simp add: word_le_nat_alt)
  moreover have "r = p" "s' = sk\<lparr>sk_data := (sk_data sk)[unat i := p]\<rparr>"
    using d False by (auto simp: sk_set_def)
  ultimately show ?thesis
    using s sk_shapeD(4) [OF s] by (simp add: sk_shape_def sk_elems_def take_update_swap)
qed

lemma blit_shape:
  assumes "sk_shape sk" "length ys = unat (sk_size sk)"
  shows "take (unat (sk_size sk)) (list_blit (sk_data sk) 0 ys) = ys"
    "length (list_blit (sk_data sk) 0 ys) = unat (sk_num_alloc sk)"
  using assms sk_shapeD [OF assms(1)] by (simp_all add: list_blit_def)

lemma zero_run: "sk_ok call sk \<Longrightarrow> sk_ok call (sk_zero sk) \<and> sk_elems (sk_zero sk) = []"
proof -
  assume ok: "sk_ok call sk"
  then have s: "sk_shape sk" by (simp add: sk_ok_def)
  show ?thesis
  proof (cases "sk_size sk = 0")
    case True
    then show ?thesis using ok by (simp add: sk_zero_def sk_elems_def)
  next
    case False
    have "0 < sk_num_alloc sk" using sk_shapeD(2) [OF s] by (simp add: word_less_nat_alt)
    then show ?thesis
      using s False blit_shape [OF s, of "replicate (unat (sk_size sk)) 0"]
      by (simp add: sk_zero_def sk_ok_def sk_shape_def sk_elems_def)
  qed
qed

lemma sort_run:
  assumes ok: "sk_ok call sk"
  shows "sk_shape (sk_sort call sk) \<and> mset (sk_elems (sk_sort call sk)) = mset (sk_elems sk)
    \<and> (sk_comp sk = 0 \<longrightarrow> sk_sort call sk = sk) \<and> sk_comp (sk_sort call sk) = sk_comp sk
    \<and> (sk_comp sk \<noteq> 0 \<longrightarrow> comparator (call (sk_comp sk))
      \<longrightarrow> in_order (call (sk_comp sk)) (sk_elems (sk_sort call sk)))"
proof -
  have s: "sk_shape sk" using ok by (simp add: sk_ok_def)
  let ?cmp = "call (sk_comp sk)"
  show ?thesis
  proof (cases "sk_comp sk = 0 \<or> sk_sorted sk")
    case True
    then have "sk_sort call sk = sk" by (simp add: sk_sort_def)
    then show ?thesis using ok True by (auto simp: sk_ok_def)
  next
    case False
    define ys where "ys = (if sk_size sk \<ge> 2 then qsort_by ?cmp (sk_elems sk) else sk_elems sk)"
    have l: "length ys = unat (sk_size sk)" using sk_shapeD(4) [OF s] by (simp add: ys_def)
    have d: "take (unat (sk_size sk)) (sk_data (sk_sort call sk)) = ys"
      using False blit_shape(1) [OF s] l by (auto simp: sk_sort_def ys_def sk_elems_def)
    then have e: "sk_elems (sk_sort call sk) = ys"
      using False by (simp add: sk_elems_def sk_sort_def)
    have "in_order ?cmp ys" if c: "comparator ?cmp"
    proof (cases "sk_size sk \<ge> 2")
      case True
      then show ?thesis using comparator.in_order_qsort [OF c] by (simp add: ys_def)
    next
      case small: False
      then have "length ys < 2" using l by (simp add: word_le_nat_alt)
      then show ?thesis by (cases ys) (auto simp: in_order_def)
    qed
    moreover have "sk_shape (sk_sort call sk)"
      using False s blit_shape(2) [OF s, of "qsort_by ?cmp (sk_elems sk)"] sk_shapeD(4) [OF s]
      by (simp add: sk_sort_def sk_shape_def sk_elems_def)
    ultimately show ?thesis using False unfolding e by (simp add: ys_def sk_sort_def)
  qed
qed

lemma pop_list:
  "sk_elems sk \<noteq> [] \<Longrightarrow> nth_or 0 (sk_elems sk) (length (sk_elems sk) - 1) = last (sk_elems sk)
    \<and> take (length (sk_elems sk) - 1) (sk_elems sk) @ drop (Suc (length (sk_elems sk) - 1)) (sk_elems sk) = butlast (sk_elems sk)"
  by (simp add: nth_or_def last_conv_nth butlast_conv_take)

lemma sk_run_list:
  assumes m: "malloc_ok mal" and ok: "sk_ok call sk" and r: "sk_run mal call op sk = (r, s')"
  shows "list_op (no_memory mal sk) call (sk_comp sk) op (sk_elems sk) r (sk_elems s')
    \<and> sk_shape s' \<and> ((\<forall>i p. op \<noteq> Set i p) \<longrightarrow> (\<forall>f. f \<noteq> 0 \<longrightarrow> comparator (call f)) \<longrightarrow> sk_ok call s')"
proof -
  have s: "sk_shape sk" using ok by (simp add: sk_ok_def)
  have n: "unat (sk_size sk) = length (sk_elems sk)" using sk_shapeD(4) [OF s] by simp
  have sh: "sk_ok call s' \<Longrightarrow> sk_shape s'" by (simp add: sk_ok_def)
  show ?thesis
  proof (cases op)
    case (Push p)
    then have "sk_insert mal sk p (sk_size sk) = (r, s')" using r by (simp add: sk_push_def)
    from push_run [OF m ok this] n sh Push show ?thesis by simp
  next
    case (Insert p i)
    then show ?thesis using push_run [OF m ok, of p i] r sh by simp
  next
    case (Delete i)
    then show ?thesis using delete_run [OF ok, of i] r sh by simp
  next
    case (Delete_ptr p)
    then show ?thesis using delete_ptr_run [OF ok, of p] r sh by simp
  next
    case Shift
    show ?thesis
    proof (cases "sk_size sk = 0")
      case True
      then show ?thesis using Shift r ok n s by (auto simp: sk_shift_def nth_or_def)
    next
      case False
      then have "sk_delete sk 0 = (r, s')" using Shift r by (simp add: sk_shift_def)
      from delete_run [OF ok this] sh Shift show ?thesis by simp
    qed
  next
    case Pop
    show ?thesis
    proof (cases "sk_size sk = 0")
      case True
      then show ?thesis using Pop r ok n s by (auto simp: sk_pop_def)
    next
      case False
      then have d: "sk_delete sk (sk_size sk - 1) = (r, s')" using Pop r by (simp add: sk_pop_def)
      have "unat (sk_size sk) \<noteq> 0" using False by (simp add: unat_eq_0)
      then have ne: "sk_elems sk \<noteq> []" "unat (sk_size sk - 1) = length (sk_elems sk) - 1"
        using n False by (auto simp: unat_minus_one)
      from delete_run [OF ok d] ne pop_list [OF ne(1)] sh Pop show ?thesis by simp
    qed
  next
    case (Set i p)
    then show ?thesis using set_run [OF s, of i p] r by simp
  next
    case Zero
    then show ?thesis using zero_run [OF ok] r sh by simp
  next
    case Sort
    then have e: "r = 0" "s' = sk_sort call sk" using r by auto
    have "sk_ok call s'" if "\<forall>f. f \<noteq> 0 \<longrightarrow> comparator (call f)"
      using sort_run [OF ok] ok that unfolding e by (cases "sk_comp sk = 0") (simp_all add: sk_ok_def)
    then show ?thesis using Sort e sort_run [OF ok] by simp
  next
    case (Set_cmp f)
    then show ?thesis using ok r by (auto simp: sk_set_cmp_func_def sk_ok_def sk_shape_def sk_elems_def split: if_splits)
  qed
qed

fun sk_runs :: "sys_malloc \<Rightarrow> cmp_call \<Rightarrow> sk_op list \<Rightarrow> stack_st \<Rightarrow> stack_st" where
  "sk_runs mal call [] sk = sk"
| "sk_runs mal call (op # ops) sk = sk_runs mal call ops (snd (sk_run mal call op sk))"

lemma sk_new_ok: "sk_new mal f = Some sk \<Longrightarrow> sk_ok call sk \<and> sk_elems sk = [] \<and> sk_comp sk = f"
  by (auto simp: sk_new_def sk_ok_def sk_shape_def sk_elems_def kMinSize_def split: option.splits)

lemma sk_runs_ok:
  assumes m: "malloc_ok mal" and c: "\<forall>f. f \<noteq> 0 \<longrightarrow> comparator (call f)"
  shows "sk_ok call sk \<Longrightarrow> \<forall>op \<in> set ops. \<forall>i p. op \<noteq> Set i p \<Longrightarrow> sk_ok call (sk_runs mal call ops sk)"
proof (induction ops arbitrary: sk)
  case (Cons op ops)
  obtain r s where r: "sk_run mal call op sk = (r, s)" by fastforce
  then have "sk_ok call s" using sk_run_list [OF m Cons.prems(1) r] c Cons.prems(2) by simp
  then show ?case using Cons r by simp
qed simp

section \<open>Copies\<close>

lemma sk_dup_ok:
  assumes m: "malloc_ok mal" and ok: "sk_ok call sk" and d: "sk_dup mal (Some sk) = Some s'"
  shows "sk_ok call s' \<and> sk_elems s' = sk_elems sk \<and> sk_comp s' = sk_comp sk \<and> sk_sorted s' = sk_sorted sk
    \<and> sk_size s' = sk_size sk"
proof -
  have s: "sk_shape sk" using ok by (simp add: sk_ok_def)
  note D = sk_shapeD [OF s]
  obtain ret data where x: "sk_new mal (sk_comp sk) = Some ret"
    "OPENSSL_realloc mal (Some (block_of (sk_data ret))) (8 * sk_num_alloc sk) = Some data"
    "s' = \<lparr>sk_size = sk_size sk, sk_data = list_blit (ptrs_of data) 0 (take (unat (sk_size sk)) (sk_data sk)),
            sk_sorted = sk_sorted sk, sk_num_alloc = sk_num_alloc sk, sk_comp = sk_comp sk\<rparr>"
    using d by (auto simp: sk_dup_def realloc_ptrs_def split: option.splits)
  have u: "unat (8 * sk_num_alloc sk) = 8 * unat (sk_num_alloc sk)"
    using D(3) by (simp add: unat_word_ariths)
  obtain blk where b: "OPENSSL_malloc mal (8 * sk_num_alloc sk) = Some blk"
    "length (ob_data data) = length (ob_data (blk\<lparr>ob_data := list_blit (ob_data blk) 0 (read_at (ob_data (block_of (sk_data ret))) 0
        (unat (if ob_size (block_of (sk_data ret)) < 8 * sk_num_alloc sk then ob_size (block_of (sk_data ret)) else 8 * sk_num_alloc sk)))\<rparr>))"
    using x(2) by (auto simp: OPENSSL_realloc_def Let_def split: option.splits)
  have "block_ok blk \<and> ob_size blk = 8 * sk_num_alloc sk"
    using OPENSSL_malloc_ok [OF m b(1)] u D(3) by simp
  then have "length (ob_data data) = 8 * unat (sk_num_alloc sk)"
    using b(2) u by (auto simp: block_ok_def list_blit_def word_less_nat_alt)
  then have l: "length (ptrs_of data) = unat (sk_num_alloc sk)" by (simp add: ptrs_of_def)
  have "take (unat (sk_size sk)) (list_blit (ptrs_of data) 0 (sk_elems sk)) = sk_elems sk"
    using D(4) by (simp add: list_blit_def)
  then have e: "sk_elems s' = sk_elems sk" by (simp add: x(3) sk_elems_def)
  have "length (sk_data s') = unat (sk_num_alloc sk)" using l D by (simp add: x(3) list_blit_def)
  then have "sk_shape s'" using s by (simp add: sk_shape_def x(3))
  moreover have "sk_sorted s' = sk_sorted sk" "sk_comp s' = sk_comp sk" "sk_size s' = sk_size sk"
    by (simp_all add: x(3))
  ultimately show ?thesis using ok e by (simp add: sk_ok_def)
qed

text \<open>What the copy function made in the calls for the elements before the one it failed at.\<close>

definition copied :: "(nat \<Rightarrow> ptr \<Rightarrow> ptr) \<Rightarrow> nat \<Rightarrow> ptr list \<Rightarrow> nat \<Rightarrow> ptr list \<Rightarrow> bool" where
  "copied copy i ps n cs \<longleftrightarrow> length cs = n \<and> (\<forall>k < n. if ps ! k = 0 then cs ! k = 0
     else cs ! k = copy (i + k) (ps ! k) \<and> copy (i + k) (ps ! k) \<noteq> 0)"

lemma copied_Cons:
  "copied copy i (p # ps) (Suc n) (c # cs) \<longleftrightarrow>
    (if p = 0 then c = 0 else c = copy i p \<and> copy i p \<noteq> 0) \<and> copied copy (Suc i) ps n cs"
  by (auto simp: copied_def All_less_Suc2)

lemma copy_elems_result:
  "case copy_elems copy i ps of
      Inr cs \<Rightarrow> copied copy i ps (length ps) cs
    | Inl made \<Rightarrow> \<exists>n < length ps. ps ! n \<noteq> 0 \<and> copy (i + n) (ps ! n) = 0 \<and> copied copy i ps n made"
proof (induction copy i ps rule: copy_elems.induct)
  case (2 copy i p ps)
  show ?case
  proof (cases "p \<noteq> 0 \<and> copy i p = 0")
    case True
    then show ?thesis by (auto simp: copied_def intro!: exI [of _ 0])
  next
    case False
    define c where "c = (if p = 0 then 0 else copy i p)"
    have e: "copy_elems copy i (p # ps) = map_sum ((#) c) ((#) c) (copy_elems copy (Suc i) ps)"
      using False by (auto simp: c_def)
    show ?thesis
    proof (cases "copy_elems copy (Suc i) ps")
      case (Inl made)
      then obtain n where "n < length ps" "ps ! n \<noteq> 0" "copy (Suc i + n) (ps ! n) = 0"
        "copied copy (Suc i) ps n made"
        using 2 False by (auto split: if_splits)
      then show ?thesis
        unfolding e using Inl False by (auto simp: c_def copied_Cons intro!: exI [of _ "Suc n"])
    next
      case (Inr cs)
      then have "copied copy (Suc i) ps (length ps) cs" using 2 False by (auto split: if_splits)
      then show ?thesis unfolding e using Inr False by (auto simp: c_def copied_Cons)
    qed
  qed
qed (simp add: copied_def)

section \<open>The properties\<close>

definition sample_call :: cmp_call where
  "sample_call f a b = (if a < b then - 1 else if b < a then 1 else 0)"

interpretation sample: comparator "sample_call f"
  by unfold_locales (auto simp: sample_call_def split: if_splits)

definition sample_stack :: stack_st where
  "sample_stack = sk_runs sample_malloc sample_call
    [Push 30, Push 10, Insert 20 1, Push 20, Push 20, Push 5] (the (sk_new sample_malloc 7))"

lemma sample_new: "sk_new sample_malloc 7 = Some (the (sk_new sample_malloc 7))"
proof -
  have "sk_new sample_malloc 7 \<noteq> None" by code_simp
  then show ?thesis by simp
qed

lemma sample_stack_ok: "sk_ok sample_call sample_stack" "sk_comp sample_stack = 7"
proof -
  show "sk_ok sample_call sample_stack"
    unfolding sample_stack_def
    by (rule sk_runs_ok [OF sample_malloc_ok])
      (use sk_new_ok [OF sample_new] sample.comparator_axioms in auto)
  show "sk_comp sample_stack = 7" by code_simp
qed

text \<open>C13: A stack refines a list: each operation leaves a list of valid elements that the
  operation on lists allows, and returns its result. Pushing and inserting fail for want of memory
  only, that is when the array has no second free slot and the allocator refuses one of twice the
  size; they then leave the elements as they were.\<close>

theorem stack_refines_list:
  assumes "malloc_ok mal" "sk_ok call sk" "sk_run mal call op sk = (r, sk')"
  shows "list_op (no_memory mal sk) call (sk_comp sk) op (sk_elems sk) r (sk_elems sk')"
  using sk_run_list [OF assms] by blast

theorem stack_refines_list_witness:
  "sk_elems (snd (sk_run sample_malloc sample_call (Insert 40 2) sample_stack))
    = take 2 (sk_elems sample_stack) @ 40 # drop 2 (sk_elems sample_stack)"
proof -
  have "fst (sk_run sample_malloc sample_call (Insert 40 2) sample_stack) = 7" by code_simp
  then have "sk_run sample_malloc sample_call (Insert 40 2) sample_stack
      = (7, snd (sk_run sample_malloc sample_call (Insert 40 2) sample_stack))"
    by (metis prod.collapse)
  from stack_refines_list [OF sample_malloc_ok sample_stack_ok(1) this] show ?thesis
    by (simp add: grown_def split: if_splits)
qed

text \<open>C31: In every stack that a run of the operations makes out of a new one, there is room for
  one more element, and a set flag \<open>sorted\<close> means that the elements are in order: as long as
  the run has no \<open>sk_set\<close>.\<close>

theorem stack_run_keeps_order:
  assumes "malloc_ok mal" "\<forall>f. f \<noteq> 0 \<longrightarrow> comparator (call f)" "sk_new mal f = Some sk"
    and "\<forall>op \<in> set ops. \<forall>i p. op \<noteq> Set i p"
  shows "sk_ok call (sk_runs mal call ops sk)"
  by (rule sk_runs_ok [OF assms(1,2) _ assms(4)]) (use sk_new_ok [OF assms(3)] in blast)

theorem stack_run_keeps_order_witness:
  "sk_ok sample_call (sk_runs sample_malloc sample_call [Push 30, Push 10, Sort, Pop]
    (the (sk_new sample_malloc 7)))"
  by (rule stack_run_keeps_order [OF sample_malloc_ok _ sample_new])
    (simp_all add: sample.comparator_axioms)

text \<open>C15: \<open>sk_find\<close> returns an index if and only if the first element that matches is at it,
  whether it compares pointers, searches linearly or searches in halves.\<close>

theorem sk_find_first:
  assumes "sk_ok call sk" "sk_comp sk \<noteq> 0 \<longrightarrow> comparator (call (sk_comp sk))"
  shows "sk_find call (Some sk) p = Some j \<longleftrightarrow>
    unat j < length (sk_elems sk) \<and> sk_matches call sk p (sk_elems sk ! unat j)
    \<and> (\<forall>k < unat j. \<not> sk_matches call sk p (sk_elems sk ! k))"
    (is "_ \<longleftrightarrow> ?first j")
proof -
  have l: "length (sk_elems sk) = unat (sk_size sk)" using assms(1) sk_shapeD(4) by (simp add: sk_ok_def)
  have f: "finds (\<lambda>k. sk_matches call sk p (sk_elems sk ! k)) 0 (sk_size sk) (sk_find call (Some sk) p)"
    using find_finds [OF assms(1)] assms(2) by blast
  show ?thesis
  proof (cases "sk_find call (Some sk) p")
    case None
    then show ?thesis using f l by (auto simp: finds_def)
  next
    case (Some i)
    then have i: "?first i" using f l by (auto simp: finds_def word_less_nat_alt)
    have ij: "i = j" if "?first j"
    proof -
      have "unat i = unat j" using i that by (metis linorder_neqE_nat)
      then show ?thesis by (rule unsigned_word_eqI [where 'a = nat])
    qed
    show ?thesis
    proof
      assume "sk_find call (Some sk) p = Some j"
      then have "i = j" using Some by simp
      then show "?first j" using i by simp
    next
      assume "?first j"
      then show "sk_find call (Some sk) p = Some j" using ij Some by blast
    qed
  qed
qed

theorem sk_find_first_witness:
  "sk_find sample_call (Some (sk_sort sample_call sample_stack)) 20 = Some 2
   \<and> sk_elems (sk_sort sample_call sample_stack) ! 2 = 20
   \<and> sk_elems (sk_sort sample_call sample_stack) ! 1 \<noteq> 20"
proof -
  let ?sk = "sk_sort sample_call sample_stack"
  have ok: "sk_ok sample_call ?sk" "sk_comp ?sk = 7"
    using sort_run [OF sample_stack_ok(1)] sample_stack_ok(2) sample.comparator_axioms
    by (simp_all add: sk_ok_def)
  have "sk_find sample_call (Some ?sk) 20 = Some 2" by code_simp
  with sk_find_first [OF ok(1), of 20 2] ok(2) sample.comparator_axioms
  have f: "sk_matches sample_call ?sk 20 (sk_elems ?sk ! 2)"
    "\<And>k. k < 2 \<Longrightarrow> \<not> sk_matches sample_call ?sk 20 (sk_elems ?sk ! k)" by simp_all
  show ?thesis
    using \<open>sk_find sample_call (Some ?sk) 20 = Some 2\<close> f(1) f(2) [of 1] ok(2)
    by (auto simp: sk_matches_def sample_call_def split: if_splits)
qed

text \<open>C32: A deep copy has a copy of every element that is not NULL; and when the copy function
  fails, what is freed is what it made before, each copy once.\<close>

theorem deep_copy_frees_what_it_made:
  assumes "malloc_ok mal" "sk_ok call sk" "sk_deep_copy mal copy (Some sk) = (res, freed)"
  shows "case res of
      Some sk' \<Rightarrow> freed = [] \<and> sk_shape sk' \<and> copied copy 0 (sk_elems sk) (length (sk_elems sk)) (sk_elems sk')
    | None \<Rightarrow> (sk_dup mal (Some sk) = None \<and> freed = [])
        \<or> (\<exists>n made. n < length (sk_elems sk) \<and> sk_elems sk ! n \<noteq> 0 \<and> copy n (sk_elems sk ! n) = 0
            \<and> copied copy 0 (sk_elems sk) n made \<and> freed = filter (\<lambda>p. p \<noteq> 0) made)"
proof (cases "sk_dup mal (Some sk)")
  case None
  then show ?thesis using assms(3) by (simp add: sk_deep_copy_def split: option.split)
next
  case (Some ret)
  note D = sk_dup_ok [OF assms(1,2) Some]
  have s: "sk_shape ret" using D by (simp add: sk_ok_def)
  have "take (unat (sk_size ret)) (sk_data ret) = sk_elems ret" by (simp only: sk_elems_def)
  also have "\<dots> = sk_elems sk" using D by blast
  finally have e: "take (unat (sk_size ret)) (sk_data ret) = sk_elems sk" .
  note C = copy_elems_result [where copy = copy and i = 0 and ps = "sk_elems sk"]
  show ?thesis
  proof (cases "copy_elems copy 0 (sk_elems sk)")
    case (Inl made)
    then have "res = None" "freed = filter (\<lambda>p. p \<noteq> 0) made"
      using assms(3) Some by (simp_all add: sk_deep_copy_def e)
    then show ?thesis using C Inl by auto
  next
    case (Inr cs)
    then have r: "res = Some (ret\<lparr>sk_data := list_blit (sk_data ret) 0 cs\<rparr>)" "freed = []"
      using assms(3) Some by (auto simp: sk_deep_copy_def e)
    have c: "copied copy 0 (sk_elems sk) (length (sk_elems sk)) cs" using C Inr by simp
    then have "length cs = unat (sk_size ret)" using sk_shapeD(4) [OF s] D by (simp add: copied_def)
    from blit_shape [OF s this] show ?thesis
      using r c s by (simp add: sk_shape_def sk_elems_def)
  qed
qed

theorem deep_copy_frees_what_it_made_witness:
  "\<exists>n made. n < 6 \<and> copied (\<lambda>i p. if i = 3 then 0 else p + 1) 0 (sk_elems sample_stack) n made
    \<and> snd (sk_deep_copy sample_malloc (\<lambda>i p. if i = 3 then 0 else p + 1) (Some sample_stack))
      = filter (\<lambda>p. p \<noteq> 0) made"
proof -
  let ?copy = "\<lambda>i p. if i = 3 then 0 else p + 1 :: ptr"
  have r: "sk_deep_copy sample_malloc ?copy (Some sample_stack)
      = (None, snd (sk_deep_copy sample_malloc ?copy (Some sample_stack)))"
    by code_simp
  have "sk_dup sample_malloc (Some sample_stack) \<noteq> None" "length (sk_elems sample_stack) = 6"
    by code_simp+
  with deep_copy_frees_what_it_made [OF sample_malloc_ok sample_stack_ok(1) r] show ?thesis by auto
qed

text \<open>\<open>sk_set\<close> does not reset \<open>sorted\<close>: in a stack sorted before, the element it stored may
  be out of order, and \<open>sk_find\<close> does not find it.\<close>

theorem sk_set_hides_element:
  "sk_sorted (snd (sk_set (sk_sort sample_call sample_stack) 0 50))
   \<and> sk_value (Some (snd (sk_set (sk_sort sample_call sample_stack) 0 50))) 0 = 50
   \<and> sk_find sample_call (Some (snd (sk_set (sk_sort sample_call sample_stack) 0 50))) 50 = None"
  by code_simp

end
