(* ===== verification/Lhash.thy ===== *)
theory Lhash
  imports Bs_Mem
begin

text \<open>
  BoringSSL's \<open>crypto/lhash/lhash.c\<close>: a hash table with chained buckets. A chain of
  \<open>LHASH_ITEM\<close>s is a list, the head of the bucket first; an item is the stored data with the hash
  value it was inserted under. The functions a table is made with, and the helpers that call
  them, are the parameters \<open>hash\<close> and \<open>cmp\<close>.
\<close>

record 'a item =
  it_data :: 'a
  it_hash :: u32

record 'a lhash_st =
  num_items :: u64
  buckets :: "'a item list list"
  num_buckets :: u64
  callback_depth :: u32

definition kMinNumBuckets :: u64 where "kMinNumBuckets = 16"
definition kMaxAverageChainLength :: u64 where "kMaxAverageChainLength = 2"
definition kMinAverageChainLength :: u64 where "kMinAverageChainLength = 1"

text \<open>A \<open>_LHASH\<close> takes 48 bytes.\<close>

definition lh_new :: "sys_malloc \<Rightarrow> 'a lhash_st option" where
  "lh_new mal = (case OPENSSL_malloc mal 48 of
      None \<Rightarrow> None
    | Some _ \<Rightarrow> (case OPENSSL_malloc mal (8 * kMinNumBuckets) of
        None \<Rightarrow> None
      | Some _ \<Rightarrow> Some \<lparr>num_items = 0, buckets = replicate (unat kMinNumBuckets) [],
          num_buckets = kMinNumBuckets, callback_depth = 0\<rparr>))"

definition lh_num_items :: "'a lhash_st \<Rightarrow> u64" where
  "lh_num_items lh = num_items lh"

text \<open>\<open>hash % num_buckets\<close>\<close>

definition bucket_index :: "u32 \<Rightarrow> u64 \<Rightarrow> nat" where
  "bucket_index h n = unat ((ucast h :: u64) mod n)"

text \<open>
  \<open>get_next_ptr_and_hash\<close> returns the place of the pointer to an item: its bucket and how many
  items of the chain come before it. Behind the last item of the chain is a NULL pointer.
\<close>

fun chain_pos :: "('a \<Rightarrow> bool) \<Rightarrow> 'a item list \<Rightarrow> nat" where
  "chain_pos eq [] = 0"
| "chain_pos eq (cur # rst) = (if eq (it_data cur) then 0 else Suc (chain_pos eq rst))"

definition get_next_ptr_and_hash ::
  "('a \<Rightarrow> u32) \<Rightarrow> ('a \<Rightarrow> 'a \<Rightarrow> int) \<Rightarrow> 'a lhash_st \<Rightarrow> 'a \<Rightarrow> (nat \<times> nat) \<times> u32" where
  "get_next_ptr_and_hash hash cmp lh data =
    (let h = hash data; i = bucket_index h (num_buckets lh)
     in ((i, chain_pos (\<lambda>x. cmp x data = 0) (buckets lh ! i)), h))"

definition get_next_ptr_by_key :: "('k \<Rightarrow> 'a \<Rightarrow> int) \<Rightarrow> 'a lhash_st \<Rightarrow> 'k \<Rightarrow> u32 \<Rightarrow> nat \<times> nat" where
  "get_next_ptr_by_key cmp_key lh key key_hash =
    (let i = bucket_index key_hash (num_buckets lh)
     in (i, chain_pos (\<lambda>x. cmp_key key x = 0) (buckets lh ! i)))"

text \<open>The item a place points to, or NULL.\<close>

definition deref :: "'a lhash_st \<Rightarrow> nat \<times> nat \<Rightarrow> 'a item option" where
  "deref lh p = (let c = buckets lh ! fst p in if snd p < length c then Some (c ! snd p) else None)"

definition lh_retrieve :: "('a \<Rightarrow> u32) \<Rightarrow> ('a \<Rightarrow> 'a \<Rightarrow> int) \<Rightarrow> 'a lhash_st \<Rightarrow> 'a \<Rightarrow> 'a option" where
  "lh_retrieve hash cmp lh data =
    map_option it_data (deref lh (fst (get_next_ptr_and_hash hash cmp lh data)))"

definition lh_retrieve_key :: "('k \<Rightarrow> 'a \<Rightarrow> int) \<Rightarrow> 'a lhash_st \<Rightarrow> 'k \<Rightarrow> u32 \<Rightarrow> 'a option" where
  "lh_retrieve_key cmp_key lh key key_hash =
    map_option it_data (deref lh (get_next_ptr_by_key cmp_key lh key key_hash))"

section \<open>Resizing\<close>

text \<open>One item is pushed on the front of its new bucket; the items are visited bucket by bucket.\<close>

definition push_item :: "u64 \<Rightarrow> 'a item list list \<Rightarrow> 'a item \<Rightarrow> 'a item list list" where
  "push_item n bs cur = (let i = bucket_index (it_hash cur) n in bs[i := cur # bs ! i])"

definition lh_rebucket :: "sys_malloc \<Rightarrow> 'a lhash_st \<Rightarrow> u64 \<Rightarrow> 'a lhash_st" where
  "lh_rebucket mal lh new_num_buckets =
    (let alloc_size = 8 * new_num_buckets
     in if alloc_size div 8 \<noteq> new_num_buckets then lh
        else case OPENSSL_malloc mal alloc_size of
            None \<Rightarrow> lh
          | Some _ \<Rightarrow> lh\<lparr>num_buckets := new_num_buckets,
              buckets := foldl (foldl (push_item new_num_buckets))
                (replicate (unat new_num_buckets) []) (buckets lh)\<rparr>)"

definition lh_maybe_resize :: "sys_malloc \<Rightarrow> 'a lhash_st \<Rightarrow> 'a lhash_st" where
  "lh_maybe_resize mal lh = (if callback_depth lh > 0 then lh
    else let avg_chain_length = num_items lh div num_buckets lh
      in if avg_chain_length > kMaxAverageChainLength
         then let new_num_buckets = num_buckets lh * 2
           in if new_num_buckets > num_buckets lh then lh_rebucket mal lh new_num_buckets else lh
         else if avg_chain_length < kMinAverageChainLength \<and> num_buckets lh > kMinNumBuckets
         then let half = num_buckets lh div 2;
                new_num_buckets = (if half < kMinNumBuckets then kMinNumBuckets else half)
           in lh_rebucket mal lh new_num_buckets
         else lh)"

section \<open>Insertion, deletion and iteration\<close>

text \<open>The result, what \<open>old_data\<close> is set to, and the table. An \<open>LHASH_ITEM\<close> takes 24 bytes.\<close>

definition lh_insert :: "sys_malloc \<Rightarrow> ('a \<Rightarrow> u32) \<Rightarrow> ('a \<Rightarrow> 'a \<Rightarrow> int) \<Rightarrow> 'a lhash_st \<Rightarrow> 'a
    \<Rightarrow> bool \<times> 'a option \<times> 'a lhash_st" where
  "lh_insert mal hash cmp lh data = (case get_next_ptr_and_hash hash cmp lh data of ((i, k), h) \<Rightarrow>
    let chain = buckets lh ! i
    in case deref lh (i, k) of
        Some old \<Rightarrow> (True, Some (it_data old),
          lh\<lparr>buckets := (buckets lh)[i := chain[k := old\<lparr>it_data := data\<rparr>]]\<rparr>)
      | None \<Rightarrow> (case OPENSSL_malloc mal 24 of
          None \<Rightarrow> (False, None, lh)
        | Some _ \<Rightarrow> (True, None, lh_maybe_resize mal
            (lh\<lparr>buckets := (buckets lh)[i := chain @ [\<lparr>it_data = data, it_hash = h\<rparr>]],
                num_items := num_items lh + 1\<rparr>))))"

definition lh_delete :: "sys_malloc \<Rightarrow> ('a \<Rightarrow> u32) \<Rightarrow> ('a \<Rightarrow> 'a \<Rightarrow> int) \<Rightarrow> 'a lhash_st \<Rightarrow> 'a
    \<Rightarrow> 'a option \<times> 'a lhash_st" where
  "lh_delete mal hash cmp lh data = (case get_next_ptr_and_hash hash cmp lh data of ((i, k), h) \<Rightarrow>
    let chain = buckets lh ! i
    in case deref lh (i, k) of
        None \<Rightarrow> (None, lh)
      | Some it \<Rightarrow> (Some (it_data it), lh_maybe_resize mal
          (lh\<lparr>buckets := (buckets lh)[i := take k chain @ drop (Suc k) chain],
              num_items := num_items lh - 1\<rparr>)))"

text \<open>
  \<open>lh_doall_arg\<close> calls a function on every item. Resizing is suppressed while
  \<open>callback_depth\<close>, a saturating counter, is not 0. The iteration is modelled for functions that
  leave the table alone, as those that only read it or collect what they see.
\<close>

definition UINT_MAX :: u32 where "UINT_MAX = 0xffffffff"

definition doall_enter :: "'a lhash_st \<Rightarrow> 'a lhash_st" where
  "doall_enter lh = (if callback_depth lh < UINT_MAX
    then lh\<lparr>callback_depth := callback_depth lh + 1\<rparr> else lh)"

definition doall_leave :: "sys_malloc \<Rightarrow> 'a lhash_st \<Rightarrow> 'a lhash_st" where
  "doall_leave mal lh = lh_maybe_resize mal (if callback_depth lh < UINT_MAX
    then lh\<lparr>callback_depth := callback_depth lh - 1\<rparr> else lh)"

definition lh_doall_arg :: "sys_malloc \<Rightarrow> 'a lhash_st \<Rightarrow> ('a \<Rightarrow> 's \<Rightarrow> 's) \<Rightarrow> 's \<Rightarrow> 's \<times> 'a lhash_st" where
  "lh_doall_arg mal lh func s =
    (fold func (map it_data (concat (buckets (doall_enter lh)))) s, doall_leave mal (doall_enter lh))"

text \<open>\<^const>\<open>None\<close> is the NULL pointer.\<close>

definition lh_strhash :: "bytes option \<Rightarrow> u32" where
  "lh_strhash c = (case c of None \<Rightarrow> 0 | Some s \<Rightarrow> OPENSSL_hash32 s)"

end
