(* ===== verification/Lhash_Props.thy ===== *)
theory Lhash_Props
  imports Lhash "HOL-Library.Multiset"
begin

text \<open>
  What is proved of the hash tables. Under the contract of the locale \<open>hashing\<close> (the comparison
  is an equivalence, and equal elements have equal hash values) a table represents a map:
  retrieval looks up the whole list of items, insertion and deletion update the map, and
  resizing only permutes the items.
\<close>

section \<open>Lists in which at most one element satisfies each test\<close>

lemma concat_focus: "i < length bs \<Longrightarrow> concat bs = concat (take i bs) @ bs ! i @ concat (drop (Suc i) bs)"
  by (metis concat.simps(2) concat_append id_take_nth_drop)

lemma concat_update:
  "i < length bs \<Longrightarrow> concat (bs[i := c]) = concat (take i bs) @ c @ concat (drop (Suc i) bs)"
  by (simp add: upd_conv_take_nth_drop)

lemma other_buckets:
  assumes "it \<in> set (concat (take i bs)) \<or> it \<in> set (concat (drop (Suc i) bs))"
  shows "\<exists>j < length bs. j \<noteq> i \<and> it \<in> set (bs ! j)"
  using assms
proof
  assume "it \<in> set (concat (take i bs))"
  then obtain c where "c \<in> set (take i bs)" "it \<in> set c" by auto
  moreover from this(1) obtain j where "j < i" "j < length bs" "c = bs ! j" by (auto simp: in_set_conv_nth)
  ultimately show ?thesis by blast
next
  assume "it \<in> set (concat (drop (Suc i) bs))"
  then obtain c where "c \<in> set (drop (Suc i) bs)" "it \<in> set c" by auto
  moreover from this(1) obtain j where "j < length bs - Suc i" "c = bs ! (Suc i + j)"
    by (auto simp: in_set_conv_nth)
  moreover from this(1) have "Suc i + j < length bs" by simp
  ultimately show ?thesis by (intro exI [of _ "Suc i + j"]) auto
qed

lemma in_concat: "it \<in> set (concat bs) \<longleftrightarrow> (\<exists>j < length bs. it \<in> set (bs ! j))"
  by (metis UN_iff in_set_conv_nth set_concat)

lemma short_eq_if_mset:
  "mset xs = mset ys \<Longrightarrow> length xs \<le> 1 \<Longrightarrow> xs = ys"
  by (cases xs; cases ys) auto

lemma find_filter: "find P xs = (case filter P xs of [] \<Rightarrow> None | x # _ \<Rightarrow> Some x)"
  by (induction xs) auto

lemma find_mset:
  assumes "mset xs = mset ys" "length (filter P xs) \<le> 1"
  shows "find P xs = find P ys"
proof -
  have "mset (filter P xs) = mset (filter P ys)" using assms(1) by simp
  from short_eq_if_mset [OF this assms(2)] show ?thesis by (simp add: find_filter)
qed

lemma find_SomeD: "find P xs = Some x \<Longrightarrow> x \<in> set xs \<and> P x"
  by (induction xs) (auto split: if_splits)

lemma find_append: "find P (xs @ ys) = (case find P xs of None \<Rightarrow> find P ys | Some x \<Rightarrow> Some x)"
  by (induction xs) auto

lemma find_None_set: "find P xs = None \<longleftrightarrow> (\<forall>x \<in> set xs. \<not> P x)"
  by (induction xs) auto

section \<open>The chains\<close>

definition items :: "'a lhash_st \<Rightarrow> 'a item list" where
  "items lh = concat (buckets lh)"

lemma chain_pos_le: "chain_pos eq c \<le> length c"
  by (induction c) auto

lemma chain_pos_find:
  "(if chain_pos eq c < length c then Some (c ! chain_pos eq c) else None) = find (\<lambda>it. eq (it_data it)) c"
  by (induction c) auto

lemma deref_chain:
  "deref lh (i, chain_pos eq (buckets lh ! i)) = find (\<lambda>it. eq (it_data it)) (buckets lh ! i)"
  by (simp add: deref_def Let_def flip: chain_pos_find)

lemma chain_pos_hit: "chain_pos eq c < length c \<Longrightarrow> eq (it_data (c ! chain_pos eq c))"
  by (induction c) auto

text \<open>The items are in the bucket of their hash value, and pairwise different.\<close>

definition lh_ok :: "('a \<Rightarrow> u32) \<Rightarrow> ('a \<Rightarrow> 'a \<Rightarrow> int) \<Rightarrow> 'a lhash_st \<Rightarrow> bool" where
  "lh_ok hash cmp lh \<longleftrightarrow> length (buckets lh) = unat (num_buckets lh)
    \<and> 16 \<le> unat (num_buckets lh) \<and> 8 * unat (num_buckets lh) < 9223372036854775808
    \<and> (\<forall>i < length (buckets lh). \<forall>it \<in> set (buckets lh ! i).
        it_hash it = hash (it_data it) \<and> bucket_index (it_hash it) (num_buckets lh) = i)
    \<and> (\<forall>x. length (filter (\<lambda>it. cmp (it_data it) x = 0) (items lh)) \<le> 1)
    \<and> num_items lh = word_of_nat (length (items lh))"

lemma bucket_index_less: "0 < unat n \<Longrightarrow> bucket_index h n < unat n"
  by (simp add: bucket_index_def unat_mod)

lemma lh_okD:
  assumes "lh_ok hash cmp lh"
  shows "length (buckets lh) = unat (num_buckets lh)" "16 \<le> unat (num_buckets lh)"
    "bucket_index h (num_buckets lh) < length (buckets lh)"
    "8 * unat (num_buckets lh) < 9223372036854775808"
    "length (filter (\<lambda>it. cmp (it_data it) x = 0) (items lh)) \<le> 1"
    "num_items lh = word_of_nat (length (items lh))"
  using assms bucket_index_less [of "num_buckets lh" h] by (auto simp: lh_ok_def)

lemma lh_ok_hash:
  "lh_ok hash cmp lh \<Longrightarrow> i < length (buckets lh) \<Longrightarrow> it \<in> set (buckets lh ! i)
    \<Longrightarrow> it_hash it = hash (it_data it) \<and> bucket_index (hash (it_data it)) (num_buckets lh) = i"
  unfolding lh_ok_def by metis

text \<open>The table as a map: the stored element that is equal to a given one.\<close>

definition lh_lookup :: "('a \<Rightarrow> 'a \<Rightarrow> int) \<Rightarrow> 'a lhash_st \<Rightarrow> 'a \<Rightarrow> 'a option" where
  "lh_lookup cmp lh x = map_option it_data (find (\<lambda>it. cmp (it_data it) x = 0) (items lh))"

section \<open>Redistributing the items\<close>

lemma push_item_ok:
  assumes "0 < unat n" "length bs = unat n"
    and "\<forall>i < length bs. \<forall>it \<in> set (bs ! i). bucket_index (it_hash it) n = i"
  shows "length (push_item n bs cur) = unat n"
    "\<forall>i < length (push_item n bs cur). \<forall>it \<in> set (push_item n bs cur ! i). bucket_index (it_hash it) n = i"
    "mset (concat (push_item n bs cur)) = add_mset cur (mset (concat bs))"
proof -
  let ?i = "bucket_index (it_hash cur) n"
  have i: "?i < length bs" using bucket_index_less [OF assms(1)] assms(2) by simp
  show "length (push_item n bs cur) = unat n" using assms(2) by (simp add: push_item_def Let_def)
  show "\<forall>i < length (push_item n bs cur). \<forall>it \<in> set (push_item n bs cur ! i). bucket_index (it_hash it) n = i"
  proof (intro allI impI ballI)
    fix j it
    assume "j < length (push_item n bs cur)" "it \<in> set (push_item n bs cur ! j)"
    then show "bucket_index (it_hash it) n = j"
      using assms(3) i by (cases "j = ?i") (auto simp: push_item_def Let_def)
  qed
  show "mset (concat (push_item n bs cur)) = add_mset cur (mset (concat bs))"
  proof -
    have "mset (concat bs) = mset (concat (take ?i bs)) + (mset (bs ! ?i) + mset (concat (drop (Suc ?i) bs)))"
      by (subst concat_focus [OF i]) simp
    then show ?thesis unfolding push_item_def Let_def concat_update [OF i] by simp
  qed
qed

lemma push_items_ok:
  assumes "0 < unat n"
  shows "length bs = unat n \<Longrightarrow> \<forall>i < length bs. \<forall>it \<in> set (bs ! i). bucket_index (it_hash it) n = i
    \<Longrightarrow> length (foldl (push_item n) bs its) = unat n
      \<and> (\<forall>i < length (foldl (push_item n) bs its). \<forall>it \<in> set (foldl (push_item n) bs its ! i).
          bucket_index (it_hash it) n = i)
      \<and> mset (concat (foldl (push_item n) bs its)) = mset its + mset (concat bs)"
proof (induction its arbitrary: bs)
  case (Cons it its)
  note p = push_item_ok [OF assms Cons.prems, of it]
  from Cons.IH [OF p(1,2)] p(3) show ?case by simp
qed simp

lemma foldl_concat: "foldl (foldl f) z xss = foldl f z (concat xss)"
  by (induction xss arbitrary: z) simp_all

text \<open>How an operation makes its table: with the buckets of the one before, and at most one item
  more before the last resize.\<close>

definition resized :: "('a \<Rightarrow> u32) \<Rightarrow> ('a \<Rightarrow> 'a \<Rightarrow> int) \<Rightarrow> sys_malloc \<Rightarrow> 'a lhash_st \<Rightarrow> 'a lhash_st \<Rightarrow> bool" where
  "resized hash cmp mal lh lh' \<longleftrightarrow> (\<exists>lh1. lh_ok hash cmp lh1 \<and> num_buckets lh1 = num_buckets lh
    \<and> callback_depth lh1 = callback_depth lh
    \<and> ((lh' = lh1 \<and> length (items lh1) = length (items lh))
      \<or> (lh' = lh_maybe_resize mal lh1 \<and> length (items lh1) \<le> Suc (length (items lh)))))"

lemma resize_depth [simp]: "callback_depth (lh_maybe_resize mal lh) = callback_depth lh"
  by (simp add: lh_maybe_resize_def lh_rebucket_def Let_def split: option.split)

section \<open>Hash functions that respect the comparison\<close>

locale hashing =
  fixes hash :: "'a \<Rightarrow> u32" and cmp :: "'a \<Rightarrow> 'a \<Rightarrow> int"
  assumes refl: "cmp a a = 0"
    and sym: "cmp a b = 0 \<Longrightarrow> cmp b a = 0"
    and trans: "cmp a b = 0 \<Longrightarrow> cmp b c = 0 \<Longrightarrow> cmp a c = 0"
    and hash_equal: "cmp a b = 0 \<Longrightarrow> hash a = hash b"
begin

abbreviation ok where "ok \<equiv> lh_ok hash cmp"
abbreviation look where "look \<equiv> lh_lookup cmp"

text \<open>An equal item can only be in the bucket that is searched.\<close>

lemma filter_bucket:
  assumes "ok lh" "i = bucket_index (hash x) (num_buckets lh)"
  shows "filter (\<lambda>it. cmp (it_data it) x = 0) (items lh)
    = filter (\<lambda>it. cmp (it_data it) x = 0) (buckets lh ! i)"
proof -
  let ?P = "\<lambda>it. cmp (it_data it) x = 0"
  have i: "i < length (buckets lh)" using lh_okD(3) [OF assms(1)] assms(2) by simp
  have "\<not> ?P it" if "j < length (buckets lh)" "j \<noteq> i" "it \<in> set (buckets lh ! j)" for j it
    using lh_ok_hash [OF assms(1) that(1,3)] that(2) assms(2) hash_equal [of "it_data it" x] by auto
  then have "filter ?P (concat (take i (buckets lh))) = []" "filter ?P (concat (drop (Suc i) (buckets lh))) = []"
    using other_buckets [of _ i "buckets lh"] unfolding filter_empty_conv by blast+
  then show ?thesis unfolding items_def by (subst concat_focus [OF i]) simp
qed

lemma retrieve_lookup: "ok lh \<Longrightarrow> lh_retrieve hash cmp lh x = look lh x"
  using filter_bucket [of lh _ x]
  by (simp add: lh_retrieve_def get_next_ptr_and_hash_def Let_def deref_chain lh_lookup_def find_filter)

lemma lookup_mset:
  "ok lh \<Longrightarrow> mset (items lh') = mset (items lh) \<Longrightarrow> look lh' x = look lh x"
  unfolding lh_lookup_def using lh_okD(5) [of hash cmp lh x] by (subst find_mset [of "items lh" "items lh'"]) simp_all

lemma rebucket_ok:
  assumes ok: "ok lh" and n: "16 \<le> unat n" "8 * unat n + 8 < 18446744073709551616" and m: "malloc_ok mal"
  shows "ok (lh_rebucket mal lh n)" "mset (items (lh_rebucket mal lh n)) = mset (items lh)"
proof -
  let ?lh = "lh_rebucket mal lh n"
  let ?bs = "foldl (push_item n) (replicate (unat n) []) (items lh)"
  have u: "unat (8 * n) = 8 * unat n" using n(2) by (simp add: unat_word_ariths)
  have "ok ?lh \<and> mset (items ?lh) = mset (items lh)"
  proof (cases "?lh = lh")
    case True
    then show ?thesis using ok by simp
  next
    case False
    then obtain blk where b: "OPENSSL_malloc mal (8 * n) = Some blk"
      "?lh = lh\<lparr>num_buckets := n, buckets := ?bs\<rparr>"
      by (auto simp: lh_rebucket_def Let_def foldl_concat items_def split: option.splits if_splits)
    have lim: "8 * unat n < 9223372036854775808" using OPENSSL_malloc_ok [OF m b(1)] u n by simp
    have "length ?bs = unat n \<and> (\<forall>i < length ?bs. \<forall>it \<in> set (?bs ! i). bucket_index (it_hash it) n = i)
        \<and> mset (concat ?bs) = mset (items lh) + mset (concat (replicate (unat n) []))"
      using n by (intro push_items_ok) simp_all
    then have p: "length ?bs = unat n" "\<And>i it. i < length ?bs \<Longrightarrow> it \<in> set (?bs ! i) \<Longrightarrow> bucket_index (it_hash it) n = i"
      "mset (concat ?bs) = mset (items lh)" by (simp_all add: concat_replicate_trivial)
    have h: "it_hash it = hash (it_data it)" if "i < length ?bs" "it \<in> set (?bs ! i)" for i it
    proof -
      have "it \<in> set (concat ?bs)" using nth_mem [OF that(1)] that(2) by auto
      then have "it \<in> set (items lh)" using p(3) by (metis set_mset_mset)
      then obtain j where "j < length (buckets lh)" "it \<in> set (buckets lh ! j)"
        unfolding items_def in_concat by blast
      then show ?thesis using lh_ok_hash [OF ok] by blast
    qed
    have f: "length (filter (\<lambda>it. cmp (it_data it) x = 0) (concat ?bs)) \<le> 1" for x
    proof -
      have "mset (filter (\<lambda>it. cmp (it_data it) x = 0) (concat ?bs))
          = mset (filter (\<lambda>it. cmp (it_data it) x = 0) (items lh))" using p(3) by simp
      then show ?thesis using lh_okD(5) [OF ok] by (metis size_mset)
    qed
    have "length (concat ?bs) = length (items lh)" using p(3) by (metis size_mset)
    then have "ok ?lh"
      unfolding b(2) using p(1,2) h f n lim lh_okD(6) [OF ok] by (simp add: lh_ok_def items_def)
    then show ?thesis using p(3) by (simp add: b(2) items_def)
  qed
  then show "ok ?lh" "mset (items ?lh) = mset (items lh)" by simp_all
qed

lemma maybe_resize_ok:
  assumes ok: "ok lh" and m: "malloc_ok mal"
  shows "ok (lh_maybe_resize mal lh)" "mset (items (lh_maybe_resize mal lh)) = mset (items lh)"
proof -
  note d = lh_okD(2,4) [OF ok]
  have dbl: "unat (num_buckets lh * 2) = unat (num_buckets lh) * 2"
    using d by (simp add: unat_word_ariths)
  let ?half = "if num_buckets lh div 2 < kMinNumBuckets then kMinNumBuckets else num_buckets lh div 2"
  have half: "16 \<le> unat ?half" "8 * unat ?half + 8 < 18446744073709551616"
    using d by (auto simp: kMinNumBuckets_def word_less_nat_alt unat_div)
  have "16 \<le> unat (num_buckets lh * 2)" "8 * unat (num_buckets lh * 2) + 8 < 18446744073709551616"
    using dbl d by simp_all
  note r = rebucket_ok [OF ok this m] rebucket_ok [OF ok half m]
  have "ok (lh_maybe_resize mal lh) \<and> mset (items (lh_maybe_resize mal lh)) = mset (items lh)"
    using r ok unfolding lh_maybe_resize_def Let_def by presburger
  then show "ok (lh_maybe_resize mal lh)" "mset (items (lh_maybe_resize mal lh)) = mset (items lh)" by simp_all
qed

lemma resize_lookup: "ok lh \<Longrightarrow> malloc_ok mal \<Longrightarrow> look (lh_maybe_resize mal lh) x = look lh x"
  using lookup_mset maybe_resize_ok(2) by blast

text \<open>Putting one chain in the place of another.\<close>

lemma ok_update:
  assumes ok: "ok lh" and i: "i < length (buckets lh)"
    and c: "\<forall>it \<in> set c. it_hash it = hash (it_data it) \<and> bucket_index (it_hash it) (num_buckets lh) = i"
    and u: "\<And>x. length (filter (\<lambda>it. cmp (it_data it) x = 0) (concat ((buckets lh)[i := c]))) \<le> 1"
    and n: "k = word_of_nat (length (concat ((buckets lh)[i := c])))"
  shows "ok (lh\<lparr>buckets := (buckets lh)[i := c], num_items := k\<rparr>)"
proof -
  have "it_hash it = hash (it_data it) \<and> bucket_index (hash (it_data it)) (num_buckets lh) = j"
    if "j < length (buckets lh)" "it \<in> set ((buckets lh)[i := c] ! j)" for j it
    using that c i lh_ok_hash [OF ok that(1), of it] by (cases "j = i") auto
  then show ?thesis
    using lh_okD(1,2,4) [OF ok] u n by (simp add: lh_ok_def items_def)
qed

lemma filter_one:
  assumes "length (filter P (xs @ a # ys)) \<le> 1" "P a"
  shows "\<forall>y \<in> set xs \<union> set ys. \<not> P y"
proof -
  have "length (filter P xs) + length (filter P ys) = 0" using assms by simp
  then show ?thesis by (auto simp: filter_empty_conv)
qed

text \<open>What the search in the bucket of \<open>x\<close> says of the whole table.\<close>

lemma search_cases:
  assumes ok: "ok lh" and g: "get_next_ptr_and_hash hash cmp lh x = ((i, k), h)"
  obtains (absent) "deref lh (i, k) = None" "i < length (buckets lh)" "h = hash x"
      "i = bucket_index h (num_buckets lh)" "\<forall>it \<in> set (items lh). cmp (it_data it) x \<noteq> 0"
    | (present) old xs ys where "deref lh (i, k) = Some old" "i < length (buckets lh)"
      "buckets lh ! i = take k (buckets lh ! i) @ old # drop (Suc k) (buckets lh ! i)"
      "items lh = xs @ old # ys" "cmp (it_data old) x = 0" "k < length (buckets lh ! i)"
      "xs = concat (take i (buckets lh)) @ take k (buckets lh ! i)"
      "ys = drop (Suc k) (buckets lh ! i) @ concat (drop (Suc i) (buckets lh))"
proof -
  have d: "h = hash x" "i = bucket_index h (num_buckets lh)" "k = chain_pos (\<lambda>y. cmp y x = 0) (buckets lh ! i)"
    using g by (auto simp: get_next_ptr_and_hash_def Let_def)
  have i: "i < length (buckets lh)" using lh_okD(3) [OF ok] d(2) by simp
  show ?thesis
  proof (cases "deref lh (i, k)")
    case None
    then have "filter (\<lambda>it. cmp (it_data it) x = 0) (buckets lh ! i) = []"
      using d(3) deref_chain [of lh i] by (simp add: find_None_set filter_empty_conv)
    then have "filter (\<lambda>it. cmp (it_data it) x = 0) (items lh) = []"
      using filter_bucket [OF ok, of i x] d by simp
    then show ?thesis using absent None i d by (simp add: filter_empty_conv)
  next
    case (Some old)
    then have k: "k < length (buckets lh ! i)" "old = buckets lh ! i ! k"
      by (auto simp: deref_def Let_def split: if_splits)
    then have b: "buckets lh ! i = take k (buckets lh ! i) @ old # drop (Suc k) (buckets lh ! i)"
      by (simp add: id_take_nth_drop)
    have "items lh = (concat (take i (buckets lh)) @ take k (buckets lh ! i)) @ old
        # drop (Suc k) (buckets lh ! i) @ concat (drop (Suc i) (buckets lh))"
      unfolding items_def by (subst concat_focus [OF i], subst b) simp
    then show ?thesis
      using present [OF Some i b _ _ k(1) HOL.refl HOL.refl] chain_pos_hit [of "\<lambda>y. cmp y x = 0"] k d(3) by simp
  qed
qed

lemma unresized: "ok lh \<Longrightarrow> resized hash cmp mal lh lh"
  unfolding resized_def by blast

lemma lookup_present:
  assumes ok: "ok lh" and i: "items lh = xs @ e # ys" and e: "cmp (it_data e) x = 0"
  shows "look lh x = Some (it_data e)"
proof -
  have n: "length (filter (\<lambda>it. cmp (it_data it) x = 0) (xs @ e # ys)) \<le> 1"
    using lh_okD(5) [OF ok, of x] unfolding i .
  have "find (\<lambda>it. cmp (it_data it) x = 0) xs = None"
    using filter_one [OF n e] unfolding find_None_set by blast
  then show ?thesis using e by (simp add: lh_lookup_def i find_append)
qed

lemma insert_spec:
  assumes ok: "ok lh" and m: "malloc_ok mal" and r: "lh_insert mal hash cmp lh x = (b, old, lh')"
  shows "ok lh' \<and> old = look lh x \<and> (\<not> b \<longrightarrow> lh' = lh \<and> look lh x = None)
    \<and> (b \<longrightarrow> (\<forall>y. look lh' y = (if cmp x y = 0 then Some x else look lh y)))
    \<and> (b \<longrightarrow> mset (map it_data (items lh')) + (case old of None \<Rightarrow> {#} | Some e \<Rightarrow> {#e#})
        = add_mset x (mset (map it_data (items lh))))
    \<and> resized hash cmp mal lh lh'"
proof -
  obtain i k h where g: "get_next_ptr_and_hash hash cmp lh x = ((i, k), h)" by (metis prod.exhaust)
  show ?thesis
    using ok g
  proof (cases rule: search_cases)
    case absent
    have none: "look lh x = None" using absent(5) by (simp add: lh_lookup_def find_None_set)
    show ?thesis
    proof (cases "OPENSSL_malloc mal 24")
      case None
      then show ?thesis using r g absent none ok unresized by (simp add: lh_insert_def Let_def)
    next
      case (Some blk)
      let ?new = "\<lparr>it_data = x, it_hash = h\<rparr>"
      let ?lh = "lh\<lparr>buckets := (buckets lh)[i := buckets lh ! i @ [?new]], num_items := num_items lh + 1\<rparr>"
      have r': "b" "old = None" "lh' = lh_maybe_resize mal ?lh"
        using r g absent Some by (auto simp: lh_insert_def Let_def)
      have c: "concat ((buckets lh)[i := buckets lh ! i @ [?new]])
          = (concat (take i (buckets lh)) @ buckets lh ! i) @ ?new # concat (drop (Suc i) (buckets lh))"
        unfolding concat_update [OF absent(2)] by simp
      have it: "items lh = (concat (take i (buckets lh)) @ buckets lh ! i) @ concat (drop (Suc i) (buckets lh))"
        unfolding items_def by (subst concat_focus [OF absent(2)]) simp
      have u: "length (filter (\<lambda>it. cmp (it_data it) y = 0) (concat ((buckets lh)[i := buckets lh ! i @ [?new]]))) \<le> 1" for y
      proof (cases "cmp x y = 0")
        case True
        have "filter (\<lambda>it. cmp (it_data it) y = 0) (items lh) = []"
          using absent(5) trans [OF _ sym [OF True]] unfolding filter_empty_conv by blast
        then show ?thesis unfolding c it by simp
      next
        case False
        then show ?thesis using lh_okD(5) [OF ok, of y] unfolding c it by simp
      qed
      have "ok ?lh"
      proof (rule ok_update [OF ok absent(2) _ u])
        show "\<forall>it \<in> set (buckets lh ! i @ [?new]). it_hash it = hash (it_data it)
            \<and> bucket_index (it_hash it) (num_buckets lh) = i"
          using lh_ok_hash [OF ok absent(2)] absent(3,4) by auto
        show "num_items lh + 1 = word_of_nat (length (concat ((buckets lh)[i := buckets lh ! i @ [?new]])))"
          using lh_okD(6) [OF ok] unfolding c it by simp
      qed
      note R = maybe_resize_ok [OF this m] resize_lookup [OF this m]
      have "length (items ?lh) = Suc (length (items lh))" using c it by (simp add: items_def)
      then have rs: "resized hash cmp mal lh (lh_maybe_resize mal ?lh)"
        unfolding resized_def using \<open>ok ?lh\<close> by (intro exI [of _ ?lh]) simp
      have "look ?lh y = (if cmp x y = 0 then Some x else look lh y)" for y
      proof (cases "cmp x y = 0")
        case True
        have "find (\<lambda>it. cmp (it_data it) y = 0) (items lh) = None"
          using absent(5) trans [OF _ sym [OF True]] unfolding find_None_set by blast
        then show ?thesis
          using True unfolding lh_lookup_def items_def by (simp add: c it [unfolded items_def] find_append split: option.splits)
      next
        case False
        then show ?thesis
          unfolding lh_lookup_def items_def by (simp add: c it [unfolded items_def] find_append split: option.split)
      qed
      moreover have "mset (items ?lh) = add_mset ?new (mset (items lh))"
        using c it by (simp add: items_def)
      ultimately show ?thesis using R r' none rs by simp
    qed
  next
    case (present e xs ys)
    let ?new = "e\<lparr>it_data := x\<rparr>"
    let ?lh = "lh\<lparr>buckets := (buckets lh)[i := (buckets lh ! i)[k := ?new]]\<rparr>"
    have r': "b" "old = Some (it_data e)" "lh' = ?lh"
      using r g present by (auto simp: lh_insert_def Let_def)
    have c: "concat ((buckets lh)[i := (buckets lh ! i)[k := ?new]]) = xs @ ?new # ys"
      unfolding concat_update [OF present(2)] using present(6,7,8) by (simp add: upd_conv_take_nth_drop)
    have eq: "cmp (it_data e) y = 0 \<longleftrightarrow> cmp x y = 0" for y
      using present(5) sym trans by blast
    have u: "length (filter (\<lambda>it. cmp (it_data it) y = 0) (xs @ ?new # ys)) \<le> 1" for y
      using lh_okD(5) [OF ok, of y] eq [of y] present(4) by (auto split: if_splits)
    have "ok (lh\<lparr>buckets := (buckets lh)[i := (buckets lh ! i)[k := ?new]], num_items := num_items lh\<rparr>)"
    proof (rule ok_update [OF ok present(2)])
      show "\<forall>it \<in> set ((buckets lh ! i)[k := ?new]). it_hash it = hash (it_data it)
          \<and> bucket_index (it_hash it) (num_buckets lh) = i"
      proof
        fix it
        assume "it \<in> set ((buckets lh ! i)[k := ?new])"
        then have "it = ?new \<or> it \<in> set (buckets lh ! i)" using set_update_subset_insert by fastforce
        moreover have "e \<in> set (buckets lh ! i)" using present(3) by (metis in_set_conv_decomp)
        ultimately show "it_hash it = hash (it_data it) \<and> bucket_index (it_hash it) (num_buckets lh) = i"
          using lh_ok_hash [OF ok present(2), of it] lh_ok_hash [OF ok present(2), of e]
            hash_equal [OF present(5)] by auto
      qed
      show "num_items lh = word_of_nat (length (concat ((buckets lh)[i := (buckets lh ! i)[k := ?new]])))"
        using lh_okD(6) [OF ok] present(4) unfolding c by simp
    qed (use u c in simp)
    then have okl: "ok ?lh" by simp
    moreover have "length (items ?lh) = length (items lh)" using c present(4) by (simp add: items_def)
    ultimately have rs: "resized hash cmp mal lh ?lh"
      unfolding resized_def by (intro exI [of _ ?lh]) simp
    have "look ?lh y = (if cmp x y = 0 then Some x else look lh y)" for y
    proof (cases "cmp x y = 0")
      case True
      have "find (\<lambda>it. cmp (it_data it) y = 0) xs = None"
        using filter_one [OF u [of y]] True unfolding find_None_set by simp
      then show ?thesis using True unfolding lh_lookup_def items_def by (simp add: c find_append)
    next
      case False
      then show ?thesis
        using eq [of y] present(4) unfolding lh_lookup_def by (simp add: items_def c find_append split: option.split)
    qed
    moreover have "look lh x = Some (it_data e)"
      by (rule lookup_present [OF ok present(4,5)])
    ultimately show ?thesis using okl rs r' present(4) c by (simp add: items_def)
  qed
qed

lemma delete_spec:
  assumes ok: "ok lh" and m: "malloc_ok mal" and r: "lh_delete mal hash cmp lh x = (old, lh')"
  shows "ok lh' \<and> old = look lh x \<and> (\<forall>y. look lh' y = (if cmp x y = 0 then None else look lh y))
    \<and> mset (map it_data (items lh')) + (case old of None \<Rightarrow> {#} | Some e \<Rightarrow> {#e#})
        = mset (map it_data (items lh)) \<and> resized hash cmp mal lh lh'"
proof -
  obtain i k h where g: "get_next_ptr_and_hash hash cmp lh x = ((i, k), h)" by (metis prod.exhaust)
  show ?thesis
    using ok g
  proof (cases rule: search_cases)
    case absent
    have "look lh y = None" if "cmp x y = 0" for y
      using absent(5) trans [OF _ sym [OF that]] by (auto simp: lh_lookup_def find_None_set)
    moreover have "old = None" "lh' = lh" using r g absent by (simp_all add: lh_delete_def Let_def)
    ultimately show ?thesis using ok refl [of x] unresized by auto
  next
    case (present e xs ys)
    let ?c = "take k (buckets lh ! i) @ drop (Suc k) (buckets lh ! i)"
    let ?lh = "lh\<lparr>buckets := (buckets lh)[i := ?c], num_items := num_items lh - 1\<rparr>"
    have r': "old = Some (it_data e)" "lh' = lh_maybe_resize mal ?lh"
      using r g present by (auto simp: lh_delete_def Let_def)
    have c: "concat ((buckets lh)[i := ?c]) = xs @ ys"
      unfolding concat_update [OF present(2)] using present(7,8) by simp
    have "ok ?lh"
    proof (rule ok_update [OF ok present(2)])
      show "\<forall>it \<in> set ?c. it_hash it = hash (it_data it) \<and> bucket_index (it_hash it) (num_buckets lh) = i"
        using lh_ok_hash [OF ok present(2)] by (auto dest: in_set_takeD in_set_dropD)
      show "length (filter (\<lambda>it. cmp (it_data it) y = 0) (concat ((buckets lh)[i := ?c]))) \<le> 1" for y
        using lh_okD(5) [OF ok, of y] present(4) unfolding c by (auto split: if_splits)
      show "num_items lh - 1 = word_of_nat (length (concat ((buckets lh)[i := ?c])))"
        using lh_okD(6) [OF ok] present(4) unfolding c by simp
    qed
    note R = maybe_resize_ok [OF this m] resize_lookup [OF this m]
    have "length (items ?lh) \<le> Suc (length (items lh))" using c present(4) by (simp add: items_def)
    then have rs: "resized hash cmp mal lh (lh_maybe_resize mal ?lh)"
      unfolding resized_def using \<open>ok ?lh\<close> by (intro exI [of _ ?lh]) simp
    have eq: "cmp (it_data e) y = 0 \<longleftrightarrow> cmp x y = 0" for y
      using present(5) sym trans by blast
    have "look ?lh y = (if cmp x y = 0 then None else look lh y)" for y
    proof (cases "cmp x y = 0")
      case True
      have "length (filter (\<lambda>it. cmp (it_data it) y = 0) (xs @ e # ys)) \<le> 1"
        using lh_okD(5) [OF ok, of y] unfolding present(4) .
      from filter_one [OF this] have "\<forall>it \<in> set xs \<union> set ys. \<not> cmp (it_data it) y = 0"
        using eq [of y] True by blast
      then have "find (\<lambda>it. cmp (it_data it) y = 0) (xs @ ys) = None" unfolding find_None_set by auto
      then show ?thesis using True unfolding lh_lookup_def items_def by (simp add: c)
    next
      case False
      then show ?thesis
        using eq [of y] present(4) unfolding lh_lookup_def by (simp add: items_def c find_append split: option.split)
    qed
    moreover have "look lh x = Some (it_data e)"
      by (rule lookup_present [OF ok present(4,5)])
    moreover have "mset (items lh) = add_mset e (mset (items ?lh))" using c present(4) by (simp add: items_def)
    then have "mset (map it_data (items ?lh)) + {#it_data e#} = mset (map it_data (items lh))" by simp
    moreover have "mset (map it_data (items lh')) = mset (map it_data (items ?lh))" using R(2) r' by simp
    ultimately show ?thesis using R(1,3) rs unfolding r' by simp
  qed
qed

end

section \<open>The load of the table\<close>

text \<open>There are fewer than three items for every bucket.\<close>

definition light :: "'a lhash_st \<Rightarrow> bool" where
  "light lh \<longleftrightarrow> length (items lh) < 3 * unat (num_buckets lh)"

lemma avg_chain:
  "0 < unat (b :: u64) \<Longrightarrow> n div b > kMaxAverageChainLength \<longleftrightarrow> 3 * unat b \<le> unat n"
  "0 < unat b \<Longrightarrow> n div b < kMinAverageChainLength \<longleftrightarrow> unat n < unat b"
proof -
  assume b: "0 < unat b"
  show "n div b > kMaxAverageChainLength \<longleftrightarrow> 3 * unat b \<le> unat n"
  proof -
    have "2 < unat n div unat b \<longleftrightarrow> 3 \<le> unat n div unat b" by linarith
    then show ?thesis
      using less_eq_div_iff_mult_less_eq [OF b, of 3 "unat n"]
      by (simp add: word_less_nat_alt unat_div kMaxAverageChainLength_def)
  qed
  show "n div b < kMinAverageChainLength \<longleftrightarrow> unat n < unat b"
    using b by (simp add: word_less_nat_alt unat_div kMinAverageChainLength_def div_eq_0_iff)
qed

lemma rebucket_counts:
  assumes "roomy mal N" "8 * unat n + 8 < N"
  shows "num_buckets (lh_rebucket mal lh n) = n" "num_items (lh_rebucket mal lh n) = num_items lh"
proof -
  have u: "unat (8 * n) = 8 * unat n"
    using assms by (simp add: roomy_def unat_word_ariths)
  have "OPENSSL_malloc mal (8 * n) \<noteq> None" using malloc_total [OF assms(1)] u assms(2) by simp
  moreover have "8 * n div 8 = n" using u by (intro unsigned_word_eqI [where 'a = nat]) (simp add: unat_div)
  ultimately show "num_buckets (lh_rebucket mal lh n) = n" "num_items (lh_rebucket mal lh n) = num_items lh"
    by (auto simp: lh_rebucket_def Let_def)
qed

text \<open>With one item too many at most, a resize makes the table light again.\<close>

lemma maybe_resize_light:
  assumes h: "hashing hash cmp" and ok: "lh_ok hash cmp lh"
    and r: "roomy mal N" "16 * unat (num_buckets lh) + 8 < N"
    and d: "callback_depth lh = 0" and n: "length (items lh) \<le> 3 * unat (num_buckets lh)"
  shows "light (lh_maybe_resize mal lh)"
proof -
  let ?n = "num_buckets lh"
  have b: "16 \<le> unat ?n" using lh_okD(2) [OF ok] .
  then have b0: "0 < unat ?n" by simp
  have "length (items lh) < 18446744073709551616" using n lh_okD(4) [OF ok] by simp
  then have ni: "unat (num_items lh) = length (items lh)" using lh_okD(6) [OF ok] by simp
  have m: "malloc_ok mal" using r(1) by (simp add: roomy_def)
  have "mset (items (lh_maybe_resize mal lh)) = mset (items lh)" by (rule hashing.maybe_resize_ok(2) [OF h ok m])
  then have it: "length (items (lh_maybe_resize mal lh)) = length (items lh)" by (metis size_mset)
  note a = avg_chain [OF b0, of "num_items lh"]
  have dbl: "unat (?n * 2) = unat ?n * 2" using r by (simp add: roomy_def unat_word_ariths)
  define half where "half = (if ?n div 2 < kMinNumBuckets then kMinNumBuckets else ?n div 2)"
  have half: "unat half \<le> unat ?n" "unat ?n \<le> 2 * unat half + 1" "0 < unat half"
    using b by (auto simp: half_def kMinNumBuckets_def word_less_nat_alt unat_div)
  show ?thesis
  proof (cases "num_items lh div ?n > kMaxAverageChainLength")
    case True
    have "?n * 2 > ?n" using dbl b0 by (simp add: word_less_nat_alt)
    then have "num_buckets (lh_maybe_resize mal lh) = ?n * 2"
      using True d rebucket_counts [OF r(1), of "?n * 2" lh] dbl r(2) by (simp add: lh_maybe_resize_def Let_def)
    then show ?thesis using dbl n b0 it by (simp add: light_def)
  next
    case heavy: False
    show ?thesis
    proof (cases "num_items lh div ?n < kMinAverageChainLength \<and> ?n > kMinNumBuckets")
      case True
      then have "num_buckets (lh_maybe_resize mal lh) = half"
        using heavy d rebucket_counts [OF r(1), of half lh] half(1) r(2)
        by (simp add: lh_maybe_resize_def Let_def half_def)
      then show ?thesis using half a(2) True it ni by (simp add: light_def)
    next
      case False
      then show ?thesis using heavy d a(1) ni by (auto simp: lh_maybe_resize_def light_def)
    qed
  qed
qed

section \<open>Operations and runs\<close>

datatype 'a lh_op = Lh_insert 'a | Lh_delete 'a

fun lh_run :: "sys_malloc \<Rightarrow> ('a \<Rightarrow> u32) \<Rightarrow> ('a \<Rightarrow> 'a \<Rightarrow> int) \<Rightarrow> 'a lh_op \<Rightarrow> 'a lhash_st
    \<Rightarrow> (bool \<times> 'a option) \<times> 'a lhash_st" where
  "lh_run mal hash cmp (Lh_insert x) lh = (case lh_insert mal hash cmp lh x of (b, old, lh') \<Rightarrow> ((b, old), lh'))"
| "lh_run mal hash cmp (Lh_delete x) lh = (case lh_delete mal hash cmp lh x of (old, lh') \<Rightarrow> ((True, old), lh'))"

text \<open>What the operations do to the map from elements to the stored elements equal to them.\<close>

fun map_op :: "('a \<Rightarrow> 'a \<Rightarrow> int) \<Rightarrow> 'a lh_op \<Rightarrow> ('a \<Rightarrow> 'a option) \<Rightarrow> bool \<Rightarrow> 'a option \<Rightarrow> ('a \<Rightarrow> 'a option) \<Rightarrow> bool" where
  "map_op cmp (Lh_insert x) m b old m' = (old = m x
    \<and> (if b then m' = (\<lambda>y. if cmp x y = 0 then Some x else m y) else m' = m \<and> m x = None))"
| "map_op cmp (Lh_delete x) m b old m' = (b \<and> old = m x \<and> m' = (\<lambda>y. if cmp x y = 0 then None else m y))"

lemma lh_run_map:
  assumes h: "hashing hash cmp" and m: "malloc_ok mal" and ok: "lh_ok hash cmp lh"
    and r: "lh_run mal hash cmp op lh = ((b, old), lh')"
  shows "lh_ok hash cmp lh' \<and> resized hash cmp mal lh lh'
    \<and> map_op cmp op (lh_retrieve hash cmp lh) b old (lh_retrieve hash cmp lh')"
proof -
  have look: "lh_retrieve hash cmp l = lh_lookup cmp l" if "lh_ok hash cmp l" for l
    using hashing.retrieve_lookup [OF h that] by blast
  show ?thesis
  proof (cases op)
    case (Lh_insert x)
    then have "lh_insert mal hash cmp lh x = (b, old, lh')" using r by (auto split: prod.splits)
    from hashing.insert_spec [OF h ok m this] look [OF ok] look [of lh'] show ?thesis
      by (auto simp: Lh_insert fun_eq_iff)
  next
    case (Lh_delete x)
    then have "lh_delete mal hash cmp lh x = (old, lh')" "b" using r by (auto split: prod.splits)
    from hashing.delete_spec [OF h ok m this(1)] this(2) look [OF ok] look [of lh'] show ?thesis
      by (auto simp: Lh_delete fun_eq_iff)
  qed
qed

fun lh_runs :: "sys_malloc \<Rightarrow> ('a \<Rightarrow> u32) \<Rightarrow> ('a \<Rightarrow> 'a \<Rightarrow> int) \<Rightarrow> 'a lh_op list \<Rightarrow> 'a lhash_st \<Rightarrow> 'a lhash_st" where
  "lh_runs mal hash cmp [] lh = lh"
| "lh_runs mal hash cmp (op # ops) lh = lh_runs mal hash cmp ops (snd (lh_run mal hash cmp op lh))"

lemma lh_new_ok:
  assumes "lh_new mal = Some lh"
  shows "lh_ok hash cmp lh" "items lh = []" "callback_depth lh = 0" "num_buckets lh = 16"
  using assms by (auto simp: lh_new_def lh_ok_def items_def kMinNumBuckets_def concat_replicate_trivial
      split: option.splits)

lemma lh_runs_ok:
  "hashing hash cmp \<Longrightarrow> malloc_ok mal \<Longrightarrow> lh_ok hash cmp lh \<Longrightarrow> lh_ok hash cmp (lh_runs mal hash cmp ops lh)"
proof (induction ops arbitrary: lh)
  case (Cons op ops)
  obtain b old lh' where r: "lh_run mal hash cmp op lh = ((b, old), lh')" by (metis prod.exhaust)
  show ?case using Cons lh_run_map [OF Cons.prems r] r by simp
qed simp

lemma lh_run_light:
  assumes h: "hashing hash cmp" and r: "roomy mal N" "16 * unat (num_buckets lh) + 8 < N"
    and ok: "lh_ok hash cmp lh" and l: "light lh" "callback_depth lh = 0"
  shows "light (snd (lh_run mal hash cmp op lh)) \<and> callback_depth (snd (lh_run mal hash cmp op lh)) = 0"
proof -
  obtain b old lh' where run: "lh_run mal hash cmp op lh = ((b, old), lh')" by (metis prod.exhaust)
  have m: "malloc_ok mal" using r(1) by (simp add: roomy_def)
  obtain lh1 where 1: "lh_ok hash cmp lh1" "num_buckets lh1 = num_buckets lh" "callback_depth lh1 = 0"
    "(lh' = lh1 \<and> length (items lh1) = length (items lh))
      \<or> (lh' = lh_maybe_resize mal lh1 \<and> length (items lh1) \<le> Suc (length (items lh)))"
    using lh_run_map [OF h m ok run] l(2) by (auto simp: resized_def)
  have n: "length (items lh1) \<le> 3 * unat (num_buckets lh1)" using 1(2,4) l(1) by (auto simp: light_def)
  have "light (lh_maybe_resize mal lh1)"
    by (rule maybe_resize_light [OF h 1(1) r(1) _ 1(3) n]) (use r(2) 1(2) in simp)
  then show ?thesis using 1 l(1) run by (auto simp: light_def)
qed

end
