(* ===== verification/Pool.thy ===== *)
theory Pool
  imports Lhash_Props
begin

text \<open>
  BoringSSL's \<open>crypto/pool/pool.c\<close>: buffers with reference counts, which a pool shares between
  the clients that ask for the same contents. The contents and the length of a buffer never
  change, so that an element of the pool's hash table is the pointer together with the bytes it
  points to; what does change, the reference count, is in the heap. The lock of the pool makes
  each of the definitions here one step; \<open>malloc\<close> gives an address that the caller of the
  definition chooses among the free ones.
\<close>

section \<open>Reference counts\<close>

definition CRYPTO_REFCOUNT_MAX :: u32 where "CRYPTO_REFCOUNT_MAX = 0xffffffff"

definition CRYPTO_refcount_inc :: "u32 \<Rightarrow> u32" where
  "CRYPTO_refcount_inc n = (if n < CRYPTO_REFCOUNT_MAX then n + 1 else n)"

text \<open>\<^const>\<open>None\<close> is \<open>abort\<close>.\<close>

definition CRYPTO_refcount_dec_and_test_zero :: "u32 \<Rightarrow> (bool \<times> u32) option" where
  "CRYPTO_refcount_dec_and_test_zero n = (if n = 0 then None
    else let c = (if n < CRYPTO_REFCOUNT_MAX then n - 1 else n) in Some (c = 0, c))"

section \<open>Buffers and pools\<close>

text \<open>\<open>cb_pool\<close> says whether the pointer to the pool is set.\<close>

record crypto_buffer =
  cb_pool :: bool
  cb_data :: bytes
  cb_references :: u32

record buf_ptr =
  bp_addr :: addr
  bp_bytes :: bytes

record pool_st =
  heap :: "addr \<Rightarrow> crypto_buffer option"
  bufs :: "buf_ptr lhash_st"

definition CRYPTO_BUFFER_hash :: "buf_ptr \<Rightarrow> u32" where
  "CRYPTO_BUFFER_hash buf = OPENSSL_hash32 (bp_bytes buf)"

definition CRYPTO_BUFFER_cmp :: "buf_ptr \<Rightarrow> buf_ptr \<Rightarrow> int" where
  "CRYPTO_BUFFER_cmp a b = (if length (bp_bytes a) \<noteq> length (bp_bytes b) then 1
    else memcmp_sign (bp_bytes a) (bp_bytes b))"

text \<open>A pool takes 64 bytes, a buffer 32.\<close>

definition CRYPTO_BUFFER_POOL_new :: "sys_malloc \<Rightarrow> buf_ptr lhash_st option" where
  "CRYPTO_BUFFER_POOL_new mal = (case OPENSSL_malloc mal 64 of
      None \<Rightarrow> None
    | Some _ \<Rightarrow> lh_new mal)"

definition set_references :: "addr \<Rightarrow> u32 \<Rightarrow> pool_st \<Rightarrow> pool_st" where
  "set_references a n st = st\<lparr>heap := (heap st)(a := map_option (cb_references_update (\<lambda>_. n)) (heap st a))\<rparr>"

definition pool_free :: "addr \<Rightarrow> pool_st \<Rightarrow> pool_st" where
  "pool_free a st = st\<lparr>heap := (heap st)(a := None)\<rparr>"

text \<open>\<^const>\<open>None\<close> stands for a pointer to freed memory.\<close>

definition CRYPTO_BUFFER_up_ref :: "addr \<Rightarrow> pool_st \<Rightarrow> pool_st option" where
  "CRYPTO_BUFFER_up_ref a st = (case heap st a of
      None \<Rightarrow> None
    | Some buf \<Rightarrow> Some (set_references a (CRYPTO_refcount_inc (cb_references buf)) st))"

section \<open>Making buffers\<close>

text \<open>The first critical section of \<open>CRYPTO_BUFFER_new\<close>: look for a duplicate, on a temporary
  buffer at the address \<open>tmp\<close> of the stack. The result is the duplicate, or NULL.\<close>

definition new_lookup :: "addr \<Rightarrow> bytes \<Rightarrow> pool_st \<Rightarrow> (addr option \<times> pool_st) option" where
  "new_lookup tmp data st =
    (case lh_retrieve CRYPTO_BUFFER_hash CRYPTO_BUFFER_cmp (bufs st) \<lparr>bp_addr = tmp, bp_bytes = data\<rparr> of
      None \<Rightarrow> Some (None, st)
    | Some duplicate \<Rightarrow> map_option (Pair (Some (bp_addr duplicate)))
        (CRYPTO_BUFFER_up_ref (bp_addr duplicate) st))"

text \<open>The buffer is allocated outside of the lock. \<open>OPENSSL_memdup\<close> of no bytes is NULL, which is
  not an error.\<close>

definition new_buffer :: "sys_malloc \<Rightarrow> bool \<Rightarrow> bytes \<Rightarrow> crypto_buffer option" where
  "new_buffer mal pooled data = (case OPENSSL_malloc mal 32 of
      None \<Rightarrow> None
    | Some _ \<Rightarrow> if data \<noteq> [] \<and> OPENSSL_memdup mal data = None then None
        else Some \<lparr>cb_pool = pooled, cb_data = data, cb_references = 1\<rparr>)"

text \<open>The second critical section: another thread may have inserted a duplicate since. The result
  is \<^const>\<open>None\<close> for a failed assertion, or the pointer that is returned (NULL when the
  insertion failed).\<close>

definition new_insert :: "sys_malloc \<Rightarrow> buf_ptr \<Rightarrow> pool_st \<Rightarrow> (addr option \<times> pool_st) option" where
  "new_insert mal buf st = (case lh_retrieve CRYPTO_BUFFER_hash CRYPTO_BUFFER_cmp (bufs st) buf of
      None \<Rightarrow> (case lh_insert mal CRYPTO_BUFFER_hash CRYPTO_BUFFER_cmp (bufs st) buf of
          (inserted, old, lh) \<Rightarrow>
            if old \<noteq> None then None
            else if inserted then Some (Some (bp_addr buf), st\<lparr>bufs := lh\<rparr>)
            else Some (None, pool_free (bp_addr buf) (st\<lparr>bufs := lh\<rparr>)))
    | Some duplicate \<Rightarrow> map_option (\<lambda>s. (Some (bp_addr duplicate), pool_free (bp_addr buf) s))
        (CRYPTO_BUFFER_up_ref (bp_addr duplicate) st))"

text \<open>The whole function, when no other thread runs between its two sections.\<close>

definition CRYPTO_BUFFER_new ::
  "sys_malloc \<Rightarrow> addr \<Rightarrow> addr \<Rightarrow> bool \<Rightarrow> bytes \<Rightarrow> pool_st \<Rightarrow> (addr option \<times> pool_st) option" where
  "CRYPTO_BUFFER_new mal tmp a pooled data st =
    (let make = (\<lambda>s. case new_buffer mal pooled data of
          None \<Rightarrow> Some (None, s)
        | Some buf \<Rightarrow>
            let s' = s\<lparr>heap := (heap s)(a := Some buf)\<rparr>
            in if \<not> pooled then Some (Some a, s')
               else new_insert mal \<lparr>bp_addr = a, bp_bytes = data\<rparr> s')
     in if \<not> pooled then make st
        else case new_lookup tmp data st of
            None \<Rightarrow> None
          | Some (Some duplicate, s) \<Rightarrow> Some (Some duplicate, s)
          | Some (None, s) \<Rightarrow> make s)"

definition CRYPTO_BUFFER_new_from_CBS ::
  "sys_malloc \<Rightarrow> addr \<Rightarrow> addr \<Rightarrow> bool \<Rightarrow> bytes \<Rightarrow> pool_st \<Rightarrow> (addr option \<times> pool_st) option" where
  "CRYPTO_BUFFER_new_from_CBS mal tmp a pooled cbs st = CRYPTO_BUFFER_new mal tmp a pooled cbs st"

text \<open>The bytes of the new buffer are those the allocator left there; the caller writes them
  before the buffer is shared.\<close>

definition CRYPTO_BUFFER_alloc :: "sys_malloc \<Rightarrow> addr \<Rightarrow> u64 \<Rightarrow> pool_st \<Rightarrow> addr option \<times> pool_st" where
  "CRYPTO_BUFFER_alloc mal a len st = (case OPENSSL_malloc mal 32 of
      None \<Rightarrow> (None, st)
    | Some _ \<Rightarrow> (case OPENSSL_malloc mal len of
        None \<Rightarrow> if len \<noteq> 0 then (None, st)
          else (Some a, st\<lparr>heap := (heap st)(a := Some \<lparr>cb_pool = False, cb_data = [], cb_references = 1\<rparr>)\<rparr>)
      | Some blk \<Rightarrow> (Some a, st\<lparr>heap := (heap st)(a := Some
          \<lparr>cb_pool = False, cb_data = ob_data blk, cb_references = 1\<rparr>)\<rparr>)))"

section \<open>Releasing buffers\<close>

text \<open>\<^const>\<open>None\<close> stands for a pointer to freed memory, an abort or a failed assertion.\<close>

definition CRYPTO_BUFFER_free :: "sys_malloc \<Rightarrow> addr \<Rightarrow> pool_st \<Rightarrow> pool_st option" where
  "CRYPTO_BUFFER_free mal a st = (case heap st a of
      None \<Rightarrow> None
    | Some buf \<Rightarrow> (case CRYPTO_refcount_dec_and_test_zero (cb_references buf) of
        None \<Rightarrow> None
      | Some (False, n) \<Rightarrow> Some (set_references a n st)
      | Some (True, n) \<Rightarrow>
          if \<not> cb_pool buf then Some (pool_free a st)
          else (case lh_delete mal CRYPTO_BUFFER_hash CRYPTO_BUFFER_cmp (bufs st)
                  \<lparr>bp_addr = a, bp_bytes = cb_data buf\<rparr> of
              (found, lh) \<Rightarrow>
                if map_option bp_addr found \<noteq> Some a then None
                else Some (pool_free a (st\<lparr>bufs := lh\<rparr>)))))"

definition CRYPTO_BUFFER_data :: "addr \<Rightarrow> pool_st \<Rightarrow> bytes option" where
  "CRYPTO_BUFFER_data a st = map_option cb_data (heap st a)"

definition CRYPTO_BUFFER_len :: "addr \<Rightarrow> pool_st \<Rightarrow> u64 option" where
  "CRYPTO_BUFFER_len a st = map_option (\<lambda>b. word_of_nat (length (cb_data b))) (heap st a)"

definition CRYPTO_BUFFER_init_CBS :: "addr \<Rightarrow> pool_st \<Rightarrow> bytes option" where
  "CRYPTO_BUFFER_init_CBS a st = map_option cb_data (heap st a)"

text \<open>The assertion of \<open>CRYPTO_BUFFER_POOL_free\<close>.\<close>

definition CRYPTO_BUFFER_POOL_free :: "buf_ptr lhash_st \<Rightarrow> bool" where
  "CRYPTO_BUFFER_POOL_free lh \<longleftrightarrow> lh_num_items lh = 0"

section \<open>The contract of the hash table\<close>

lemma buffer_cmp_eq: "CRYPTO_BUFFER_cmp a b = 0 \<longleftrightarrow> bp_bytes a = bp_bytes b"
  using memcmp_sign_eq [of "bp_bytes a" "bp_bytes b"] by (auto simp: CRYPTO_BUFFER_cmp_def)

interpretation pool: hashing CRYPTO_BUFFER_hash CRYPTO_BUFFER_cmp
  by unfold_locales (simp_all add: buffer_cmp_eq CRYPTO_BUFFER_hash_def)

end
