(* ===== verification/Pool_Props.thy ===== *)
theory Pool_Props
  imports Pool
begin

text \<open>
  A pool used by any number of threads. A state of the system is the pool, the references its
  clients own, and the buffers that threads have made and not yet inserted; a step is one
  critical section of one thread. The invariant ties the three together: it gives the absence
  of dangling pointers and aborts, and that equal contents are shared.
\<close>

section \<open>The steps of the threads\<close>

record pool_sys =
  ps_pool :: pool_st
  held :: "addr \<Rightarrow> nat"
  pending :: "buf_ptr set"

text \<open>A thread may use a reference it owns, and free it once.\<close>

inductive pool_step :: "sys_malloc \<Rightarrow> pool_sys \<Rightarrow> pool_sys \<Rightarrow> bool" for mal where
  lookup: "new_lookup tmp data (ps_pool s) = Some (r, st) \<Longrightarrow>
    pool_step mal s (s\<lparr>ps_pool := st, held := (case r of None \<Rightarrow> held s
      | Some a \<Rightarrow> (held s)(a := Suc (held s a)))\<rparr>)"
| make: "heap (ps_pool s) a = None \<Longrightarrow> new_buffer mal True data = Some buf \<Longrightarrow>
    pool_step mal s (s\<lparr>ps_pool := (ps_pool s)\<lparr>heap := (heap (ps_pool s))(a := Some buf)\<rparr>,
      pending := insert \<lparr>bp_addr = a, bp_bytes = data\<rparr> (pending s)\<rparr>)"
| insert: "b \<in> pending s \<Longrightarrow> new_insert mal b (ps_pool s) = Some (r, st) \<Longrightarrow>
    pool_step mal s (s\<lparr>ps_pool := st, pending := pending s - {b}, held := (case r of None \<Rightarrow> held s
      | Some a \<Rightarrow> (held s)(a := Suc (held s a)))\<rparr>)"
| make_alone: "heap (ps_pool s) a = None \<Longrightarrow> new_buffer mal False data = Some buf \<Longrightarrow>
    pool_step mal s (s\<lparr>ps_pool := (ps_pool s)\<lparr>heap := (heap (ps_pool s))(a := Some buf)\<rparr>,
      held := (held s)(a := 1)\<rparr>)"
| up_ref: "0 < held s a \<Longrightarrow> CRYPTO_BUFFER_up_ref a (ps_pool s) = Some st \<Longrightarrow>
    pool_step mal s (s\<lparr>ps_pool := st, held := (held s)(a := Suc (held s a))\<rparr>)"
| free: "0 < held s a \<Longrightarrow> CRYPTO_BUFFER_free mal a (ps_pool s) = Some st \<Longrightarrow>
    pool_step mal s (s\<lparr>ps_pool := st, held := (held s)(a := held s a - 1)\<rparr>)"

inductive pool_reachable :: "sys_malloc \<Rightarrow> pool_sys \<Rightarrow> bool" for mal where
  start: "CRYPTO_BUFFER_POOL_new mal = Some lh \<Longrightarrow>
    pool_reachable mal \<lparr>ps_pool = \<lparr>heap = (\<lambda>_. None), bufs = lh\<rparr>, held = (\<lambda>_. 0), pending = {}\<rparr>"
| step: "pool_reachable mal s \<Longrightarrow> pool_step mal s t \<Longrightarrow> pool_reachable mal t"

section \<open>The invariant\<close>

text \<open>The elements stored in the table of a pool, and the count of a buffer.\<close>

definition stored :: "pool_st \<Rightarrow> buf_ptr set" where
  "stored st = it_data ` set (items (bufs st))"

definition counts :: "crypto_buffer \<Rightarrow> nat \<Rightarrow> bool" where
  "counts buf n \<longleftrightarrow> cb_references buf \<noteq> 0
    \<and> (unat (cb_references buf) = n \<or> cb_references buf = CRYPTO_REFCOUNT_MAX)"

definition pool_inv :: "pool_sys \<Rightarrow> bool" where
  "pool_inv s \<longleftrightarrow> lh_ok CRYPTO_BUFFER_hash CRYPTO_BUFFER_cmp (bufs (ps_pool s))
    \<and> (\<forall>b \<in> stored (ps_pool s). \<exists>buf. heap (ps_pool s) (bp_addr b) = Some buf
        \<and> cb_pool buf \<and> cb_data buf = bp_bytes b \<and> b \<notin> pending s)
    \<and> (\<forall>b \<in> pending s. heap (ps_pool s) (bp_addr b) = Some \<lparr>cb_pool = True, cb_data = bp_bytes b, cb_references = 1\<rparr>
        \<and> held s (bp_addr b) = 0)
    \<and> (\<forall>a buf. heap (ps_pool s) a = Some buf \<longrightarrow> \<lparr>bp_addr = a, bp_bytes = cb_data buf\<rparr> \<in> pending s
        \<or> counts buf (held s a) \<and> (cb_pool buf \<longrightarrow> \<lparr>bp_addr = a, bp_bytes = cb_data buf\<rparr> \<in> stored (ps_pool s)))
    \<and> (\<forall>a. 0 < held s a \<longrightarrow> heap (ps_pool s) a \<noteq> None)"

lemma pool_invD:
  assumes "pool_inv s"
  shows "lh_ok CRYPTO_BUFFER_hash CRYPTO_BUFFER_cmp (bufs (ps_pool s))"
    "b \<in> stored (ps_pool s) \<Longrightarrow> \<exists>buf. heap (ps_pool s) (bp_addr b) = Some buf
      \<and> cb_pool buf \<and> cb_data buf = bp_bytes b \<and> b \<notin> pending s"
    "b \<in> pending s \<Longrightarrow> heap (ps_pool s) (bp_addr b) = Some \<lparr>cb_pool = True, cb_data = bp_bytes b, cb_references = 1\<rparr>
      \<and> held s (bp_addr b) = 0"
    "heap (ps_pool s) a = Some buf \<Longrightarrow> \<lparr>bp_addr = a, bp_bytes = cb_data buf\<rparr> \<in> pending s
      \<or> counts buf (held s a) \<and> (cb_pool buf \<longrightarrow> \<lparr>bp_addr = a, bp_bytes = cb_data buf\<rparr> \<in> stored (ps_pool s))"
    "0 < held s a \<Longrightarrow> heap (ps_pool s) a \<noteq> None"
  using assms unfolding pool_inv_def by blast+

text \<open>A buffer somebody holds is alive, counted, and stored if it is pooled.\<close>

lemma held_alive:
  assumes i: "pool_inv s" and h: "0 < held s a"
  obtains buf where "heap (ps_pool s) a = Some buf" "counts buf (held s a)"
    "cb_pool buf \<longrightarrow> \<lparr>bp_addr = a, bp_bytes = cb_data buf\<rparr> \<in> stored (ps_pool s)"
    "\<And>b. b \<in> pending s \<Longrightarrow> bp_addr b \<noteq> a"
proof -
  obtain buf where b: "heap (ps_pool s) a = Some buf" using pool_invD(5) [OF i h] by auto
  have np: "bp_addr b \<noteq> a" if "b \<in> pending s" for b using pool_invD(3) [OF i that] h by auto
  then have "\<lparr>bp_addr = a, bp_bytes = cb_data buf\<rparr> \<notin> pending s" by fastforce
  then show thesis using that [OF b] pool_invD(4) [OF i b] np by blast
qed

text \<open>The stored elements are those that are retrieved for themselves.\<close>

lemma stored_iff:
  assumes ok: "lh_ok CRYPTO_BUFFER_hash CRYPTO_BUFFER_cmp (bufs st)"
  shows "b \<in> stored st \<longleftrightarrow> lh_retrieve CRYPTO_BUFFER_hash CRYPTO_BUFFER_cmp (bufs st) b = Some b"
proof
  assume "b \<in> stored st"
  then obtain it where it: "it \<in> set (items (bufs st))" "it_data it = b" by (auto simp: stored_def)
  from it(1) obtain xs ys where x: "items (bufs st) = xs @ it # ys" by (metis split_list)
  have "CRYPTO_BUFFER_cmp (it_data it) b = 0" by (simp add: buffer_cmp_eq it(2))
  from pool.lookup_present [OF ok x this] it(2)
  show "lh_retrieve CRYPTO_BUFFER_hash CRYPTO_BUFFER_cmp (bufs st) b = Some b"
    unfolding pool.retrieve_lookup [OF ok] by simp
next
  assume "lh_retrieve CRYPTO_BUFFER_hash CRYPTO_BUFFER_cmp (bufs st) b = Some b"
  then show "b \<in> stored st"
    unfolding pool.retrieve_lookup [OF ok] lh_lookup_def
    by (auto simp: stored_def dest: find_SomeD)
qed

lemma retrieve_bytes:
  assumes ok: "lh_ok CRYPTO_BUFFER_hash CRYPTO_BUFFER_cmp (bufs st)" and b: "bp_bytes x = bp_bytes y"
  shows "lh_retrieve CRYPTO_BUFFER_hash CRYPTO_BUFFER_cmp (bufs st) x
    = lh_retrieve CRYPTO_BUFFER_hash CRYPTO_BUFFER_cmp (bufs st) y"
  unfolding pool.retrieve_lookup [OF ok] by (simp add: lh_lookup_def buffer_cmp_eq b)

lemma retrieve_Some:
  assumes ok: "lh_ok CRYPTO_BUFFER_hash CRYPTO_BUFFER_cmp (bufs st)"
    and r: "lh_retrieve CRYPTO_BUFFER_hash CRYPTO_BUFFER_cmp (bufs st) x = Some b"
  shows "b \<in> stored st \<and> bp_bytes b = bp_bytes x"
proof -
  have e: "bp_bytes b = bp_bytes x"
    using r unfolding pool.retrieve_lookup [OF ok] lh_lookup_def
    by (auto simp: buffer_cmp_eq dest: find_SomeD)
  then show ?thesis using retrieve_bytes [OF ok e] r stored_iff [OF ok] by simp
qed

lemma stored_unique:
  assumes ok: "lh_ok CRYPTO_BUFFER_hash CRYPTO_BUFFER_cmp (bufs st)"
    and "b \<in> stored st" "c \<in> stored st" "bp_bytes b = bp_bytes c"
  shows "b = c"
proof -
  note f = assms(2,3) [unfolded stored_iff [OF ok]]
  have "Some b = Some c" unfolding f [symmetric] by (rule retrieve_bytes [OF ok assms(4)])
  then show ?thesis by simp
qed

section \<open>Each step keeps the invariant\<close>

lemma refcount_max: "\<not> n < CRYPTO_REFCOUNT_MAX \<Longrightarrow> n = CRYPTO_REFCOUNT_MAX"
  using unat_u32_lt [of n]
  by (intro unsigned_word_eqI [where 'a = nat]) (simp add: CRYPTO_REFCOUNT_MAX_def word_less_nat_alt)

lemma counts_inc: "counts buf n \<Longrightarrow> counts (buf\<lparr>cb_references := CRYPTO_refcount_inc (cb_references buf)\<rparr>) (Suc n)"
proof -
  assume c: "counts buf n"
  show ?thesis
  proof (cases "cb_references buf < CRYPTO_REFCOUNT_MAX")
    case True
    then have "unat (cb_references buf + 1) = Suc (unat (cb_references buf))"
      by (simp add: CRYPTO_REFCOUNT_MAX_def word_less_nat_alt unat_word_ariths)
    moreover from this have "cb_references buf + 1 \<noteq> 0" by auto
    ultimately show ?thesis using c True by (auto simp: counts_def CRYPTO_refcount_inc_def)
  next
    case False
    from refcount_max [OF this] show ?thesis by (simp add: counts_def CRYPTO_refcount_inc_def CRYPTO_REFCOUNT_MAX_def)
  qed
qed

lemma inv_up_ref:
  assumes i: "pool_inv s" and b: "heap (ps_pool s) a = Some buf" "counts buf (held s a)"
    and np: "\<And>b. b \<in> pending s \<Longrightarrow> bp_addr b \<noteq> a"
    and u: "CRYPTO_BUFFER_up_ref a (ps_pool s) = Some st"
  shows "pool_inv (s\<lparr>ps_pool := st, held := (held s)(a := Suc (held s a))\<rparr>)"
proof -
  have st: "st = set_references a (CRYPTO_refcount_inc (cb_references buf)) (ps_pool s)"
    using u b(1) by (simp add: CRYPTO_BUFFER_up_ref_def)
  have h: "heap st = (heap (ps_pool s))(a := Some (buf\<lparr>cb_references := CRYPTO_refcount_inc (cb_references buf)\<rparr>))"
    "bufs st = bufs (ps_pool s)" "stored st = stored (ps_pool s)"
    using b(1) by (simp_all add: st set_references_def stored_def)
  show ?thesis
    using i np counts_inc [OF b(2)] b(1) unfolding pool_inv_def
    by (auto simp: h)
qed

lemma inv_discard:
  assumes i: "pool_inv s" and b: "b \<in> pending s"
  shows "pool_inv (s\<lparr>ps_pool := pool_free (bp_addr b) (ps_pool s), pending := pending s - {b}\<rparr>)"
proof -
  have h: "heap (pool_free (bp_addr b) (ps_pool s)) = (heap (ps_pool s))(bp_addr b := None)"
    "bufs (pool_free (bp_addr b) (ps_pool s)) = bufs (ps_pool s)"
    "stored (pool_free (bp_addr b) (ps_pool s)) = stored (ps_pool s)"
    by (simp_all add: pool_free_def stored_def)
  have same: "c = b" if "c \<in> pending s" "bp_addr c = bp_addr b" for c
    using pool_invD(3) [OF i that(1)] pool_invD(3) [OF i b] that(2) by (cases b; cases c) auto
  have st: "bp_addr c \<noteq> bp_addr b" if "c \<in> stored (ps_pool s)" for c
  proof
    assume "bp_addr c = bp_addr b"
    then have "bp_bytes c = bp_bytes b"
      using pool_invD(2) [OF i that] pool_invD(3) [OF i b] by auto
    then have "c = b" using \<open>bp_addr c = bp_addr b\<close> by (cases b; cases c) auto
    then show False using pool_invD(2) [OF i that] b by auto
  qed
  have z: "held s (bp_addr b) = 0" using pool_invD(3) [OF i b] by simp
  show ?thesis
    using i same st z unfolding pool_inv_def by (auto simp: h)
qed

lemma stored_heap [simp]: "stored (st\<lparr>heap := h\<rparr>) = stored st"
  by (simp add: stored_def)

lemma stored_alive:
  assumes i: "pool_inv s" and b: "b \<in> stored (ps_pool s)"
  obtains buf where "heap (ps_pool s) (bp_addr b) = Some buf" "cb_pool buf" "cb_data buf = bp_bytes b"
    "counts buf (held s (bp_addr b))" "\<And>c. c \<in> pending s \<Longrightarrow> bp_addr c \<noteq> bp_addr b"
proof -
  obtain buf where h: "heap (ps_pool s) (bp_addr b) = Some buf" "cb_pool buf" "cb_data buf = bp_bytes b" "b \<notin> pending s"
    using pool_invD(2) [OF i b] by auto
  have e: "\<lparr>bp_addr = bp_addr b, bp_bytes = cb_data buf\<rparr> = b" using h(3) by simp
  have np: "bp_addr c \<noteq> bp_addr b" if "c \<in> pending s" for c
  proof
    assume a: "bp_addr c = bp_addr b"
    then have "bp_bytes c = bp_bytes b" using pool_invD(3) [OF i that] h(1,3) by auto
    then have "c = b" using a by (cases b; cases c) auto
    then show False using that h(4) by simp
  qed
  show thesis using that [OF h(1-3) _ np] pool_invD(4) [OF i h(1)] h(4) unfolding e by blast
qed

lemma inv_lookup:
  assumes i: "pool_inv s" and l: "new_lookup tmp data (ps_pool s) = Some (r, st)"
  shows "pool_inv (s\<lparr>ps_pool := st, held := (case r of None \<Rightarrow> held s
      | Some a \<Rightarrow> (held s)(a := Suc (held s a)))\<rparr>)"
proof (cases "lh_retrieve CRYPTO_BUFFER_hash CRYPTO_BUFFER_cmp (bufs (ps_pool s)) \<lparr>bp_addr = tmp, bp_bytes = data\<rparr>")
  case None
  then have "r = None" "st = ps_pool s" using l by (simp_all add: new_lookup_def)
  then show ?thesis using i by simp
next
  case (Some b)
  then have r: "r = Some (bp_addr b)" "CRYPTO_BUFFER_up_ref (bp_addr b) (ps_pool s) = Some st"
    using l by (auto simp: new_lookup_def)
  have "b \<in> stored (ps_pool s)" using retrieve_Some [OF pool_invD(1) [OF i] Some] by simp
  from stored_alive [OF i this] show ?thesis using inv_up_ref [OF i _ _ _ r(2)] r(1) by auto
qed

lemma new_buffer_eq: "new_buffer mal p data = Some buf \<Longrightarrow> buf = \<lparr>cb_pool = p, cb_data = data, cb_references = 1\<rparr>"
  by (auto simp: new_buffer_def split: option.splits if_splits)

lemma free_address:
  assumes i: "pool_inv s" and a: "heap (ps_pool s) a = None"
  shows "held s a = 0" "b \<in> stored (ps_pool s) \<Longrightarrow> bp_addr b \<noteq> a" "b \<in> pending s \<Longrightarrow> bp_addr b \<noteq> a"
  using pool_invD(5) [OF i, of a] pool_invD(2) [OF i, of b] pool_invD(3) [OF i, of b] a by auto

lemma inv_make:
  assumes i: "pool_inv s" and a: "heap (ps_pool s) a = None" and n: "new_buffer mal True data = Some buf"
  shows "pool_inv (s\<lparr>ps_pool := (ps_pool s)\<lparr>heap := (heap (ps_pool s))(a := Some buf)\<rparr>,
      pending := insert \<lparr>bp_addr = a, bp_bytes = data\<rparr> (pending s)\<rparr>)"
proof -
  have "b \<noteq> \<lparr>bp_addr = a, bp_bytes = data\<rparr>" if "b \<in> stored (ps_pool s)" for b
    using free_address(2) [OF i a that] by auto
  then show ?thesis
    using i free_address [OF i a] new_buffer_eq [OF n] unfolding pool_inv_def by auto
qed

lemma inv_make_alone:
  assumes i: "pool_inv s" and a: "heap (ps_pool s) a = None" and n: "new_buffer mal False data = Some buf"
  shows "pool_inv (s\<lparr>ps_pool := (ps_pool s)\<lparr>heap := (heap (ps_pool s))(a := Some buf)\<rparr>, held := (held s)(a := 1)\<rparr>)"
proof -
  have c: "counts buf (Suc 0)" "\<not> cb_pool buf" using new_buffer_eq [OF n] by (simp_all add: counts_def)
  show ?thesis
    using i free_address [OF i a] c unfolding pool_inv_def by auto
qed

lemma stored_insert:
  assumes ok: "lh_ok CRYPTO_BUFFER_hash CRYPTO_BUFFER_cmp (bufs st)" and m: "malloc_ok mal"
    and r: "lh_retrieve CRYPTO_BUFFER_hash CRYPTO_BUFFER_cmp (bufs st) b = None"
    and l: "lh_insert mal CRYPTO_BUFFER_hash CRYPTO_BUFFER_cmp (bufs st) b = (True, old, lh)"
  shows "lh_ok CRYPTO_BUFFER_hash CRYPTO_BUFFER_cmp lh" "stored (st\<lparr>bufs := lh\<rparr>) = insert b (stored st)"
proof -
  note S = pool.insert_spec [OF ok m l]
  show ok': "lh_ok CRYPTO_BUFFER_hash CRYPTO_BUFFER_cmp lh" using S by blast
  have "mset (map it_data (items lh)) = add_mset b (mset (map it_data (items (bufs st))))"
    using S r unfolding pool.retrieve_lookup [OF ok] by (metis add.right_neutral option.simps(4))
  from arg_cong [OF this, of set_mset] show "stored (st\<lparr>bufs := lh\<rparr>) = insert b (stored st)"
    by (simp add: stored_def)
qed

lemma stored_delete:
  assumes ok: "lh_ok CRYPTO_BUFFER_hash CRYPTO_BUFFER_cmp (bufs st)" and m: "malloc_ok mal"
    and b: "b \<in> stored st"
    and l: "lh_delete mal CRYPTO_BUFFER_hash CRYPTO_BUFFER_cmp (bufs st) b = (found, lh)"
  shows "found = Some b" "lh_ok CRYPTO_BUFFER_hash CRYPTO_BUFFER_cmp lh" "stored (st\<lparr>bufs := lh\<rparr>) = stored st - {b}"
proof -
  note S = pool.delete_spec [OF ok m l]
  show ok': "lh_ok CRYPTO_BUFFER_hash CRYPTO_BUFFER_cmp lh" using S by blast
  show f: "found = Some b" using S b unfolding stored_iff [OF ok] pool.retrieve_lookup [OF ok] by simp
  have "mset (map it_data (items lh)) + {#b#} = mset (map it_data (items (bufs st)))" using S f by simp
  from arg_cong [OF this, of set_mset] have i: "insert b (stored (st\<lparr>bufs := lh\<rparr>)) = stored st"
    by (simp add: stored_def)
  have ok2: "lh_ok CRYPTO_BUFFER_hash CRYPTO_BUFFER_cmp (bufs (st\<lparr>bufs := lh\<rparr>))" using ok' by simp
  have "lh_lookup CRYPTO_BUFFER_cmp lh b = None" using S pool.refl [of b] by simp
  then have "b \<notin> stored (st\<lparr>bufs := lh\<rparr>)"
    unfolding stored_iff [OF ok2] using pool.retrieve_lookup [OF ok'] by simp
  then show "stored (st\<lparr>bufs := lh\<rparr>) = stored st - {b}" using i by auto
qed

lemma inv_insert:
  assumes i: "pool_inv s" and m: "malloc_ok mal" and b: "b \<in> pending s"
    and l: "new_insert mal b (ps_pool s) = Some (r, st)"
  shows "pool_inv (s\<lparr>ps_pool := st, pending := pending s - {b}, held := (case r of None \<Rightarrow> held s
      | Some a \<Rightarrow> (held s)(a := Suc (held s a)))\<rparr>)"
proof (cases "lh_retrieve CRYPTO_BUFFER_hash CRYPTO_BUFFER_cmp (bufs (ps_pool s)) b")
  case (Some d)
  then obtain st1 where u: "CRYPTO_BUFFER_up_ref (bp_addr d) (ps_pool s) = Some st1"
    "r = Some (bp_addr d)" "st = pool_free (bp_addr b) st1"
    using l by (auto simp: new_insert_def)
  have "d \<in> stored (ps_pool s)" using retrieve_Some [OF pool_invD(1) [OF i] Some] by simp
  from stored_alive [OF i this]
  have "pool_inv (s\<lparr>ps_pool := st1, held := (held s)(bp_addr d := Suc (held s (bp_addr d)))\<rparr>)"
    using inv_up_ref [OF i _ _ _ u(1)] by metis
  from inv_discard [OF this, of b] b
  have "pool_inv (s\<lparr>ps_pool := pool_free (bp_addr b) st1, pending := pending s - {b},
      held := (held s)(bp_addr d := Suc (held s (bp_addr d)))\<rparr>)"
    by (cases s) simp
  then show ?thesis using u(2,3) by simp
next
  case None
  obtain ins old lh where ins: "lh_insert mal CRYPTO_BUFFER_hash CRYPTO_BUFFER_cmp (bufs (ps_pool s)) b = (ins, old, lh)"
    by (metis prod.exhaust)
  note ok = pool_invD(1) [OF i]
  show ?thesis
  proof (cases ins)
    case False
    then have "lh = bufs (ps_pool s)" using pool.insert_spec [OF ok m ins] by simp
    then have "r = None" "st = pool_free (bp_addr b) (ps_pool s)"
      using l None ins False by (auto simp: new_insert_def split: if_splits)
    then show ?thesis using inv_discard [OF i b] by simp
  next
    case True
    then have r: "r = Some (bp_addr b)" "st = (ps_pool s)\<lparr>bufs := lh\<rparr>"
      using l None ins by (auto simp: new_insert_def split: if_splits)
    note S = stored_insert [OF ok m None ins [unfolded True [THEN iffD2 [OF eq_True]]]]
    note P = pool_invD(3) [OF i b]
    have same: "c = b" if "c \<in> pending s" "bp_addr c = bp_addr b" for c
      using pool_invD(3) [OF i that(1)] P that(2) by (cases b; cases c) auto
    have st: "bp_addr c \<noteq> bp_addr b" if "c \<in> stored (ps_pool s)" for c
      using stored_alive [OF i that] b by metis
    have e: "\<lparr>bp_addr = bp_addr b, bp_bytes = bp_bytes b\<rparr> = b" by simp
    show ?thesis
      using i S P same st e unfolding pool_inv_def r by (auto simp: counts_def)
  qed
qed

lemma counts_dec:
  assumes c: "counts buf n" and d: "CRYPTO_refcount_dec_and_test_zero (cb_references buf) = Some (z, k)"
  shows "\<not> z \<longrightarrow> counts (buf\<lparr>cb_references := k\<rparr>) (n - 1)" "z \<longrightarrow> n = 1"
proof -
  let ?r = "cb_references buf"
  have k: "k = (if ?r < CRYPTO_REFCOUNT_MAX then ?r - 1 else ?r)" "z \<longleftrightarrow> k = 0" "?r \<noteq> 0"
    using d by (auto simp: CRYPTO_refcount_dec_and_test_zero_def Let_def split: if_splits)
  have u: "unat (?r - 1) = unat ?r - 1" using k(3) by (simp add: unat_minus_one)
  show "\<not> z \<longrightarrow> counts (buf\<lparr>cb_references := k\<rparr>) (n - 1)"
    using c k u refcount_max [of ?r] by (auto simp: counts_def)
  show "z \<longrightarrow> n = 1"
  proof
    assume z
    then have "?r - 1 = 0" "?r < CRYPTO_REFCOUNT_MAX" using k by (auto split: if_splits)
    then have "unat ?r = 1" using u k(3) by (metis unat_0 unat_eq_0 One_nat_def Suc_pred bot_nat_0.not_eq_extremum)
    then show "n = 1" using c \<open>?r < CRYPTO_REFCOUNT_MAX\<close> by (auto simp: counts_def)
  qed
qed

lemma free_succeeds:
  assumes i: "pool_inv s" and m: "malloc_ok mal" and h: "0 < held s a"
  shows "\<exists>st. CRYPTO_BUFFER_free mal a (ps_pool s) = Some st
    \<and> pool_inv (s\<lparr>ps_pool := st, held := (held s)(a := held s a - 1)\<rparr>)"
proof -
  obtain buf where b: "heap (ps_pool s) a = Some buf" "counts buf (held s a)"
    "cb_pool buf \<longrightarrow> \<lparr>bp_addr = a, bp_bytes = cb_data buf\<rparr> \<in> stored (ps_pool s)"
    "\<And>b. b \<in> pending s \<Longrightarrow> bp_addr b \<noteq> a"
    using held_alive [OF i h] by blast
  let ?b = "\<lparr>bp_addr = a, bp_bytes = cb_data buf\<rparr>"
  have nz: "cb_references buf \<noteq> 0" using b(2) by (simp add: counts_def)
  then obtain z k where d: "CRYPTO_refcount_dec_and_test_zero (cb_references buf) = Some (z, k)"
    by (auto simp: CRYPTO_refcount_dec_and_test_zero_def Let_def)
  note C = counts_dec [OF b(2) d]
  show ?thesis
  proof (cases z)
    case False
    have f: "CRYPTO_BUFFER_free mal a (ps_pool s) = Some (set_references a k (ps_pool s))"
      using b(1) d False by (simp add: CRYPTO_BUFFER_free_def)
    have hp: "heap (set_references a k (ps_pool s)) = (heap (ps_pool s))(a := Some (buf\<lparr>cb_references := k\<rparr>))"
      "bufs (set_references a k (ps_pool s)) = bufs (ps_pool s)"
      "stored (set_references a k (ps_pool s)) = stored (ps_pool s)"
      using b(1) by (simp_all add: set_references_def stored_def)
    have "pool_inv (s\<lparr>ps_pool := set_references a k (ps_pool s), held := (held s)(a := held s a - 1)\<rparr>)"
      using i b C False unfolding pool_inv_def by (auto simp: hp)
    then show ?thesis using f by blast
  next
    case True
    then have one: "held s a = 1" using C by simp
    show ?thesis
    proof (cases "cb_pool buf")
      case False
      have f: "CRYPTO_BUFFER_free mal a (ps_pool s) = Some (pool_free a (ps_pool s))"
        using b(1) d True False by (simp add: CRYPTO_BUFFER_free_def)
      have st: "bp_addr c \<noteq> a" if "c \<in> stored (ps_pool s)" for c
        using stored_alive [OF i that] b(1) False by (metis option.inject)
      have "pool_inv (s\<lparr>ps_pool := pool_free a (ps_pool s), held := (held s)(a := held s a - 1)\<rparr>)"
        using i b(4) st one unfolding pool_inv_def pool_free_def by auto
      then show ?thesis using f by blast
    next
      case pooled: True
      then have sb: "?b \<in> stored (ps_pool s)" using b(3) by simp
      obtain found lh where l: "lh_delete mal CRYPTO_BUFFER_hash CRYPTO_BUFFER_cmp (bufs (ps_pool s)) ?b = (found, lh)"
        by fastforce
      note S = stored_delete [OF pool_invD(1) [OF i] m sb l]
      have f: "CRYPTO_BUFFER_free mal a (ps_pool s) = Some (pool_free a ((ps_pool s)\<lparr>bufs := lh\<rparr>))"
        using b(1) d True pooled l S(1) by (simp add: CRYPTO_BUFFER_free_def)
      have st: "bp_addr c \<noteq> a" if "c \<in> stored (ps_pool s)" "c \<noteq> ?b" for c
      proof
        assume e: "bp_addr c = a"
        then have "bp_bytes c = cb_data buf" using stored_alive [OF i that(1)] b(1) by (metis option.inject)
        then have "c = ?b" using e by (cases c) auto
        then show False using that(2) by simp
      qed
      have "pool_inv (s\<lparr>ps_pool := pool_free a ((ps_pool s)\<lparr>bufs := lh\<rparr>), held := (held s)(a := held s a - 1)\<rparr>)"
        using i b(4) st one S(2,3) unfolding pool_inv_def pool_free_def by auto
      then show ?thesis using f by blast
    qed
  qed
qed

inductive_cases pool_stepE: "pool_step mal s t"

lemma pool_step_inv:
  assumes m: "malloc_ok mal" and i: "pool_inv s" and t: "pool_step mal s t"
  shows "pool_inv t"
  using t
proof (cases rule: pool_step.cases)
  case (up_ref a st)
  obtain buf where "heap (ps_pool s) a = Some buf" "counts buf (held s a)"
    "\<And>b. b \<in> pending s \<Longrightarrow> bp_addr b \<noteq> a"
    using held_alive [OF i up_ref(2)] by blast
  then show ?thesis using inv_up_ref [OF i _ _ _ up_ref(3)] up_ref(1) by blast
next
  case (free a st)
  then show ?thesis using free_succeeds [OF i m free(2)] by auto
qed (use i m inv_lookup inv_make inv_insert inv_make_alone in blast)+

lemma pool_reachable_inv:
  assumes m: "malloc_ok mal"
  shows "pool_reachable mal s \<Longrightarrow> pool_inv s"
proof (induction rule: pool_reachable.induct)
  case (start lh)
  then have "lh_new mal = Some lh" by (auto simp: CRYPTO_BUFFER_POOL_new_def split: option.splits)
  from lh_new_ok [OF this] show ?case by (simp add: pool_inv_def stored_def)
next
  case (step s t)
  then show ?case using pool_step_inv [OF m] by blast
qed

section \<open>An example of a race\<close>

text \<open>A pool in which two threads raced to make a buffer of the bytes 1 and 2: the second one gets
  the buffer of the first.\<close>

definition sample_pool :: pool_sys where
  "sample_pool = \<lparr>ps_pool = \<lparr>heap = (\<lambda>_. None), bufs = the (CRYPTO_BUFFER_POOL_new sample_malloc)\<rparr>,
    held = (\<lambda>_. 0), pending = {}\<rparr>"

definition sample_make :: "addr \<Rightarrow> pool_sys \<Rightarrow> pool_sys" where
  "sample_make a s = s\<lparr>ps_pool := (ps_pool s)\<lparr>heap := (heap (ps_pool s))
      (a := Some \<lparr>cb_pool = True, cb_data = [1, 2], cb_references = 1\<rparr>)\<rparr>,
    pending := insert \<lparr>bp_addr = a, bp_bytes = [1, 2]\<rparr> (pending s)\<rparr>"

definition sample_insert :: "addr \<Rightarrow> pool_sys \<Rightarrow> pool_sys" where
  "sample_insert a s = s\<lparr>ps_pool := snd (the (new_insert sample_malloc \<lparr>bp_addr = a, bp_bytes = [1, 2]\<rparr> (ps_pool s))),
    pending := pending s - {\<lparr>bp_addr = a, bp_bytes = [1, 2]\<rparr>}, held := (held s)(1000 := Suc (held s 1000))\<rparr>"

definition sample_race :: pool_sys where
  "sample_race = sample_insert 2000 (sample_insert 1000 (sample_make 2000 (sample_make 1000 sample_pool)))"

lemma sample_race_reachable: "pool_reachable sample_malloc sample_race"
proof -
  have "CRYPTO_BUFFER_POOL_new sample_malloc \<noteq> None" by code_simp
  then have 0: "pool_reachable sample_malloc sample_pool"
    unfolding sample_pool_def by (intro pool_reachable.start) simp
  have nb: "new_buffer sample_malloc True [1, 2] = Some \<lparr>cb_pool = True, cb_data = [1, 2], cb_references = 1\<rparr>"
    by code_simp
  have mk: "pool_reachable sample_malloc (sample_make a s)"
    if "pool_reachable sample_malloc s" "heap (ps_pool s) a = None" for a s
    unfolding sample_make_def by (rule pool_reachable.step [OF that(1) pool_step.make [OF that(2) nb]])
  have ins: "pool_reachable sample_malloc (sample_insert a s)"
    if r: "pool_reachable sample_malloc s" and p: "\<lparr>bp_addr = a, bp_bytes = [1, 2]\<rparr> \<in> pending s"
      and f: "map_option fst (new_insert sample_malloc \<lparr>bp_addr = a, bp_bytes = [1, 2]\<rparr> (ps_pool s)) = Some (Some 1000)" for a s
  proof -
    obtain st where n: "new_insert sample_malloc \<lparr>bp_addr = a, bp_bytes = [1, 2]\<rparr> (ps_pool s) = Some (Some 1000, st)"
      using f by (auto simp: map_option_eq_Some)
    from pool_reachable.step [OF r pool_step.insert [OF p n]] show ?thesis
      by (simp add: sample_insert_def n)
  qed
  have 2: "pool_reachable sample_malloc (sample_make 2000 (sample_make 1000 sample_pool))"
    by (intro mk 0) (simp_all add: sample_pool_def sample_make_def)
  have 3: "pool_reachable sample_malloc (sample_insert 1000 (sample_make 2000 (sample_make 1000 sample_pool)))"
  proof (rule ins [OF 2])
    show "map_option fst (new_insert sample_malloc \<lparr>bp_addr = 1000, bp_bytes = [1, 2]\<rparr>
        (ps_pool (sample_make 2000 (sample_make 1000 sample_pool)))) = Some (Some 1000)" by code_simp
  qed (simp add: sample_make_def)
  show ?thesis
    unfolding sample_race_def
  proof (rule ins [OF 3])
    show "map_option fst (new_insert sample_malloc \<lparr>bp_addr = 2000, bp_bytes = [1, 2]\<rparr>
        (ps_pool (sample_insert 1000 (sample_make 2000 (sample_make 1000 sample_pool))))) = Some (Some 1000)" by code_simp
  qed (simp add: sample_make_def sample_insert_def)
qed

lemma sample_race_facts: "held sample_race 1000 = 2" "pending sample_race = {}"
  "map_option cb_data (heap (ps_pool sample_race) 1000) = Some [1, 2]"
  "map_option cb_pool (heap (ps_pool sample_race) 1000) = Some True"
  "map_option cb_references (heap (ps_pool sample_race) 1000) = Some 2"
  by (simp add: sample_race_def sample_insert_def sample_make_def sample_pool_def, simp add: sample_race_def sample_insert_def sample_make_def sample_pool_def, code_simp+)

section \<open>The properties\<close>

text \<open>C11: Whatever the threads do and however they interleave, whoever owns a reference to a buffer
  can read it, take another reference, and free it: the buffer is still there, its count is not
  zero, so that nothing aborts, and when the last reference goes the entry found in the table is
  the buffer itself, as the code asserts.\<close>

theorem pool_reference_is_good:
  assumes "malloc_ok mal" "pool_reachable mal s" "0 < held s a"
  shows "CRYPTO_BUFFER_data a (ps_pool s) \<noteq> None \<and> CRYPTO_BUFFER_up_ref a (ps_pool s) \<noteq> None
    \<and> CRYPTO_BUFFER_free mal a (ps_pool s) \<noteq> None"
proof -
  note i = pool_reachable_inv [OF assms(1,2)]
  obtain buf where "heap (ps_pool s) a = Some buf" using held_alive [OF i assms(3)] by blast
  then show ?thesis
    using free_succeeds [OF i assms(1,3)]
    by (auto simp: CRYPTO_BUFFER_data_def CRYPTO_BUFFER_up_ref_def)
qed

theorem pool_reference_is_good_witness:
  "CRYPTO_BUFFER_data 1000 (ps_pool sample_race) \<noteq> None \<and> CRYPTO_BUFFER_up_ref 1000 (ps_pool sample_race) \<noteq> None
    \<and> CRYPTO_BUFFER_free sample_malloc 1000 (ps_pool sample_race) \<noteq> None"
  by (rule pool_reference_is_good [OF sample_malloc_ok sample_race_reachable]) (simp add: sample_race_facts)

text \<open>C12: A pool shares equal contents: two references to pooled buffers with the same bytes are
  references to one buffer, also when threads raced to make it.\<close>

theorem pool_shares_contents:
  assumes "malloc_ok mal" "pool_reachable mal s" "0 < held s a" "0 < held s b"
    and "heap (ps_pool s) a = Some x" "heap (ps_pool s) b = Some y" "cb_pool x" "cb_pool y" "cb_data x = cb_data y"
  shows "a = b"
proof -
  note i = pool_reachable_inv [OF assms(1,2)]
  have "\<lparr>bp_addr = a, bp_bytes = cb_data x\<rparr> \<in> stored (ps_pool s)"
    using held_alive [OF i assms(3)] assms(5,7) by (metis option.inject)
  moreover have "\<lparr>bp_addr = b, bp_bytes = cb_data y\<rparr> \<in> stored (ps_pool s)"
    using held_alive [OF i assms(4)] assms(6,8) by (metis option.inject)
  ultimately show ?thesis
    using stored_unique [OF pool_invD(1) [OF i]] assms(9) by fastforce
qed

theorem pool_shares_contents_witness:
  "\<exists>x. heap (ps_pool sample_race) 1000 = Some x \<and> cb_pool x \<and> cb_data x = [1, 2] \<and> held sample_race 1000 = 2
    \<and> (\<forall>b y. 0 < held sample_race b \<and> heap (ps_pool sample_race) b = Some y \<and> cb_pool y \<and> cb_data y = [1, 2]
        \<longrightarrow> b = 1000)"
proof -
  obtain x where x: "heap (ps_pool sample_race) 1000 = Some x" "cb_pool x" "cb_data x = [1, 2]"
    using sample_race_facts(3,4) by auto
  have h: "0 < held sample_race 1000" by (simp add: sample_race_facts)
  have "b = 1000" if "0 < held sample_race b" "heap (ps_pool sample_race) b = Some y" "cb_pool y" "cb_data y = [1, 2]" for b y
    using pool_shares_contents [OF sample_malloc_ok sample_race_reachable that(1) h that(2) x(1) that(3) x(2)] that(4) x(3)
    by simp
  then show ?thesis using x sample_race_facts(1) by auto
qed

text \<open>C30: The count of a buffer that no thread is still making is the number of references that are
  owned, unless it has reached the saturation value: a buffer without references is not in the
  heap any more, and no reference is counted twice.\<close>

theorem pool_counts_references:
  assumes "malloc_ok mal" "pool_reachable mal s" "heap (ps_pool s) a = Some buf"
    and "\<lparr>bp_addr = a, bp_bytes = cb_data buf\<rparr> \<notin> pending s" "cb_references buf \<noteq> CRYPTO_REFCOUNT_MAX"
  shows "unat (cb_references buf) = held s a \<and> 0 < held s a"
proof -
  have c: "counts buf (held s a)"
    using pool_invD(4) [OF pool_reachable_inv [OF assms(1,2)] assms(3)] assms(4) by blast
  then have "unat (cb_references buf) = held s a" using assms(5) by (simp add: counts_def)
  moreover have "unat (cb_references buf) \<noteq> 0" using c by (simp add: counts_def unat_eq_0)
  ultimately show ?thesis by simp
qed

theorem pool_counts_references_witness:
  "\<exists>x. heap (ps_pool sample_race) 1000 = Some x \<and> unat (cb_references x) = held sample_race 1000
    \<and> 0 < held sample_race 1000"
proof -
  obtain x where x: "heap (ps_pool sample_race) 1000 = Some x" "cb_references x = 2"
    using sample_race_facts(5) by auto
  have "cb_references x \<noteq> CRYPTO_REFCOUNT_MAX" "\<lparr>bp_addr = 1000, bp_bytes = cb_data x\<rparr> \<notin> pending sample_race"
    using x(2) by (simp_all add: CRYPTO_REFCOUNT_MAX_def sample_race_facts)
  from pool_counts_references [OF sample_malloc_ok sample_race_reachable x(1) this(2,1)] x(1) show ?thesis by blast
qed

section \<open>The hash table under the pool\<close>

text \<open>C14: A hash table refines a map: insertion replaces the stored element that is equal to the
  new one and returns it, or adds the new one, and fails only for want of memory, changing
  nothing; deletion removes the equal element and returns it; and no resizing on the way
  changes what can be retrieved.\<close>

theorem lhash_refines_map:
  assumes "hashing hash cmp" "malloc_ok mal" "lh_ok hash cmp lh"
    and "lh_run mal hash cmp op lh = ((b, old), lh')"
  shows "map_op cmp op (lh_retrieve hash cmp lh) b old (lh_retrieve hash cmp lh')"
  using lh_run_map [OF assms] by blast

definition sample_table :: "buf_ptr lhash_st" where
  "sample_table = lh_runs sample_malloc CRYPTO_BUFFER_hash CRYPTO_BUFFER_cmp
    (map (\<lambda>n. Lh_insert \<lparr>bp_addr = n, bp_bytes = [ucast n]\<rparr>) [8, 16, 24]) (the (lh_new sample_malloc))"

lemma sample_table_ok: "lh_ok CRYPTO_BUFFER_hash CRYPTO_BUFFER_cmp sample_table"
proof -
  have "(lh_new sample_malloc :: buf_ptr lhash_st option) \<noteq> None" by code_simp
  then have "lh_new sample_malloc = Some (the (lh_new sample_malloc) :: buf_ptr lhash_st)" by simp
  from lh_runs_ok [OF pool.hashing_axioms sample_malloc_ok lh_new_ok(1) [OF this]] show ?thesis
    unfolding sample_table_def .
qed

theorem lhash_refines_map_witness:
  "\<exists>lh'. lh_run sample_malloc CRYPTO_BUFFER_hash CRYPTO_BUFFER_cmp (Lh_insert \<lparr>bp_addr = 32, bp_bytes = [16]\<rparr>) sample_table
      = ((True, Some \<lparr>bp_addr = 16, bp_bytes = [16]\<rparr>), lh')
    \<and> lh_retrieve CRYPTO_BUFFER_hash CRYPTO_BUFFER_cmp lh' \<lparr>bp_addr = 0, bp_bytes = [16]\<rparr>
      = Some \<lparr>bp_addr = 32, bp_bytes = [16]\<rparr>"
proof -
  let ?r = "lh_run sample_malloc CRYPTO_BUFFER_hash CRYPTO_BUFFER_cmp (Lh_insert \<lparr>bp_addr = 32, bp_bytes = [16]\<rparr>) sample_table"
  have "fst (fst ?r)" "map_option bp_addr (snd (fst ?r)) = Some 16" "map_option bp_bytes (snd (fst ?r)) = Some [16]"
    by code_simp+
  then obtain lh' where r: "?r = ((True, Some \<lparr>bp_addr = 16, bp_bytes = [16]\<rparr>), lh')"
    by (cases ?r) (auto intro!: buf_ptr.equality)
  from lhash_refines_map [OF pool.hashing_axioms sample_malloc_ok sample_table_ok r] r
  show ?thesis by (simp add: buffer_cmp_eq)
qed

text \<open>C33: As long as the allocator serves the doubled array of buckets and no iteration is
  running, every insertion and deletion keeps fewer than three items for every bucket, so that
  the chains stay short on average.\<close>

theorem lhash_stays_light:
  assumes "hashing hash cmp" "roomy mal N" "16 * unat (num_buckets lh) + 8 < N" "lh_ok hash cmp lh"
    and "light lh" "callback_depth lh = 0" "lh_run mal hash cmp op lh = (r, lh')"
  shows "unat (num_items lh') < 3 * unat (num_buckets lh') \<and> lh_ok hash cmp lh'"
proof -
  have m: "malloc_ok mal" using assms(2) by (simp add: roomy_def)
  obtain b old where r: "r = (b, old)" by fastforce
  have ok: "lh_ok hash cmp lh'" using lh_run_map [OF assms(1) m assms(4)] assms(7) r by blast
  have l: "length (items lh') < 3 * unat (num_buckets lh')"
    using lh_run_light [OF assms(1-6), of op] assms(7) by (simp add: light_def)
  then have "unat (num_items lh') = length (items lh')" using lh_okD(4,6) [OF ok] by simp
  then show ?thesis using l ok by simp
qed

theorem lhash_stays_light_witness:
  "let lh' = snd (lh_run sample_malloc CRYPTO_BUFFER_hash CRYPTO_BUFFER_cmp
      (Lh_insert \<lparr>bp_addr = 32, bp_bytes = [32]\<rparr>) sample_table)
   in unat (num_items lh') < 3 * unat (num_buckets lh') \<and> lh_ok CRYPTO_BUFFER_hash CRYPTO_BUFFER_cmp lh'"
  unfolding Let_def
proof (rule lhash_stays_light [OF pool.hashing_axioms sample_roomy _ sample_table_ok])
  have f: "num_buckets sample_table = 16" "callback_depth sample_table = 0" "length (items sample_table) = 3" by code_simp+
  then show "16 * unat (num_buckets sample_table) + 8 < 4096" "light sample_table" "callback_depth sample_table = 0"
    by (simp_all add: light_def)
qed (rule prod.collapse [symmetric])

end
