(* ===== verification/Consttime.thy ===== *)
theory Consttime
  imports Base
begin

text \<open>
  The constant-time comparisons of BoringSSL's \<open>crypto/internal.h\<close>: each gives a mask of all ones
  or all zeros, computed without a branch. \<open>crypto_word_t\<close> is \<open>uint64_t\<close> on the target. The
  value barriers only keep the compiler from reasoning about their argument.
\<close>

named_theorems ct_simps \<open>what the constant-time operations compute\<close>

definition CONSTTIME_TRUE_W :: u64 where "CONSTTIME_TRUE_W = NOT 0"
definition CONSTTIME_FALSE_W :: u64 where "CONSTTIME_FALSE_W = 0"
definition CONSTTIME_TRUE_8 :: u8 where "CONSTTIME_TRUE_8 = 0xff"
definition CONSTTIME_FALSE_8 :: u8 where "CONSTTIME_FALSE_8 = 0"

definition value_barrier_w :: "u64 \<Rightarrow> u64" where "value_barrier_w a = a"

definition constant_time_msb_w :: "u64 \<Rightarrow> u64" where
  "constant_time_msb_w a = 0 - drop_bit (8 * 8 - 1) a"

definition constant_time_lt_w :: "u64 \<Rightarrow> u64 \<Rightarrow> u64" where
  "constant_time_lt_w a b = constant_time_msb_w (a XOR ((a XOR b) OR ((a - b) XOR a)))"

definition constant_time_lt_8 :: "u64 \<Rightarrow> u64 \<Rightarrow> u8" where
  "constant_time_lt_8 a b = ucast (constant_time_lt_w a b)"

definition constant_time_ge_w :: "u64 \<Rightarrow> u64 \<Rightarrow> u64" where
  "constant_time_ge_w a b = NOT (constant_time_lt_w a b)"

definition constant_time_ge_8 :: "u64 \<Rightarrow> u64 \<Rightarrow> u8" where
  "constant_time_ge_8 a b = ucast (constant_time_ge_w a b)"

definition constant_time_is_zero_w :: "u64 \<Rightarrow> u64" where
  "constant_time_is_zero_w a = constant_time_msb_w (NOT a AND (a - 1))"

definition constant_time_is_zero_8 :: "u64 \<Rightarrow> u8" where
  "constant_time_is_zero_8 a = ucast (constant_time_is_zero_w a)"

definition constant_time_eq_w :: "u64 \<Rightarrow> u64 \<Rightarrow> u64" where
  "constant_time_eq_w a b = constant_time_is_zero_w (a XOR b)"

definition constant_time_eq_8 :: "u64 \<Rightarrow> u64 \<Rightarrow> u8" where
  "constant_time_eq_8 a b = ucast (constant_time_eq_w a b)"

text \<open>An \<open>int\<close> is converted to a word with its sign.\<close>

definition constant_time_eq_int :: "32 word \<Rightarrow> 32 word \<Rightarrow> u64" where
  "constant_time_eq_int a b = constant_time_eq_w (signed a) (signed b)"

definition constant_time_eq_int_8 :: "32 word \<Rightarrow> 32 word \<Rightarrow> u8" where
  "constant_time_eq_int_8 a b = constant_time_eq_8 (signed a) (signed b)"

definition constant_time_select_w :: "u64 \<Rightarrow> u64 \<Rightarrow> u64 \<Rightarrow> u64" where
  "constant_time_select_w m a b = (value_barrier_w m AND a) OR (value_barrier_w (NOT m) AND b)"

definition constant_time_select_8 :: "u8 \<Rightarrow> u8 \<Rightarrow> u8 \<Rightarrow> u8" where
  "constant_time_select_8 m a b = ucast (constant_time_select_w (ucast m) (ucast a) (ucast b))"

definition constant_time_select_int :: "u64 \<Rightarrow> 32 word \<Rightarrow> 32 word \<Rightarrow> 32 word" where
  "constant_time_select_int m a b = ucast (constant_time_select_w m (signed a) (signed b))"

section \<open>What the masks say\<close>

definition ct_mask :: "bool \<Rightarrow> 'a::len word" where
  "ct_mask c = (if c then - 1 else 0)"

lemma bit_63: "bit (a :: u64) 63 \<longleftrightarrow> 9223372036854775808 \<le> unat a"
proof -
  have "bit a 63 \<longleftrightarrow> drop_bit 63 a \<noteq> 0"
  proof
    assume "drop_bit 63 a \<noteq> 0"
    then obtain n where "bit (drop_bit 63 a) n" by (auto simp: bit_eq_iff)
    then have "bit a (63 + n)" by (simp add: bit_simps)
    moreover from this have "63 + n < 64" by (auto dest: bit_imp_le_length)
    ultimately show "bit a 63" by simp
  qed (auto simp: bit_eq_iff bit_simps intro: exI [of _ 0])
  also have "\<dots> \<longleftrightarrow> unat a div 9223372036854775808 \<noteq> 0"
    by (simp add: drop_bit_eq_div word_unat_eq_iff unat_div)
  finally show ?thesis by (auto simp: div_eq_0_iff)
qed

lemma msb_w [ct_simps]: "constant_time_msb_w a = ct_mask (bit a 63)"
proof -
  have "drop_bit 63 a = (if bit a 63 then 1 else 0)"
  proof (rule bit_word_eqI)
    fix n assume "n < LENGTH(64)"
    show "bit (drop_bit 63 a) n = bit (if bit a 63 then 1 else 0 :: u64) n"
      by (cases n) (auto simp: bit_simps dest: bit_imp_le_length)
  qed
  then show ?thesis by (simp add: constant_time_msb_w_def ct_mask_def)
qed

lemma lt_w [ct_simps]: "constant_time_lt_w a b = ct_mask (a < b)"
proof -
  have r: "bit (a - b) 63 \<longleftrightarrow> a < b" if "bit a 63 \<longleftrightarrow> bit b 63"
  proof (cases "b \<le> a")
    case True
    then have "unat (a - b) = unat a - unat b" by (simp add: unat_sub)
    then show ?thesis using that True unat_u64_lt [of a] by (auto simp: bit_63 word_le_nat_alt word_less_nat_alt)
  next
    case False
    then have l: "unat a < unat b" by (simp add: word_le_nat_alt)
    have "unat (a - b) = 18446744073709551616 + unat a - unat b"
      using l unat_u64_lt [of b] by (simp add: unat_sub_if_size word_size word_le_nat_alt)
    then show ?thesis using that l False unat_u64_lt [of b]
      by (auto simp: bit_63 word_le_nat_alt word_less_nat_alt)
  qed
  have "bit (a XOR ((a XOR b) OR ((a - b) XOR a))) 63 \<longleftrightarrow> a < b"
  proof (cases "bit a 63 \<longleftrightarrow> bit b 63")
    case True
    then show ?thesis using r by (simp add: bit_simps) blast
  next
    case False
    then have "bit b 63 \<longleftrightarrow> a < b" by (auto simp: bit_63 word_less_nat_alt)
    then show ?thesis using False by (simp add: bit_simps)
  qed
  then show ?thesis by (simp add: constant_time_lt_w_def msb_w)
qed

lemma is_zero_w [ct_simps]: "constant_time_is_zero_w a = ct_mask (a = 0)"
proof -
  have "bit (NOT a AND (a - 1)) 63 \<longleftrightarrow> a = 0"
  proof (cases "a = 0")
    case False
    then have "unat (a - 1) = unat a - 1" by (rule unat_minus_one)
    then have "bit (a - 1) 63 \<Longrightarrow> bit a 63" by (simp add: bit_63)
    then show ?thesis using False by (auto simp: bit_simps)
  qed (simp add: bit_simps)
  then show ?thesis by (simp add: constant_time_is_zero_w_def msb_w)
qed

lemma eq_w [ct_simps]: "constant_time_eq_w a b = ct_mask (a = b)"
proof -
  have "a XOR b = 0 \<longleftrightarrow> a = b" by (auto simp: bit_eq_iff bit_simps)
  then show ?thesis by (simp add: constant_time_eq_w_def is_zero_w)
qed

lemma not_mask [ct_simps]: "NOT (ct_mask c :: 'a::len word) = ct_mask (\<not> c)"
  by (simp add: ct_mask_def)

lemma ucast_mask [ct_simps]: "ucast (ct_mask c :: u64) = (ct_mask c :: u8)"
  by (rule bit_word_eqI) (simp add: ct_mask_def bit_simps)

lemma masks_8 [ct_simps]:
  "constant_time_lt_8 a b = ct_mask (a < b)" "constant_time_ge_w a b = ct_mask (b \<le> a)"
  "constant_time_ge_8 a b = ct_mask (b \<le> a)" "constant_time_is_zero_8 a = ct_mask (a = 0)"
  "constant_time_eq_8 a b = ct_mask (a = b)"
  by (auto simp: constant_time_lt_8_def constant_time_ge_w_def constant_time_ge_8_def
      constant_time_is_zero_8_def constant_time_eq_8_def ct_simps not_less)

lemma ucast_signed: "(ucast (signed k :: u64) :: u32) = k"
proof (rule bit_word_eqI)
  fix n assume "n < LENGTH(32)"
  then show "bit (ucast (signed k :: u64) :: u32) n = bit k n"
    by (cases "n = 31") (auto simp: bit_simps min_def)
qed

lemma eq_int [ct_simps]:
  "constant_time_eq_int i j = ct_mask (i = j)" "constant_time_eq_int_8 i j = ct_mask (i = j)"
proof -
  have "(signed i :: u64) = signed j \<longleftrightarrow> i = j" using ucast_signed by metis
  then show "constant_time_eq_int i j = ct_mask (i = j)" "constant_time_eq_int_8 i j = ct_mask (i = j)"
    by (simp_all add: constant_time_eq_int_def constant_time_eq_int_8_def ct_simps)
qed

lemma select_w [ct_simps]: "constant_time_select_w (ct_mask c) a b = (if c then a else b)"
  by (simp add: constant_time_select_w_def value_barrier_w_def ct_mask_def)

lemma select_8 [ct_simps]: "constant_time_select_8 (ct_mask c) a b = (if c then a else b)"
  by (rule bit_word_eqI)
    (auto simp: constant_time_select_8_def constant_time_select_w_def value_barrier_w_def ct_mask_def bit_simps)

lemma select_int [ct_simps]: "constant_time_select_int (ct_mask c) i j = (if c then i else j)"
  by (simp add: constant_time_select_int_def select_w ucast_signed)

end
