(* ===== verification/Base64.thy ===== *)
theory Base64
  imports Consttime
begin

text \<open>
  BoringSSL's \<open>crypto/base64/base64.c\<close>. What a function writes to its output buffer is the list
  of the bytes written, in order; \<open>*out_len\<close>, where it is an \<open>int\<close>, is an \<open>int\<close>. Inputs are
  lists shorter than \<open>2 ^ 64\<close>.
\<close>

section \<open>One character\<close>

text \<open>Arguments of type \<open>uint8_t\<close> are computed at the width of \<open>int\<close> and cut off, which for sums
  and differences is arithmetic modulo 256.\<close>

definition constant_time_lt_args_8 :: "u8 \<Rightarrow> u8 \<Rightarrow> u8" where
  "constant_time_lt_args_8 a b = ucast (constant_time_msb_w (ucast a - ucast b))"

definition constant_time_in_range_8 :: "u8 \<Rightarrow> u8 \<Rightarrow> u8 \<Rightarrow> u8" where
  "constant_time_in_range_8 a lo hi = constant_time_lt_args_8 (a - lo) (hi - lo + 1)"

text \<open>The characters of the code, by their ASCII codes.\<close>

abbreviation chr_plus :: u8 where "chr_plus \<equiv> 0x2b"
abbreviation chr_slash :: u8 where "chr_slash \<equiv> 0x2f"
abbreviation chr_equals :: u8 where "chr_equals \<equiv> 0x3d"
abbreviation chr_0 :: u8 where "chr_0 \<equiv> 0x30"
abbreviation chr_9 :: u8 where "chr_9 \<equiv> 0x39"
abbreviation chr_A :: u8 where "chr_A \<equiv> 0x41"
abbreviation chr_Z :: u8 where "chr_Z \<equiv> 0x5a"
abbreviation chr_a :: u8 where "chr_a \<equiv> 0x61"
abbreviation chr_z :: u8 where "chr_z \<equiv> 0x7a"
abbreviation chr_newline :: u8 where "chr_newline \<equiv> 0x0a"

definition conv_bin2ascii :: "u8 \<Rightarrow> u8" where
  "conv_bin2ascii a' =
    (let a = a' AND 0x3f;
         ret = constant_time_select_8 (constant_time_eq_8 (ucast a) 62) chr_plus chr_slash;
         ret = constant_time_select_8 (constant_time_lt_args_8 a 62) (a - 52 + chr_0) ret;
         ret = constant_time_select_8 (constant_time_lt_args_8 a 52) (a - 26 + chr_a) ret
     in constant_time_select_8 (constant_time_lt_args_8 a 26) (a + chr_A) ret)"

definition base64_ascii_to_bin :: "u8 \<Rightarrow> u8" where
  "base64_ascii_to_bin a =
    (let is_upper = constant_time_in_range_8 a chr_A chr_Z;
         is_lower = constant_time_in_range_8 a chr_a chr_z;
         is_digit = constant_time_in_range_8 a chr_0 chr_9;
         is_plus = constant_time_eq_8 (ucast a) (ucast chr_plus);
         is_slash = constant_time_eq_8 (ucast a) (ucast chr_slash);
         is_equals = constant_time_eq_8 (ucast a) (ucast chr_equals);
         ret = 0xff;
         ret = constant_time_select_8 is_upper (a - chr_A) ret;
         ret = constant_time_select_8 is_lower (a - chr_a + 26) ret;
         ret = constant_time_select_8 is_digit (a - chr_0 + 52) ret;
         ret = constant_time_select_8 is_plus 62 ret;
         ret = constant_time_select_8 is_slash 63 ret
     in constant_time_select_8 is_equals 0 ret)"

section \<open>Encoding\<close>

definition EVP_EncodedLength :: "u64 \<Rightarrow> u64 option" where
  "EVP_EncodedLength len =
    (if len + 2 < len then None
     else let n = (len + 2) div 3
       in if drop_bit 2 (push_bit 2 n) \<noteq> n then None
          else let m = push_bit 2 n in if m + 1 < m then None else Some (m + 1))"

text \<open>\<open>l >> k\<close> is passed as a \<open>uint8_t\<close>.\<close>

definition quad_char :: "u32 \<Rightarrow> nat \<Rightarrow> u8" where
  "quad_char l k = conv_bin2ascii (ucast (drop_bit k l))"

fun encode_loop :: "bytes \<Rightarrow> bytes" where
  "encode_loop [] = []"
| "encode_loop [x] = (let l = push_bit 16 (ucast x)
    in [quad_char l 18, quad_char l 12, chr_equals, chr_equals])"
| "encode_loop [x, y] = (let l = push_bit 16 (ucast x) OR push_bit 8 (ucast y)
    in [quad_char l 18, quad_char l 12, quad_char l 6, chr_equals])"
| "encode_loop (x # y # z # src) =
    (let l = push_bit 16 (ucast x) OR push_bit 8 (ucast y) OR ucast z
     in [quad_char l 18, quad_char l 12, quad_char l 6, quad_char l 0] @ encode_loop src)"

text \<open>The bytes written, with the final NUL, and the count without it.\<close>

definition EVP_EncodeBlock :: "bytes \<Rightarrow> bytes \<times> u64" where
  "EVP_EncodeBlock src = (let dst = encode_loop src in (dst @ [0], word_of_nat (length dst)))"

record encode_ctx =
  data_used :: u32
  ctx_data :: bytes
  eof_seen :: bool
  error_encountered :: bool

definition EVP_EncodeInit :: encode_ctx where
  "EVP_EncodeInit = \<lparr>data_used = 0, ctx_data = replicate 48 0, eof_seen = False, error_encountered = False\<rparr>"

definition INT_MAX :: u64 where "INT_MAX = 0x7fffffff"

text \<open>A line: the block, and a newline over its NUL. The NUL behind the newline is overwritten by
  the next line; the last one stays.\<close>

definition encode_line :: "bytes \<Rightarrow> bytes" where
  "encode_line src = butlast (fst (EVP_EncodeBlock src)) @ [chr_newline]"

text \<open>The loop over whole lines of the input. The result has the bytes written, the total, and
  what is left of the input; \<^const>\<open>None\<close> is the return on overflow, with the bytes written.\<close>

function encode_lines :: "bytes \<Rightarrow> u64 \<Rightarrow> bytes \<times> (u64 \<times> bytes) option" where
  "encode_lines src tot =
    (if 48 \<le> length src
     then let encoded = snd (EVP_EncodeBlock (take 48 src))
       in if tot + encoded + 1 < tot then (encode_line (take 48 src), None)
          else case encode_lines (drop 48 src) (tot + (encoded + 1)) of
            (out, r) \<Rightarrow> (encode_line (take 48 src) @ out, r)
     else ([], Some (tot, src)))"
  by auto
termination
  by (relation "measure (\<lambda>(src, tot). length src)") auto

declare encode_lines.simps [simp del]

text \<open>The line that was begun is completed first: the bytes written, their number, the rest of the
  input and the context.\<close>

definition fill_line :: "encode_ctx \<Rightarrow> bytes \<Rightarrow> bytes \<times> u64 \<times> bytes \<times> encode_ctx" where
  "fill_line ctx src =
    (if data_used ctx \<noteq> 0
     then let todo = 48 - unat (data_used ctx);
              data = list_blit (ctx_data ctx) (unat (data_used ctx)) (take todo src)
       in (encode_line data, snd (EVP_EncodeBlock data) + 1, drop todo src,
           ctx\<lparr>ctx_data := data, data_used := 0\<rparr>)
     else ([], 0, src, ctx))"

text \<open>The bytes written (without the last NUL), \<open>*out_len\<close> and the context; \<^const>\<open>None\<close> is a
  failed assertion.\<close>

definition EVP_EncodeUpdate :: "encode_ctx \<Rightarrow> bytes \<Rightarrow> (bytes \<times> int \<times> encode_ctx) option" where
  "EVP_EncodeUpdate ctx src =
    (if src = [] then Some ([], 0, ctx)
     else if \<not> data_used ctx < 48 then None
     else if 48 - unat (data_used ctx) > length src
     then Some ([], 0, ctx\<lparr>ctx_data := list_blit (ctx_data ctx) (unat (data_used ctx)) src,
            data_used := data_used ctx + word_of_nat (length src)\<rparr>)
     else case fill_line ctx src of
       (out1, tot1, src1, ctx1) \<Rightarrow> (case encode_lines src1 tot1 of
           (out2, None) \<Rightarrow> Some (out1 @ out2, 0, ctx1)
         | (out2, Some (tot, src2)) \<Rightarrow> Some (out1 @ out2,
             if tot > INT_MAX then 0 else uint tot,
             ctx1\<lparr>ctx_data := list_blit (ctx_data ctx1) 0 src2, data_used := word_of_nat (length src2)\<rparr>)))"

definition EVP_EncodeFinal :: "encode_ctx \<Rightarrow> bytes \<times> int \<times> encode_ctx" where
  "EVP_EncodeFinal ctx =
    (if data_used ctx = 0 then ([], 0, ctx)
     else let data = take (unat (data_used ctx)) (ctx_data ctx)
       in (encode_line data, uint (snd (EVP_EncodeBlock data) + 1), ctx\<lparr>data_used := 0\<rparr>))"

section \<open>Decoding\<close>

definition EVP_DecodedLength :: "u64 \<Rightarrow> u64 option" where
  "EVP_DecodedLength len = (if len mod 4 \<noteq> 0 then None else Some (len div 4 * 3))"

text \<open>The result is the bytes written, of which there are \<open>*out_num_bytes\<close>, or an error.\<close>

definition base64_decode_quad :: "u8 \<Rightarrow> u8 \<Rightarrow> u8 \<Rightarrow> u8 \<Rightarrow> bytes option" where
  "base64_decode_quad c0 c1 c2 c3 =
    (let a = base64_ascii_to_bin c0; b = base64_ascii_to_bin c1;
         c = base64_ascii_to_bin c2; d = base64_ascii_to_bin c3
     in if a = 0xff \<or> b = 0xff \<or> c = 0xff \<or> d = 0xff then None
        else
          let v = push_bit 18 (ucast a) OR push_bit 12 (ucast b) OR push_bit 6 (ucast c) OR ucast d :: u32;
              padding_pattern = push_bit 3 (of_bool (c0 = chr_equals)) OR push_bit 2 (of_bool (c1 = chr_equals))
                OR push_bit 1 (of_bool (c2 = chr_equals)) OR of_bool (c3 = chr_equals) :: u32
          in if padding_pattern = 0 then Some [ucast (drop_bit 16 v), ucast (drop_bit 8 v), ucast v]
             else if padding_pattern = 1 then Some [ucast (drop_bit 16 v), ucast (drop_bit 8 v)]
             else if padding_pattern = 3 then Some [ucast (drop_bit 16 v)]
             else None)"

definition EVP_DecodeInit :: encode_ctx where
  "EVP_DecodeInit = \<lparr>data_used = 0, ctx_data = replicate 48 0, eof_seen = False, error_encountered = False\<rparr>"

definition is_space :: "u8 \<Rightarrow> bool" where
  "is_space c \<longleftrightarrow> c = 0x20 \<or> c = 0x09 \<or> c = 0x0d \<or> c = chr_newline"

text \<open>The loop over the input: the bytes written, the context, and whether the loop ended.\<close>

fun decode_update_loop :: "encode_ctx \<Rightarrow> bytes \<Rightarrow> bytes \<times> encode_ctx \<times> bool" where
  "decode_update_loop ctx [] = ([], ctx, True)"
| "decode_update_loop ctx (c # src) =
    (if is_space c then decode_update_loop ctx src
     else if eof_seen ctx then ([], ctx\<lparr>error_encountered := True\<rparr>, False)
     else
       let data = (ctx_data ctx)[unat (data_used ctx) := c];
           ctx1 = ctx\<lparr>ctx_data := data, data_used := data_used ctx + 1\<rparr>
       in if data_used ctx1 = 4
          then case base64_decode_quad (data ! 0) (data ! 1) (data ! 2) (data ! 3) of
              None \<Rightarrow> ([], ctx1\<lparr>error_encountered := True\<rparr>, False)
            | Some bs \<Rightarrow> (case decode_update_loop
                  (ctx1\<lparr>data_used := 0, eof_seen := (eof_seen ctx1 \<or> length bs < 3)\<rparr>) src of
                (out, r) \<Rightarrow> (bs @ out, r))
          else decode_update_loop ctx1 src)"

text \<open>The return value, the bytes written, \<open>*out_len\<close> and the context.\<close>

definition EVP_DecodeUpdate :: "encode_ctx \<Rightarrow> bytes \<Rightarrow> int \<times> bytes \<times> int \<times> encode_ctx" where
  "EVP_DecodeUpdate ctx src =
    (if error_encountered ctx then (- 1, [], 0, ctx)
     else case decode_update_loop ctx src of
         (out, ctx', False) \<Rightarrow> (- 1, out, 0, ctx')
       | (out, ctx', True) \<Rightarrow>
           let bytes_out = word_of_nat (length out) :: u64
           in if bytes_out > INT_MAX then (- 1, out, 0, ctx'\<lparr>error_encountered := True\<rparr>)
              else (if eof_seen ctx' then 0 else 1, out, uint bytes_out, ctx'))"

definition EVP_DecodeFinal :: "encode_ctx \<Rightarrow> int" where
  "EVP_DecodeFinal ctx = (if error_encountered ctx \<or> data_used ctx \<noteq> 0 then - 1 else 1)"

text \<open>The loop over the quads: the bytes written, and whether it succeeded. A short quad must be
  the last.\<close>

fun decode_loop :: "bytes \<Rightarrow> bytes \<times> bool" where
  "decode_loop (c0 # c1 # c2 # c3 # src) = (case base64_decode_quad c0 c1 c2 c3 of
      None \<Rightarrow> ([], False)
    | Some bs \<Rightarrow> if length bs \<noteq> 3 \<and> src \<noteq> [] then (bs, False)
        else case decode_loop src of (out, ok) \<Rightarrow> (bs @ out, ok))"
| "decode_loop src = ([], True)"

text \<open>Success, the bytes written and \<open>*out_len\<close>.\<close>

definition EVP_DecodeBase64 :: "u64 \<Rightarrow> bytes \<Rightarrow> bool \<times> bytes \<times> u64" where
  "EVP_DecodeBase64 max_out src =
    (let in_len = word_of_nat (length src) :: u64
     in if in_len mod 4 \<noteq> 0 then (False, [], 0)
        else case EVP_DecodedLength in_len of
            None \<Rightarrow> (False, [], 0)
          | Some max_len \<Rightarrow> if max_out < max_len then (False, [], 0)
              else case decode_loop src of
                  (out, False) \<Rightarrow> (False, out, 0)
                | (out, True) \<Rightarrow> (True, out, word_of_nat (length out)))"

definition pad_zeros :: "bytes \<Rightarrow> bytes" where
  "pad_zeros dst = dst @ replicate ((3 - length dst mod 3) mod 3) 0"

text \<open>The return value and the bytes written.\<close>

definition EVP_DecodeBlock :: "bytes \<Rightarrow> int \<times> bytes" where
  "EVP_DecodeBlock src' =
    (let src = rev (dropWhile is_space (rev (dropWhile (\<lambda>c. c = 0x20 \<or> c = 0x09) src')))
     in case EVP_DecodedLength (word_of_nat (length src)) of
         None \<Rightarrow> (- 1, [])
       | Some dst_len \<Rightarrow> if dst_len > INT_MAX then (- 1, [])
           else case EVP_DecodeBase64 dst_len src of
               (False, dst, _) \<Rightarrow> (- 1, dst)
             | (True, dst, _) \<Rightarrow> let dst' = pad_zeros dst in (int (length dst'), dst'))"

end
