(* ===== verification/Base64_Code.thy ===== *)
theory Base64_Code
  imports Base64
begin

text \<open>
  The code of RFC 4648 as a relation between texts and bytes, and that the coder and the decoder
  of blocks in \<open>crypto/base64/base64.c\<close> compute it.
\<close>

section \<open>The code of RFC 4648\<close>

text \<open>The digits, the number of a group of four of them, and the bytes of that number.\<close>

definition alphabet :: bytes where
  "alphabet = map word_of_nat ([65..<91] @ [97..<123] @ [48..<58] @ [43, 47])"

abbreviation digit64 :: "nat \<Rightarrow> u8" where "digit64 i \<equiv> alphabet ! i"

definition quad_number :: "nat \<Rightarrow> nat \<Rightarrow> nat \<Rightarrow> nat \<Rightarrow> nat" where
  "quad_number i j k l = ((i * 64 + j) * 64 + k) * 64 + l"

definition triple :: "nat \<Rightarrow> bytes" where
  "triple n = [word_of_nat (n div 65536), word_of_nat (n div 256), word_of_nat n]"

text \<open>A text is a code of some bytes. The unused bits of the last digit are not restricted.\<close>

inductive b64 :: "bytes \<Rightarrow> bytes \<Rightarrow> bool" where
  b64_Nil: "b64 [] []"
| b64_one: "i < 64 \<Longrightarrow> j < 64 \<Longrightarrow>
    b64 [digit64 i, digit64 j, chr_equals, chr_equals] (take 1 (triple (quad_number i j 0 0)))"
| b64_two: "i < 64 \<Longrightarrow> j < 64 \<Longrightarrow> k < 64 \<Longrightarrow>
    b64 [digit64 i, digit64 j, digit64 k, chr_equals] (take 2 (triple (quad_number i j k 0)))"
| b64_quad: "i < 64 \<Longrightarrow> j < 64 \<Longrightarrow> k < 64 \<Longrightarrow> l < 64 \<Longrightarrow> b64 ts ds \<Longrightarrow>
    b64 (digit64 i # digit64 j # digit64 k # digit64 l # ts)
      (triple (quad_number i j k l) @ ds)"

section \<open>One character\<close>

lemma ucast_u8_u64: "unat (ucast (a :: u8) :: u64) = unat a"
  using unat_u8_lt [of a] by (simp add: unsigned_ucast_eq take_bit_nat_eq_self)

lemma lt_args_8 [ct_simps]: "constant_time_lt_args_8 a b = ct_mask (a < b)"
proof -
  let ?a = "ucast a :: u64" and ?b = "ucast b :: u64"
  have "bit (?a - ?b) 63 \<longleftrightarrow> a < b"
  proof (cases "?b \<le> ?a")
    case True
    then have "unat (?a - ?b) = unat a - unat b" by (simp add: unat_sub ucast_u8_u64)
    then show ?thesis using True unat_u8_lt [of a]
      by (simp add: bit_63 word_le_nat_alt word_less_nat_alt ucast_u8_u64)
  next
    case False
    then have l: "unat a < unat b" by (simp add: word_le_nat_alt ucast_u8_u64)
    then have "unat (?a - ?b) = 18446744073709551616 + unat a - unat b"
      using unat_u8_lt [of b] by (simp add: unat_sub_if_size word_size word_le_nat_alt ucast_u8_u64)
    then show ?thesis using l unat_u8_lt [of b] by (simp add: bit_63 word_less_nat_alt)
  qed
  then show ?thesis by (simp add: constant_time_lt_args_8_def ct_simps)
qed

lemma ucast_u8_eq [simp]: "(ucast (a :: u8) :: u64) = ucast b \<longleftrightarrow> a = b"
  using ucast_u8_u64 [of a] ucast_u8_u64 [of b] by (metis word_unat_eq_iff)

definition value_of :: "u8 \<Rightarrow> u8" where
  "value_of a =
    (if a = chr_equals then 0 else if a = chr_slash then 63 else if a = chr_plus then 62
     else if a - chr_0 < 10 then a - chr_0 + 52 else if a - chr_a < 26 then a - chr_a + 26
     else if a - chr_A < 26 then a - chr_A else 0xff)"

lemma bin_cases: "base64_ascii_to_bin a = value_of a"
  unfolding value_of_def base64_ascii_to_bin_def Let_def ct_simps constant_time_in_range_8_def ucast_u8_eq
  by simp

definition char_of :: "u8 \<Rightarrow> u8" where
  "char_of a = (if a < 26 then a + chr_A
    else if a < 52 then a - 26 + chr_a else if a < 62 then a - 52 + chr_0
    else if a = 62 then chr_plus else chr_slash)"

lemma ascii_cases: "conv_bin2ascii a = char_of (a AND 0x3f)"
proof -
  have "(ucast a :: u64) = 62 \<longleftrightarrow> a = 62" for a :: u8 using ucast_u8_eq [of a 62] by simp
  then show ?thesis unfolding conv_bin2ascii_def char_of_def Let_def ct_simps by simp
qed

lemma alphabet_tables:
  "map char_of (map word_of_nat [0..<64]) = alphabet" "map value_of alphabet = map word_of_nat [0..<64]"
  "list_all (\<lambda>c. c \<noteq> chr_equals \<and> \<not> is_space c) alphabet" "length alphabet = 64"
  by code_simp+

lemma digit_of_ascii: "conv_bin2ascii a = digit64 (unat a mod 64)"
proof -
  have "a AND 0x3f = take_bit 6 a" using take_bit_eq_mask [of 6 a] by (simp add: mask_numeral)
  then have m: "unat (a AND 0x3f) = unat a mod 64"
    by (simp add: take_bit_eq_mod unat_mod)
  have "a AND 0x3f = word_of_nat (unat a mod 64)" using word_of_nat_if_unat [OF m] .
  then show ?thesis
    using arg_cong [OF alphabet_tables(1), of "\<lambda>xs. xs ! (unat a mod 64)"] by (simp add: ascii_cases)
qed

lemma bin_of_digit:
  assumes "i < 64"
  shows "base64_ascii_to_bin (digit64 i) = word_of_nat i" "digit64 i \<noteq> chr_equals"
    "\<not> is_space (digit64 i)"
proof -
  show "base64_ascii_to_bin (digit64 i) = word_of_nat i"
    using arg_cong [OF alphabet_tables(2), of "\<lambda>xs. xs ! i"] assms
    by (simp add: bin_cases alphabet_tables(4))
  have "digit64 i \<in> set alphabet" using assms by (simp add: alphabet_tables(4))
  then show "digit64 i \<noteq> chr_equals" "\<not> is_space (digit64 i)"
    using alphabet_tables(3) by (auto simp: list_all_iff)
qed

lemma in_range_of_nat:
  fixes a lo :: u8
  assumes "a - lo < n" "lo = word_of_nat l"
  shows "a \<in> word_of_nat ` {l..<l + unat n}"
proof -
  have "a = word_of_nat (l + unat (a - lo))" using assms(2) by simp
  moreover have "unat (a - lo) < unat n" using assms(1) by (simp add: word_less_nat_alt)
  ultimately show ?thesis by (intro image_eqI [of _ _ "l + unat (a - lo)"]) auto
qed

lemma digit_of_bin:
  assumes "base64_ascii_to_bin a \<noteq> 0xff" "a \<noteq> chr_equals"
  obtains i where "i < 64" "a = digit64 i"
proof -
  have "a = 0x2f \<or> a = 0x2b \<or> a - chr_0 < 10 \<or> a - chr_a < 26 \<or> a - chr_A < 26"
    using assms unfolding bin_cases value_of_def by (auto split: if_splits)
  moreover have "set alphabet = word_of_nat ` ({65..<91} \<union> {97..<123} \<union> {48..<58} \<union> {43, 47})"
    unfolding alphabet_def set_map set_append set_upt by auto
  moreover have "a \<in> word_of_nat ` {65..<91}" if "a - chr_A < 26"
    using in_range_of_nat [OF that, of 65] by simp
  moreover have "a \<in> word_of_nat ` {97..<123}" if "a - chr_a < 26"
    using in_range_of_nat [OF that, of 97] by simp
  moreover have "a \<in> word_of_nat ` {48..<58}" if "a - chr_0 < 10"
    using in_range_of_nat [OF that, of 48] by simp
  ultimately have "a \<in> set alphabet" unfolding image_Un by auto
  then show thesis using that alphabet_tables(4) by (metis in_set_conv_nth)
qed

lemma bin_equals [simp]: "base64_ascii_to_bin chr_equals = 0"
  by (simp add: bin_cases value_of_def)

section \<open>One group\<close>

lemma or_add_u32: "unat (b :: u32) < 2 ^ k \<Longrightarrow> push_bit k a OR b = push_bit k a + b"
proof (rule disjunctive_add_eq_or [symmetric])
  assume "unat b < 2 ^ k"
  then have "\<not> bit b n" if "k \<le> n" for n using not_bit_above that by blast
  then show "push_bit k a AND b = 0" by (auto simp: bit_eq_iff bit_simps)
qed

lemma unat_or_u32:
  assumes "unat (b :: u32) < 2 ^ k" "unat (a :: u32) * 2 ^ k + unat b < 4294967296"
  shows "unat (push_bit k a OR b) = unat a * 2 ^ k + unat b"
proof -
  have "push_bit k a + b = word_of_nat (unat a * 2 ^ k + unat b)" by (simp add: push_bit_eq_mult)
  then have "unat (push_bit k a + b) = unat a * 2 ^ k + unat b"
    using assms(2) unat_word_of_nat_u32 by metis
  then show ?thesis using or_add_u32 [OF assms(1)] by metis
qed

lemma unat_ucast_u8_u32: "unat (ucast (a :: u8) :: u32) = unat a"
  using unat_u8_lt [of a] by (simp add: unsigned_ucast_eq take_bit_nat_eq_self)

text \<open>Four digits put together, and three bytes put together.\<close>

lemma unat_push_or:
  "unat (push_bit k a OR ucast (b :: u8) :: u32) = unat a * 2 ^ k + unat b"
  if "unat b < 2 ^ k" "unat a * 2 ^ k + unat b < 4294967296"
  using unat_or_u32 [of "ucast b" k a] that by (simp only: unat_ucast_u8_u32)

lemma unat_quad:
  assumes "unat a < 64" "unat b < 64" "unat c < 64" "unat d < 64"
  shows "unat (push_bit 18 (ucast a) OR push_bit 12 (ucast b) OR push_bit 6 (ucast c) OR ucast (d :: u8) :: u32)
    = quad_number (unat (a :: u8)) (unat (b :: u8)) (unat (c :: u8)) (unat d)"
proof -
  have 1: "unat (push_bit 6 (ucast a) OR ucast b :: u32) = unat a * 64 + unat b"
    using assms unat_push_or [of b 6 "ucast a"] by (simp add: unat_ucast_u8_u32)
  have 2: "unat (push_bit 6 (push_bit 6 (ucast a) OR ucast b) OR ucast c :: u32)
      = (unat a * 64 + unat b) * 64 + unat c"
    using assms unat_push_or [of c 6 "push_bit 6 (ucast a) OR ucast b"] by (simp add: 1)
  have "unat (push_bit 6 (push_bit 6 (push_bit 6 (ucast a) OR ucast b) OR ucast c) OR ucast d :: u32)
      = ((unat a * 64 + unat b) * 64 + unat c) * 64 + unat d"
    using assms unat_push_or [of d 6 "push_bit 6 (push_bit 6 (ucast a) OR ucast b) OR ucast c", unfolded 2]
    by simp
  then show ?thesis by (simp add: push_bit_or push_bit_push_bit or.assoc quad_number_def)
qed

lemma nat_triple_bound:
  assumes "(i :: nat) < 256" "j < 256" "k < 256"
  shows "(i * 256 + j) * 256 + k < 16777216"
proof -
  have "i * 256 \<le> 255 * 256" using assms(1) by simp
  then have "i * 256 + j \<le> 65535" using assms(2) by linarith
  then have "(i * 256 + j) * 256 \<le> 65535 * 256" by (rule mult_le_mono1)
  then show ?thesis using assms(3) by linarith
qed

lemma triple_bound: "(unat (x :: u8) * 256 + unat (y :: u8)) * 256 + unat (z :: u8) < 16777216"
  by (rule nat_triple_bound) (rule unat_u8_lt)+

lemma unat_triple:
  "unat (push_bit 16 (ucast x) OR push_bit 8 (ucast y) OR ucast (z :: u8) :: u32)
    = (unat (x :: u8) * 256 + unat (y :: u8)) * 256 + unat z"
proof -
  note b = unat_u8_lt [of x] unat_u8_lt [of y] unat_u8_lt [of z] triple_bound [of x y z]
  have 1: "unat (push_bit 8 (ucast x) OR ucast y :: u32) = unat x * 256 + unat y"
    using b unat_push_or [of y 8 "ucast x"] by (simp add: unat_ucast_u8_u32)
  have "unat (push_bit 8 (push_bit 8 (ucast x) OR ucast y) OR ucast z :: u32)
      = (unat x * 256 + unat y) * 256 + unat z"
    using b unat_push_or [of z 8 "push_bit 8 (ucast x) OR ucast y"] by (simp add: 1)
  then show ?thesis by (simp add: push_bit_or push_bit_push_bit or.assoc)
qed

lemma ucast_drop_u32: "(ucast (drop_bit k (v :: u32)) :: u8) = word_of_nat (unat v div 2 ^ k)"
proof -
  have "unat (drop_bit k v) = unat v div 2 ^ k" unfolding unat_drop_bit_eq by (rule drop_bit_eq_div)
  moreover have "(ucast (drop_bit k v) :: u8) = word_of_nat (unat (drop_bit k v))" by simp
  ultimately show ?thesis by (simp only:)
qed

lemma quad_char_digit: "quad_char l k = digit64 (unat l div 2 ^ k mod 64)"
proof -
  have "unat (ucast (drop_bit k l) :: u8) mod 64 = unat l div 2 ^ k mod 64"
    by (simp only: ucast_drop_u32) (simp add: unat_of_nat take_bit_eq_mod mod_mod_cancel)
  then show ?thesis by (simp add: quad_char_def digit_of_ascii)
qed

lemma word_of_nat_mod_u8: "(word_of_nat m :: u8) = word_of_nat n" if "m mod 256 = n mod 256"
  using that by (simp add: word_of_nat_eq_iff take_bit_eq_mod)

lemma triple_of_bytes: "triple ((unat x * 256 + unat y) * 256 + unat z) = [x, y, z]"
proof -
  note b = unat_u8_lt [of x] unat_u8_lt [of y] unat_u8_lt [of z]
  define m where "m = unat x * 256 + unat y"
  have m: "m div 256 = unat x" "m mod 256 = unat y" using b by (simp_all add: m_def)
  have n: "(m * 256 + unat z) div 256 = m" "(m * 256 + unat z) mod 256 = unat z" using b by simp_all
  then have "(m * 256 + unat z) div 65536 = unat x"
    using m(1) div_mult2_eq [of "m * 256 + unat z" 256 256] by simp
  then have "word_of_nat ((m * 256 + unat z) div 65536) = x"
    "word_of_nat ((m * 256 + unat z) div 256) = y" "word_of_nat (m * 256 + unat z) = z"
    using b n m word_of_nat_mod_u8 [of m "unat y"] word_of_nat_mod_u8 [of "m * 256 + unat z" "unat z"]
    by simp_all
  then show ?thesis by (simp only: triple_def m_def)
qed

text \<open>The digits of a number of 24 bits.\<close>

definition digit_at :: "nat \<Rightarrow> nat \<Rightarrow> nat" where
  "digit_at n k = n div 2 ^ k mod 64"

lemma digit_at_less [simp]: "digit_at n k < 64"
  by (simp add: digit_at_def)

lemma four_digits:
  assumes "n < 16777216"
  shows "quad_number (digit_at n 18) (digit_at n 12) (digit_at n 6) (digit_at n 0) = n"
proof -
  have s: "n div 2 ^ (k + 6) * 64 + digit_at n k = n div 2 ^ k" for k
    using div_mult2_eq [of n "2 ^ k" 64] div_mult_mod_eq [of "n div 2 ^ k" 64]
    by (simp add: digit_at_def power_add)
  have "digit_at n 18 = n div 2 ^ 18" using assms by (simp add: digit_at_def less_mult_imp_div_less)
  then show ?thesis using s [of 12] s [of 6] s [of 0] by (simp add: quad_number_def)
qed

lemma quad_char_of:
  "unat l = n \<Longrightarrow> quad_char l k = digit64 (digit_at n k)"
  by (simp add: quad_char_digit digit_at_def)

lemma encode_three:
  assumes "b64 (encode_loop src) src"
  shows "b64 (encode_loop (x # y # z # src)) (x # y # z # src)"
proof -
  define n where "n = (unat x * 256 + unat y) * 256 + unat z"
  have t: "triple n = [x, y, z]" unfolding n_def by (rule triple_of_bytes)
  have n: "n < 16777216" unfolding n_def by (rule triple_bound)
  show ?thesis
    using b64_quad [OF digit_at_less digit_at_less digit_at_less digit_at_less assms, of n 18 n 12 n 6 n 0,
        unfolded four_digits [OF n] t]
      quad_char_of [OF unat_triple [of x y z, folded n_def]]
    by (simp add: Let_def)
qed

lemma encode_two: "b64 (encode_loop [x, y]) [x, y]"
proof -
  define n where "n = (unat x * 256 + unat y) * 256 + unat (0 :: u8)"
  have t: "triple n = [x, y, 0]" unfolding n_def by (rule triple_of_bytes)
  have n: "n < 16777216" unfolding n_def by (rule triple_bound)
  have "64 dvd n" by (simp add: n_def)
  then have "digit_at n 0 = 0" by (auto simp: digit_at_def)
  then have "quad_number (digit_at n 18) (digit_at n 12) (digit_at n 6) 0 = n" using four_digits [OF n] by simp
  then show ?thesis
    using b64_two [OF digit_at_less digit_at_less digit_at_less, of n 18 n 12 n 6]
      quad_char_of [OF unat_triple [of x y 0, folded n_def]] t
    by (simp add: Let_def)
qed

lemma encode_one: "b64 (encode_loop [x]) [x]"
proof -
  define n where "n = (unat x * 256 + unat (0 :: u8)) * 256 + unat (0 :: u8)"
  have t: "triple n = [x, 0, 0]" unfolding n_def by (rule triple_of_bytes)
  have n: "n < 16777216" unfolding n_def by (rule triple_bound)
  have "64 dvd n" "64 dvd n div 64" by (simp_all add: n_def)
  then have "digit_at n 0 = 0" "digit_at n 6 = 0" by (auto simp: digit_at_def)
  then have "quad_number (digit_at n 18) (digit_at n 12) 0 0 = n" using four_digits [OF n] by simp
  then show ?thesis
    using b64_one [OF digit_at_less digit_at_less, of n 18 n 12]
      quad_char_of [OF unat_triple [of x 0 0, folded n_def]] t
    by (simp add: Let_def)
qed

lemma encode_loop_b64: "b64 (encode_loop src) src"
  by (induction src rule: encode_loop.induct)
    (simp_all only: encode_one encode_two encode_three, simp add: b64_Nil)

section \<open>Decoding one group\<close>

definition is_digit :: "u8 \<Rightarrow> bool" where
  "is_digit c \<longleftrightarrow> base64_ascii_to_bin c \<noteq> 0xff \<and> c \<noteq> chr_equals"

lemma is_digit_iff: "is_digit c \<longleftrightarrow> (\<exists>i < 64. c = digit64 i)"
proof
  assume "is_digit c"
  then show "\<exists>i < 64. c = digit64 i" unfolding is_digit_def using digit_of_bin by metis
next
  assume "\<exists>i < 64. c = digit64 i"
  then obtain i where i: "i < 64" "c = digit64 i" by blast
  then have "(word_of_nat i :: u8) \<noteq> 0xff"
    by (simp add: word_unat_eq_iff unat_of_nat take_bit_nat_eq_self)
  then show "is_digit c" using bin_of_digit [OF i(1)] i(2) by (simp add: is_digit_def)
qed

lemma digit_neq_equals: "i < 64 \<Longrightarrow> digit64 i \<noteq> chr_equals"
  by (rule bin_of_digit)

text \<open>The outcome by the shape of the group.\<close>

lemma quad_shape:
  "base64_decode_quad c0 c1 c2 c3 =
    (let v = push_bit 18 (ucast (base64_ascii_to_bin c0)) OR push_bit 12 (ucast (base64_ascii_to_bin c1))
        OR push_bit 6 (ucast (base64_ascii_to_bin c2)) OR ucast (base64_ascii_to_bin c3) :: u32
     in if is_digit c0 \<and> is_digit c1 \<and> is_digit c2 \<and> is_digit c3
        then Some [ucast (drop_bit 16 v), ucast (drop_bit 8 v), ucast v]
        else if is_digit c0 \<and> is_digit c1 \<and> is_digit c2 \<and> c3 = chr_equals
        then Some [ucast (drop_bit 16 v), ucast (drop_bit 8 v)]
        else if is_digit c0 \<and> is_digit c1 \<and> c2 = chr_equals \<and> c3 = chr_equals
        then Some [ucast (drop_bit 16 v)]
        else None)"
  unfolding base64_decode_quad_def is_digit_def Let_def
  by (cases "c0 = chr_equals"; cases "c1 = chr_equals"; cases "c2 = chr_equals"; cases "c3 = chr_equals")
    simp_all

lemma unat_word_of_nat_u8: "i < 256 \<Longrightarrow> unat (word_of_nat i :: u8) = i"
  by (simp add: unat_of_nat take_bit_nat_eq_self)

lemma bytes_of_quad:
  fixes v :: u32
  assumes "unat v = n"
  shows "[ucast (drop_bit 16 v), ucast (drop_bit 8 v), ucast v] = triple n"
proof -
  have "ucast v = (word_of_nat n :: u8)" using ucast_drop_u32 [of 0 v] assms by simp
  then show ?thesis using ucast_drop_u32 [of 16 v] ucast_drop_u32 [of 8 v] assms by (simp add: triple_def)
qed

lemma decode_digits:
  assumes "i < 64" "j < 64" "k < 64" "l < 64"
  shows "base64_decode_quad (digit64 i) (digit64 j) (digit64 k) (digit64 l)
      = Some (triple (quad_number i j k l))"
    and "base64_decode_quad (digit64 i) (digit64 j) (digit64 k) chr_equals
      = Some (take 2 (triple (quad_number i j k 0)))"
    and "base64_decode_quad (digit64 i) (digit64 j) chr_equals chr_equals
      = Some (take 1 (triple (quad_number i j 0 0)))"
proof -
  have d: "is_digit (digit64 m)" "unat (base64_ascii_to_bin (digit64 m)) = m" if "m < 64" for m
    using that is_digit_iff bin_of_digit(1) [OF that] by (auto simp: unat_word_of_nat_u8)
  have e: "\<not> is_digit chr_equals" "unat (base64_ascii_to_bin chr_equals) = 0" by (simp_all add: is_digit_def)
  note q = unat_quad [of "base64_ascii_to_bin (digit64 i)" "base64_ascii_to_bin (digit64 j)"]
  show "base64_decode_quad (digit64 i) (digit64 j) (digit64 k) (digit64 l)
      = Some (triple (quad_number i j k l))"
    using q [of "base64_ascii_to_bin (digit64 k)" "base64_ascii_to_bin (digit64 l)"] d assms
    by (simp only: quad_shape Let_def bytes_of_quad if_True simp_thms)
  show "base64_decode_quad (digit64 i) (digit64 j) (digit64 k) chr_equals
      = Some (take 2 (triple (quad_number i j k 0)))"
    using bytes_of_quad [OF q [of "base64_ascii_to_bin (digit64 k)" "base64_ascii_to_bin chr_equals"]] d assms e
    by (simp add: quad_shape Let_def triple_def)
  show "base64_decode_quad (digit64 i) (digit64 j) chr_equals chr_equals
      = Some (take 1 (triple (quad_number i j 0 0)))"
    using bytes_of_quad [OF q [of "base64_ascii_to_bin chr_equals" "base64_ascii_to_bin chr_equals"]] d assms e
    by (simp add: quad_shape Let_def triple_def)
qed

lemma decode_quad_cases:
  assumes "base64_decode_quad c0 c1 c2 c3 = Some bs"
  obtains (quad) i j k l where "i < 64" "j < 64" "k < 64" "l < 64" "c0 = digit64 i" "c1 = digit64 j"
      "c2 = digit64 k" "c3 = digit64 l" "bs = triple (quad_number i j k l)"
  | (two) i j k where "i < 64" "j < 64" "k < 64" "c0 = digit64 i" "c1 = digit64 j" "c2 = digit64 k"
      "c3 = chr_equals" "bs = take 2 (triple (quad_number i j k 0))"
  | (one) i j where "i < 64" "j < 64" "c0 = digit64 i" "c1 = digit64 j" "c2 = chr_equals"
      "c3 = chr_equals" "bs = take 1 (triple (quad_number i j 0 0))"
proof -
  have "is_digit c0 \<and> is_digit c1 \<and> (is_digit c2 \<and> (is_digit c3 \<or> c3 = chr_equals) \<or> c2 = chr_equals \<and> c3 = chr_equals)"
    using assms unfolding quad_shape Let_def by (auto split: if_splits)
  then obtain i j where ij: "i < 64" "j < 64" "c0 = digit64 i" "c1 = digit64 j"
    and r: "is_digit c2 \<and> (is_digit c3 \<or> c3 = chr_equals) \<or> c2 = chr_equals \<and> c3 = chr_equals"
    unfolding is_digit_iff by blast
  from r consider (a) k l where "k < 64" "l < 64" "c2 = digit64 k" "c3 = digit64 l"
    | (b) k where "k < 64" "c2 = digit64 k" "c3 = chr_equals" | (c) "c2 = chr_equals" "c3 = chr_equals"
    unfolding is_digit_iff by blast
  then show thesis
  proof cases
    case a
    then show thesis using quad [OF ij(1,2) a(1,2) ij(3,4) a(3,4)] assms decode_digits(1) [OF ij(1,2) a(1,2)] ij by simp
  next
    case b
    then show thesis using two [OF ij(1,2) b(1) ij(3,4) b(2,3)] assms decode_digits(2) [OF ij(1,2) b(1,1)] ij by simp
  next
    case c
    then show thesis using one [OF ij c] assms decode_digits(3) [OF ij(1,2) ij(1,2)] ij by simp
  qed
qed

lemma length_triple [simp]: "length (triple n) = 3"
  by (simp add: triple_def)

section \<open>Decoding a block\<close>

lemma decode_loop_sound:
  assumes "decode_loop src = (out, True)" "length src mod 4 = 0"
  shows "b64 src out"
  using assms
proof (induction src arbitrary: out rule: decode_loop.induct)
  case (1 c0 c1 c2 c3 src)
  then obtain bs where q: "base64_decode_quad c0 c1 c2 c3 = Some bs" by (auto split: option.splits)
  have m: "length src mod 4 = 0" using 1(3) by (simp add: mod_Suc split: if_splits)
  from q show ?case
  proof (cases rule: decode_quad_cases)
    case quad
    then obtain out' where "decode_loop src = (out', True)" "out = bs @ out'"
      using 1(2) q by (auto split: prod.splits)
    moreover have "b64 src out'" using 1(1) [OF q] quad(9) m calculation by simp
    ultimately show ?thesis using quad by (auto intro: b64_quad)
  next
    case two
    then have "src = []" "out = bs" using 1(2) q by (auto split: prod.splits if_splits)
    then show ?thesis using two by (auto intro: b64_two)
  next
    case one
    then have "src = []" "out = bs" using 1(2) q by (auto split: prod.splits if_splits)
    then show ?thesis using one b64_one by simp
  qed
qed (auto intro: b64_Nil)

lemma decode_loop_complete: "b64 src out \<Longrightarrow> decode_loop src = (out, True)"
  by (induction rule: b64.induct) (simp_all add: decode_digits [where l = 0] decode_digits(1))

lemma b64_length: "b64 src out \<Longrightarrow> length src mod 4 = 0 \<and> length out \<le> length src div 4 * 3
    \<and> length src div 4 * 3 \<le> length out + 2"
  by (induction rule: b64.induct) (auto simp: triple_def)

section \<open>The sizes\<close>

lemma div_3_step: "(5 + n) div 3 = Suc (Suc (Suc n) div 3)" for n :: nat
  by presburger

lemma length_encode_loop: "length (encode_loop src) = (length src + 2) div 3 * 4"
  by (induction src rule: encode_loop.induct) (auto simp: Let_def div_3_step)

lemma unat_len: "length xs < 18446744073709551616 \<Longrightarrow> unat (word_of_nat (length xs) :: u64) = length xs"
  by simp

lemma encode_loop_append:
  "length xs mod 3 = 0 \<Longrightarrow> encode_loop (xs @ ys) = encode_loop xs @ encode_loop ys"
  by (induction xs rule: encode_loop.induct) (auto simp: Let_def)

lemma b64_unique: "b64 src out \<Longrightarrow> b64 src out' \<Longrightarrow> out = out'"
  using decode_loop_complete [of src out] decode_loop_complete [of src out'] by simp

lemma decode_base64_iff:
  assumes "length src < 18446744073709551616"
  shows "EVP_DecodeBase64 max_out src = (True, out, n) \<longleftrightarrow>
    b64 src out \<and> n = word_of_nat (length out) \<and> length src div 4 * 3 \<le> unat max_out"
proof -
  let ?n = "word_of_nat (length src) :: u64"
  have m: "?n mod 4 = 0 \<longleftrightarrow> length src mod 4 = 0"
    using assms by (simp add: word_unat_eq_iff unat_mod)
  have d: "unat (?n div 4 * 3) = length src div 4 * 3"
    using assms by (simp add: unat_word_ariths unat_div)
  show ?thesis
  proof (cases "length src mod 4 = 0")
    case True
    have "max_out < ?n div 4 * 3 \<longleftrightarrow> \<not> length src div 4 * 3 \<le> unat max_out"
      by (simp add: word_less_nat_alt d not_le)
    moreover obtain bs ok where r: "decode_loop src = (bs, ok)" by fastforce
    moreover have "ok \<and> bs = out \<longleftrightarrow> b64 src out"
      using decode_loop_sound [OF _ True, of out] decode_loop_complete [of src out] unfolding r by blast
    ultimately show ?thesis
      using m True unfolding EVP_DecodeBase64_def EVP_DecodedLength_def Let_def by (cases ok) auto
  next
    case False
    then show ?thesis using m b64_length [of src out] by (auto simp: EVP_DecodeBase64_def Let_def)
  qed
qed

lemma decode_encoded:
  assumes "3 * length src < 18446744073709551616"
  shows "EVP_DecodeBase64 (word_of_nat (length src + 2)) (encode_loop src) = (True, src, word_of_nat (length src))"
proof -
  have l: "length (encode_loop src) < 18446744073709551616" "length (encode_loop src) div 4 * 3 \<le> length src + 2"
    using assms by (simp_all add: length_encode_loop)
  have "unat (word_of_nat (length src + 2) :: u64) = length src + 2"
    using assms by (intro unat_word_of_nat_u64) linarith
  then show ?thesis unfolding decode_base64_iff [OF l(1)] using l(2) encode_loop_b64 by simp
qed

lemma encoded_length_ok:
  assumes "3 * length src < 18446744073709551616"
  shows "EVP_EncodedLength (word_of_nat (length src)) = Some (word_of_nat (length (fst (EVP_EncodeBlock src))))"
proof -
  let ?n = "word_of_nat (length src) + 2 :: u64"
  have 1: "unat ?n = length src + 2" "unat (?n div 3) = (length src + 2) div 3"
    using assms by (simp_all add: unat_word_ariths unat_div)
  then have 2: "unat (push_bit 2 (?n div 3)) = (length src + 2) div 3 * 4"
    using assms by (simp add: push_bit_eq_mult unat_word_ariths)
  have 3: "\<not> ?n < word_of_nat (length src)" using assms 1 by (simp add: word_less_nat_alt)
  have 4: "drop_bit 2 (push_bit 2 (?n div 3)) = ?n div 3"
    by (simp add: word_unat_eq_iff drop_bit_eq_div unat_div 1 2)
  have 5: "unat (push_bit 2 (?n div 3) + 1) = (length src + 2) div 3 * 4 + 1"
    using assms 2 by (simp add: unat_word_ariths)
  then have 6: "\<not> push_bit 2 (?n div 3) + 1 < push_bit 2 (?n div 3)" by (simp add: word_less_nat_alt 2)
  have "push_bit 2 (?n div 3) + 1 = word_of_nat ((length src + 2) div 3 * 4 + 1)"
    using word_of_nat_if_unat [OF 5] .
  then show ?thesis using 3 4 6 by (simp add: EVP_EncodedLength_def EVP_EncodeBlock_def Let_def length_encode_loop)
qed

end
