(* ===== verification/Base64_Props.thy ===== *)
theory Base64_Props
  imports Base64_Code
begin

text \<open>
  Base64 in streams: however the data and the text are cut into calls, the streaming coder and
  decoder of \<open>crypto/base64/base64.c\<close> compute the code of the whole.
\<close>

section \<open>The encoder as a stream\<close>

text \<open>The text of some data in lines of 48 bytes, 64 characters and a newline each.\<close>

function text_lines :: "bytes \<Rightarrow> bytes" where
  "text_lines data = (if data = [] then []
    else encode_loop (take 48 data) @ [chr_newline] @ text_lines (drop 48 data))"
  by auto
termination
  by (relation "measure length") auto

declare text_lines.simps [simp del]

lemma text_lines_Nil [simp]: "text_lines [] = []"
  by (simp add: text_lines.simps)

lemma encode_line_eq: "encode_line src = encode_loop src @ [chr_newline]"
  by (simp add: encode_line_def EVP_EncodeBlock_def Let_def)

lemma text_lines_line: "src \<noteq> [] \<Longrightarrow> length src \<le> 48 \<Longrightarrow> text_lines src = encode_line src"
  by (simp add: text_lines.simps [of src] encode_line_eq)

lemma text_lines_step: "length xs = 48 \<Longrightarrow> text_lines (xs @ ys) = encode_line xs @ text_lines ys"
  by (subst text_lines.simps) (auto simp: encode_line_eq)

lemma text_lines_append:
  "length xs = 48 * n \<Longrightarrow> text_lines (xs @ ys) = text_lines xs @ text_lines ys"
proof (induction n arbitrary: xs)
  case (Suc n)
  have s: "xs = take 48 xs @ drop 48 xs" "length (take 48 xs) = 48" using Suc.prems by simp_all
  have "text_lines (xs @ ys) = encode_line (take 48 xs) @ text_lines (drop 48 xs @ ys)"
    using text_lines_step [OF s(2), of "drop 48 xs @ ys"] by (metis append.assoc append_take_drop_id)
  also have "\<dots> = encode_line (take 48 xs) @ text_lines (drop 48 xs) @ text_lines ys"
    using Suc by simp
  finally show ?case using text_lines_step [OF s(2), of "drop 48 xs"] by (simp add: s(1) [symmetric])
qed simp

lemma length_text_lines: "length xs = 48 * n \<Longrightarrow> length (text_lines xs) = 65 * n"
proof (induction n arbitrary: xs)
  case (Suc n)
  have s: "length (take 48 xs) = 48" using Suc.prems by simp
  from text_lines_step [OF s, of "drop 48 xs"] Suc s show ?case
    by (simp add: encode_line_eq length_encode_loop)
qed simp

lemma snd_block_48: "length src = 48 \<Longrightarrow> snd (EVP_EncodeBlock src) = 64"
  by (simp add: EVP_EncodeBlock_def Let_def length_encode_loop)

lemma encode_lines_eq:
  assumes "unat tot + 65 * (length src div 48) < 18446744073709551616"
  shows "encode_lines src tot =
    (text_lines (take (48 * (length src div 48)) src),
     Some (tot + word_of_nat (65 * (length src div 48)), drop (48 * (length src div 48)) src))"
  using assms
proof (induction src tot rule: encode_lines.induct)
  case (1 src tot)
  show ?case
  proof (cases "48 \<le> length src")
    case True
    define n where "n = (length src - 48) div 48"
    have n: "length src div 48 = Suc n" using True by (simp add: n_def div_if)
    have l: "length (take 48 src) = 48" using True by simp
    note e = snd_block_48 [OF l]
    have u: "unat (tot + (64 + 1)) = unat tot + 65" using 1(2) n by (simp add: unat_word_ariths)
    then have o: "\<not> tot + 64 + 1 < tot" by (simp add: word_less_nat_alt add.assoc)
    have ih: "encode_lines (drop 48 src) (tot + (64 + 1)) = (text_lines (take (48 * n) (drop 48 src)),
        Some (tot + (64 + 1) + word_of_nat (65 * n), drop (48 * n) (drop 48 src)))"
      using 1(1) [OF True refl] 1(2) e o n u by (simp add: n_def)
    have "take (48 * Suc n) src = take 48 src @ take (48 * n) (drop 48 src)"
      by (metis take_add mult_Suc_right)
    then have "text_lines (take (48 * Suc n) src) = encode_line (take 48 src) @ text_lines (take (48 * n) (drop 48 src))"
      using text_lines_step [OF l] by simp
    then show ?thesis
      using True o e ih by (subst encode_lines.simps) (simp add: Let_def n add.commute)
  next
    case False
    then show ?thesis by (simp add: encode_lines.simps)
  qed
qed

text \<open>The context between two calls: fewer than 48 bytes wait for the rest of their line.\<close>

definition enc_ctx_ok :: "encode_ctx \<Rightarrow> bool" where
  "enc_ctx_ok ctx \<longleftrightarrow> unat (data_used ctx) < 48 \<and> length (ctx_data ctx) = 48"

definition waiting :: "encode_ctx \<Rightarrow> bytes" where
  "waiting ctx = take (unat (data_used ctx)) (ctx_data ctx)"

lemma used_zero: "(data_used ctx \<noteq> 0) = (unat (data_used ctx) \<noteq> 0)"
  by (simp add: unat_eq_0)

lemma waiting_blit:
  assumes "enc_ctx_ok ctx" "unat (data_used ctx) + length src \<le> 48"
  shows "take (unat (data_used ctx) + length src) (list_blit (ctx_data ctx) (unat (data_used ctx)) src)
    = waiting ctx @ src"
    "length (list_blit (ctx_data ctx) (unat (data_used ctx)) src) = 48"
  using assms by (simp_all add: enc_ctx_ok_def take_list_blit waiting_def length_list_blit)

text \<open>Several lines, with or without a first one that completes what waited.\<close>

lemma encode_lines_after:
  assumes p: "length pre = 48 * p" "p \<le> 1" and l: "length src < 1073741871"
  defines "m \<equiv> length src div 48"
  shows "encode_lines src (word_of_nat (65 * p))
      = (text_lines (take (48 * m) src), Some (word_of_nat (65 * (p + m)), drop (48 * m) src))"
    "(word_of_nat (65 * (p + m)) :: u64) \<le> INT_MAX"
    "uint (word_of_nat (65 * (p + m)) :: u64) = int (65 * (p + m))"
    "text_lines (take (48 * (p + m)) (pre @ src)) = text_lines pre @ text_lines (take (48 * m) src)"
    "drop (48 * (p + m)) (pre @ src) = drop (48 * m) src" "length (pre @ src) div 48 = p + m"
proof -
  have m: "m \<le> 22369622" using l by (simp add: m_def)
  have u: "unat (word_of_nat (65 * p) :: u64) = 65 * p" using p(2) by (intro unat_word_of_nat_u64) simp
  show "encode_lines src (word_of_nat (65 * p))
      = (text_lines (take (48 * m) src), Some (word_of_nat (65 * (p + m)), drop (48 * m) src))"
    using encode_lines_eq [of "word_of_nat (65 * p)" src, folded m_def] u m p(2)
    by (simp add: algebra_simps)
  have v: "unat (word_of_nat (65 * (p + m)) :: u64) = 65 * (p + m)"
    using m p(2) by (intro unat_word_of_nat_u64) simp
  then show "(word_of_nat (65 * (p + m)) :: u64) \<le> INT_MAX"
    using m p(2) by (simp add: INT_MAX_def word_le_nat_alt)
  show "uint (word_of_nat (65 * (p + m)) :: u64) = int (65 * (p + m))"
    using v by (metis uint_nat)
  show "text_lines (take (48 * (p + m)) (pre @ src)) = text_lines pre @ text_lines (take (48 * m) src)"
    using text_lines_append [OF p(1)] p(1) by (simp add: algebra_simps)
  show "drop (48 * (p + m)) (pre @ src) = drop (48 * m) src"
    using p(1) by (simp add: algebra_simps)
  show "length (pre @ src) div 48 = p + m" using p(1) by (simp add: m_def)
qed

text \<open>One call writes the whole lines of what waits and what comes, and keeps what is left.\<close>

lemma encode_update_ok:
  assumes ok: "enc_ctx_ok ctx" and l: "length src < 1073741824"
  defines "n \<equiv> length (waiting ctx @ src) div 48"
  shows "\<exists>ctx'. EVP_EncodeUpdate ctx src
      = Some (text_lines (take (48 * n) (waiting ctx @ src)), int (65 * n), ctx')
    \<and> enc_ctx_ok ctx' \<and> waiting ctx' = drop (48 * n) (waiting ctx @ src)"
proof -
  let ?u = "unat (data_used ctx)"
  have u: "?u < 48" "data_used ctx < 48" "length (ctx_data ctx) = 48" "length (waiting ctx) = ?u"
    using ok by (simp_all add: enc_ctx_ok_def waiting_def word_less_nat_alt)
  consider "src = []" | "src \<noteq> []" "?u + length src < 48" | "src \<noteq> []" "48 \<le> ?u + length src" by linarith
  then show ?thesis
  proof cases
    case 1
    then show ?thesis using u ok by (simp add: EVP_EncodeUpdate_def Let_def n_def)
  next
    case 2
    have s: "unat (data_used ctx + word_of_nat (length src)) = ?u + length src"
      using 2(2) by (simp add: unat_word_ariths)
    have n: "n = 0" using 2(2) u by (simp add: n_def)
    define ctx1 where "ctx1 = ctx\<lparr>ctx_data := list_blit (ctx_data ctx) ?u src,
      data_used := data_used ctx + word_of_nat (length src)\<rparr>"
    have "length src < 48 - ?u" using 2(2) by linarith
    then have "EVP_EncodeUpdate ctx src = Some ([], 0, ctx1)"
      using 2(1) u(2) by (simp add: EVP_EncodeUpdate_def Let_def ctx1_def)
    moreover have "enc_ctx_ok ctx1" "waiting ctx1 = waiting ctx @ src"
      using waiting_blit [OF ok, of src] s 2(2) by (simp_all add: ctx1_def enc_ctx_ok_def waiting_def)
    ultimately show ?thesis by (simp add: n)
  next
    case 3
    define todo where "todo = (if ?u \<noteq> 0 then 48 - ?u else 0)"
    define pre where "pre = waiting ctx @ take todo src"
    define p where "p = (if ?u \<noteq> 0 then 1 else 0 :: nat)"
    define ctx1 where "ctx1 = (if ?u \<noteq> 0
      then ctx\<lparr>ctx_data := list_blit (ctx_data ctx) ?u (take todo src), data_used := 0\<rparr> else ctx)"
    have p: "length pre = 48 * p" "p \<le> 1" using 3 u by (auto simp: pre_def p_def todo_def)
    have l': "length (drop todo src) < 1073741871" using l by simp
    note e = encode_lines_after [OF p l']
    define m where "m = length (drop todo src) div 48"
    note e = encode_lines_after [OF p l', folded m_def]
    have all: "pre @ drop todo src = waiting ctx @ src" by (simp add: pre_def)
    have n: "n = p + m" using e(6) by (simp add: n_def all)
    have blit: "list_blit (ctx_data ctx) ?u (take todo src) = pre" if "?u \<noteq> 0"
      using waiting_blit [OF ok, of "take todo src"] that 3 u by (simp add: pre_def todo_def)
    have first: "fill_line ctx src = (text_lines pre, word_of_nat (65 * p), drop todo src, ctx1)"
    proof (cases "?u = 0")
      case True
      then show ?thesis using u by (simp add: fill_line_def used_zero pre_def p_def todo_def ctx1_def)
    next
      case False
      then have "length pre = 48" using p by (simp add: p_def)
      moreover from this have "text_lines pre = encode_line pre" by (intro text_lines_line) auto
      ultimately show ?thesis
        using False blit snd_block_48 [of pre] by (auto simp: fill_line_def used_zero todo_def p_def ctx1_def Let_def)
    qed
    have c1: "length (ctx_data ctx1) = 48"
      using u blit p by (auto simp: ctx1_def p_def)
    define src2 where "src2 = drop (48 * m) (drop todo src)"
    have s2: "length src2 < 48" by (simp add: src2_def m_def mod_if minus_mult_div_eq_mod)
    define ctx2 where "ctx2 = ctx1\<lparr>ctx_data := list_blit (ctx_data ctx1) 0 src2, data_used := word_of_nat (length src2)\<rparr>"
    have "enc_ctx_ok ctx2" "waiting ctx2 = src2"
      using s2 c1 by (simp_all add: enc_ctx_ok_def waiting_def ctx2_def list_blit_def)
    moreover have "EVP_EncodeUpdate ctx src
        = Some (text_lines pre @ text_lines (take (48 * m) (drop todo src)), int (65 * (p + m)), ctx2)"
    proof -
      have "\<not> length src < 48 - ?u" "\<not> INT_MAX < word_of_nat (65 * (p + m))"
        using 3(2) e(2) by (simp_all only: not_less)
      then show ?thesis
        using 3(1) u(2) e(3) unfolding EVP_EncodeUpdate_def first
        by (simp del: of_nat_add of_nat_mult distrib_left_numeral add: e(1) ctx2_def src2_def)
    qed
    ultimately show ?thesis using e(4,5) unfolding all n by (simp add: src2_def)
  qed
qed

text \<open>A client passes its data in chunks, and takes \<open>*out_len\<close> bytes after each call.\<close>

fun encode_chunks :: "encode_ctx \<Rightarrow> bytes list \<Rightarrow> (bytes \<times> encode_ctx) option" where
  "encode_chunks ctx [] = Some ([], ctx)"
| "encode_chunks ctx (c # cs) = (case EVP_EncodeUpdate ctx c of
      None \<Rightarrow> None
    | Some (out, n, ctx') \<Rightarrow> map_option (\<lambda>(out', e). (take (nat n) out @ out', e)) (encode_chunks ctx' cs))"

definition encode_stream :: "bytes list \<Rightarrow> bytes option" where
  "encode_stream chunks = (case encode_chunks EVP_EncodeInit chunks of
      None \<Rightarrow> None
    | Some (out, ctx) \<Rightarrow> (case EVP_EncodeFinal ctx of (fin, n, _) \<Rightarrow> Some (out @ take (nat n) fin)))"

lemma encode_chunks_ok:
  assumes "enc_ctx_ok ctx" "\<forall>c \<in> set cs. length c < 1073741824"
  shows "\<exists>out ctx'. encode_chunks ctx cs = Some (out, ctx') \<and> enc_ctx_ok ctx'
    \<and> out @ text_lines (waiting ctx') = text_lines (waiting ctx @ concat cs)"
  using assms
proof (induction cs arbitrary: ctx)
  case (Cons c cs)
  define n where "n = length (waiting ctx @ c) div 48"
  have len: "length (take (48 * n) (waiting ctx @ c)) = 48 * n" by (simp add: n_def)
  obtain ctx1 where u: "EVP_EncodeUpdate ctx c = Some (text_lines (take (48 * n) (waiting ctx @ c)), int (65 * n), ctx1)"
    and ok: "enc_ctx_ok ctx1" and w: "waiting ctx1 = drop (48 * n) (waiting ctx @ c)"
    using encode_update_ok [OF Cons.prems(1), of c] Cons.prems(2) unfolding n_def by auto
  from Cons.IH [OF ok] Cons.prems(2) obtain out ctx' where
    r: "encode_chunks ctx1 cs = Some (out, ctx')" "enc_ctx_ok ctx'"
      "out @ text_lines (waiting ctx') = text_lines (waiting ctx1 @ concat cs)" by auto
  have "text_lines (waiting ctx @ concat (c # cs))
      = text_lines (take (48 * n) (waiting ctx @ c) @ waiting ctx1 @ concat cs)"
    unfolding w by (metis append.assoc append_take_drop_id concat.simps(2))
  also have "\<dots> = text_lines (take (48 * n) (waiting ctx @ c)) @ out @ text_lines (waiting ctx')"
    using text_lines_append [OF len] r(3) by simp
  finally show ?case using u r length_text_lines [OF len] by simp
qed simp

lemma encode_stream_ok:
  assumes "\<forall>c \<in> set cs. length c < 1073741824"
  shows "encode_stream cs = Some (text_lines (concat cs))"
proof -
  have i: "enc_ctx_ok EVP_EncodeInit" "waiting EVP_EncodeInit = []"
    by (simp_all add: enc_ctx_ok_def waiting_def EVP_EncodeInit_def)
  obtain out ctx where r: "encode_chunks EVP_EncodeInit cs = Some (out, ctx)" "enc_ctx_ok ctx"
    "out @ text_lines (waiting ctx) = text_lines (concat cs)"
    using encode_chunks_ok [OF i(1) assms] i(2) by auto
  have len: "length (waiting ctx) = unat (data_used ctx)" "unat (data_used ctx) < 48"
    using r(2) by (simp_all add: enc_ctx_ok_def waiting_def)
  have "fst (EVP_EncodeFinal ctx) = text_lines (waiting ctx)
      \<and> nat (fst (snd (EVP_EncodeFinal ctx))) = length (text_lines (waiting ctx))"
  proof (cases "unat (data_used ctx) = 0")
    case True
    then show ?thesis using len by (simp add: EVP_EncodeFinal_def unat_eq_0)
  next
    case False
    then have t: "text_lines (waiting ctx) = encode_line (waiting ctx)" using len by (intro text_lines_line) auto
    have "length (encode_loop (waiting ctx)) \<le> 64" using len by (simp add: length_encode_loop)
    then have "unat (snd (EVP_EncodeBlock (waiting ctx)) + 1) = length (encode_line (waiting ctx))"
      by (simp add: EVP_EncodeBlock_def Let_def encode_line_eq unat_word_ariths)
    then have "nat (uint (snd (EVP_EncodeBlock (waiting ctx)) + 1)) = length (encode_line (waiting ctx))"
      by simp
    moreover have "data_used ctx \<noteq> 0" using False by auto
    ultimately show ?thesis using t by (simp add: EVP_EncodeFinal_def waiting_def Let_def)
  qed
  then show ?thesis using r by (cases "EVP_EncodeFinal ctx") (simp add: encode_stream_def)
qed

section \<open>The decoder as a stream\<close>

lemma update_loop_append:
  "decode_update_loop ctx (xs @ ys) = (case decode_update_loop ctx xs of
      (out, ctx', False) \<Rightarrow> (out, ctx', False)
    | (out, ctx', True) \<Rightarrow> (case decode_update_loop ctx' ys of (out', r) \<Rightarrow> (out @ out', r)))"
  by (induction ctx xs rule: decode_update_loop.induct)
    (auto simp: Let_def split: option.splits prod.splits bool.splits)

lemma update_loop_spaces:
  "decode_update_loop ctx (filter (\<lambda>c. \<not> is_space c) src) = decode_update_loop ctx src"
  by (induction ctx src rule: decode_update_loop.induct)
    (auto simp: Let_def split: option.splits prod.splits)

lemma update_loop_error:
  "decode_update_loop ctx src = (out, ctx', ok) \<Longrightarrow> \<not> error_encountered ctx \<Longrightarrow> error_encountered ctx' \<longleftrightarrow> \<not> ok"
proof (induction ctx src arbitrary: out rule: decode_update_loop.induct)
  case (2 ctx c src)
  show ?case
    using 2 by (auto simp: Let_def split: if_splits option.splits prod.splits)
qed auto

lemma update_loop_length: "decode_update_loop ctx src = (out, r) \<Longrightarrow> length out \<le> 3 * length src"
proof (induction ctx src arbitrary: out r rule: decode_update_loop.induct)
  case (2 ctx c src)
  have q: "length bs \<le> 3" if "base64_decode_quad c0 c1 c2 c3 = Some bs" for c0 c1 c2 c3 bs
    using that by (cases rule: decode_quad_cases) simp_all
  show ?case
    using 2 by (fastforce simp: Let_def dest: q split: if_splits option.splits prod.splits)
qed auto

text \<open>Four characters make one group.\<close>

lemma update_loop_group:
  assumes "data_used ctx = 0" "\<not> eof_seen ctx" "length (ctx_data ctx) = 48"
    "\<not> is_space c0" "\<not> is_space c1" "\<not> is_space c2" "\<not> is_space c3"
  defines "data \<equiv> (ctx_data ctx)[0 := c0, 1 := c1, 2 := c2, 3 := c3]"
  shows "decode_update_loop ctx (c0 # c1 # c2 # c3 # src) =
    (case base64_decode_quad c0 c1 c2 c3 of
      None \<Rightarrow> ([], ctx\<lparr>ctx_data := data, data_used := 4, error_encountered := True\<rparr>, False)
    | Some bs \<Rightarrow> (case decode_update_loop
          (ctx\<lparr>ctx_data := data, data_used := 0, eof_seen := (length bs < 3)\<rparr>) src of
        (out, r) \<Rightarrow> (bs @ out, r)))"
  using assms(1-7) unfolding data_def
  by (cases "base64_decode_quad c0 c1 c2 c3"; cases ctx) (simp_all add: Let_def)

lemma update_loop_short:
  assumes "data_used ctx = 0" "\<not> eof_seen ctx" "length src < 4" "src \<noteq> []" "\<forall>c \<in> set src. \<not> is_space c"
  shows "data_used (fst (snd (decode_update_loop ctx src))) \<noteq> 0"
proof -
  from assms(3,4) consider c0 where "src = [c0]" | c0 c1 where "src = [c0, c1]" | c0 c1 c2 where "src = [c0, c1, c2]"
    by (cases src; cases "tl src"; cases "tl (tl src)"; cases "tl (tl (tl src))") auto
  then show ?thesis using assms by cases (simp_all add: Let_def)
qed

lemma update_loop_short_iff:
  assumes "data_used ctx = 0" "\<not> eof_seen ctx" "src \<noteq> []" "length src < 4" "\<forall>c \<in> set src. \<not> is_space c"
  shows "(\<exists>ctx'. decode_update_loop ctx src = (out, ctx', True) \<and> data_used ctx' = 0) \<longleftrightarrow> b64 src out"
  using update_loop_short [OF assms(1,2,4,3,5)] b64_length [of src out] assms(3,4) by auto

lemma update_loop_eof:
  "eof_seen ctx \<Longrightarrow> \<forall>c \<in> set src. \<not> is_space c \<Longrightarrow> decode_update_loop ctx src
    = (if src = [] then ([], ctx, True) else ([], ctx\<lparr>error_encountered := True\<rparr>, False))"
  by (cases src) auto

lemma update_loop_decodes:
  assumes "data_used ctx = 0" "\<not> eof_seen ctx" "length (ctx_data ctx) = 48" "\<forall>c \<in> set src. \<not> is_space c"
  shows "(\<exists>ctx'. decode_update_loop ctx src = (out, ctx', True) \<and> data_used ctx' = 0) \<longleftrightarrow> b64 src out"
  using assms
proof (induction src arbitrary: ctx out rule: decode_loop.induct)
  case (1 c0 c1 c2 c3 src)
  let ?ctx = "\<lambda>bs. ctx\<lparr>ctx_data := (ctx_data ctx)[0 := c0, 1 := c1, 2 := c2, 3 := c3], data_used := 0,
    eof_seen := (length (bs :: bytes) < 3)\<rparr>"
  have g: "decode_update_loop ctx (c0 # c1 # c2 # c3 # src) = (case base64_decode_quad c0 c1 c2 c3 of
      None \<Rightarrow> ([], ctx\<lparr>ctx_data := (ctx_data ctx)[0 := c0, 1 := c1, 2 := c2, 3 := c3], data_used := 4, error_encountered := True\<rparr>, False)
    | Some bs \<Rightarrow> (case decode_update_loop (?ctx bs) src of (out, r) \<Rightarrow> (bs @ out, r)))"
    using 1(2-5) by (intro update_loop_group) auto
  show ?case
  proof (cases "base64_decode_quad c0 c1 c2 c3")
    case None
    have "\<not> b64 (c0 # c1 # c2 # c3 # src) out" using decode_loop_complete [of "c0 # c1 # c2 # c3 # src" out] None by auto
    then show ?thesis using g None by simp
  next
    case (Some bs)
    show ?thesis
    proof (cases "length bs = 3")
      case True
      have ih: "(\<exists>ctx'. decode_update_loop (?ctx bs) src = (out', ctx', True) \<and> data_used ctx' = 0) \<longleftrightarrow> b64 src out'" for out'
        using 1(2-5) True by (intro 1(1) [OF Some]) auto
      have "b64 (c0 # c1 # c2 # c3 # src) out \<longleftrightarrow> (\<exists>out'. out = bs @ out' \<and> b64 src out')"
      proof
        assume b: "b64 (c0 # c1 # c2 # c3 # src) out"
        then have m: "length src mod 4 = 0" using b64_length [OF b] by (simp add: mod_Suc split: if_splits)
        from decode_loop_complete [OF b] Some True obtain out' where "decode_loop src = (out', True)" "out = bs @ out'"
          by (auto split: prod.splits)
        then show "\<exists>out'. out = bs @ out' \<and> b64 src out'" using decode_loop_sound [OF _ m] by blast
      next
        assume "\<exists>out'. out = bs @ out' \<and> b64 src out'"
        then show "b64 (c0 # c1 # c2 # c3 # src) out"
          using Some True by (cases rule: decode_quad_cases [OF Some]) (auto intro: b64_quad)
      qed
      then show ?thesis using g Some ih by (auto split: prod.splits)
    next
      case False
      then have l: "length bs < 3" using Some by (cases rule: decode_quad_cases [OF Some]) auto
      then have "b64 (c0 # c1 # c2 # c3 # src) out \<longleftrightarrow> src = [] \<and> out = bs"
        using decode_loop_complete [of "c0 # c1 # c2 # c3 # src" out] decode_loop_sound [of "[c0, c1, c2, c3]" bs] Some
        by (auto split: if_splits prod.splits)
      then show ?thesis using g Some l update_loop_eof [of "?ctx bs" src] 1(5) by auto
    qed
  qed
next
  case "2_1"
  then show ?case by (auto intro: b64_Nil elim: b64.cases)
qed (rule update_loop_short_iff; simp)+

text \<open>A client passes its text in chunks, and stops at an error.\<close>

fun decode_chunks :: "encode_ctx \<Rightarrow> bytes list \<Rightarrow> (bytes \<times> encode_ctx) option" where
  "decode_chunks ctx [] = Some ([], ctx)"
| "decode_chunks ctx (c # cs) = (case EVP_DecodeUpdate ctx c of (r, out, n, ctx') \<Rightarrow>
      if r < 0 then None
      else map_option (\<lambda>(out', e). (take (nat n) out @ out', e)) (decode_chunks ctx' cs))"

definition decode_stream :: "bytes list \<Rightarrow> bytes option" where
  "decode_stream chunks = (case decode_chunks EVP_DecodeInit chunks of
      None \<Rightarrow> None
    | Some (out, ctx) \<Rightarrow> if EVP_DecodeFinal ctx = 1 then Some out else None)"

lemma decode_chunks_loop:
  assumes "\<not> error_encountered ctx" "\<forall>c \<in> set cs. length c < 536870912"
  shows "decode_chunks ctx cs = (case decode_update_loop ctx (concat cs) of
      (out, ctx', False) \<Rightarrow> None | (out, ctx', True) \<Rightarrow> Some (out, ctx'))"
  using assms
proof (induction cs arbitrary: ctx)
  case (Cons c cs)
  obtain out ctx' ok where u: "decode_update_loop ctx c = (out, ctx', ok)" by (metis prod_cases3)
  show ?case
  proof (cases ok)
    case False
    then show ?thesis using Cons.prems u by (simp add: EVP_DecodeUpdate_def update_loop_append)
  next
    case True
    have "length out \<le> 1610612736" using update_loop_length [OF u] Cons.prems(2) by auto
    then have n: "\<not> INT_MAX < word_of_nat (length out)" "nat (uint (word_of_nat (length out) :: u64)) = length out"
      by (simp_all add: INT_MAX_def word_less_nat_alt unat_of_nat take_bit_nat_eq_self flip: unat_eq_nat_uint)
    have e: "\<not> error_encountered ctx'" using update_loop_error [OF u Cons.prems(1)] True by simp
    show ?thesis
      using Cons.IH [OF e] Cons.prems n u True
      by (simp add: EVP_DecodeUpdate_def update_loop_append Let_def split: prod.splits bool.splits)
  qed
qed simp

lemma decode_stream_iff:
  assumes "\<forall>c \<in> set cs. length c < 536870912"
  shows "decode_stream cs = Some out \<longleftrightarrow> b64 (filter (\<lambda>c. \<not> is_space c) (concat cs)) out"
proof -
  let ?i = EVP_DecodeInit and ?t = "filter (\<lambda>c. \<not> is_space c) (concat cs)"
  have i: "data_used ?i = 0" "\<not> eof_seen ?i" "length (ctx_data ?i) = 48" "\<not> error_encountered ?i"
    by (simp_all add: EVP_DecodeInit_def)
  obtain o1 ctx' ok where u: "decode_update_loop ?i (concat cs) = (o1, ctx', ok)" by (metis prod_cases3)
  have e: "error_encountered ctx' \<longleftrightarrow> \<not> ok" by (rule update_loop_error [OF u i(4)])
  have "decode_stream cs = Some out \<longleftrightarrow> ok \<and> o1 = out \<and> data_used ctx' = 0"
    using decode_chunks_loop [OF i(4) assms] u e
    by (auto simp: decode_stream_def EVP_DecodeFinal_def split: bool.splits)
  also have "\<dots> \<longleftrightarrow> (\<exists>c. decode_update_loop ?i ?t = (out, c, True) \<and> data_used c = 0)"
    using u by (auto simp: update_loop_spaces)
  also have "\<dots> \<longleftrightarrow> b64 ?t out"
    using i by (intro update_loop_decodes) auto
  finally show ?thesis .
qed

section \<open>What a client relies on\<close>

lemma b64_no_spaces: "b64 src out \<Longrightarrow> \<forall>c \<in> set src. \<not> is_space c"
proof (induction rule: b64.induct)
  have "\<not> is_space chr_equals" by (simp add: is_space_def)
  then show "i < 64 \<Longrightarrow> j < 64 \<Longrightarrow> \<forall>c \<in> set [digit64 i, digit64 j, chr_equals, chr_equals]. \<not> is_space c"
    "i < 64 \<Longrightarrow> j < 64 \<Longrightarrow> k < 64 \<Longrightarrow>
      \<forall>c \<in> set [digit64 i, digit64 j, digit64 k, chr_equals]. \<not> is_space c" for i j k
    by (simp_all add: bin_of_digit(3))
qed (simp_all add: bin_of_digit(3))

lemma encode_loop_no_spaces: "filter (\<lambda>c. \<not> is_space c) (encode_loop data) = encode_loop data"
  using b64_no_spaces [OF encode_loop_b64] by (simp add: filter_id_conv)

lemma text_lines_no_newlines: "filter (\<lambda>c. \<not> is_space c) (text_lines data) = encode_loop data"
proof (induction data rule: text_lines.induct)
  case (1 data)
  have newline: "is_space chr_newline" by (simp add: is_space_def)
  show ?case
  proof (cases "length data \<le> 48")
    case True
    then show ?thesis
      using newline by (cases "data = []") (simp_all add: text_lines_line encode_line_eq encode_loop_no_spaces)
  next
    case False
    then have "length (take 48 data) mod 3 = 0" "data \<noteq> []" by auto
    then have "encode_loop data = encode_loop (take 48 data) @ encode_loop (drop 48 data)"
      using encode_loop_append [of "take 48 data" "drop 48 data"] by simp
    then show ?thesis
      using 1 newline \<open>data \<noteq> []\<close> by (simp add: text_lines.simps [of data] encode_loop_no_spaces)
  qed
qed

text \<open>C23: Of a text that fits its buffer the decoder of blocks accepts exactly the codes of RFC 4648,
  in whole groups and with padding at the end only, and returns the bytes they stand for. What
  the unused bits of the last digit are makes no difference.\<close>

theorem base64_decode_exact:
  assumes "length src < 18446744073709551616"
  shows "EVP_DecodeBase64 max_out src = (True, out, n) \<longleftrightarrow>
    b64 src out \<and> n = word_of_nat (length out) \<and> length src div 4 * 3 \<le> unat max_out"
  by (rule decode_base64_iff [OF assms])

theorem base64_decode_exact_witness:
  "b64 [0x51, 0x52, 0x3d, 0x3d] [0x41] \<and> \<not> b64 [0x51, 0x3d, 0x51, 0x3d] [0x41]"
proof -
  have "EVP_DecodeBase64 3 [0x51, 0x52, 0x3d, 0x3d] = (True, [0x41], 1)"
    "\<not> fst (EVP_DecodeBase64 3 [0x51, 0x3d, 0x51, 0x3d])" by code_simp+
  then show ?thesis
    using base64_decode_exact [of "[0x51, 0x52, 0x3d, 0x3d]" 3 "[0x41]" 1]
      base64_decode_exact [of "[0x51, 0x3d, 0x51, 0x3d]" 3 "[0x41]" 1] by auto
qed

text \<open>C21: The streaming decoder, given a text in any chunks, ends with success exactly when the text
  without its white space is a code, and has written the bytes it stands for.\<close>

theorem base64_stream_exact:
  assumes "\<forall>c \<in> set chunks. length c < 536870912"
  shows "decode_stream chunks = Some out \<longleftrightarrow> b64 (filter (\<lambda>c. \<not> is_space c) (concat chunks)) out"
  by (rule decode_stream_iff [OF assms])

theorem base64_stream_exact_witness:
  "b64 (filter (\<lambda>c. \<not> is_space c) (concat [[0x51, 0x20, 0x55], [0x49, 0x3d, 0x0a]])) [0x41, 0x42]"
proof -
  have "decode_stream [[0x51, 0x20, 0x55], [0x49, 0x3d, 0x0a]] = Some [0x41, 0x42]" by code_simp
  moreover have "\<forall>c \<in> set [[0x51, 0x20, 0x55], [0x49, 0x3d, 0x0a :: u8]]. length c < 536870912" by simp
  ultimately show ?thesis using base64_stream_exact by blast
qed

text \<open>C22: Data that is encoded in chunks gives the same text however it is cut, and that text, cut
  into any chunks again, is decoded to the data.\<close>

theorem base64_stream_roundtrip:
  assumes "\<forall>c \<in> set chunks. length c < 1073741824" "\<forall>c \<in> set chunks'. length c < 536870912"
    and "encode_stream chunks = Some txt" "concat chunks' = txt"
  shows "txt = text_lines (concat chunks) \<and> decode_stream chunks' = Some (concat chunks)"
proof -
  have t: "txt = text_lines (concat chunks)" using encode_stream_ok [OF assms(1)] assms(3) by simp
  then have "b64 (filter (\<lambda>c. \<not> is_space c) (concat chunks')) (concat chunks)"
    using assms(4) encode_loop_b64 by (simp add: text_lines_no_newlines)
  then show ?thesis using t decode_stream_iff [OF assms(2)] by blast
qed

theorem base64_stream_roundtrip_witness:
  "decode_stream [[0x4d, 0x54, 0x49], [0x7a, 0x0a]] = Some [0x31, 0x32, 0x33]"
proof -
  have "encode_stream [[0x31], [0x32, 0x33]] = Some [0x4d, 0x54, 0x49, 0x7a, 0x0a]" by code_simp
  from base64_stream_roundtrip [OF _ _ this, of "[[0x4d, 0x54, 0x49], [0x7a, 0x0a]]"] show ?thesis by simp
qed

text \<open>The size that \<open>EVP_EncodedLength\<close> computes is the size of what \<open>EVP_EncodeBlock\<close> writes, NUL
  included, and a buffer of the data's length and two more bytes is enough to decode it again.\<close>

theorem base64_block_roundtrip:
  assumes "3 * length data < 18446744073709551616" "EVP_EncodeBlock data = (dst, n)"
  shows "EVP_EncodedLength (word_of_nat (length data)) = Some (word_of_nat (length dst))
    \<and> dst = take (unat n) dst @ [0]
    \<and> EVP_DecodeBase64 (word_of_nat (length data + 2)) (take (unat n) dst) = (True, data, word_of_nat (length data))"
proof -
  have d: "dst = encode_loop data @ [0]" "n = word_of_nat (length (encode_loop data))"
    using assms(2) by (auto simp: EVP_EncodeBlock_def Let_def)
  have "unat n = length (encode_loop data)" unfolding d(2)
    using assms(1) length_encode_loop [of data] by (intro unat_word_of_nat_u64) linarith
  then show ?thesis using encoded_length_ok [OF assms(1)] decode_encoded [OF assms(1)] assms(2) d(1) by simp
qed

theorem base64_block_roundtrip_witness:
  "EVP_DecodeBase64 4 (take 4 (fst (EVP_EncodeBlock [0xff, 0x00]))) = (True, [0xff, 0x00], 2)"
proof -
  have "snd (EVP_EncodeBlock [0xff, 0x00]) = 4" by code_simp
  then have "EVP_EncodeBlock [0xff, 0x00] = (fst (EVP_EncodeBlock [0xff, 0x00]), 4)" by (metis prod.collapse)
  from base64_block_roundtrip [OF _ this] show ?thesis by simp
qed

text \<open>Neither a trailing minus nor a leading newline is stripped by \<open>EVP_DecodeBlock\<close>.\<close>

lemma decode_block_strips_less:
  "fst (EVP_DecodeBlock [0x20, 0x51, 0x55, 0x49, 0x3d, 0x0a]) = 3"
  "fst (EVP_DecodeBlock [0x51, 0x55, 0x49, 0x3d, 0x2d]) = - 1"
  "fst (EVP_DecodeBlock [0x0a, 0x51, 0x55, 0x49, 0x3d]) = - 1"
  by code_simp+

end
