(* ===== verification/Ber.thy ===== *)
theory Ber
  imports Cbb_Asn1
begin

text \<open>
  BoringSSL's \<open>crypto/bytestring/ber.c\<close>: BER, with its indefinite lengths and constructed strings,
  is rewritten as DER.
\<close>

definition kMaxDepth :: nat where "kMaxDepth = 2048"

text \<open>The tags of the string types, without the constructed bit.\<close>

definition is_string_type :: "u32 \<Rightarrow> bool" where
  "is_string_type tag \<longleftrightarrow> tag AND NOT CBS_ASN1_CONSTRUCTED \<in>
    {0x3, CBS_ASN1_OCTETSTRING, 0xc, 0x12, 0x13, 0x14, 0x15, 0x16, 0x19, 0x1a, 0x1b, 0x1c, 0x1e}"

text \<open>The element is only a header, which ends in the byte of an indefinite length.\<close>

definition is_indefinite :: "u64 \<Rightarrow> cbs \<Rightarrow> bool" where
  "is_indefinite header_len contents \<longleftrightarrow> CBS_len contents = header_len \<and> header_len > 0
    \<and> nth_or 0 contents (unat (header_len - 1)) = 0x80"

definition is_eoc :: "u64 \<Rightarrow> cbs \<Rightarrow> bool" where
  "is_eoc header_len contents \<longleftrightarrow> header_len = 2 \<and> CBS_len contents = 2 \<and> memcmp_sign contents [0, 0] = 0"

section \<open>Looking for BER\<close>

text \<open>
  The walk over the elements of \<open>inp\<close>. The result is what the function returns and \<open>*ber_found\<close>,
  which is set to 0 when the function is entered and so starts as \<open>False\<close> in the recursive
  call; \<^const>\<open>None\<close> would be a walk that does not end.
\<close>

partial_function (option) find_ber_loop :: "nat \<Rightarrow> bool \<Rightarrow> cbs \<Rightarrow> (bool \<times> bool) option" where
  "find_ber_loop depth found inp =
    (if depth > kMaxDepth then Some (False, found)
     else if CBS_len inp = 0 then Some (True, found)
     else case CBS_get_any_ber_asn1_element inp of
         (None, _) \<Rightarrow> Some (False, found)
       | (Some (contents, tag, header_len), inp1) \<Rightarrow>
           if is_indefinite header_len contents then Some (True, True)
           else if tag AND CBS_ASN1_CONSTRUCTED \<noteq> 0
           then if is_string_type tag then Some (True, True)
             else (case CBS_skip header_len contents of (skipped, body) \<Rightarrow>
                 if \<not> skipped then Some (False, found)
                 else Option.bind (find_ber_loop (Suc depth) False body)
                   (\<lambda>(ok, found1). if \<not> ok then Some (False, found1) else find_ber_loop depth found1 inp1))
           else find_ber_loop depth found inp1)"

declare find_ber_loop.simps [code]

definition cbs_find_ber :: "cbs \<Rightarrow> nat \<Rightarrow> (bool \<times> bool) option" where
  "cbs_find_ber orig_in depth = find_ber_loop depth False orig_in"

section \<open>Converting BER\<close>

text \<open>
  Where an element goes: the depth of \<open>out_contents\<close> in the chain of CBBs and the tag of the
  strings below it. Inside a constructed string, elements go into the string itself.
\<close>

definition open_contents :: "sys_malloc \<Rightarrow> nat \<Rightarrow> u32 \<Rightarrow> u32 \<Rightarrow> cbb \<Rightarrow> (nat \<times> u32) option \<times> cbb" where
  "open_contents mal d string_tag tag out =
    (if string_tag \<noteq> 0
     then if tag AND NOT CBS_ASN1_CONSTRUCTED \<noteq> string_tag then (None, out) else (Some (d, string_tag), out)
     else
       let constructed_string = tag AND CBS_ASN1_CONSTRUCTED \<noteq> 0 \<and> is_string_type tag;
           out_tag = (if constructed_string then tag AND NOT CBS_ASN1_CONSTRUCTED else tag);
           child_string_tag = (if constructed_string then out_tag else string_tag)
       in (case CBB_add_asn1 mal d out_tag out of
             (False, out1) \<Rightarrow> (None, out1) | (True, out1) \<Rightarrow> (Some (Suc d, child_string_tag), out1)))"

text \<open>The result, what is left of the input, and the CBB.\<close>

partial_function (option) cbs_convert_ber ::
  "sys_malloc \<Rightarrow> nat \<Rightarrow> u32 \<Rightarrow> bool \<Rightarrow> nat \<Rightarrow> cbs \<Rightarrow> cbb \<Rightarrow> (bool \<times> cbs \<times> cbb) option" where
  "cbs_convert_ber mal d string_tag looking_for_eoc depth inp out =
    (if depth > kMaxDepth then Some (False, inp, out)
     else if CBS_len inp = 0 then Some (\<not> looking_for_eoc, inp, out)
     else case CBS_get_any_ber_asn1_element inp of
         (None, inp1) \<Rightarrow> Some (False, inp1, out)
       | (Some (contents, tag, header_len), inp1) \<Rightarrow>
           if is_eoc header_len contents then Some (looking_for_eoc, inp1, out)
           else (case open_contents mal d string_tag tag out of
               (None, out1) \<Rightarrow> Some (False, inp1, out1)
             | (Some (d1, child_string_tag), out1) \<Rightarrow>
                 Option.bind
                   (if is_indefinite header_len contents
                    then cbs_convert_ber mal d1 child_string_tag True (Suc depth) inp1 out1
                    else case CBS_skip header_len contents of (skipped, body) \<Rightarrow>
                          if \<not> skipped then Some (False, inp1, out1)
                          else if tag AND CBS_ASN1_CONSTRUCTED \<noteq> 0
                          then Option.bind (cbs_convert_ber mal d1 child_string_tag False (Suc depth) body out1)
                            (\<lambda>(ok, _, out2). Some (ok, inp1, out2))
                          else (case CBB_add_bytes mal d1 body out1 of (ok, out2) \<Rightarrow> Some (ok, inp1, out2)))
                   (\<lambda>(ok, inp2, out2). if \<not> ok then Some (False, inp2, out2)
                      else case CBB_flush mal d out2 of (flushed, out3) \<Rightarrow>
                          if \<not> flushed then Some (False, inp2, out3)
                          else cbs_convert_ber mal d string_tag looking_for_eoc depth inp2 out3)))"

declare cbs_convert_ber.simps [code]

text \<open>\<open>*out\<close> with \<open>*out_storage\<close>, or failure, and what is left of the input.\<close>

definition CBS_asn1_ber_to_der :: "sys_malloc \<Rightarrow> cbs \<Rightarrow> ((cbs \<times> oblock option) option \<times> cbs) option" where
  "CBS_asn1_ber_to_der mal inp = (case cbs_find_ber inp 0 of
      None \<Rightarrow> None
    | Some (False, _) \<Rightarrow> Some (None, inp)
    | Some (True, False) \<Rightarrow> (case CBS_get_any_asn1_element inp of
          (None, inp1) \<Rightarrow> Some (None, inp1)
        | (Some (out, _, _), inp1) \<Rightarrow> Some (Some (out, None), inp1))
    | Some (True, True) \<Rightarrow> (case CBB_init mal (CBS_len inp) of
          (False, _) \<Rightarrow> Some (None, inp)
        | (True, cbb) \<Rightarrow> map_option
            (\<lambda>(ok, inp1, cbb1). (if \<not> ok then None
               else case fst (CBB_finish mal True 0 cbb1) of
                   None \<Rightarrow> None
                 | Some (storage, len) \<Rightarrow>
                     Some (case storage of None \<Rightarrow> [] | Some blk \<Rightarrow> take (unat len) (ob_data blk), storage), inp1))
            (cbs_convert_ber mal 0 0 False 0 inp cbb)))"

section \<open>Implicitly tagged strings\<close>

text \<open>The loop over the chunks of a constructed string.\<close>

partial_function (option) implicit_chunks :: "sys_malloc \<Rightarrow> u32 \<Rightarrow> cbs \<Rightarrow> cbb \<Rightarrow> (bool \<times> cbb) option" where
  "implicit_chunks mal inner_tag child result =
    (if CBS_len child = 0 then Some (True, result)
     else case CBS_get_asn1 inner_tag child of
         (None, _) \<Rightarrow> Some (False, result)
       | (Some chunk, child1) \<Rightarrow> (case CBB_add_bytes mal 0 chunk result of (added, result1) \<Rightarrow>
             if \<not> added then Some (False, result1)
             else implicit_chunks mal inner_tag child1 result1))"

declare implicit_chunks.simps [code]

definition CBS_get_asn1_implicit_string ::
  "sys_malloc \<Rightarrow> cbs \<Rightarrow> u32 \<Rightarrow> u32 \<Rightarrow> ((cbs \<times> oblock option) option \<times> cbs) option" where
  "CBS_get_asn1_implicit_string mal inp outer_tag inner_tag =
    (if CBS_peek_asn1_tag outer_tag inp
     then (case CBS_get_asn1 outer_tag inp of
         (None, inp1) \<Rightarrow> Some (None, inp1) | (Some out, inp1) \<Rightarrow> Some (Some (out, None), inp1))
     else case CBB_init mal (CBS_len inp) of
         (False, _) \<Rightarrow> Some (None, inp)
       | (True, result) \<Rightarrow> (case CBS_get_asn1 (outer_tag OR CBS_ASN1_CONSTRUCTED) inp of
             (None, inp1) \<Rightarrow> Some (None, inp1)
           | (Some child, inp1) \<Rightarrow> map_option
               (\<lambda>(ok, result1). (if \<not> ok then None
                  else case fst (CBB_finish mal True 0 result1) of
                      None \<Rightarrow> None
                    | Some (storage, len) \<Rightarrow>
                        Some (case storage of None \<Rightarrow> [] | Some blk \<Rightarrow> take (unat len) (ob_data blk), storage), inp1))
               (implicit_chunks mal inner_tag child result)))"

end
