(* ===== verification/Ber_Props.thy ===== *)
theory Ber_Props
  imports Ber Cbb_Live
begin

text \<open>
  The conversion of BER in \<open>crypto/bytestring/ber.c\<close>: it always ends, what it writes is the DER
  form of what it read, and how the search for BER forgets what it has found.
\<close>

section \<open>Elements in BER\<close>

definition constructed :: "u32 \<Rightarrow> bool" where
  "constructed tag \<longleftrightarrow> tag AND CBS_ASN1_CONSTRUCTED \<noteq> 0"

definition definite :: "cbs \<Rightarrow> u32 \<Rightarrow> u64 \<Rightarrow> bytes \<Rightarrow> bool" where
  "definite out tag hl body \<longleftrightarrow> length body < 4294967296 \<and> out = der_element tag body
    \<and> hl = word_of_nat (length (der_header tag (length body)))"

definition indefinite :: "cbs \<Rightarrow> u32 \<Rightarrow> u64 \<Rightarrow> bool" where
  "indefinite out tag hl \<longleftrightarrow> constructed tag \<and> out = der_tag tag @ [0x80] \<and> hl = word_of_nat (length out)"

lemma der_tag_bounds: "Suc 0 \<le> length (der_tag tag)" "length (der_tag tag) \<le> 11"
  using length_der_tag [of tag] by (simp_all add: der_tag_def Let_def)

lemma ber_element:
  assumes "length c < 18446744073709551616"
    and "CBS_get_any_ber_asn1_element c = (Some (out, tag, hl), c')"
  shows "c = out @ c' \<and> ((\<exists>body. definite out tag hl body) \<or> indefinite out tag hl)"
proof -
  obtain b h2 where p: "parse_asn1_tag c = (Some tag, b # h2)"
    using assms(2) by (auto simp: CBS_get_any_ber_asn1_element_def cbs_get_any_asn1_element_def Let_def
        CBS_get_u8_def cbs_get_def neq_Nil_conv Suc_le_eq
        split: prod.splits option.splits if_splits)
  show ?thesis
  proof (cases "b = 0x80 \<and> constructed tag")
    case True
    have c: "c = (der_tag tag @ [0x80]) @ h2" using parse_tagD [OF p] True by simp
    have hl: "CBS_len c - CBS_len h2 = word_of_nat (length (der_tag tag @ [0x80 :: u8]))"
      using CBS_len_append [of "der_tag tag @ [0x80]" h2] c by simp
    have "unat (CBS_len c - CBS_len h2) = length (der_tag tag @ [0x80 :: u8])"
      unfolding hl using der_tag_bounds(2) [of tag] by (intro unat_word_of_nat_u64) simp
    then have "CBS_get_bytes (CBS_len c - CBS_len h2) c = (Some (der_tag tag @ [0x80]), h2)"
      unfolding CBS_get_bytes_def by (subst (2) c) (rule cbs_get_append)
    then show ?thesis
      using assms(2) p True c hl
      by (auto simp: CBS_get_any_ber_asn1_element_def cbs_get_any_asn1_element_def Let_def
          constructed_def indefinite_def)
  next
    case False
    have z: "\<not> constructed tag" if "b AND 0x80 \<noteq> 0" "ucast (b AND 0x7f) = (0 :: u64)"
    proof -
      have "b AND 0x7f = 0"
      proof (rule bit_word_eqI)
        fix n assume n: "n < LENGTH(8)"
        have "bit (ucast (b AND 0x7f) :: u64) n = bit (0 :: u64) n" by (simp only: that(2))
        then show "bit (b AND 0x7f) n = bit 0 n" using n by (simp add: bit_simps)
      qed
      then have "b = 0x80" using long_form_byteD [OF that(1)] by simp
      then show ?thesis using False by simp
    qed
    have "cbs_get_any_asn1_element True c = cbs_get_any_asn1_element False c"
      using z by (auto simp: cbs_get_any_asn1_element_def p Let_def constructed_def)
    then have "CBS_get_any_asn1_element c = (Some (out, tag, hl), c')"
      using assms(2) by (simp add: CBS_get_any_ber_asn1_element_def CBS_get_any_asn1_element_def)
    then show ?thesis using element_iff [OF assms(1)] by (auto simp: definite_def)
  qed
qed
lemma definite_lengths:
  assumes "definite out tag hl body"
  shows "unat hl = length (der_header tag (length body))" "length out = unat hl + length body"
    "2 \<le> unat hl" "unat hl \<le> 16" "out = der_header tag (length body) @ body"
proof -
  have o: "out = der_header tag (length body) @ body" using assms by (simp add: definite_def der_element_def)
  have "length (der_header tag (length body)) \<le> 16" "2 \<le> length (der_header tag (length body))"
    using der_tag_bounds [of tag] der_len_len_bounds [of "length body"]
    by (auto simp: der_header_def der_length_def)
  moreover have "hl = word_of_nat (length (der_header tag (length body)))" using assms by (simp add: definite_def)
  ultimately have h: "unat hl = length (der_header tag (length body))" "2 \<le> unat hl" "unat hl \<le> 16" by simp_all
  then show "unat hl = length (der_header tag (length body))" "2 \<le> unat hl" "unat hl \<le> 16"
    "out = der_header tag (length body) @ body" using o by simp_all
  show "length out = unat hl + length body" unfolding o h(1) by simp
qed

lemma definite_skip: "definite out tag hl body \<Longrightarrow> CBS_skip hl out = (True, body)"
  by (simp add: definite_def skip_header)

lemma is_indefinite_iff:
  "definite out tag hl body \<Longrightarrow> \<not> is_indefinite hl out" "indefinite out tag hl \<Longrightarrow> is_indefinite hl out"
proof -
  assume d: "definite out tag hl body"
  note l = definite_lengths [OF d]
  show "\<not> is_indefinite hl out"
  proof
    assume i: "is_indefinite hl out"
    then have "unat (CBS_len out) = unat hl" by (simp add: is_indefinite_def)
    moreover have "unat (CBS_len out) = length out"
      unfolding CBS_len_def using d l(2,4) by (intro unat_word_of_nat_u64) (simp add: definite_def)
    ultimately have "body = []" using l(2) by simp
    then have o: "out = der_tag tag @ [0]" "unat hl = Suc (length (der_tag tag))"
      using l(1,5) by (simp_all add: der_header_def der_length_def)
    have "hl \<noteq> 0" using o(2) by auto
    then have "unat (hl - 1) = length (der_tag tag)" using o(2) unat_minus_one [of hl] by simp
    then show False using i o(1) by (simp add: is_indefinite_def nth_or_def nth_append)
  qed
next
  assume i: "indefinite out tag hl"
  then have o: "out = der_tag tag @ [0x80]" "hl = word_of_nat (Suc (length (der_tag tag)))"
    by (simp_all add: indefinite_def)
  have "unat hl = Suc (length (der_tag tag))"
    unfolding o(2) using der_tag_bounds [of tag] by (intro unat_word_of_nat_u64) simp
  note o = o(1) this
  have "hl \<noteq> 0" using o(2) by auto
  then have "unat (hl - 1) = length (der_tag tag)" "0 < hl"
    using o(2) unat_minus_one [of hl] by (simp_all add: word_less_nat_alt)
  then show "is_indefinite hl out"
    using i o by (simp add: is_indefinite_def nth_or_def nth_append CBS_len_def indefinite_def)
qed

lemma memcmp_two_zeros: "length bs = 2 \<Longrightarrow> memcmp_sign bs [0, 0] = 0 \<longleftrightarrow> bs = [0, 0]"
  by (rule memcmp_sign_eq) simp

lemma is_eoc_iff:
  "definite out tag hl body \<Longrightarrow> is_eoc hl out \<longleftrightarrow> tag = 0 \<and> body = []" "indefinite out tag hl \<Longrightarrow> \<not> is_eoc hl out"
proof -
  assume d: "definite out tag hl body"
  note l = definite_lengths [OF d]
  have z: "der_element 0 [] = [0, 0]" by (simp add: der_element_Cons_tag der_tag_def der_length_def)
  have "length out < 18446744073709551616" using d l by (simp add: definite_def)
  then have n: "CBS_len out = 2 \<longleftrightarrow> length out = 2" by (simp add: CBS_len_def word_unat_eq_iff)
  show "is_eoc hl out \<longleftrightarrow> tag = 0 \<and> body = []"
  proof
    assume "is_eoc hl out"
    then have "out = [0, 0]" using n memcmp_two_zeros [of out] by (auto simp: is_eoc_def)
    moreover have "CBS_get_any_asn1 (out @ []) = (Some (body, tag), [])"
      using any_asn1_iff [of "out @ []" body tag "[]"] d \<open>length out < _\<close> by (simp add: definite_def)
    moreover have "CBS_get_any_asn1 ([0, 0] @ []) = (Some ([], 0), [])"
      using any_asn1_iff [of "[0, 0] @ []" "[]" 0 "[]"] z by simp
    ultimately show "tag = 0 \<and> body = []" by simp
  next
    assume "tag = 0 \<and> body = []"
    then have "out = [0, 0]" "hl = 2"
      using d z by (simp_all add: definite_def der_header_def der_tag_def der_length_def)
    then show "is_eoc hl out" by (simp add: is_eoc_def CBS_len_def)
  qed
next
  assume i: "indefinite out tag hl"
  show "\<not> is_eoc hl out"
  proof -
    from i have o: "out = der_tag tag @ [0x80]" by (simp add: indefinite_def)
    then have "unat (CBS_len out) = length out"
      unfolding CBS_len_def using der_tag_bounds(2) [of tag] by (intro unat_word_of_nat_u64) simp
    moreover have "out \<noteq> [0, 0]" using o by (auto simp: append_eq_Cons_conv)
    ultimately show ?thesis using memcmp_two_zeros [of out] by (auto simp: is_eoc_def)
  qed
qed

lemma CBS_len_zero: "length c < 18446744073709551616 \<Longrightarrow> CBS_len c = 0 \<longleftrightarrow> c = []"
  by (simp add: CBS_len_def word_unat_eq_iff)

section \<open>The walks end\<close>

lemma ber_shorter:
  assumes "length c < 18446744073709551616"
    and "CBS_get_any_ber_asn1_element c = (Some (out, tag, hl), c')"
  shows "length c' < length c" "\<not> is_indefinite hl out \<Longrightarrow> CBS_skip hl out = (True, body) \<Longrightarrow> length body < length c"
proof -
  from ber_element [OF assms] have c: "c = out @ c'" "(\<exists>body. definite out tag hl body) \<or> indefinite out tag hl"
    by blast+
  then have "out \<noteq> []" using definite_lengths(2,3) by (fastforce simp: indefinite_def)
  then show "length c' < length c" using c(1) by simp
  show "length body < length c" if i: "\<not> is_indefinite hl out" and s: "CBS_skip hl out = (True, body)"
  proof -
    obtain b where d: "definite out tag hl b" using c(2) is_indefinite_iff(2) i by blast
    then have "b = body" using s definite_skip by simp
    then show ?thesis using definite_lengths(2,3) [OF d] c(1) by simp
  qed
qed

lemma find_ber_ends: "length inp < 18446744073709551616 \<Longrightarrow> \<exists>r. find_ber_loop depth found inp = Some r"
proof (induction inp arbitrary: depth found rule: length_induct)
  case (1 inp)
  show ?case
  proof (cases "CBS_get_any_ber_asn1_element inp")
    case (Pair r inp1)
    show ?thesis
    proof (cases r)
      case None
      then show ?thesis using Pair by (subst find_ber_loop.simps) auto
    next
      case (Some e)
      obtain out tag hl where e: "e = (out, tag, hl)" by (metis prod_cases3)
      have g: "CBS_get_any_ber_asn1_element inp = (Some (out, tag, hl), inp1)" using Pair Some e by simp
      note sh = ber_shorter [OF 1(2) g]
      have ih: "\<exists>r. find_ber_loop k f x = Some r" if "length x < length inp" for k f x
        by (rule 1(1) [rule_format, OF that]) (use that 1(2) in linarith)
      have ih1: "\<exists>r. find_ber_loop depth f inp1 = Some r" for f by (rule ih [OF sh(1)])
      obtain s body where s: "CBS_skip hl out = (s, body)" by fastforce
      have ih2: "\<exists>r. find_ber_loop (Suc depth) False body = Some r" if "\<not> is_indefinite hl out" s
        using ih [OF sh(2) [OF that(1)]] s that(2) by simp
      from ih1 obtain r1 where r1: "\<And>f. find_ber_loop depth f inp1 = Some (r1 f)" by metis
      show ?thesis
      proof (cases "\<not> is_indefinite hl out \<and> s")
        case True
        then obtain ok f where "find_ber_loop (Suc depth) False body = Some (ok, f)" using ih2 by auto
        then show ?thesis using True r1 by (subst find_ber_loop.simps) (auto simp: g s)
      next
        case False
        then show ?thesis using r1 by (subst find_ber_loop.simps) (auto simp: g s)
      qed
    qed
  qed
qed

text \<open>The part of the conversion that writes the contents of one element.\<close>

definition convert_body :: "sys_malloc \<Rightarrow> u64 \<Rightarrow> cbs \<Rightarrow> u32 \<Rightarrow> cbs \<Rightarrow> nat \<Rightarrow> u32 \<Rightarrow> nat \<Rightarrow> cbb
    \<Rightarrow> (bool \<times> cbs \<times> cbb) option" where
  "convert_body mal header_len contents tag inp1 d1 child_string_tag depth out1 =
    (if is_indefinite header_len contents
     then cbs_convert_ber mal d1 child_string_tag True (Suc depth) inp1 out1
     else case CBS_skip header_len contents of (skipped, body) \<Rightarrow>
           if \<not> skipped then Some (False, inp1, out1)
           else if tag AND CBS_ASN1_CONSTRUCTED \<noteq> 0
           then Option.bind (cbs_convert_ber mal d1 child_string_tag False (Suc depth) body out1)
             (\<lambda>(ok, _, out2). Some (ok, inp1, out2))
           else (case CBB_add_bytes mal d1 body out1 of (ok, out2) \<Rightarrow> Some (ok, inp1, out2)))"

lemma convert_ber_step:
  assumes "\<not> depth > kMaxDepth" "CBS_len inp \<noteq> 0"
    "CBS_get_any_ber_asn1_element inp = (Some (contents, tag, header_len), inp1)"
    "\<not> is_eoc header_len contents" "open_contents mal d string_tag tag out = (Some (d1, child_string_tag), out1)"
  shows "cbs_convert_ber mal d string_tag looking_for_eoc depth inp out =
    Option.bind (convert_body mal header_len contents tag inp1 d1 child_string_tag depth out1)
      (\<lambda>(ok, inp2, out2). if \<not> ok then Some (False, inp2, out2)
        else case CBB_flush mal d out2 of (flushed, out3) \<Rightarrow>
          if \<not> flushed then Some (False, inp2, out3)
          else cbs_convert_ber mal d string_tag looking_for_eoc depth inp2 out3)"
  using assms by (subst cbs_convert_ber.simps) (simp add: convert_body_def)

lemma ber_failed: "CBS_get_any_ber_asn1_element c = (None, c') \<Longrightarrow> c' = c"
  by (auto simp: CBS_get_any_ber_asn1_element_def cbs_get_any_asn1_element_def Let_def CBS_get_bytes_def cbs_get_def
      split: prod.splits option.splits if_splits)

lemma convert_ber_ends:
  "length inp < 18446744073709551616
    \<Longrightarrow> \<exists>ok inp' out'. cbs_convert_ber mal d s look depth inp out = Some (ok, inp', out') \<and> length inp' \<le> length inp"
proof (induction inp arbitrary: d s look depth out rule: length_induct)
  case (1 inp)
  have ih: "\<exists>ok i o'. cbs_convert_ber mal d' s' look' depth' x out' = Some (ok, i, o') \<and> length i \<le> length x"
    if "length x < length inp" for x d' s' look' depth' out'
    by (rule 1(1) [rule_format, OF that]) (use that 1(2) in linarith)
  obtain r inp1 where g0: "CBS_get_any_ber_asn1_element inp = (r, inp1)" by fastforce
  show ?case
  proof (cases r)
    case None
    then have "length inp1 \<le> length inp" using ber_failed [OF g0 [unfolded None]] by simp
    then show ?thesis using g0 None by (subst cbs_convert_ber.simps) auto
  next
    case (Some e)
    obtain cont tag hl where e: "e = (cont, tag, hl)" by (metis prod_cases3)
    have g: "CBS_get_any_ber_asn1_element inp = (Some (cont, tag, hl), inp1)" using g0 Some e by simp
    note sh = ber_shorter [OF 1(2) g]
    obtain op out1 where op: "open_contents mal d s tag out = (op, out1)" by fastforce
    show ?thesis
    proof (cases "depth > kMaxDepth \<or> CBS_len inp = 0 \<or> is_eoc hl cont \<or> op = None")
      case True
      then show ?thesis using g op sh(1) by (subst cbs_convert_ber.simps) auto
    next
      case False
      then obtain d1 cs where o1: "op = Some (d1, cs)" by auto
      have after: "\<exists>ok i o'. (if \<not> ok1 then Some (False, i1, o1) else case CBB_flush mal d o1 of (flushed, o2) \<Rightarrow>
            if \<not> flushed then Some (False, i1, o2) else cbs_convert_ber mal d s look depth i1 o2) = Some (ok, i, o')
          \<and> length i \<le> length inp" if i1: "length i1 \<le> length inp1" for ok1 i1 o1
      proof -
        obtain fl o2 where fl: "CBB_flush mal d o1 = (fl, o2)" by fastforce
        have l: "length i1 < length inp" using i1 sh(1) by linarith
        obtain ok i o' where "cbs_convert_ber mal d s look depth i1 o2 = Some (ok, i, o')" "length i \<le> length i1"
          using ih [OF l] by blast
        then show ?thesis using fl l by auto
      qed
      have step: "\<exists>ok1 i1 o2. convert_body mal hl cont tag inp1 d1 cs depth out1 = Some (ok1, i1, o2) \<and> length i1 \<le> length inp1"
      proof (cases "is_indefinite hl cont")
        case True
        then show ?thesis using ih [OF sh(1), of d1 cs True "Suc depth" out1] by (auto simp: convert_body_def)
      next
        case ni: False
        obtain sk body where sk: "CBS_skip hl cont = (sk, body)" by fastforce
        show ?thesis
        proof (cases "sk \<and> tag AND CBS_ASN1_CONSTRUCTED \<noteq> 0")
          case True
          then have "length body < length inp" using sh(2) [OF ni] sk by simp
          from ih [OF this, of d1 cs False "Suc depth" out1] obtain ok i o'
            where "cbs_convert_ber mal d1 cs False (Suc depth) body out1 = Some (ok, i, o')" by blast
          then show ?thesis using True ni sk by (simp add: convert_body_def)
        next
          case False
          then show ?thesis using ni sk by (auto simp: convert_body_def split: prod.splits)
        qed
      qed
      then obtain ok1 i1 o2 where st: "convert_body mal hl cont tag inp1 d1 cs depth out1 = Some (ok1, i1, o2)"
        "length i1 \<le> length inp1" by blast
      have "\<not> depth > kMaxDepth" "CBS_len inp \<noteq> 0" "\<not> is_eoc hl cont" using False by simp_all
      note step = convert_ber_step [OF this(1,2) g this(3) op [unfolded o1], of look]
      show ?thesis using after [OF st(2), of ok1 o2] unfolding step st(1) by simp
    qed
  qed
qed
section \<open>What BER stands for\<close>

text \<open>
  Inside a constructed string of tag \<open>s\<close>, elements have this tag, and are cut to their contents;
  elsewhere \<open>s\<close> is 0, and a constructed string becomes a primitive one.
\<close>

definition primitive_tag :: "u32 \<Rightarrow> u32" where
  "primitive_tag tag = tag AND NOT CBS_ASN1_CONSTRUCTED"

definition matches :: "u32 \<Rightarrow> u32 \<Rightarrow> bool" where
  "matches s tag \<longleftrightarrow> s = 0 \<or> primitive_tag tag = s"

definition string_tag_below :: "u32 \<Rightarrow> u32 \<Rightarrow> u32" where
  "string_tag_below s tag =
    (if s = 0 \<and> constructed tag \<and> is_string_type tag then primitive_tag tag else s)"

definition rewritten :: "u32 \<Rightarrow> u32 \<Rightarrow> bytes \<Rightarrow> bytes" where
  "rewritten s tag bs = (if s \<noteq> 0 then bs
    else der_element (if constructed tag \<and> is_string_type tag then primitive_tag tag else tag) bs)"

inductive ber :: "u32 \<Rightarrow> bytes \<Rightarrow> bytes \<Rightarrow> bool" where
  ber_Nil: "ber s [] []"
| ber_primitive: "\<not> constructed tag \<Longrightarrow> matches s tag \<Longrightarrow> \<not> (tag = 0 \<and> body = []) \<Longrightarrow> length body < 4294967296
    \<Longrightarrow> ber s c out \<Longrightarrow> ber s (der_element tag body @ c) (rewritten s tag body @ out)"
| ber_definite: "constructed tag \<Longrightarrow> matches s tag \<Longrightarrow> length body < 4294967296
    \<Longrightarrow> ber (string_tag_below s tag) body inner
    \<Longrightarrow> ber s c out \<Longrightarrow> ber s (der_element tag body @ c) (rewritten s tag inner @ out)"
| ber_indefinite: "constructed tag \<Longrightarrow> matches s tag \<Longrightarrow> ber (string_tag_below s tag) body inner
    \<Longrightarrow> ber s c out \<Longrightarrow> ber s (der_tag tag @ [0x80] @ body @ [0, 0] @ c) (rewritten s tag inner @ out)"

text \<open>DER as far as the conversion goes: definite lengths, and strings that are primitive.\<close>

inductive der_text :: "bytes \<Rightarrow> bool" where
  der_Nil: "der_text []"
| der_primitive: "\<not> constructed tag \<Longrightarrow> der_text c \<Longrightarrow> der_text (der_element tag body @ c)"
| der_constructed: "constructed tag \<Longrightarrow> \<not> is_string_type tag \<Longrightarrow> der_text body \<Longrightarrow> der_text c
    \<Longrightarrow> der_text (der_element tag body @ c)"

lemma not_constructed_cut: "\<not> constructed (primitive_tag tag)"
proof -
  have "primitive_tag tag AND CBS_ASN1_CONSTRUCTED = 0"
    unfolding primitive_tag_def by (rule bit_word_eqI) (simp add: bit_simps)
  then show ?thesis by (simp add: constructed_def)
qed

lemma ber_der_text: "ber s inp out \<Longrightarrow> s = 0 \<Longrightarrow> der_text out"
proof (induction rule: ber.induct)
  case (ber_primitive tag s body c out)
  then show ?case by (simp add: rewritten_def der_primitive)
next
  case (ber_definite tag s body inner c out)
  then show ?case
    by (auto simp: rewritten_def string_tag_below_def not_constructed_cut intro: der_primitive der_constructed)
next
  case (ber_indefinite tag s body inner c out)
  then show ?case
    by (auto simp: rewritten_def string_tag_below_def not_constructed_cut intro: der_primitive der_constructed)
qed (rule der_Nil)

section \<open>The conversion writes what BER stands for\<close>

lemma close_element:
  assumes m: "malloc_ok mal" and s: "settled d st" and o: "CBB_add_asn1 mal d tag st = (True, st1)"
    and i: "settled (Suc d) st2" "cbb_kids st2 = cbb_kids st1" "cbb_contents st2 = cbb_contents st1 @ body"
    and f: "CBB_flush mal d st2 = (True, st')"
  shows "settled d st'" "cbb_kids st' = cbb_kids st" "cbb_contents st' = cbb_contents st @ der_element tag body"
proof -
  let ?g = "\<lambda>x. if x = st1 then (True, st2) else (False, x)"
  have "emits (Suc d) ?g body" using i by (auto intro!: emitsI split: if_splits)
  note e = emits_asn1 [OF m this, of tag]
  have "and_then (CBB_add_asn1 mal d tag) (and_then ?g (CBB_flush mal d)) st = (True, st')"
    using o f by (simp add: and_then_def)
  from emitsD [OF e s this] show "settled d st'" "cbb_kids st' = cbb_kids st"
    "cbb_contents st' = cbb_contents st @ der_element tag body" .
qed

lemma open_close:
  assumes m: "malloc_ok mal" and s: "settled d st" and o: "open_contents mal d s tag st = (Some (d1, cs), st1)"
  shows "matches s tag" "cs = string_tag_below s tag" "settled d1 st1"
    and "settled d1 st2 \<Longrightarrow> cbb_kids st2 = cbb_kids st1 \<Longrightarrow> cbb_contents st2 = cbb_contents st1 @ inner
      \<Longrightarrow> CBB_flush mal d st2 = (True, st')
      \<Longrightarrow> settled d st' \<and> cbb_kids st' = cbb_kids st \<and> cbb_contents st' = cbb_contents st @ rewritten s tag inner"
proof -
  have "matches s tag \<and> cs = string_tag_below s tag \<and> settled d1 st1 \<and>
    (settled d1 st2 \<longrightarrow> cbb_kids st2 = cbb_kids st1 \<longrightarrow> cbb_contents st2 = cbb_contents st1 @ inner
      \<longrightarrow> CBB_flush mal d st2 = (True, st')
      \<longrightarrow> settled d st' \<and> cbb_kids st' = cbb_kids st \<and> cbb_contents st' = cbb_contents st @ rewritten s tag inner)"
  proof (cases "s = 0")
    case True
    define t where "t = (if constructed tag \<and> is_string_type tag then primitive_tag tag else tag)"
    have a: "CBB_add_asn1 mal d t st = (True, st1)" "d1 = Suc d" "cs = string_tag_below s tag"
      using o True by (auto simp: open_contents_def Let_def t_def constructed_def string_tag_below_def primitive_tag_def
          split: prod.splits bool.splits if_splits)
    have r: "rewritten s tag inner = der_element t inner" using True by (simp add: rewritten_def t_def)
    show ?thesis
      using a True asn1_opens [OF m s a(1)] close_element [OF m s a(1), of st2 inner st']
      unfolding r by (auto simp: matches_def)
  next
    case False
    then have "d1 = d" "cs = s" "st1 = st" "matches s tag"
      using o by (auto simp: open_contents_def matches_def primitive_tag_def split: if_splits)
    then show ?thesis
      using False s flush_settled [of d st2 mal] by (auto simp: string_tag_below_def rewritten_def)
  qed
  then show "matches s tag" "cs = string_tag_below s tag" "settled d1 st1"
    "settled d1 st2 \<Longrightarrow> cbb_kids st2 = cbb_kids st1 \<Longrightarrow> cbb_contents st2 = cbb_contents st1 @ inner
      \<Longrightarrow> CBB_flush mal d st2 = (True, st')
      \<Longrightarrow> settled d st' \<and> cbb_kids st' = cbb_kids st \<and> cbb_contents st' = cbb_contents st @ rewritten s tag inner"
    by blast+
qed

definition converts :: "nat \<Rightarrow> u32 \<Rightarrow> bool \<Rightarrow> cbs \<Rightarrow> cbb \<Rightarrow> cbs \<Rightarrow> cbb \<Rightarrow> bool" where
  "converts d s look inp st inp' st' \<longleftrightarrow> (\<exists>pre out. ber s pre out \<and> settled d st' \<and> cbb_kids st' = cbb_kids st
    \<and> cbb_contents st' = cbb_contents st @ out
    \<and> (if look then inp = pre @ [0, 0] @ inp' else inp = pre \<and> inp' = []))"

text \<open>One element, by its three forms.\<close>

lemma convert_element:
  assumes m: "malloc_ok mal" and l: "length inp < 9223372036854775808"
    and ih: "\<And>x d s look depth st i st'. length x < length inp \<Longrightarrow> settled d st
      \<Longrightarrow> cbs_convert_ber mal d s look depth x st = Some (True, i, st') \<Longrightarrow> converts d s look x st i st'"
    and g: "CBS_get_any_ber_asn1_element inp = (Some (cont, tag, hl), inp1)" and e: "\<not> is_eoc hl cont"
    and o: "settled d1 st1" "cs = string_tag_below s tag" "matches s tag"
    and b: "convert_body mal hl cont tag inp1 d1 cs depth st1 = Some (True, inp2, st2)"
  shows "\<exists>pre inner. (\<forall>c out. ber s c out \<longrightarrow> ber s (pre @ c) (rewritten s tag inner @ out))
    \<and> pre \<noteq> [] \<and> inp = pre @ inp2 \<and> settled d1 st2 \<and> cbb_kids st2 = cbb_kids st1 \<and> cbb_contents st2 = cbb_contents st1 @ inner"
proof -
  have l': "length inp < 18446744073709551616" using l by simp
  note sh = ber_shorter [OF l' g]
  from ber_element [OF l' g] have c: "inp = cont @ inp1" by simp
  from ber_element [OF l' g] consider (ind) "indefinite cont tag hl" | (def) body where "definite cont tag hl body"
    by blast
  then show ?thesis
  proof cases
    case ind
    then have "cbs_convert_ber mal d1 cs True (Suc depth) inp1 st1 = Some (True, inp2, st2)"
      using b is_indefinite_iff(2) by (simp add: convert_body_def)
    from ih [OF sh(1) o(1) this] obtain pre out where p: "ber cs pre out" "settled d1 st2"
      "cbb_kids st2 = cbb_kids st1" "cbb_contents st2 = cbb_contents st1 @ out" "inp1 = pre @ [0, 0] @ inp2"
      by (auto simp: converts_def)
    have t: "constructed tag" "cont = der_tag tag @ [0x80]" using ind by (simp_all add: indefinite_def)
    show ?thesis
    proof (intro exI conjI)
      show "der_tag tag @ [0x80] @ pre @ [0, 0] \<noteq> []" by simp
      show "\<forall>c ou. ber s c ou \<longrightarrow> ber s ((der_tag tag @ [0x80] @ pre @ [0, 0]) @ c) (rewritten s tag out @ ou)"
        using ber_indefinite [OF t(1) o(3) p(1) [unfolded o(2)]] by simp
    qed (use c t p in simp_all)
  next
    case def
    have d: "length body < 4294967296" "cont = der_element tag body" using def by (simp_all add: definite_def)
    note ni = is_indefinite_iff(1) [OF def] and sk = definite_skip [OF def]
    show ?thesis
    proof (cases "constructed tag")
      case True
      then obtain i where r: "cbs_convert_ber mal d1 cs False (Suc depth) body st1 = Some (True, i, st2)" "inp2 = inp1"
        using b ni sk by (auto simp: convert_body_def constructed_def bind_eq_Some_conv split: prod.splits)
      from ih [OF sh(2) [OF ni sk] o(1) r(1)] obtain out where p: "ber cs body out" "settled d1 st2"
        "cbb_kids st2 = cbb_kids st1" "cbb_contents st2 = cbb_contents st1 @ out"
        by (auto simp: converts_def)
      show ?thesis
      proof (intro exI conjI)
        show "cont \<noteq> []" using sh(1) c by auto
        show "\<forall>c ou. ber s c ou \<longrightarrow> ber s (cont @ c) (rewritten s tag out @ ou)"
          using ber_definite [OF True o(3) d(1) p(1) [unfolded o(2)]] d(2) by simp
      qed (use c p r(2) in simp_all)
    next
      case False
      then have r: "CBB_add_bytes mal d1 body st1 = (True, st2)" "inp2 = inp1"
        using b ni sk by (auto simp: convert_body_def constructed_def split: prod.splits)
      have "length body < 9223372036854775808" using d(1) by simp
      note p = emitsD [OF emits_add_bytes [OF m this] o(1) r(1)]
      have ne: "\<not> (tag = 0 \<and> body = [])" using is_eoc_iff(1) [OF def] e by blast
      show ?thesis
      proof (intro exI conjI)
        show "cont \<noteq> []" using sh(1) c by auto
        show "\<forall>c ou. ber s c ou \<longrightarrow> ber s (cont @ c) (rewritten s tag body @ ou)"
          using ber_primitive [OF False o(3) ne d(1)] d(2) by simp
      qed (use c p r(2) in simp_all)
    qed
  qed
qed

lemma convert_ber_sound:
  assumes m: "malloc_ok mal"
  shows "length inp < 9223372036854775808 \<Longrightarrow> settled d st
    \<Longrightarrow> cbs_convert_ber mal d s look depth inp st = Some (True, inp', st') \<Longrightarrow> converts d s look inp st inp' st'"
proof (induction inp arbitrary: d st s look depth inp' st' rule: length_induct)
  case (1 inp)
  have ih: "converts d s look x st i st'" if "length x < length inp" "settled d st"
    "cbs_convert_ber mal d s look depth x st = Some (True, i, st')" for x d s look depth st i st'
    by (rule 1(1) [rule_format, OF that(1) _ that(2,3)]) (use that(1) 1(2) in linarith)
  have nd: "\<not> kMaxDepth < depth" using 1(4) by (auto simp: cbs_convert_ber.simps [of mal d s look depth inp st])
  have l: "length inp < 18446744073709551616" using 1(2) by simp
  show ?case
  proof (cases "inp = []")
    case True
    then have "CBS_len inp = 0" by (simp add: CBS_len_def)
    then have "\<not> look" "inp' = inp" "st' = st"
      using 1(4) nd by (auto simp: cbs_convert_ber.simps [of mal d s look depth inp st])
    then show ?thesis using True 1(3) ber_Nil by (auto simp: converts_def)
  next
    case False
    then have ln: "CBS_len inp \<noteq> 0" using CBS_len_zero [OF l] by simp
    then obtain cont tag hl inp1 where g: "CBS_get_any_ber_asn1_element inp = (Some (cont, tag, hl), inp1)"
      using 1(4) nd by (auto simp: cbs_convert_ber.simps [of mal d s look depth inp st] split: prod.splits option.splits)
    show ?thesis
    proof (cases "is_eoc hl cont")
      case True
      then have r: "look" "inp' = inp1" "st' = st"
        using 1(4) nd ln g by (auto simp: cbs_convert_ber.simps [of mal d s look depth inp st])
      have "cont = [0, 0]" using True ber_element [OF l g] is_eoc_iff
        by (auto simp: definite_def der_element_Cons_tag der_tag_def der_length_def)
      then show ?thesis using r 1(3) ber_element [OF l g] ber_Nil by (auto simp: converts_def)
    next
      case ne: False
      obtain op st1 where op: "open_contents mal d s tag st = (op, st1)" by fastforce
      with 1(4) nd ln g ne obtain d1 cs where o1: "op = Some (d1, cs)"
        by (cases op) (auto simp: cbs_convert_ber.simps [of mal d s look depth inp st])
      note op = op [unfolded o1]
      note oc = open_close [OF m 1(3) op]
      from 1(4) [unfolded convert_ber_step [OF nd ln g ne op]] obtain inp2 st2 where
        b: "convert_body mal hl cont tag inp1 d1 cs depth st1 = Some (True, inp2, st2)"
        and fr: "(case CBB_flush mal d st2 of (flushed, st3) \<Rightarrow> if \<not> flushed then Some (False, inp2, st3)
          else cbs_convert_ber mal d s look depth inp2 st3) = Some (True, inp', st')"
        by (auto simp: bind_eq_Some_conv split: if_splits)
      obtain fl st3 where f0: "CBB_flush mal d st2 = (fl, st3)" by fastforce
      with fr have f: "CBB_flush mal d st2 = (True, st3)"
        and r: "cbs_convert_ber mal d s look depth inp2 st3 = Some (True, inp', st')"
        by (auto split: if_splits)
      have "\<exists>pre inner. (\<forall>c out. ber s c out \<longrightarrow> ber s (pre @ c) (rewritten s tag inner @ out))
        \<and> pre \<noteq> [] \<and> inp = pre @ inp2 \<and> settled d1 st2 \<and> cbb_kids st2 = cbb_kids st1
        \<and> cbb_contents st2 = cbb_contents st1 @ inner"
        by (rule convert_element [OF m 1(2) _ g ne oc(3,2,1) b]) (rule ih)
      then obtain pre inner where
        p: "\<forall>c out. ber s c out \<longrightarrow> ber s (pre @ c) (rewritten s tag inner @ out)" "inp = pre @ inp2" "pre \<noteq> []"
        "settled d1 st2" "cbb_kids st2 = cbb_kids st1" "cbb_contents st2 = cbb_contents st1 @ inner" by blast
      note q = oc(4) [OF p(4-6) f]
      have "length inp2 < length inp" using p(2,3) by simp
      from ih [OF this conjunct1 [OF q] r] q p(1,2) show ?thesis
        by (fastforce simp: converts_def split: if_splits)
    qed
  qed
qed

section \<open>The whole functions\<close>

lemma init_settled:
  assumes "malloc_ok mal" "unat n < 9223372036854775808" "CBB_init mal n = (True, st)"
  shows "settled 0 st" "cbb_contents st = []"
proof -
  have "cbb_ok st" using init_ok [OF assms(1), of n] assms(2,3) by simp
  then show "settled 0 st" "cbb_contents st = []"
    using assms(3)
    by (auto simp: settled_def CBB_init_def cbb_init_def Let_def cbb_contents_def bb_contents_def split: option.splits if_splits)
qed

lemma finish_contents:
  assumes "settled 0 st" "fst (CBB_finish mal True 0 st) = Some (storage, len)"
  shows "(case storage of None \<Rightarrow> [] | Some blk \<Rightarrow> take (unat len) (ob_data blk)) = cbb_contents st"
  using assms flush_settled [OF assms(1), of mal]
  by (auto simp: CBB_finish_def settled_def cbb_contents_def bb_contents_def bb_data_def split: option.splits)

lemma ber_to_der_cases:
  assumes m: "malloc_ok mal" and l: "length inp < 9223372036854775808"
    and r: "CBS_asn1_ber_to_der mal inp = Some (Some (out, storage), inp')"
  shows "(cbs_find_ber inp 0 = Some (True, True) \<and> inp' = [] \<and> ber 0 inp out)
    \<or> (cbs_find_ber inp 0 = Some (True, False) \<and> storage = None \<and> inp = out @ inp' \<and> (\<exists>tag body. out = der_element tag body))"
proof -
  obtain f where f: "cbs_find_ber inp 0 = Some (True, f)"
    using r by (auto simp: CBS_asn1_ber_to_der_def split: option.splits prod.splits bool.splits)
  show ?thesis
  proof (cases f)
    case True
    obtain ok cbb where i0: "CBB_init mal (CBS_len inp) = (ok, cbb)" by fastforce
    then have i: "CBB_init mal (CBS_len inp) = (True, cbb)"
      using r f True by (cases ok) (simp_all add: CBS_asn1_ber_to_der_def)
    obtain ok2 inp1 cbb1 where c0: "cbs_convert_ber mal 0 0 False 0 inp cbb = Some (ok2, inp1, cbb1)"
      using convert_ber_ends [of inp mal 0 0 False 0 cbb] l by auto
    then have c1: "cbs_convert_ber mal 0 0 False 0 inp cbb = Some (True, inp1, cbb1)"
      using r f True i by (cases ok2) (simp_all add: CBS_asn1_ber_to_der_def)
    obtain len where c2: "fst (CBB_finish mal True 0 cbb1) = Some (storage, len)" "inp' = inp1"
      "out = (case storage of None \<Rightarrow> [] | Some blk \<Rightarrow> take (unat len) (ob_data blk))"
      using r f True i c1 by (cases "fst (CBB_finish mal True 0 cbb1)") (auto simp: CBS_asn1_ber_to_der_def)
    note c = c1 c2
    have "unat (CBS_len inp) < 9223372036854775808" using l by (simp add: CBS_len_def)
    note s = init_settled [OF m this i]
    from convert_ber_sound [OF m l s(1) c(1)] s(2) finish_contents [OF _ c(2)] c(3,4) show ?thesis
      using f True by (auto simp: converts_def)
  next
    case False
    then obtain tag hl where "CBS_get_any_asn1_element inp = (Some (out, tag, hl), inp')" "storage = None"
      using r f by (auto simp: CBS_asn1_ber_to_der_def split: option.splits prod.splits)
    then show ?thesis using f False element_iff [of inp out tag hl inp'] l by auto
  qed
qed

lemma implicit_chunks_step:
  assumes "length child < 18446744073709551616"
  shows "implicit_chunks mal t child st = (if child = [] then Some (True, st)
    else case CBS_get_asn1 t child of
        (None, _) \<Rightarrow> Some (False, st)
      | (Some chunk, child1) \<Rightarrow> (case CBB_add_bytes mal 0 chunk st of (added, st1) \<Rightarrow>
          if \<not> added then Some (False, st1) else implicit_chunks mal t child1 st1))"
  using assms by (subst implicit_chunks.simps) (simp add: CBS_len_zero)

lemma implicit_chunks_ok:
  assumes m: "malloc_ok mal"
  shows "length child < 9223372036854775808 \<Longrightarrow> \<exists>ok st'. implicit_chunks mal t child st = Some (ok, st')
    \<and> (ok \<longrightarrow> settled 0 st \<longrightarrow> (\<exists>chunks. child = concat (map (der_element t) chunks)
          \<and> settled 0 st' \<and> cbb_contents st' = cbb_contents st @ concat chunks))"
proof (induction child arbitrary: st rule: length_induct)
  case (1 child)
  have l: "length child < 18446744073709551616" using 1(2) by simp
  note step = implicit_chunks_step [OF l, of mal t st]
  obtain r child1 where g: "CBS_get_asn1 t child = (r, child1)" by fastforce
  show ?case
  proof (cases "child = [] \<or> r = None")
    case True
    have "\<exists>chunks. [] = concat (map (der_element t) chunks) \<and> settled 0 st \<and> cbb_contents st = cbb_contents st @ concat chunks"
      if "settled 0 st" using that by (intro exI [of _ "[]"]) simp
    then show ?thesis using True step g by (cases "child = []") (rule exI [of _ True], force, rule exI [of _ False], force)
  next
    case False
    then obtain chunk where chunk: "r = Some chunk" by auto
    have c: "length chunk < 4294967296" "child = der_element t chunk @ child1"
      using get_asn1_iff [OF l, of t chunk child1] g chunk by simp_all
    have sh: "length child1 < length child" using c(2) der_element_nonempty by simp
    obtain ok1 st1 where a: "CBB_add_bytes mal 0 chunk st = (ok1, st1)" by fastforce
    show ?thesis
    proof (cases ok1)
      case t: True
      have "length child1 < 9223372036854775808" using sh 1(2) by linarith
      from 1(1) [rule_format, OF sh this, of st1] obtain ok st' where
        ih: "implicit_chunks mal t child1 st1 = Some (ok, st')"
        "ok \<longrightarrow> settled 0 st1 \<longrightarrow> (\<exists>chunks. child1 = concat (map (der_element t) chunks)
          \<and> settled 0 st' \<and> cbb_contents st' = cbb_contents st1 @ concat chunks)" by blast
      have e: "emits 0 (CBB_add_bytes mal 0 chunk) chunk" using c(1) by (intro emits_add_bytes [OF m]) simp
      have "\<exists>chunks. child = concat (map (der_element t) chunks)
          \<and> settled 0 st' \<and> cbb_contents st' = cbb_contents st @ concat chunks" if h: "ok" "settled 0 st"
      proof -
        note s1 = emitsD [OF e h(2) a [unfolded eqTrueI [OF t]]]
        obtain chunks where "child1 = concat (map (der_element t) chunks)"
          "settled 0 st'" "cbb_contents st' = cbb_contents st1 @ concat chunks" using ih(2) h(1) s1(1) by blast
        then show ?thesis using c(2) s1(3) by (intro exI [of _ "chunk # chunks"]) simp
      qed
      then show ?thesis using step False g chunk a t ih(1) by simp
    next
      case nt: False
      then show ?thesis using step False g chunk a by (intro exI [of _ False] exI [of _ st1]) simp
    qed
  qed
qed

section \<open>What a client relies on\<close>

text \<open>C25: The walks of the conversion end on every input, well-formed or not, at every depth and in
  every state of the CBB: each step leaves a shorter input to itself and to the walks below it.\<close>

theorem ber_to_der_ends:
  assumes "length inp < 18446744073709551616"
  shows "(\<exists>r. CBS_asn1_ber_to_der mal inp = Some r) \<and> (\<exists>r. cbs_find_ber inp depth = Some r)
    \<and> (\<exists>ok inp' out'. cbs_convert_ber mal d s look depth inp out = Some (ok, inp', out') \<and> length inp' \<le> length inp)"
proof -
  obtain ok f where f: "cbs_find_ber inp 0 = Some (ok, f)"
    using find_ber_ends [OF assms, of 0 False] by (auto simp: cbs_find_ber_def)
  obtain ok1 cbb where i: "CBB_init mal (CBS_len inp) = (ok1, cbb)" by fastforce
  obtain ok2 inp2 cbb2 where c: "cbs_convert_ber mal 0 0 False 0 inp cbb = Some (ok2, inp2, cbb2)"
    using convert_ber_ends [OF assms] by blast
  have "\<exists>r. CBS_asn1_ber_to_der mal inp = Some r"
    using f i c by (cases ok; cases f; cases ok1)
      (auto simp: CBS_asn1_ber_to_der_def split: option.splits prod.splits)
  then show ?thesis using find_ber_ends [OF assms] convert_ber_ends [OF assms]
    by (simp add: cbs_find_ber_def)
qed

theorem ber_to_der_ends_witness: "\<exists>r. CBS_asn1_ber_to_der sample_malloc (replicate 5000 0x30) = Some r"
  using ber_to_der_ends [of "replicate 5000 0x30" sample_malloc] by simp

text \<open>C24: When the conversion succeeds it has either found no BER, and returns the first element
  untouched, or it has rewritten the whole input, with the DER of what the BER stands for:
  indefinite lengths made definite, and constructed strings put together.\<close>

theorem ber_to_der_refines:
  assumes "malloc_ok mal" "length inp < 9223372036854775808"
    and "CBS_asn1_ber_to_der mal inp = Some (Some (out, storage), inp')"
  shows "(cbs_find_ber inp 0 = Some (True, True) \<and> inp' = [] \<and> ber 0 inp out \<and> der_text out)
    \<or> (cbs_find_ber inp 0 = Some (True, False) \<and> storage = None \<and> inp = out @ inp' \<and> (\<exists>tag body. out = der_element tag body))"
  using ber_to_der_cases [OF assms] ber_der_text by blast

theorem ber_to_der_refines_witness:
  "ber 0 [0x30, 0x80, 0x24, 0x80, 4, 1, 7, 4, 1, 8, 0, 0, 0, 0] [0x30, 4, 4, 2, 7, 8]"
proof -
  let ?r = "CBS_asn1_ber_to_der sample_malloc [0x30, 0x80, 0x24, 0x80, 4, 1, 7, 4, 1, 8, 0, 0, 0, 0]"
  have "map_option (map_option fst \<circ> fst) ?r = Some (Some [0x30, 4, 4, 2, 7, 8])"
    "cbs_find_ber [0x30, 0x80, 0x24, 0x80, 4, 1, 7, 4, 1, 8, 0, 0, 0, 0] 0 = Some (True, True)"
    by code_simp+
  moreover from this(1) obtain storage inp' where "?r = Some (Some ([0x30, 4, 4, 2, 7, 8], storage), inp')" by auto
  from ber_to_der_refines [OF sample_malloc_ok _ this] show ?thesis using calculation(2) by simp
qed

text \<open>An implicitly tagged string that is read is either one element of the outer tag, or the
  concatenation of the chunks of one constructed element; the reader always ends.\<close>

theorem implicit_string_chunks:
  assumes "malloc_ok mal" "length inp < 9223372036854775808"
  shows "\<exists>r inp'. CBS_get_asn1_implicit_string mal inp outer inner = Some (r, inp')
    \<and> (\<forall>out storage. r = Some (out, storage) \<longrightarrow>
        (storage = None \<and> inp = der_element outer out @ inp')
        \<or> (\<exists>chunks. inp = der_element (outer OR CBS_ASN1_CONSTRUCTED) (concat (map (der_element inner) chunks)) @ inp'
            \<and> out = concat chunks))"
proof (cases "CBS_peek_asn1_tag outer inp")
  case True
  then show ?thesis
    using get_asn1_iff [of inp outer] assms(2)
    by (cases "CBS_get_asn1 outer inp") (auto simp: CBS_get_asn1_implicit_string_def split: option.splits)
next
  case np: False
  obtain ok st where i: "CBB_init mal (CBS_len inp) = (ok, st)" by fastforce
  obtain c inp1 where g: "CBS_get_asn1 (outer OR CBS_ASN1_CONSTRUCTED) inp = (c, inp1)" by fastforce
  show ?thesis
  proof (cases "ok \<and> c \<noteq> None")
    case False
    then show ?thesis using np i g by (cases ok; cases c) (simp_all add: CBS_get_asn1_implicit_string_def)
  next
    case True
    then obtain child where c: "c = Some child" by auto
    have e: "inp = der_element (outer OR CBS_ASN1_CONSTRUCTED) child @ inp1"
      using g c get_asn1_iff [of inp "outer OR CBS_ASN1_CONSTRUCTED" child inp1] assms(2) by simp
    then have lc: "length child < 9223372036854775808" using assms(2) by (simp add: der_element_def)
    have i1: "CBB_init mal (CBS_len inp) = (True, st)" using i True by simp
    from implicit_chunks_ok [OF assms(1) lc, of inner st] obtain ok1 st1 where
      ch: "implicit_chunks mal inner child st = Some (ok1, st1)"
      "ok1 \<longrightarrow> settled 0 st \<longrightarrow> (\<exists>chunks. child = concat (map (der_element inner) chunks)
          \<and> settled 0 st1 \<and> cbb_contents st1 = cbb_contents st @ concat chunks)" by blast
    have "unat (CBS_len inp) < 9223372036854775808" using assms(2) by (simp add: CBS_len_def)
    then have s: "settled 0 st" "cbb_contents st = []" using init_settled [OF assms(1)] i True by simp_all
    have "\<exists>chunks. child = concat (map (der_element inner) chunks) \<and> out = concat chunks"
      if "ok1" "fst (CBB_finish mal True 0 st1) = Some (storage, len)"
        "out = (case storage of None \<Rightarrow> [] | Some blk \<Rightarrow> take (unat len) (ob_data blk))" for out storage len
      using ch(2) that s finish_contents [of st1 mal storage len] by auto
    note chunks = this
    show ?thesis
    proof (cases "ok1 \<and> fst (CBB_finish mal True 0 st1) \<noteq> None")
      case True
      then obtain storage len where "fst (CBB_finish mal True 0 st1) = Some (storage, len)" "ok1" by auto
      then show ?thesis using chunks [OF _ _ refl] np i1 g c ch(1) e
        by (simp add: CBS_get_asn1_implicit_string_def) blast
    next
      case False
      then show ?thesis using np i1 g c ch(1)
        by (cases ok1; cases "fst (CBB_finish mal True 0 st1)") (simp_all add: CBS_get_asn1_implicit_string_def)
    qed
  qed
qed

theorem implicit_string_chunks_witness:
  "\<exists>chunks. [0xa0, 6, 4, 1, 7, 4, 1, 8] = der_element (0x80000000 OR CBS_ASN1_CONSTRUCTED) (concat (map (der_element 4) chunks))
    \<and> [7, 8] = concat chunks"
proof -
  let ?r = "CBS_get_asn1_implicit_string sample_malloc [0xa0, 6, 4, 1, 7, 4, 1, 8] 0x80000000 4"
  have "map_option (map_option fst \<circ> fst) ?r = Some (Some [7, 8])" "map_option snd ?r = Some []"
    "map_option (map_option (\<lambda>x. snd x = None) \<circ> fst) ?r = Some (Some False)"
    by code_simp+
  then obtain storage where "?r = Some (Some ([7, 8], Some storage), [])" by auto
  then show ?thesis
    using implicit_string_chunks [OF sample_malloc_ok, of "[0xa0, 6, 4, 1, 7, 4, 1, 8]" "0x80000000" 4] by simp
qed

text \<open>The search for BER forgets what it has found: \<open>*ber_found\<close> is reset when the walk enters the
  next constructed element. A sequence that holds a constructed string in its first element
  and has a second one is taken for DER, and returned with the BER in it; with the two elements
  in the other order the string is found.\<close>

theorem ber_found_is_forgotten:
  "cbs_find_ber [0x30, 4, 0x24, 2, 4, 0] 0 = Some (True, True)
    \<and> cbs_find_ber [0x30, 8, 0x30, 0, 0x30, 4, 0x24, 2, 4, 0] 0 = Some (True, True)
    \<and> cbs_find_ber [0x30, 8, 0x30, 4, 0x24, 2, 4, 0, 0x30, 0] 0 = Some (True, False)
    \<and> CBS_asn1_ber_to_der mal [0x30, 8, 0x30, 4, 0x24, 2, 4, 0, 0x30, 0]
      = Some (Some ([0x30, 8, 0x30, 4, 0x24, 2, 4, 0, 0x30, 0], None), [])"
proof -
  have "cbs_find_ber [0x30, 4, 0x24, 2, 4, 0] 0 = Some (True, True)"
    "cbs_find_ber [0x30, 8, 0x30, 0, 0x30, 4, 0x24, 2, 4, 0] 0 = Some (True, True)"
    "cbs_find_ber [0x30, 8, 0x30, 4, 0x24, 2, 4, 0, 0x30, 0] 0 = Some (True, False)"
    "CBS_get_any_asn1_element [0x30, 8, 0x30, 4, 0x24, 2, 4, 0, 0x30, 0]
      = (Some ([0x30, 8, 0x30, 4, 0x24, 2, 4, 0, 0x30, 0], 0x20000010, 2), [])" by code_simp+
  then show ?thesis by (simp add: CBS_asn1_ber_to_der_def)
qed

end
