(* ===== verification/Spec2Isabelle.thy ===== *)
theory Spec2Isabelle
  imports Pb_Wire_Message Unicode Oid Stack_Props Pool_Props Base64_Props Ber_Props
begin

text \<open>
  BookZone is an iOS application for book clubs. Its own code is Swift (under
  \<open>src/BookZone/BookZone\<close>); all of its C code is in the Pods it links, and this development models
  the C code that the application's data goes through on its way to the server and back.
  Firestore keeps the books and the profiles; it serialises its requests with nanopb. The
  requests travel over gRPC, whose TLS layer is BoringSSL.

  \<^bold>\<open>The parts and where they are modelled\<close>

  \<^item> Base: bytes, the flat memory (a function from 64-bit addresses to bytes), little-endian
    reading and writing, and the lemmas on words and lists that every part uses.
  \<^item> nanopb (\<open>Pods/nanopb\<close>). Pb_Common: the descriptors of message structures and the iterator
    over them (\<open>pb_common.c\<close>, \<open>pb.h\<close>). Pb_Stream: output and input streams. Pb_Encode:
    \<open>pb_encode.c\<close>. Pb_Wire and Pb_Decode: \<open>pb_decode.c\<close>, the wire format and the structures.
    A C structure lives in the flat memory, as the code reads it through offsets and sizes; a
    stream is a record of the fields of the C struct; a callback is a function on a state of
    any type.
  \<^item> BoringSSL, memory (\<open>crypto/mem.c\<close>): Bs_Mem. A block is its recorded size and its bytes. The
    system's \<open>malloc\<close> is a parameter of every definition that allocates.
  \<^item> BoringSSL, byte strings (\<open>crypto/bytestring\<close>): Cbs (\<open>cbs.c\<close>), Cbb and Cbb_Asn1 (\<open>cbb.c\<close>),
    Unicode (\<open>unicode.c\<close>). A \<open>CBS\<close> is the bytes of its window. A chain of \<open>CBB\<close>s is one record:
    the shared buffer and the children that are open, a pointer to a \<open>CBB\<close> being its depth.
    Ber (\<open>ber.c\<close>) reads BER with the one and writes DER with the other.
  \<^item> BoringSSL, containers: Stack (\<open>crypto/stack/stack.c\<close>) and Lhash (\<open>crypto/lhash/lhash.c\<close>). The
    array of a stack is the list of the pointers that fit its block; a chain of a hash table is
    a list of items.
  \<^item> BoringSSL, the buffer pool: Pool (\<open>crypto/pool/pool.c\<close>, \<open>crypto/refcount_lock.c\<close>), which shares
    equal certificates between connections. It keeps its buffers in a hash table of Lhash.
    Every critical section is one definition, and Pool_Props runs them in any order.
  \<^item> BoringSSL, base64 (\<open>crypto/base64/base64.c\<close>): Base64, with the masks of \<open>crypto/internal.h\<close> in
    Consttime. What a function writes to its output buffer is a list of bytes.
  \<^item> Qsort: the C library's \<open>qsort\<close> and the contract of a comparison function.

  \<^bold>\<open>What is proved\<close>

  \<^item> Pb_Codec, Pb_Roundtrip: what the encoder writes the decoder reads back, on the interfaces
    \<open>pb_sink\<close> and \<open>pb_source\<close>, which the memory buffer implements. Pb_Encode_Props,
    Pb_Encode_Size, Pb_Messages: whole messages, by the interface \<open>enc_closed\<close>: the size computed
    is the size written, a sized message fits, and no encoder leaves its buffer.
    Pb_Decode_Props: fields stay inside their structure, integers survive at their width,
    required fields are checked, and the overflow test of the allocation is right.
    Pb_Decode_Safe: whole messages. Decoding any bytes returns, and for a type of static fields
    changes nothing outside the structure.
  \<^item> Pb_Value: the value that a structure in memory stands for, and its wire format, both by
    recursion on the descriptors. Pb_Wire_Encode: \<open>pb_encode\<close> writes this wire format and nothing
    else. Pb_Wire_Decode and Pb_Wire_Message: \<open>pb_decode\<close> reads it back, from the items up to the
    loop over the tags and the check of required fields; together they say that a decoded
    message has the value that was encoded. This is for required, optional and repeated static
    fields, with submessages; unions, pointers, callbacks, extensions and arrays of a fixed
    count are in the models and in the other theorems only.
  \<^item> Der: the distinguished encoding rules as a relation, and that the reader accepts exactly
    them. Cbb_Flush, Cbb_Props, Cbb_Reach, Cbb_Live: the invariant of the writer, what each
    operation appends, the states that calls can reach, and that building succeeds when there
    is memory. Bytestring puts reader and writer together. Oid: object identifiers as text.
    Unicode: the four transcodings. Ber_Props: the conversion of BER ends on every input, and
    writes the DER of what the input stands for.
  \<^item> Stack_Props: stacks refine lists; the three searches find the first match; sorting.
    Lhash_Props: tables refine maps, and stay light. Pool_Props: no dangling reference and no
    abort in any interleaving, equal contents are shared, and the counts are exact.
  \<^item> Consttime: what the branch-free masks compute. Base64_Code, Base64_Props: the coder and the
    decoder compute the code of RFC 4648, in blocks and in streams cut in any way.
  \<^item> Theorems whose text says that something goes wrong (a size that wraps, a position that wraps,
    the field number 0, a pointer compared in part, an element hidden by a stale flag, BER that is
    found and forgotten, a default longer than its array) record
    what the code does there.

  \<^bold>\<open>Bounds and fuel\<close>

  Loops whose end depends on the input recurse on it, or have a termination proof on the words
  themselves. The walks of Ber, which skip an element of the length the input states, are partial
  functions, and a theorem says that they always return. Only the mutual recursion of nanopb through submessages and extension chains takes
  fuel, since the descriptors and the chains are data that may be cyclic; its unit is one level
  of nesting or one link. Running out is \<^const>\<open>None\<close>, which no theorem counts as a success.
  Byte counts are 64-bit words and wrap where the code lets them; a theorem that needs
  sizes below a bound says so: the round trip of messages is for messages shorter than \<open>2^32\<close> bytes,
  since the decoder reads lengths with \<open>pb_decode_varint32\<close>, and for structures of up to 64 fields,
  which is what the map of required fields holds.

  \<^bold>\<open>Not modelled\<close>

  The Swift code of the application, and the Pods in C++, Objective-C and Swift (Firestore's C++
  core, gRPC, abseil, leveldb, Protobuf, and the interface libraries). Of the C code: the
  message descriptors that nanopb's and upb's generators wrote, upb itself, and BoringSSL's
  cryptography (block ciphers, digests, elliptic curves, big numbers), X.509, the ASN.1 templates,
  and the files that are system calls only (sockets, threads, processor features). Freeing and
  cleansing memory has no effect in the models, except where a pool must not use freed memory.
\<close>

end
